(* ===== verification/Prelude.thy ===== *)
theory Prelude
  imports Main "HOL-Library.Word" "HOL-Library.Multiset"
begin

text \<open>
  Shared vocabulary of the development.

  \<^item> The types the Go code uses everywhere: \<open>byte\<close>, \<open>uint64\<close>, \<open>int64\<close>, \<open>*big.Int\<close>, the
    20-byte \<open>Address\<close> and the 32-byte \<open>Hash\<close>.
  \<^item> The pieces of Go's standard library the code relies on: two's complement wrap-around of
    \<open>int64\<close>, \<open>big.Int.Quo\<close>, \<open>big.Int.FillBytes\<close> and \<open>SetBytes\<close> (big-endian bytes),
    \<open>bytes.Compare\<close>, \<open>sort.Search\<close> and \<open>slices.BinarySearchFunc\<close>.
  \<^item> Generic lemmas on these, collected in \<open>go_simps\<close> and \<open>byte_simps\<close>.

  An array of \<open>n\<close> bytes that the code only copies, compares and prints (an address, a hash) is
  the word whose big-endian bytes it holds. The lemmas \<open>bytes_compare_be_bytes\<close> and
  \<open>be_bytes_inject\<close> say that nothing is lost: equality and \<open>bytes.Compare\<close> on the arrays
  are equality and the numeric order on the words.
\<close>

named_theorems go_simps "facts on Go's integer operations"
named_theorems byte_simps "facts on big-endian byte strings"

section \<open>Types\<close>

type_synonym byte = "8 word"
type_synonym uint64 = "64 word"
type_synonym address = "160 word"
type_synonym hash = "256 word"

text \<open>
  An \<open>int64\<close> is carried by its value. Where an operation of the source can leave the range, the
  wrap-around \<open>i64\<close> is written out.
\<close>

type_synonym int64 = int

text \<open>A \<open>*big.Int\<close>: \<open>None\<close> is the nil pointer, which is not the same as zero.\<close>

type_synonym bigint = "int option"

section \<open>Integers\<close>

definition i64 :: "int \<Rightarrow> int64" where
  "i64 x = (x + 2 ^ 63) mod 2 ^ 64 - 2 ^ 63"

definition in_i64 :: "int \<Rightarrow> bool" where
  "in_i64 x \<longleftrightarrow> - (2 ^ 63) \<le> x \<and> x < 2 ^ 63"

lemma i64_id [go_simps]: "in_i64 x \<Longrightarrow> i64 x = x"
  by (simp add: i64_def in_i64_def)

lemma in_i64_i64 [simp]: "in_i64 (i64 x)"
proof -
  have "0 \<le> (x + 2 ^ 63) mod 2 ^ 64" "(x + 2 ^ 63) mod 2 ^ 64 < 2 ^ 64"
    by simp_all
  then show ?thesis by (simp add: i64_def in_i64_def)
qed

text \<open>\<open>big.Int.Quo\<close> truncates towards zero; a zero divisor panics, which its callers model.\<close>

definition quo :: "int \<Rightarrow> int \<Rightarrow> int" where
  "quo a b = sgn a * sgn b * (\<bar>a\<bar> div \<bar>b\<bar>)"

lemma quo_nonneg [go_simps]: "0 \<le> a \<Longrightarrow> 0 < b \<Longrightarrow> quo a b = a div b"
  by (cases "a = 0") (simp_all add: quo_def)

lemma le_div_int: "0 < d \<Longrightarrow> k \<le> x div d \<longleftrightarrow> k * d \<le> (x :: int)"
proof
  assume d: "0 < d" and "k \<le> x div d"
  then have "k * d \<le> x div d * d" by simp
  also have "\<dots> \<le> x" using div_mult_mod_eq [of x d] pos_mod_sign [OF d, of x] by linarith
  finally show "k * d \<le> x" .
next
  assume d: "0 < d" and "k * d \<le> x"
  then show "k \<le> x div d" using zdiv_mono1 [of "k * d" x d] by simp
qed

section \<open>Big-endian bytes\<close>

text \<open>\<open>be_bytes k n\<close> is \<open>n\<close> in \<open>k\<close> big-endian bytes: \<open>FillBytes\<close> into a buffer of \<open>k\<close> bytes.\<close>

primrec be_bytes :: "nat \<Rightarrow> nat \<Rightarrow> byte list" where
  "be_bytes 0 n = []"
| "be_bytes (Suc k) n = be_bytes k (n div 256) @ [of_nat n]"

text \<open>\<open>be_nat bs\<close> is the number \<open>SetBytes\<close> reads from \<open>bs\<close>.\<close>

definition be_nat :: "byte list \<Rightarrow> nat" where
  "be_nat bs = foldl (\<lambda>n b. n * 256 + unat b) 0 bs"

text \<open>\<open>bytes.Compare\<close>: negative, zero or positive, lexicographic on the bytes.\<close>

fun bytes_compare :: "byte list \<Rightarrow> byte list \<Rightarrow> int" where
  "bytes_compare [] [] = 0"
| "bytes_compare [] (b # bs) = -1"
| "bytes_compare (a # as) [] = 1"
| "bytes_compare (a # as) (b # bs) =
     (if a < b then -1 else if b < a then 1 else bytes_compare as bs)"

lemma length_be_bytes [simp]: "length (be_bytes k n) = k"
  by (induction k arbitrary: n) simp_all

lemma be_nat_Nil [simp]: "be_nat [] = 0"
  by (simp add: be_nat_def)

lemma be_nat_snoc [simp]: "be_nat (bs @ [b]) = be_nat bs * 256 + unat b"
  by (simp add: be_nat_def)

lemma unat_byte_less [simp]: "unat (b :: byte) < 256"
  using unsigned_less [where 'a = nat, of b] by simp

lemma unat_of_nat_byte [byte_simps]: "unat (of_nat n :: byte) = n mod 256"
  by (simp add: unat_of_nat)

lemma be_nat_less: "be_nat bs < 256 ^ length bs"
proof (induction bs rule: rev_induct)
  case Nil
  then show ?case by simp
next
  case (snoc b bs)
  have "be_nat bs * 256 + unat b < (be_nat bs + 1) * 256"
    using unat_byte_less [of b] by (simp add: algebra_simps)
  also have "\<dots> \<le> 256 ^ length bs * 256"
    using snoc.IH by (intro mult_right_mono) auto
  finally show ?case by simp
qed

lemma be_nat_be_bytes [byte_simps]: "be_nat (be_bytes k n) = n mod 256 ^ k"
proof (induction k arbitrary: n)
  case 0
  then show ?case by simp
next
  case (Suc k)
  have "n mod 256 ^ Suc k = n div 256 mod 256 ^ k * 256 + n mod 256"
    using mod_mult2_eq [of n 256 "256 ^ k"] by (simp add: mult.commute)
  with Suc show ?case by (simp add: unat_of_nat_byte)
qed

lemma be_nat_be_bytes_id [byte_simps]: "n < 256 ^ k \<Longrightarrow> be_nat (be_bytes k n) = n"
  by (simp add: be_nat_be_bytes)

lemma be_bytes_be_nat [byte_simps]: "length bs = k \<Longrightarrow> be_bytes k (be_nat bs) = bs"
proof (induction bs arbitrary: k rule: rev_induct)
  case Nil
  then show ?case by simp
next
  case (snoc b bs)
  have "(of_nat (be_nat bs * 256 + unat b) :: byte) = b"
    by (rule word_unat_eq_iff [THEN iffD2]) (simp only: unat_of_nat_byte, simp)
  moreover have "(be_nat bs * 256 + unat b) div 256 = be_nat bs"
    by simp
  ultimately show ?case using snoc by auto
qed

lemma be_bytes_inject:
  assumes "be_bytes k m = be_bytes k n" "m < 256 ^ k" "n < 256 ^ k"
  shows "m = n"
  using assms by (metis be_nat_be_bytes_id)

lemma be_nat_inject: "be_nat as = be_nat bs \<Longrightarrow> length as = length bs \<Longrightarrow> as = bs"
  by (metis be_bytes_be_nat)

lemma be_nat_append: "be_nat (as @ bs) = be_nat as * 256 ^ length bs + be_nat bs"
  by (induction bs rule: rev_induct) (simp_all add: algebra_simps flip: append_assoc)

lemma be_nat_Cons: "be_nat (b # bs) = unat b * 256 ^ length bs + be_nat bs"
  using be_nat_append [of "[b]" bs] be_nat_snoc [of "[]" b] by simp

lemma bytes_compare_be_nat:
  "length as = length bs \<Longrightarrow> bytes_compare as bs = sgn (int (be_nat as) - int (be_nat bs))"
proof (induction as bs rule: bytes_compare.induct)
  case (4 a as b bs)
  let ?k = "256 ^ length bs :: nat"
  have bounds: "be_nat as < ?k" "be_nat bs < ?k"
    using be_nat_less [of as] be_nat_less [of bs] "4.prems" by simp_all
  have less: "be_nat (a # as) < be_nat (b # bs)" if "unat a < unat b"
    using that bounds "4.prems" mult_le_mono1 [of "Suc (unat a)" "unat b" ?k]
    by (simp add: be_nat_Cons)
  have greater: "be_nat (b # bs) < be_nat (a # as)" if "unat b < unat a"
    using that bounds "4.prems" mult_le_mono1 [of "Suc (unat b)" "unat a" ?k]
    by (simp add: be_nat_Cons)
  consider "a < b" | "b < a" | "a = b" by fastforce
  then show ?case
  proof cases
    case 1
    with less show ?thesis by (simp add: word_less_nat_alt)
  next
    case 2
    with greater show ?thesis by (auto simp: word_less_nat_alt)
  next
    case 3
    with 4 show ?thesis by (simp add: be_nat_Cons)
  qed
qed simp_all

lemma bytes_compare_be_bytes:
  assumes "m < 256 ^ k" "n < 256 ^ k"
  shows "bytes_compare (be_bytes k m) (be_bytes k n) = sgn (int m - int n)"
  using assms by (simp add: bytes_compare_be_nat be_nat_be_bytes_id)

section \<open>Addresses and hashes as bytes\<close>

definition addr_bytes :: "address \<Rightarrow> byte list" where
  "addr_bytes a = be_bytes 20 (unat a)"

definition hash_bytes :: "hash \<Rightarrow> byte list" where
  "hash_bytes h = be_bytes 32 (unat h)"

definition bytes_addr :: "byte list \<Rightarrow> address" where
  "bytes_addr bs = of_nat (be_nat bs)"

definition bytes_hash :: "byte list \<Rightarrow> hash" where
  "bytes_hash bs = of_nat (be_nat bs)"

lemma length_addr_bytes [simp]: "length (addr_bytes a) = 20"
  by (simp add: addr_bytes_def)

lemma length_hash_bytes [simp]: "length (hash_bytes h) = 32"
  by (simp add: hash_bytes_def)

lemma unat_addr_less: "unat (a :: address) < 256 ^ 20"
  using unsigned_less [where 'a = nat, of a] by simp

lemma unat_hash_less: "unat (h :: hash) < 256 ^ 32"
  using unsigned_less [where 'a = nat, of h] by simp

lemma bytes_addr_bytes [simp]: "bytes_addr (addr_bytes a) = a"
  by (simp only: bytes_addr_def addr_bytes_def be_nat_be_bytes_id [OF unat_addr_less])
    simp

lemma bytes_hash_bytes [simp]: "bytes_hash (hash_bytes h) = h"
  by (simp only: bytes_hash_def hash_bytes_def be_nat_be_bytes_id [OF unat_hash_less])
    simp

lemma addr_bytes_addr [byte_simps]: "length bs = 20 \<Longrightarrow> addr_bytes (bytes_addr bs) = bs"
  using be_nat_less [of bs]
  by (simp add: bytes_addr_def addr_bytes_def unat_of_nat be_bytes_be_nat)

lemma hash_bytes_hash [byte_simps]: "length bs = 32 \<Longrightarrow> hash_bytes (bytes_hash bs) = bs"
  using be_nat_less [of bs]
  by (simp add: bytes_hash_def hash_bytes_def unat_of_nat be_bytes_be_nat)

lemma addr_bytes_inject [simp]: "addr_bytes a = addr_bytes b \<longleftrightarrow> a = b"
  by (metis bytes_addr_bytes)

lemma hash_bytes_inject [simp]: "hash_bytes a = hash_bytes b \<longleftrightarrow> a = b"
  by (metis bytes_hash_bytes)

text \<open>\<open>bytes.Compare\<close> on two addresses or two hashes is the order of the words.\<close>

lemma compare_addr_bytes:
  "bytes_compare (addr_bytes a) (addr_bytes b) < 0 \<longleftrightarrow> a < b"
  "bytes_compare (addr_bytes a) (addr_bytes b) = 0 \<longleftrightarrow> a = b"
  by (auto simp: addr_bytes_def bytes_compare_be_bytes [OF unat_addr_less unat_addr_less]
      sgn_if word_less_nat_alt word_unat_eq_iff simp del: of_nat_unat)

lemma compare_hash_bytes:
  "0 < bytes_compare (hash_bytes a) (hash_bytes b) \<longleftrightarrow> b < a"
  "bytes_compare (hash_bytes a) (hash_bytes b) = 0 \<longleftrightarrow> a = b"
  by (auto simp: hash_bytes_def bytes_compare_be_bytes [OF unat_hash_less unat_hash_less]
      sgn_if word_less_nat_alt word_unat_eq_iff simp del: of_nat_unat)

section \<open>Binary search\<close>

text \<open>
  \<open>sort.Search(n, f)\<close>: the loop of the standard library. \<open>slices.BinarySearchFunc\<close> runs the
  same loop with \<open>f h = (cmp (x[h], target) >= 0)\<close> and then compares the element it stopped at.
\<close>

function go_search_loop :: "(nat \<Rightarrow> bool) \<Rightarrow> nat \<Rightarrow> nat \<Rightarrow> nat" where
  "go_search_loop f i j =
     (if i < j
      then (let h = (i + j) div 2
            in if \<not> f h then go_search_loop f (h + 1) j else go_search_loop f i h)
      else i)"
  by pat_completeness auto
termination
  by (relation "measure (\<lambda>(f, i, j). j - i)") auto

declare go_search_loop.simps [simp del]

definition go_search :: "nat \<Rightarrow> (nat \<Rightarrow> bool) \<Rightarrow> nat" where
  "go_search n f = go_search_loop f 0 n"

definition binary_search :: "'a::linorder list \<Rightarrow> 'a \<Rightarrow> nat \<times> bool" where
  "binary_search xs x =
     (let i = go_search (length xs) (\<lambda>h. \<not> xs ! h < x)
      in (i, i < length xs \<and> xs ! i = x))"

text \<open>The contract of \<open>sort.Search\<close>: the predicate is false and then true over the range.\<close>

locale monotone_search =
  fixes n :: nat and f :: "nat \<Rightarrow> bool"
  assumes false_then_true: "i \<le> j \<Longrightarrow> j < n \<Longrightarrow> f i \<Longrightarrow> f j"
begin

lemma loop_spec:
  assumes "i \<le> j" "j \<le> n" "\<forall>k < i. \<not> f k" "j < n \<longrightarrow> f j"
  shows "go_search_loop f i j \<le> n \<and> (\<forall>k < go_search_loop f i j. \<not> f k)
    \<and> (go_search_loop f i j < n \<longrightarrow> f (go_search_loop f i j))"
  using assms
proof (induction "j - i" arbitrary: i j rule: less_induct)
  case less
  show ?case
  proof (cases "i < j")
    case False
    then have "go_search_loop f i j = i"
      by (simp add: go_search_loop.simps [of f i j])
    with less.prems False show ?thesis by simp
  next
    case True
    let ?h = "(i + j) div 2"
    show ?thesis
    proof (cases "f ?h")
      case True
      with \<open>i < j\<close> have "go_search_loop f i j = go_search_loop f i ?h"
        by (simp add: go_search_loop.simps [of f i j] Let_def)
      with less.hyps [of ?h i] less.prems True \<open>i < j\<close> show ?thesis by auto
    next
      case False
      with \<open>i < j\<close> have eq: "go_search_loop f i j = go_search_loop f (?h + 1) j"
        by (simp add: go_search_loop.simps [of f i j] Let_def)
      have "?h < n"
        using \<open>i < j\<close> less.prems(2) by linarith
      with False have "\<not> f k" if "k < ?h + 1" for k
        using that false_then_true [of k ?h] by auto
      with less.hyps [of j "?h + 1"] less.prems \<open>i < j\<close> show ?thesis by (simp add: eq)
    qed
  qed
qed

lemma search_le: "go_search n f \<le> n"
  and search_before: "k < go_search n f \<Longrightarrow> \<not> f k"
  and search_at: "go_search n f < n \<Longrightarrow> f (go_search n f)"
  using loop_spec [of 0 n] by (simp_all add: go_search_def)

lemma search_iff: "k < n \<Longrightarrow> f k \<longleftrightarrow> go_search n f \<le> k"
  using search_before [of k] search_at false_then_true [of "go_search n f" k]
  by (meson leI le_less_trans)

end

text \<open>A sorted list and a target meet the contract, so \<open>BinarySearchFunc\<close> decides membership.\<close>

lemma monotone_search_sorted:
  "sorted xs \<Longrightarrow> monotone_search (length xs) (\<lambda>h. \<not> xs ! h < x)"
proof unfold_locales
  fix i j
  assume xs: "sorted xs" and ij: "i \<le> j" "j < length xs" and ge: "\<not> xs ! i < x"
  from sorted_nth_mono [OF xs ij] ge show "\<not> xs ! j < x" by simp
qed

lemma binary_search_found: "sorted xs \<Longrightarrow> snd (binary_search xs x) \<longleftrightarrow> x \<in> set xs"
proof -
  assume xs: "sorted xs"
  let ?i = "go_search (length xs) (\<lambda>h. \<not> xs ! h < x)"
  have "?i < length xs \<and> xs ! ?i = x" if "k < length xs" "xs ! k = x" for k
  proof -
    have "?i \<le> k"
      using monotone_search.search_iff [OF monotone_search_sorted [OF xs] that(1), of x] that
      by simp
    then have "?i < length xs" "xs ! ?i \<le> x"
      using that sorted_nth_mono [OF xs, of ?i k] by simp_all
    moreover have "\<not> xs ! ?i < x"
      using monotone_search.search_at [OF monotone_search_sorted [OF xs], of x] \<open>?i < length xs\<close>
      by simp
    ultimately show ?thesis by simp
  qed
  then show ?thesis by (auto simp: binary_search_def Let_def in_set_conv_nth)
qed

section \<open>Encoders and decoders\<close>

text \<open>
  The contract of a writer and its reader. What the writer makes of a value it can hold is read
  back as that value; with \<open>exact_codec\<close> the reader accepts nothing else, so that every
  accepted input is the one encoding of its value.
\<close>

locale codec =
  fixes enc :: "'a \<Rightarrow> 'b" and dcd :: "'b \<Rightarrow> 'e + 'a" and ok :: "'a \<Rightarrow> bool"
  assumes roundtrip: "ok a \<Longrightarrow> dcd (enc a) = Inr a"
begin

lemma enc_inject: "ok a \<Longrightarrow> ok b \<Longrightarrow> enc a = enc b \<longleftrightarrow> a = b"
proof
  assume "ok a" "ok b" "enc a = enc b"
  then have "Inr a = dcd (enc b)" by (simp add: roundtrip flip: \<open>enc a = enc b\<close>)
  with \<open>ok b\<close> show "a = b" by (simp add: roundtrip)
qed simp

end

locale exact_codec = codec +
  assumes accepted: "dcd x = Inr a \<Longrightarrow> ok a \<and> x = enc a"
begin

lemma decodes_iff: "dcd x = Inr a \<longleftrightarrow> ok a \<and> x = enc a"
  using roundtrip accepted by blast

lemma rejects_iff: "(\<exists>e. dcd x = Inl e) \<longleftrightarrow> (\<nexists>a. ok a \<and> x = enc a)"
  using decodes_iff [of x] by (cases "dcd x") auto

end

end
