(* ===== verification/Twab.thy ===== *)
theory Twab
  imports Prelude
begin

text \<open>
  Package \<open>twab\<close>: the replay of one Epoch (\<open>internal/twab/twab.go\<close>, \<open>internal/twab/replay.go\<close>).

  The operations follow the source one by one. A \<open>map[Address]*standing\<close> is a map from addresses
  to standings: every pointer the code holds is looked up by its address again, so a
  self-transfer, where \<open>from\<close> and \<open>to\<close> are one pointer, updates one entry twice.
  \<open>scratch\<close> is a temporary of \<open>accrueTo\<close> and has no model.

  The second half states what a replay promises without any walk: \<open>balance_at\<close> is the balance in
  force at a second, \<open>twab_integral\<close> its sum over the seconds of the window, and \<open>replay_spec\<close> the
  Holders these give. The theorem is that \<open>Replay\<close> returns exactly them, and returns at all
  exactly when the history is usable (\<open>history_ok\<close>).
\<close>

section \<open>Data\<close>

record window =
  Start :: int64
  End :: int64

record transfer =
  T_Timestamp :: int64
  T_From :: address
  T_To :: address
  T_Value :: bigint

record exclusion =
  X_Timestamp :: int64
  X_Account :: address

record holder =
  H_Account :: address
  TWAB :: int
  FirstBuyAt :: int64
  LastSellAt :: int64

record standing =
  balance :: int
  since :: int64
  weighted :: int
  bought :: bool
  firstBuyAt :: int64
  lastSellAt :: int64
  listed :: bool

record replayState =
  r_window :: window
  balances :: "address \<rightharpoonup> standing"
  active :: "address list"
  moved :: "address list"

datatype value_error = ErrNilValue | ErrNegativeValue

datatype twab_error =
    TransferError nat int64 value_error
  | NegativeBalance address int int64
  | EpochClosed uint64 uint64

definition zeroAddress :: address where
  "zeroAddress = 0"

definition EpochSeconds :: int where
  "EpochSeconds = 3600"

section \<open>The window and the Excluded set\<close>

definition WindowOf :: "uint64 \<Rightarrow> window" where
  "WindowOf epochID =
     (let start = i64 (i64 (uint epochID) * EpochSeconds)
      in \<lparr>Start = start, End = i64 (start + EpochSeconds)\<rparr>)"

fun excluded_loop ::
  "window \<Rightarrow> (address \<Rightarrow> bool) \<Rightarrow> address list \<Rightarrow> exclusion list \<Rightarrow> address list" where
  "excluded_loop w seen xs [] = xs"
| "excluded_loop w seen xs (e # es) =
     (if End w \<le> X_Timestamp e \<or> seen (X_Account e) then excluded_loop w seen xs es
      else excluded_loop w (seen(X_Account e := True)) (xs @ [X_Account e]) es)"

definition ExcludedAsOf :: "uint64 \<Rightarrow> exclusion list \<Rightarrow> address list" where
  "ExcludedAsOf epochID exclusions =
     sort (excluded_loop (WindowOf epochID) (\<lambda>_. False) [] exclusions)"

section \<open>The replay\<close>

definition sortedByTimestamp :: "transfer list \<Rightarrow> transfer list" where
  "sortedByTimestamp transfers = sort_key T_Timestamp transfers"

definition accrueTo :: "int64 \<Rightarrow> standing \<Rightarrow> standing" where
  "accrueTo ts s =
     (if ts \<le> since s then s
      else s\<lparr>weighted := weighted s + i64 (ts - since s) * balance s, since := ts\<rparr>)"

text \<open>A standing holding nothing, as \<open>at\<close> creates it.\<close>

definition new_standing :: standing where
  "new_standing = \<lparr>balance = 0, since = 0, weighted = 0, bought = False, firstBuyAt = 0,
     lastSellAt = 0, listed = False\<rparr>"

definition standing_at :: "replayState \<Rightarrow> address \<Rightarrow> standing" where
  "standing_at r a = (case balances r a of None \<Rightarrow> new_standing | Some s \<Rightarrow> s)"

definition put :: "replayState \<Rightarrow> address \<Rightarrow> standing \<Rightarrow> replayState" where
  "put r a s = r\<lparr>balances := (balances r)(a \<mapsto> s)\<rparr>"

definition at :: "replayState \<Rightarrow> address \<Rightarrow> replayState" where
  "at r a =
     (let s = standing_at r a
      in if listed s then r
         else (put r a (s\<lparr>listed := True, since := Start (r_window r)\<rparr>))
                \<lparr>active := active r @ [a]\<rparr>)"

definition debit :: "replayState \<Rightarrow> address \<Rightarrow> int \<Rightarrow> int64 \<Rightarrow> replayState" where
  "debit r a v ts =
     (let r1 = at r a; from = accrueTo ts (standing_at r1 a);
          r2 = put r1 a (from\<lparr>balance := balance from - v, lastSellAt := ts\<rparr>)
      in r2\<lparr>moved := moved r2 @ [a]\<rparr>)"

definition credit :: "replayState \<Rightarrow> address \<Rightarrow> int \<Rightarrow> int64 \<Rightarrow> replayState" where
  "credit r a v ts =
     (let r1 = at r a; to0 = accrueTo ts (standing_at r1 a);
          to1 = to0\<lparr>balance := balance to0 + v\<rparr>
      in put r1 a (if \<not> bought to1 then to1\<lparr>bought := True, firstBuyAt := ts\<rparr> else to1))"

definition apply_transfer :: "replayState \<Rightarrow> transfer \<Rightarrow> value_error + replayState" where
  "apply_transfer r tr =
     (case T_Value tr of
        None \<Rightarrow> Inl ErrNilValue
      | Some v \<Rightarrow>
          if v < 0 then Inl ErrNegativeValue
          else if v = 0 then Inr r
          else
            let r1 = (if T_From tr \<noteq> zeroAddress then debit r (T_From tr) v (T_Timestamp tr) else r);
                r2 = (if T_To tr \<noteq> zeroAddress then credit r1 (T_To tr) v (T_Timestamp tr) else r1)
            in Inr r2)"

fun settle_loop :: "replayState \<Rightarrow> int64 \<Rightarrow> address list \<Rightarrow> twab_error option" where
  "settle_loop r ts [] = None"
| "settle_loop r ts (a # as) =
     (if balance (standing_at r a) < 0
      then Some (NegativeBalance a (balance (standing_at r a)) ts)
      else settle_loop r ts as)"

definition settle :: "replayState \<Rightarrow> int64 \<Rightarrow> twab_error + replayState" where
  "settle r ts =
     (case settle_loop r ts (moved r) of
        Some e \<Rightarrow> Inl e
      | None \<Rightarrow> Inr (r\<lparr>moved := []\<rparr>))"

text \<open>
  The inner loop of the walk: every transfer sharing the timestamp \<open>ts\<close>. The last argument is
  what is left of the ordered history, \<open>i\<close> the index of its head.
\<close>

fun apply_block ::
  "int64 \<Rightarrow> nat \<Rightarrow> replayState \<Rightarrow> transfer list \<Rightarrow> twab_error + (nat \<times> replayState \<times> transfer list)" where
  "apply_block ts i r [] = Inr (i, r, [])"
| "apply_block ts i r (tr # rest) =
     (if T_Timestamp tr = ts
      then (case apply_transfer r tr of
              Inl e \<Rightarrow> Inl (TransferError i ts e)
            | Inr r' \<Rightarrow> apply_block ts (Suc i) r' rest)
      else Inr (i, r, tr # rest))"

lemma apply_block_rest:
  "apply_block ts i r rest = Inr (i', r', rest') \<Longrightarrow> length rest' \<le> length rest"
  by (induction rest arbitrary: i r) (fastforce split: if_splits sum.splits)+

text \<open>The outer loop, from index \<open>i\<close> on: it stops at the first transfer at or past \<open>stop\<close>.\<close>

function walk :: "int64 \<Rightarrow> nat \<Rightarrow> replayState \<Rightarrow> transfer list \<Rightarrow> twab_error + (nat \<times> replayState)" where
  "walk stop i r [] = Inr (i, r)"
| "walk stop i r (tr # rest) =
     (if stop \<le> T_Timestamp tr then Inr (i, r)
      else case apply_block (T_Timestamp tr) i r (tr # rest) of
             Inl e \<Rightarrow> Inl e
           | Inr (i', r', rest') \<Rightarrow>
               (case settle r' (T_Timestamp tr) of
                  Inl e \<Rightarrow> Inl e
                | Inr r'' \<Rightarrow> walk stop i' r'' rest'))"
  by pat_completeness auto
termination
  by (relation "measure (\<lambda>(stop, i, r, rest). length rest)")
    (auto split: sum.splits dest!: apply_block_rest)

fun holders_loop ::
  "address list \<Rightarrow> replayState \<Rightarrow> address list \<Rightarrow> holder list \<Rightarrow> replayState \<times> holder list" where
  "holders_loop excluded r [] out = (r, out)"
| "holders_loop excluded r (account # rest) out =
     (if snd (binary_search excluded account) then holders_loop excluded r rest out
      else
        let s = accrueTo (End (r_window r)) (standing_at r account);
            r' = put r account s;
            average = quo (weighted s) EpochSeconds
        in if average \<le> 0 then holders_loop excluded r' rest out
           else holders_loop excluded r' rest
                  (out @ [\<lparr>H_Account = account, TWAB = average, FirstBuyAt = firstBuyAt s,
                           LastSellAt = lastSellAt s\<rparr>]))"

definition holders :: "replayState \<Rightarrow> address list \<Rightarrow> replayState \<times> holder list" where
  "holders r excluded =
     (let (r', out) = holders_loop excluded r (active r) []
      in (r', sort_key H_Account out))"

definition init_state :: "window \<Rightarrow> replayState" where
  "init_state w = \<lparr>r_window = w, balances = Map.empty, active = [], moved = []\<rparr>"

definition Replay :: "uint64 \<Rightarrow> transfer list \<Rightarrow> exclusion list \<Rightarrow> twab_error + holder list" where
  "Replay epochID transfers exclusions =
     (let window = WindowOf epochID;
          excluded = ExcludedAsOf epochID exclusions;
          ordered = sortedByTimestamp transfers
      in case walk (End window) 0 (init_state window) ordered of
           Inl e \<Rightarrow> Inl e
         | Inr (_, replay) \<Rightarrow> Inr (snd (holders replay excluded)))"

section \<open>What a replay promises\<close>

definition value_of :: "transfer \<Rightarrow> int" where
  "value_of tr = (case T_Value tr of None \<Rightarrow> 0 | Some v \<Rightarrow> v)"

text \<open>What a transfer adds to the balance of \<open>a\<close>. The mint and burn counterparty has none.\<close>

definition delta :: "address \<Rightarrow> transfer \<Rightarrow> int" where
  "delta a tr =
     (if a = zeroAddress then 0
      else (if T_To tr = a then value_of tr else 0) - (if T_From tr = a then value_of tr else 0))"

text \<open>The balance in force at the second \<open>t\<close>, after every transfer with a timestamp up to \<open>t\<close>.\<close>

definition balance_at :: "transfer list \<Rightarrow> address \<Rightarrow> int64 \<Rightarrow> int" where
  "balance_at trs a t = (\<Sum>tr \<leftarrow> trs. if T_Timestamp tr \<le> t then delta a tr else 0)"

definition twab_integral :: "window \<Rightarrow> transfer list \<Rightarrow> address \<Rightarrow> int" where
  "twab_integral w trs a = (\<Sum>t \<in> {Start w ..< End w}. balance_at trs a t)"

definition buys :: "transfer list \<Rightarrow> address \<Rightarrow> int64 set" where
  "buys trs a = T_Timestamp ` {tr \<in> set trs. T_To tr = a \<and> 0 < value_of tr}"

definition sells :: "transfer list \<Rightarrow> address \<Rightarrow> int64 set" where
  "sells trs a = T_Timestamp ` {tr \<in> set trs. T_From tr = a \<and> 0 < value_of tr}"

definition first_of :: "int64 set \<Rightarrow> int64" where
  "first_of S = (if S = {} then 0 else Min S)"

definition last_of :: "int64 set \<Rightarrow> int64" where
  "last_of S = (if S = {} then 0 else Max S)"

text \<open>The part of a history before an instant.\<close>

definition before :: "int64 \<Rightarrow> transfer list \<Rightarrow> transfer list" where
  "before stop trs = filter (\<lambda>tr. T_Timestamp tr < stop) trs"

definition holder_spec :: "window \<Rightarrow> transfer list \<Rightarrow> address \<Rightarrow> holder" where
  "holder_spec w trs a =
     \<lparr>H_Account = a, TWAB = twab_integral w trs a div EpochSeconds,
      FirstBuyAt = first_of (buys (before (End w) trs) a),
      LastSellAt = last_of (sells (before (End w) trs) a)\<rparr>"

definition eligible :: "window \<Rightarrow> transfer list \<Rightarrow> address set \<Rightarrow> address set" where
  "eligible w trs excluded =
     {a. a \<noteq> zeroAddress \<and> a \<notin> excluded \<and> 0 < twab_integral w trs a div EpochSeconds}"

definition replay_spec :: "window \<Rightarrow> transfer list \<Rightarrow> address set \<Rightarrow> holder list" where
  "replay_spec w trs excluded =
     map (holder_spec w trs) (sorted_list_of_set (eligible w trs excluded))"

definition value_ok :: "transfer \<Rightarrow> bool" where
  "value_ok tr = (case T_Value tr of None \<Rightarrow> False | Some v \<Rightarrow> 0 \<le> v)"

text \<open>A history is usable up to \<open>stop\<close>: every value is a uint256 and no balance goes below zero.\<close>

definition history_ok :: "int64 \<Rightarrow> transfer list \<Rightarrow> bool" where
  "history_ok stop trs \<longleftrightarrow>
     (\<forall>tr \<in> set trs. T_Timestamp tr < stop \<longrightarrow> value_ok tr) \<and>
     (\<forall>a t. t < stop \<longrightarrow> 0 \<le> balance_at trs a t)"

text \<open>Epochs whose window does not leave the range of \<open>int64\<close>: up to the year 292277026596.\<close>

definition epoch_ok :: "uint64 \<Rightarrow> bool" where
  "epoch_ok e \<longleftrightarrow> 3600 * (uint e + 1) < 2 ^ 63"

definition times_ok :: "transfer list \<Rightarrow> bool" where
  "times_ok trs \<longleftrightarrow> (\<forall>tr \<in> set trs. in_i64 (T_Timestamp tr))"

section \<open>Windows and the Excluded set\<close>

lemma WindowOf_ok:
  assumes "epoch_ok e"
  shows "WindowOf e = \<lparr>Start = 3600 * uint e, End = 3600 * uint e + 3600\<rparr>"
proof -
  define x where "x = uint e"
  have "0 \<le> x" by (simp add: x_def)
  then have "in_i64 x" "in_i64 (x * 3600)" "in_i64 (3600 * x + 3600)"
    using assms unfolding epoch_ok_def in_i64_def x_def [symmetric] by simp_all
  then show ?thesis
    by (simp add: WindowOf_def EpochSeconds_def Let_def i64_id mult.commute x_def)
qed

lemma set_excluded_loop:
  "(\<And>a. seen a \<longleftrightarrow> a \<in> set xs) \<Longrightarrow>
   set (excluded_loop w seen xs es) = set xs \<union> {X_Account e | e. e \<in> set es \<and> X_Timestamp e < End w}"
  by (induction w seen xs es rule: excluded_loop.induct) (auto simp: not_le)

lemma distinct_excluded_loop:
  "(\<And>a. seen a \<longleftrightarrow> a \<in> set xs) \<Longrightarrow> distinct xs \<Longrightarrow> distinct (excluded_loop w seen xs es)"
  by (induction w seen xs es rule: excluded_loop.induct) auto

lemma set_ExcludedAsOf:
  "set (ExcludedAsOf e xs) = {X_Account x | x. x \<in> set xs \<and> X_Timestamp x < End (WindowOf e)}"
  by (simp add: ExcludedAsOf_def set_excluded_loop)

lemma sorted_ExcludedAsOf [simp]: "sorted (ExcludedAsOf e xs)"
  by (simp add: ExcludedAsOf_def)

lemma distinct_ExcludedAsOf [simp]: "distinct (ExcludedAsOf e xs)"
  by (simp add: ExcludedAsOf_def distinct_excluded_loop)

text \<open>The Excluded Set is searched by \<open>slices.BinarySearchFunc\<close>: it meets the contract of the search for every account.\<close>

interpretation excluded_search: monotone_search "length (ExcludedAsOf e xs)" "\<lambda>h. \<not> ExcludedAsOf e xs ! h < account" for e xs account
  by (rule monotone_search_sorted) simp

lemma excluded_position:
  "i < length (ExcludedAsOf e xs) \<Longrightarrow> fst (binary_search (ExcludedAsOf e xs) account) \<le> i \<longleftrightarrow> account \<le> ExcludedAsOf e xs ! i"
  using excluded_search.search_iff [of i e xs account] by (simp add: binary_search_def Let_def not_less)

section \<open>Balances\<close>

lemma balance_at_Nil [simp]: "balance_at [] a t = 0"
  by (simp add: balance_at_def)

lemma balance_at_append [simp]: "balance_at (xs @ ys) a t = balance_at xs a t + balance_at ys a t"
  by (simp add: balance_at_def)

lemma balance_at_Cons [simp]:
  "balance_at (x # xs) a t = (if T_Timestamp x \<le> t then delta a x else 0) + balance_at xs a t"
  by (simp add: balance_at_def)

lemma balance_at_perm: "mset xs = mset ys \<Longrightarrow> balance_at xs a t = balance_at ys a t"
proof -
  assume "mset xs = mset ys"
  then have "mset (map f xs) = mset (map f ys)" for f :: "transfer \<Rightarrow> int"
    by simp
  then have "sum_list (map f xs) = sum_list (map f ys)" for f :: "transfer \<Rightarrow> int"
    by (metis sum_mset_sum_list)
  then show ?thesis by (simp add: balance_at_def)
qed

lemma balance_at_late:
  "\<forall>x \<in> set xs. delta a x \<noteq> 0 \<longrightarrow> T_Timestamp x \<le> t \<Longrightarrow> balance_at xs a t = (\<Sum>x \<leftarrow> xs. delta a x)"
  by (induction xs) auto

lemma balance_at_before: "t < stop \<Longrightarrow> balance_at (before stop xs) a t = balance_at xs a t"
  by (induction xs) (auto simp: before_def)

lemma delta_zero [simp]: "delta zeroAddress tr = 0"
  by (simp add: delta_def)

lemma balance_at_zero [simp]: "balance_at xs zeroAddress t = 0"
  by (induction xs) simp_all

section \<open>The invariant of the walk\<close>

text \<open>A transfer touches an account when it moves a non-zero value from or to it.\<close>

definition touches :: "address \<Rightarrow> transfer \<Rightarrow> bool" where
  "touches a tr \<longleftrightarrow> 0 < value_of tr \<and> (T_From tr = a \<or> T_To tr = a)"

definition standing_ok :: "window \<Rightarrow> transfer list \<Rightarrow> address \<Rightarrow> standing \<Rightarrow> bool" where
  "standing_ok w P a s \<longleftrightarrow>
     balance s = (\<Sum>tr \<leftarrow> P. delta a tr) \<and>
     bought s = (buys P a \<noteq> {}) \<and>
     firstBuyAt s = first_of (buys P a) \<and>
     lastSellAt s = last_of (sells P a) \<and>
     (if listed s
      then (since s = Start w \<or> Start w < since s \<and> since s \<in> T_Timestamp ` set P) \<and>
           (\<forall>tr \<in> set P. touches a tr \<longrightarrow> T_Timestamp tr \<le> since s) \<and>
           weighted s = (\<Sum>t \<in> {Start w ..< since s}. balance_at P a t)
      else weighted s = 0 \<and> balance s = 0 \<and>
           (\<forall>tr \<in> set P. touches a tr \<longrightarrow> T_Timestamp tr \<le> Start w))"

definition lists_ok :: "replayState \<Rightarrow> bool" where
  "lists_ok r \<longleftrightarrow> distinct (active r) \<and> zeroAddress \<notin> set (active r) \<and>
     (\<forall>a. a \<noteq> zeroAddress \<longrightarrow> (a \<in> set (active r) \<longleftrightarrow> listed (standing_at r a)))"

definition state_ok :: "window \<Rightarrow> transfer list \<Rightarrow> replayState \<Rightarrow> bool" where
  "state_ok w P r \<longleftrightarrow>
     r_window r = w \<and> lists_ok r \<and>
     (\<forall>a. a \<noteq> zeroAddress \<longrightarrow> standing_ok w P a (standing_at r a))"

lemma delta_touches: "value_ok tr \<Longrightarrow> delta a tr \<noteq> 0 \<Longrightarrow> touches a tr"
  by (auto simp: delta_def touches_def value_ok_def value_of_def split: if_splits option.splits)

text \<open>What one transfer does to the standing of one account.\<close>

definition relist :: "window \<Rightarrow> standing \<Rightarrow> standing" where
  "relist w s = (if listed s then s else s\<lparr>listed := True, since := Start w\<rparr>)"

definition sell :: "window \<Rightarrow> transfer \<Rightarrow> standing \<Rightarrow> standing" where
  "sell w tr s = (let s1 = accrueTo (T_Timestamp tr) (relist w s)
     in s1\<lparr>balance := balance s1 - value_of tr, lastSellAt := T_Timestamp tr\<rparr>)"

definition buy :: "window \<Rightarrow> transfer \<Rightarrow> standing \<Rightarrow> standing" where
  "buy w tr s = (let s1 = accrueTo (T_Timestamp tr) (relist w s);
      s2 = s1\<lparr>balance := balance s1 + value_of tr\<rparr>
     in if \<not> bought s2 then s2\<lparr>bought := True, firstBuyAt := T_Timestamp tr\<rparr> else s2)"

definition moves :: "window \<Rightarrow> transfer \<Rightarrow> address \<Rightarrow> standing \<Rightarrow> standing" where
  "moves w tr a s =
     (let s1 = (if T_From tr = a then sell w tr s else s)
      in if T_To tr = a then buy w tr s1 else s1)"

lemma standing_at_put [simp]: "standing_at (put r a s) b = (if b = a then s else standing_at r b)"
  by (simp add: standing_at_def put_def)

lemma put_simps [simp]: "r_window (put r a s) = r_window r" "active (put r a s) = active r"
  "moved (put r a s) = moved r"
  by (simp_all add: put_def)

lemma standing_at_updates [simp]:
  "standing_at (r\<lparr>active := xs\<rparr>) b = standing_at r b"
  "standing_at (r\<lparr>moved := ys\<rparr>) b = standing_at r b"
  "standing_at (r\<lparr>r_window := w\<rparr>) b = standing_at r b"
  by (simp_all add: standing_at_def)

lemma at_simps [simp]:
  "standing_at (at r a) b = (if b = a then relist (r_window r) (standing_at r a) else standing_at r b)"
  "r_window (at r a) = r_window r" "moved (at r a) = moved r"
  "active (at r a) = (if listed (standing_at r a) then active r else active r @ [a])"
  by (simp_all add: at_def relist_def Let_def)

lemma debit_simps:
  "standing_at (debit r a (value_of tr) (T_Timestamp tr)) b =
     (if b = a then sell (r_window r) tr (standing_at r a) else standing_at r b)"
  "r_window (debit r a v ts) = r_window r" "moved (debit r a v ts) = moved r @ [a]"
  "active (debit r a v ts) = active (at r a)"
  by (simp_all add: debit_def sell_def Let_def)

lemma credit_simps:
  "standing_at (credit r a (value_of tr) (T_Timestamp tr)) b =
     (if b = a then buy (r_window r) tr (standing_at r a) else standing_at r b)"
  "r_window (credit r a v ts) = r_window r" "moved (credit r a v ts) = moved r"
  "active (credit r a v ts) = active (at r a)"
  by (simp_all add: credit_def buy_def Let_def)

lemma listed_accrueTo [simp]: "listed (accrueTo ts s) = listed s"
  by (simp add: accrueTo_def)

lemma listed_moves [simp]:
  "listed (sell w tr s)" "listed (buy w tr s)"
  "listed (moves w tr a s) \<longleftrightarrow> listed s \<or> T_From tr = a \<or> T_To tr = a"
  by (simp_all add: sell_def buy_def moves_def relist_def Let_def)


section \<open>One transfer keeps the invariant\<close>

text \<open>A standing whose sub-interval is closed at \<open>ts\<close>.\<close>

definition accrued :: "window \<Rightarrow> transfer list \<Rightarrow> int64 \<Rightarrow> address \<Rightarrow> standing \<Rightarrow> bool" where
  "accrued w P ts a s \<longleftrightarrow>
     listed s \<and> ts \<le> since s \<and> (since s = Start w \<or> Start w < since s \<and> since s = ts) \<and>
     weighted s = (\<Sum>t \<in> {Start w ..< since s}. balance_at P a t)"

lemma sum_balance_at_const:
  assumes "\<forall>tr \<in> set P. value_ok tr" "\<forall>tr \<in> set P. touches a tr \<longrightarrow> T_Timestamp tr \<le> x" "x \<le> y"
  shows "(\<Sum>t \<in> {x ..< y}. balance_at P a t) = (y - x) * (\<Sum>tr \<leftarrow> P. delta a tr)"
proof -
  have "balance_at P a t = (\<Sum>tr \<leftarrow> P. delta a tr)" if "t \<in> {x ..< y}" for t
    using assms(1,2) that delta_touches by (intro balance_at_late) fastforce
  then have "(\<Sum>t \<in> {x ..< y}. balance_at P a t) = (\<Sum>t \<in> {x ..< y}. (\<Sum>tr \<leftarrow> P. delta a tr))"
    by (rule sum.cong [OF refl])
  with assms(3) show ?thesis by simp
qed

lemma accrueTo_frame [simp]:
  "balance (accrueTo ts s) = balance s" "bought (accrueTo ts s) = bought s"
  "firstBuyAt (accrueTo ts s) = firstBuyAt s" "lastSellAt (accrueTo ts s) = lastSellAt s"
  by (simp_all add: accrueTo_def)

lemma relist_frame [simp]:
  "balance (relist w s) = balance s" "bought (relist w s) = bought s" "listed (relist w s)"
  "firstBuyAt (relist w s) = firstBuyAt s" "lastSellAt (relist w s) = lastSellAt s"
  by (simp_all add: relist_def)

text \<open>Closing the sub-interval at \<open>ts\<close>: the integral gains the balance times the duration.\<close>

lemma accrued_accrueTo:
  assumes ok: "standing_ok w P a s" and vals: "\<forall>tr \<in> set P. value_ok tr"
    and past: "\<forall>tr \<in> set P. T_Timestamp tr \<le> ts" and start: "0 \<le> Start w" and ts: "in_i64 ts"
  shows "accrued w P ts a (accrueTo ts (relist w s))"
proof -
  let ?s = "relist w s"
  have touched: "\<forall>tr \<in> set P. touches a tr \<longrightarrow> T_Timestamp tr \<le> since ?s"
    and start_le: "Start w \<le> since ?s"
    and weighted: "weighted ?s = (\<Sum>t \<in> {Start w ..< since ?s}. balance_at P a t)"
    and since: "since ?s = Start w \<or> Start w < since ?s \<and> since ?s \<in> T_Timestamp ` set P"
    using ok by (auto simp: standing_ok_def relist_def)
  show ?thesis
  proof (cases "ts \<le> since ?s")
    case True
    then have "accrueTo ts ?s = ?s" by (simp add: accrueTo_def)
    moreover have "since ?s = Start w \<or> Start w < since ?s \<and> since ?s = ts"
      using since past True by force
    ultimately show ?thesis using True weighted by (simp add: accrued_def)
  next
    case False
    then have "in_i64 (ts - since ?s)"
      using start start_le ts by (simp add: in_i64_def)
    then have "accrueTo ts ?s = ?s\<lparr>weighted := weighted ?s + (ts - since ?s) * balance ?s, since := ts\<rparr>"
      using False by (simp add: accrueTo_def i64_id)
    moreover have "(\<Sum>t \<in> {Start w ..< ts}. balance_at P a t) =
      (\<Sum>t \<in> {Start w ..< since ?s}. balance_at P a t) + (\<Sum>t \<in> {since ?s ..< ts}. balance_at P a t)"
      using start_le False by (subst sum.union_disjoint [symmetric]) (auto simp: ivl_disj_un)
    moreover have "(\<Sum>t \<in> {since ?s ..< ts}. balance_at P a t) = (ts - since ?s) * balance ?s"
      using sum_balance_at_const [OF vals touched, of ts] False ok by (simp add: standing_ok_def)
    ultimately show ?thesis using False start_le weighted by (simp add: accrued_def)
  qed
qed

lemma accrued_snoc:
  "accrued w P (T_Timestamp tr) a s \<Longrightarrow> accrued w (P @ [tr]) (T_Timestamp tr) a s"
  by (auto simp: accrued_def intro!: sum.cong)

lemma accrueTo_accrued [simp]: "accrued w P ts a s \<Longrightarrow> accrueTo ts (relist w s) = s"
  by (simp add: accrued_def accrueTo_def relist_def)

lemma accrued_update [simp]:
  "accrued w P ts a (s\<lparr>balance := b\<rparr>) = accrued w P ts a s"
  "accrued w P ts a (s\<lparr>lastSellAt := x\<rparr>) = accrued w P ts a s"
  "accrued w P ts a (s\<lparr>bought := c\<rparr>) = accrued w P ts a s"
  "accrued w P ts a (s\<lparr>firstBuyAt := x\<rparr>) = accrued w P ts a s"
  by (simp_all add: accrued_def)

lemma buys_snoc [simp]: "buys (P @ [tr]) a =
   (if T_To tr = a \<and> 0 < value_of tr then insert (T_Timestamp tr) (buys P a) else buys P a)"
  by (auto simp: buys_def)

lemma sells_snoc [simp]: "sells (P @ [tr]) a =
   (if T_From tr = a \<and> 0 < value_of tr then insert (T_Timestamp tr) (sells P a) else sells P a)"
  by (auto simp: sells_def)

lemma first_of_later: "finite S \<Longrightarrow> \<forall>x \<in> S. x \<le> ts \<Longrightarrow>
   first_of (insert ts S) = (if S = {} then ts else first_of S)"
proof -
  assume S: "finite S" "\<forall>x \<in> S. x \<le> ts"
  then have "S \<noteq> {} \<Longrightarrow> Min S \<le> ts" by (auto dest: Min_in)
  with S show ?thesis by (auto simp: first_of_def min_absorb2)
qed

lemma last_of_later: "finite S \<Longrightarrow> \<forall>x \<in> S. x \<le> ts \<Longrightarrow> last_of (insert ts S) = ts"
  by (auto simp: last_of_def intro!: Max_eqI)

lemma finite_buys_sells [simp]: "finite (buys P a)" "finite (sells P a)"
  by (simp_all add: buys_def sells_def)

lemma buys_sells_le: "\<forall>tr \<in> set P. T_Timestamp tr \<le> ts \<Longrightarrow> \<forall>x \<in> buys P a. x \<le> ts"
  "\<forall>tr \<in> set P. T_Timestamp tr \<le> ts \<Longrightarrow> \<forall>x \<in> sells P a. x \<le> ts"
  by (auto simp: buys_def sells_def)

lemma standing_okI:
  assumes "accrued w P (T_Timestamp tr) a s"
    and "balance s = (\<Sum>x \<leftarrow> P @ [tr]. delta a x)"
    and "bought s = (buys (P @ [tr]) a \<noteq> {})" "firstBuyAt s = first_of (buys (P @ [tr]) a)"
    and "lastSellAt s = last_of (sells (P @ [tr]) a)"
    and "\<forall>x \<in> set P. T_Timestamp x \<le> T_Timestamp tr"
  shows "standing_ok w (P @ [tr]) a s"
  using accrued_snoc [OF assms(1)] assms(2-) by (auto simp: standing_ok_def accrued_def)

lemma standing_ok_untouched:
  assumes "standing_ok w P a s" "value_ok tr" "\<not> touches a tr"
  shows "standing_ok w (P @ [tr]) a s"
proof -
  have "delta a tr = 0" using assms delta_touches by blast
  then have "balance_at (P @ [tr]) a = balance_at P a" by (simp add: fun_eq_iff)
  moreover have "buys (P @ [tr]) a = buys P a" "sells (P @ [tr]) a = sells P a"
    using assms(3) by (auto simp: touches_def)
  ultimately show ?thesis
    using assms \<open>delta a tr = 0\<close> by (auto simp: standing_ok_def simp del: balance_at_append)
qed

lemma standing_ok_moves:
  assumes ok: "standing_ok w P a s" and a: "a \<noteq> zeroAddress"
    and vals: "\<forall>x \<in> set P. value_ok x" and v: "value_ok tr" "0 < value_of tr"
    and past: "\<forall>x \<in> set P. T_Timestamp x \<le> T_Timestamp tr"
    and start: "0 \<le> Start w" and ts: "in_i64 (T_Timestamp tr)"
  shows "standing_ok w (P @ [tr]) a (moves w tr a s)"
proof -
  let ?s = "accrueTo (T_Timestamp tr) (relist w s)"
  have acc: "accrued w P (T_Timestamp tr) a ?s"
    using accrued_accrueTo [OF ok vals past start ts] .
  note le = buys_sells_le [OF past]
  show ?thesis
  proof (cases "T_From tr = a \<or> T_To tr = a")
    case False
    with standing_ok_untouched [OF ok v(1)] show ?thesis
      by (simp add: moves_def touches_def)
  next
    case True
    show ?thesis
      by (rule standing_okI)
        (use True acc ok a v past le in \<open>auto simp: moves_def sell_def buy_def Let_def standing_ok_def
          delta_def first_of_later last_of_later\<close>)
  qed
qed


lemma apply_transfer_error: "\<not> value_ok tr \<longleftrightarrow> (\<exists>e. apply_transfer r tr = Inl e)"
  by (auto simp: apply_transfer_def value_ok_def Let_def split: option.splits)

lemma apply_transfer_zero: "value_ok tr \<Longrightarrow> value_of tr = 0 \<Longrightarrow> apply_transfer r tr = Inr r"
  by (auto simp: apply_transfer_def value_ok_def value_of_def split: option.splits)

definition moved_by :: "transfer \<Rightarrow> address list" where
  "moved_by tr = (if 0 < value_of tr \<and> T_From tr \<noteq> zeroAddress then [T_From tr] else [])"

text \<open>The active list holds exactly the listed accounts, once each.\<close>

lemma lists_ok_debit:
  assumes "lists_ok r" "a \<noteq> zeroAddress"
  shows "lists_ok (debit r a v ts)" "lists_ok (credit r a v ts)"
  using assms by (auto simp: lists_ok_def debit_def credit_def relist_def Let_def)

lemma apply_transfer_Inr:
  assumes "value_ok tr" "0 < value_of tr"
  shows "apply_transfer r tr = Inr
     (let r1 = (if T_From tr \<noteq> zeroAddress then debit r (T_From tr) (value_of tr) (T_Timestamp tr) else r)
      in if T_To tr \<noteq> zeroAddress then credit r1 (T_To tr) (value_of tr) (T_Timestamp tr) else r1)"
  using assms by (auto simp: apply_transfer_def value_ok_def value_of_def Let_def split: option.splits)

lemma apply_transfer_moves:
  assumes "value_ok tr" "0 < value_of tr" "apply_transfer r tr = Inr r'"
  shows "r_window r' = r_window r" "moved r' = moved r @ moved_by tr"
    and "a \<noteq> zeroAddress \<Longrightarrow> standing_at r' a = moves (r_window r) tr a (standing_at r a)"
    and "lists_ok r \<Longrightarrow> lists_ok r'"
  using assms(1,2) assms(3) [unfolded apply_transfer_Inr [OF assms(1,2)]]
  by (auto simp: Let_def debit_simps credit_simps moves_def moved_by_def lists_ok_debit
    split: if_splits)

lemma value_ok_cases: "value_ok tr \<Longrightarrow> value_of tr = 0 \<or> 0 < value_of tr"
  by (auto simp: value_ok_def value_of_def split: option.splits)

lemma state_ok_apply:
  assumes ok: "state_ok w P r" and vals: "\<forall>x \<in> set (P @ [tr]). value_ok x"
    and past: "\<forall>x \<in> set P. T_Timestamp x \<le> T_Timestamp tr"
    and start: "0 \<le> Start w" and ts: "in_i64 (T_Timestamp tr)"
  obtains r' where "apply_transfer r tr = Inr r'" "state_ok w (P @ [tr]) r'"
    "moved r' = moved r @ moved_by tr"
proof -
  from vals have v: "value_ok tr" "\<forall>x \<in> set P. value_ok x" by auto
  from value_ok_cases [OF v(1)] show thesis
  proof
    assume "value_of tr = 0"
    with v ok show thesis
      by (intro that [of r])
        (simp_all add: apply_transfer_zero state_ok_def standing_ok_untouched moved_by_def touches_def)
  next
    assume pos: "0 < value_of tr"
    with v(1) obtain r' where r': "apply_transfer r tr = Inr r'"
      by (simp add: apply_transfer_Inr)
    note m = apply_transfer_moves [OF v(1) pos r']
    have "standing_ok w (P @ [tr]) a (standing_at r' a)" if "a \<noteq> zeroAddress" for a
      using standing_ok_moves [OF _ that v(2) v(1) pos past start ts] m(3) [OF that] ok that
      by (simp add: state_ok_def)
    with m(1,2,4) r' ok show thesis
      by (intro that [of r']) (simp_all add: state_ok_def)
  qed
qed


section \<open>The walk\<close>

lemma apply_block_ok:
  assumes "state_ok w P r" "0 \<le> Start w" "in_i64 ts"
    and "\<forall>x \<in> set P. value_ok x \<and> T_Timestamp x \<le> ts"
    and "\<forall>x \<in> set (takeWhile (\<lambda>tr. T_Timestamp tr = ts) rest). value_ok x"
  shows "\<exists>r'. apply_block ts i r rest =
      Inr (i + length (takeWhile (\<lambda>tr. T_Timestamp tr = ts) rest), r', dropWhile (\<lambda>tr. T_Timestamp tr = ts) rest)
    \<and> state_ok w (P @ takeWhile (\<lambda>tr. T_Timestamp tr = ts) rest) r'
    \<and> moved r' = moved r @ concat (map moved_by (takeWhile (\<lambda>tr. T_Timestamp tr = ts) rest))"
  using assms
proof (induction rest arbitrary: P i r)
  case Nil
  then show ?case by simp
next
  case (Cons tr rest)
  show ?case
  proof (cases "T_Timestamp tr = ts")
    case False
    with Cons.prems show ?thesis by simp
  next
    case True
    obtain r' where r': "apply_transfer r tr = Inr r'" "state_ok w (P @ [tr]) r'"
      "moved r' = moved r @ moved_by tr"
      by (rule state_ok_apply [OF Cons.prems(1), of tr]) (use Cons.prems True in auto)
    then show ?thesis
      using Cons.IH [of "P @ [tr]" r' "Suc i"] Cons.prems True by auto
  qed
qed

lemma apply_block_error:
  "\<exists>x \<in> set (takeWhile (\<lambda>tr. T_Timestamp tr = ts) rest). \<not> value_ok x \<Longrightarrow>
   \<exists>e. apply_block ts i r rest = Inl e"
proof (induction rest arbitrary: i r)
  case (Cons tr rest)
  then show ?case
    using apply_transfer_error [of tr r] by (cases "apply_transfer r tr") (auto split: if_splits)
qed simp

lemma settle_loop_None: "settle_loop r ts as = None \<longleftrightarrow> (\<forall>a \<in> set as. 0 \<le> balance (standing_at r a))"
  by (induction as) auto

lemma settle_Inr:
  "\<forall>a \<in> set (moved r). 0 \<le> balance (standing_at r a) \<Longrightarrow> settle r ts = Inr (r\<lparr>moved := []\<rparr>)"
  by (simp add: settle_def settle_loop_None [THEN iffD2])

lemma settle_Inl:
  "\<exists>a \<in> set (moved r). balance (standing_at r a) < 0 \<Longrightarrow> \<exists>e. settle r ts = Inl e"
  using settle_loop_None [of r ts "moved r"] by (auto simp: settle_def split: option.splits)

text \<open>A history is usable as far as it goes.\<close>

definition usable :: "transfer list \<Rightarrow> bool" where
  "usable P \<longleftrightarrow> (\<forall>x \<in> set P. value_ok x) \<and> (\<forall>a t. 0 \<le> balance_at P a t)"

lemma delta_not_moved: "value_ok x \<Longrightarrow> a \<notin> set (moved_by x) \<Longrightarrow> 0 \<le> delta a x"
  by (auto simp: delta_def moved_by_def value_ok_def value_of_def split: option.splits if_splits)

lemma balance_at_not_moved:
  "\<forall>x \<in> set B. value_ok x \<Longrightarrow> a \<notin> set (concat (map moved_by B)) \<Longrightarrow> 0 \<le> balance_at B a t"
  by (induction B) (auto intro: delta_not_moved add_nonneg_nonneg)

lemma state_ok_balance:
  assumes "state_ok w P r" "a \<noteq> zeroAddress" "\<forall>x \<in> set P. T_Timestamp x \<le> t"
  shows "balance (standing_at r a) = balance_at P a t"
  using assms balance_at_late [of P a t] by (auto simp: state_ok_def standing_ok_def)

lemma moved_by_nonzero: "a \<in> set (concat (map moved_by B)) \<Longrightarrow> a \<noteq> zeroAddress"
  by (auto simp: moved_by_def split: if_splits)

text \<open>The block at \<open>ts\<close> settles exactly when no balance is below zero after it.\<close>

lemma usable_block:
  assumes ok: "state_ok w (P @ B) r" "moved r = concat (map moved_by B)" and P: "usable P"
    and B: "\<forall>x \<in> set B. value_ok x \<and> T_Timestamp x = ts" and past: "\<forall>x \<in> set P. T_Timestamp x \<le> ts"
  shows "usable (P @ B) \<longleftrightarrow> (\<forall>a \<in> set (moved r). 0 \<le> balance (standing_at r a))"
proof
  assume usable: "usable (P @ B)"
  have "balance (standing_at r a) = balance_at (P @ B) a ts" if "a \<in> set (moved r)" for a
    by (rule state_ok_balance [OF ok(1)]) (use that B past ok(2) moved_by_nonzero [of a B] in auto)
  with usable show "\<forall>a \<in> set (moved r). 0 \<le> balance (standing_at r a)"
    by (simp add: usable_def del: balance_at_append)
next
  assume settled: "\<forall>a \<in> set (moved r). 0 \<le> balance (standing_at r a)"
  have "0 \<le> balance_at (P @ B) a t" for a t
  proof (cases "a \<in> set (moved r) \<and> ts \<le> t")
    case True
    then have "balance (standing_at r a) = balance_at (P @ B) a t"
      by (intro state_ok_balance [OF ok(1)]) (use B past ok(2) moved_by_nonzero [of a B] in auto)
    with True settled show ?thesis by (metis)
  next
    case False
    then have "0 \<le> balance_at B a t"
    proof (cases "ts \<le> t")
      case True
      with False show ?thesis using B ok(2) by (intro balance_at_not_moved) auto
    next
      case early: False
      with B show ?thesis by (induction B) auto
    qed
    with P show ?thesis by (simp add: usable_def)
  qed
  with P B show "usable (P @ B)" by (auto simp: usable_def)
qed

lemma usable_appendD:
  assumes "usable (P @ Q)" "\<forall>x \<in> set P. T_Timestamp x \<le> ts" "\<forall>x \<in> set Q. ts < T_Timestamp x"
  shows "usable P"
proof -
  have "0 \<le> balance_at P a t" for a t
  proof -
    have "balance_at Q a (min t ts) = 0"
      using assms(3) by (induction Q) auto
    moreover have "balance_at P a (min t ts) = balance_at P a t"
      using assms(2) by (induction P) auto
    ultimately show ?thesis using assms(1) by (metis add.right_neutral balance_at_append usable_def)
  qed
  with assms(1) show ?thesis by (auto simp: usable_def)
qed


lemma takeWhile_split_sorted:
  assumes "sorted (map T_Timestamp (tr # rest))" "T_Timestamp tr < stop"
  shows "takeWhile (\<lambda>x. T_Timestamp x < stop) (tr # rest) =
     takeWhile (\<lambda>x. T_Timestamp x = T_Timestamp tr) (tr # rest) @
     takeWhile (\<lambda>x. T_Timestamp x < stop) (dropWhile (\<lambda>x. T_Timestamp x = T_Timestamp tr) (tr # rest))"
  using assms by (induction rest) auto

lemma dropWhile_later:
  assumes "sorted (map T_Timestamp (tr # rest))"
    and "x \<in> set (dropWhile (\<lambda>x. T_Timestamp x = T_Timestamp tr) (tr # rest))"
  shows "T_Timestamp tr < T_Timestamp x"
  using assms by (induction rest) (auto split: if_splits)

text \<open>One turn of the outer loop: it goes on exactly when the block leaves a usable history.\<close>

lemma walk_block:
  assumes ok: "state_ok w P r" "moved r = []" "usable P" "0 \<le> Start w" "in_i64 (T_Timestamp tr)"
    and past: "\<forall>x \<in> set P. T_Timestamp x \<le> T_Timestamp tr" and stop: "T_Timestamp tr < stop"
    and B: "B = takeWhile (\<lambda>x. T_Timestamp x = T_Timestamp tr) (tr # rest)"
    and D: "D = dropWhile (\<lambda>x. T_Timestamp x = T_Timestamp tr) (tr # rest)"
  shows "if usable (P @ B)
     then \<exists>r'. walk stop i r (tr # rest) = walk stop (i + length B) r' D \<and> state_ok w (P @ B) r' \<and> moved r' = []
     else \<exists>e. walk stop i r (tr # rest) = Inl e"
proof (cases "\<forall>x \<in> set B. value_ok x")
  case False
  then obtain e where "apply_block (T_Timestamp tr) i r (tr # rest) = Inl e"
    using apply_block_error [of "T_Timestamp tr" "tr # rest" i r] B by blast
  moreover have "\<not> usable (P @ B)" using False by (auto simp: usable_def)
  ultimately show ?thesis using stop by auto
next
  case vals: True
  have Bts: "\<forall>x \<in> set B. T_Timestamp x = T_Timestamp tr"
    by (auto simp: B dest: set_takeWhileD)
  obtain r1 where block: "apply_block (T_Timestamp tr) i r (tr # rest) = Inr (i + length B, r1, D)"
    and r1: "state_ok w (P @ B) r1" "moved r1 = concat (map moved_by B)"
    using apply_block_ok [of w P r "T_Timestamp tr" "tr # rest" i] ok past vals unfolding B D usable_def
    by auto
  have usable: "usable (P @ B) \<longleftrightarrow> (\<forall>a \<in> set (moved r1). 0 \<le> balance (standing_at r1 a))"
    using usable_block [OF r1 ok(3) _ past] vals Bts by auto
  show ?thesis
  proof (cases "usable (P @ B)")
    case False
    with usable obtain e where "settle r1 (T_Timestamp tr) = Inl e"
      using settle_Inl [of r1] by (meson not_le)
    with False stop block show ?thesis by simp
  next
    case True
    with usable have "settle r1 (T_Timestamp tr) = Inr (r1\<lparr>moved := []\<rparr>)"
      using settle_Inr by blast
    moreover have "state_ok w (P @ B) (r1\<lparr>moved := []\<rparr>)"
      using r1(1) by (simp add: state_ok_def lists_ok_def)
    ultimately show ?thesis using True stop block by auto
  qed
qed

lemma walk_ok:
  assumes "state_ok w P r" "moved r = []" "usable P" "0 \<le> Start w"
    and "sorted (map T_Timestamp rest)" "\<forall>x \<in> set P. \<forall>y \<in> set rest. T_Timestamp x < T_Timestamp y"
    and "times_ok rest" "Q = takeWhile (\<lambda>x. T_Timestamp x < stop) rest"
  shows "if usable (P @ Q)
     then \<exists>r'. walk stop i r rest = Inr (i + length Q, r') \<and> state_ok w (P @ Q) r' \<and> moved r' = []
     else \<exists>e. walk stop i r rest = Inl e"
  using assms
proof (induction "length rest" arbitrary: P Q i r rest rule: less_induct)
  case less
  note prems = less.prems
  show ?case
  proof (cases "rest = [] \<or> \<not> T_Timestamp (hd rest) < stop")
    case True
    with prems show ?thesis by (cases rest) auto
  next
    case False
    then obtain tr rest1 where Cons: "rest = tr # rest1" and ts: "T_Timestamp tr < stop"
      by (cases rest) auto
    define B where "B = takeWhile (\<lambda>x. T_Timestamp x = T_Timestamp tr) rest"
    define D where "D = dropWhile (\<lambda>x. T_Timestamp x = T_Timestamp tr) rest"
    define Q' where "Q' = takeWhile (\<lambda>x. T_Timestamp x < stop) D"
    have Q: "Q = B @ Q'"
      using takeWhile_split_sorted [of tr rest1 stop] prems(5,8) ts Cons
      by (simp add: B_def D_def Q'_def)
    have B: "\<forall>x \<in> set B. T_Timestamp x = T_Timestamp tr"
      by (auto simp: B_def dest: set_takeWhileD)
    have D: "\<forall>x \<in> set D. T_Timestamp tr < T_Timestamp x" "set D \<subseteq> set rest" "length D < length rest"
      using dropWhile_later [of tr rest1] prems(5) Cons
      by (auto simp: D_def dest: set_dropWhileD intro: le_imp_less_Suc length_dropWhile_le)
    have past: "\<forall>x \<in> set P. T_Timestamp x \<le> T_Timestamp tr"
      using prems(6) Cons by fastforce
    have step: "if usable (P @ B)
       then \<exists>r'. walk stop i r rest = walk stop (i + length B) r' D \<and> state_ok w (P @ B) r' \<and> moved r' = []
       else \<exists>e. walk stop i r rest = Inl e"
      unfolding Cons
      by (rule walk_block) (use prems ts past Cons in \<open>simp_all add: B_def D_def times_ok_def\<close>)
    have "\<forall>x \<in> set Q'. T_Timestamp tr < T_Timestamp x"
      using D(1) by (auto simp: Q'_def dest: set_takeWhileD)
    moreover have "\<forall>x \<in> set (P @ B). T_Timestamp x \<le> T_Timestamp tr"
      using B past by auto
    ultimately have usable: "usable (P @ B)" if "usable (P @ Q)"
      using usable_appendD [of "P @ B" Q' "T_Timestamp tr"] that Q by simp
    have "if usable ((P @ B) @ Q')
       then \<exists>r''. walk stop (i + length B) r' D = Inr (i + length B + length Q', r'')
              \<and> state_ok w ((P @ B) @ Q') r'' \<and> moved r'' = []
       else \<exists>e. walk stop (i + length B) r' D = Inl e"
      if "usable (P @ B)" "state_ok w (P @ B) r'" "moved r' = []" for r'
    proof (rule less.hyps)
      show "sorted (map T_Timestamp D)"
        using prems(5) sorted_dropWhile [of "map T_Timestamp rest" "\<lambda>x. x = T_Timestamp tr"]
        by (simp add: D_def dropWhile_map comp_def)
      show "\<forall>x \<in> set (P @ B). \<forall>y \<in> set D. T_Timestamp x < T_Timestamp y"
        using D(1) B past by fastforce
    qed (use that prems(4,7) D in \<open>auto simp: times_ok_def Q'_def\<close>)
    with step usable show ?thesis by (auto simp: Q add.assoc split: if_splits)
  qed
qed


section \<open>Closing the Epoch\<close>

lemma sort_key_map: "sort_key f (map g xs) = map g (sort_key (\<lambda>x. f (g x)) xs)"
proof -
  have "insort_key f (g x) (map g ys) = map g (insort_key (\<lambda>x. f (g x)) x ys)" for x ys
    by (induction ys) simp_all
  then show ?thesis by (induction xs) simp_all
qed

definition closed :: "replayState \<Rightarrow> address \<Rightarrow> standing" where
  "closed r a = accrueTo (End (r_window r)) (standing_at r a)"

definition holder_of :: "replayState \<Rightarrow> address \<Rightarrow> holder" where
  "holder_of r a = \<lparr>H_Account = a, TWAB = quo (weighted (closed r a)) EpochSeconds,
     FirstBuyAt = firstBuyAt (closed r a), LastSellAt = lastSellAt (closed r a)\<rparr>"

lemma closed_put [simp]: "closed (put r b s) a = (if a = b then accrueTo (End (r_window r)) s else closed r a)"
  by (simp add: closed_def)

lemma holder_of_put [simp]: "a \<noteq> b \<Longrightarrow> holder_of (put r b s) a = holder_of r a"
  by (simp add: holder_of_def)

lemma holders_loop_step:
  "sorted excluded \<Longrightarrow> holders_loop excluded r (a # as) out =
     (if a \<in> set excluded then holders_loop excluded r as out
      else holders_loop excluded (put r a (closed r a)) as
             (if 0 < TWAB (holder_of r a) then out @ [holder_of r a] else out))"
  by (simp add: binary_search_found Let_def holder_of_def closed_def)

lemma holders_loop_out:
  "distinct as \<Longrightarrow> sorted excluded \<Longrightarrow> snd (holders_loop excluded r as out) =
     out @ map (holder_of r) (filter (\<lambda>a. a \<notin> set excluded \<and> 0 < TWAB (holder_of r a)) as)"
proof (induction as arbitrary: r out)
  case (Cons a as)
  have other: "holder_of (put r a s) x = holder_of r x" if "x \<in> set as" for x s
    using Cons.prems(1) that by (intro holder_of_put) auto
  have "filter (\<lambda>x. x \<notin> set excluded \<and> 0 < TWAB (holder_of (put r a s) x)) as
      = filter (\<lambda>x. x \<notin> set excluded \<and> 0 < TWAB (holder_of r x)) as" for s
    by (rule filter_cong [OF refl]) (simp add: other)
  moreover have "map (holder_of (put r a s)) (filter p as) = map (holder_of r) (filter p as)" for s p
    by (rule map_cong [OF refl]) (simp add: other)
  ultimately show ?case
    using Cons by (simp add: holders_loop_step del: holders_loop.simps)
qed simp

lemma holders_loop_state:
  "distinct as \<Longrightarrow> sorted excluded \<Longrightarrow>
   (let r' = fst (holders_loop excluded r as out) in
      r_window r' = r_window r \<and> active r' = active r \<and> moved r' = moved r \<and>
      (\<forall>b. standing_at r' b = (if b \<in> set as \<and> b \<notin> set excluded then closed r b else standing_at r b)))"
proof (induction as arbitrary: r out)
  case (Cons a as)
  then show ?case
    by (simp add: holders_loop_step Let_def closed_def del: holders_loop.simps)
qed simp

lemma state_ok_active:
  "state_ok w P r \<Longrightarrow> a \<in> set (active r) \<Longrightarrow>
   a \<noteq> zeroAddress \<and> listed (standing_at r a) \<and> standing_ok w P a (standing_at r a)"
  by (cases "a = zeroAddress") (simp_all add: state_ok_def lists_ok_def)

lemma state_ok_idle:
  "state_ok w P r \<Longrightarrow> a \<noteq> zeroAddress \<Longrightarrow> a \<notin> set (active r) \<Longrightarrow>
   \<not> listed (standing_at r a) \<and> standing_ok w P a (standing_at r a)"
  by (simp add: state_ok_def lists_ok_def)

text \<open>Under the invariant a closed standing holds the whole integral of the window.\<close>

lemma closed_integral:
  assumes ok: "state_ok w P r" and vals: "\<forall>x \<in> set P. value_ok x" and w: "0 \<le> Start w" "Start w < End w"
    and past: "\<forall>x \<in> set P. T_Timestamp x \<le> End w" and "in_i64 (End w)" and a: "a \<in> set (active r)"
  shows "weighted (closed r a) = twab_integral w P a"
proof -
  have "listed (standing_at r a)" "standing_ok w P a (standing_at r a)"
    using state_ok_active [OF ok a] by simp_all
  then have "accrued w P (End w) a (accrueTo (End w) (standing_at r a))"
    using accrued_accrueTo [of w P a "standing_at r a" "End w"] assms by (simp add: relist_def)
  moreover have "r_window r = w" using ok by (simp add: state_ok_def)
  ultimately show ?thesis
    using w by (auto simp: accrued_def closed_def twab_integral_def)
qed

lemma unlisted_integral:
  assumes ok: "state_ok w P r" and vals: "\<forall>x \<in> set P. value_ok x" and w: "Start w \<le> End w"
    and a: "a \<noteq> zeroAddress" "a \<notin> set (active r)"
  shows "twab_integral w P a = 0"
proof -
  have "\<not> listed (standing_at r a)" "standing_ok w P a (standing_at r a)"
    using state_ok_idle [OF ok a] by simp_all
  then have "(\<Sum>x \<leftarrow> P. delta a x) = 0" "\<forall>x \<in> set P. touches a x \<longrightarrow> T_Timestamp x \<le> Start w"
    by (auto simp: standing_ok_def)
  with sum_balance_at_const [OF vals this(2) w] show ?thesis by (simp add: twab_integral_def)
qed

lemma holders_spec:
  assumes ok: "state_ok w P r" and us: "usable P" and w: "0 \<le> Start w" "Start w < End w" "in_i64 (End w)"
    and P: "P = before (End w) trs'" "mset trs' = mset trs" and ex: "sorted excluded"
  shows "snd (holders r excluded) = replay_spec w trs (set excluded)"
proof -
  have past: "\<forall>x \<in> set P. T_Timestamp x \<le> End w" by (auto simp: P(1) before_def)
  have vals: "\<forall>x \<in> set P. value_ok x" using us by (simp add: usable_def)
  have integral: "twab_integral w P a = twab_integral w trs a" for a
    unfolding twab_integral_def
    by (rule sum.cong) (simp_all add: P(1) balance_at_before balance_at_perm [OF P(2)])
  have nonneg: "0 \<le> twab_integral w P a" for a
    using us by (auto simp: twab_integral_def usable_def intro: sum_nonneg)
  have same: "holder_of r a = holder_spec w trs a" if a: "a \<in> set (active r)" for a
  proof -
    have "standing_ok w P a (standing_at r a)"
      using state_ok_active [OF ok a] by simp
    moreover have "set P = set (before (End w) trs)"
      using mset_eq_setD [OF P(2)] by (auto simp: P(1) before_def)
    then have "buys P a = buys (before (End w) trs) a" "sells P a = sells (before (End w) trs) a"
      by (simp_all add: buys_def sells_def)
    ultimately show ?thesis
      using closed_integral [OF ok vals w(1,2) past w(3) a] nonneg [of a] integral [of a]
      by (simp add: holder_of_def holder_spec_def standing_ok_def closed_def quo_nonneg EpochSeconds_def)
  qed
  let ?as = "filter (\<lambda>a. a \<notin> set excluded \<and> 0 < TWAB (holder_of r a)) (active r)"
  have lists: "lists_ok r" using ok by (simp add: state_ok_def)
  have elig: "set ?as = eligible w trs (set excluded)"
  proof (rule set_eqI)
    fix a
    show "a \<in> set ?as \<longleftrightarrow> a \<in> eligible w trs (set excluded)"
    proof (cases "a \<in> set (active r)")
      case True
      with same [OF True] lists show ?thesis
        by (auto simp: eligible_def holder_spec_def lists_ok_def)
    next
      case False
      with unlisted_integral [OF ok vals, of a] w(2) integral [of a] show ?thesis
        by (auto simp: eligible_def EpochSeconds_def)
    qed
  qed
  have "snd (holders r excluded) = map (holder_of r) (sort ?as)"
    using holders_loop_out [of "active r" excluded r "[]"] lists ex
    by (simp add: holders_def lists_ok_def case_prod_beta sort_key_map) (simp add: holder_of_def)
  also have "sort ?as = sorted_list_of_set (eligible w trs (set excluded))"
  proof -
    have "distinct ?as" using lists by (simp add: lists_ok_def)
    then show ?thesis
      unfolding elig [symmetric] by (simp only: sorted_list_of_set_sort_remdups distinct_remdups_id)
  qed
  also have "map (holder_of r) \<dots> = replay_spec w trs (set excluded)"
    unfolding replay_spec_def by (rule map_cong [OF refl], rule same) (use elig in auto)
  finally show ?thesis .
qed


section \<open>The replay is correct\<close>

lemma history_ok_usable: "history_ok stop trs \<longleftrightarrow> usable (before stop trs)"
proof -
  have "balance_at (before stop trs) a t = balance_at trs a (if t < stop then t else stop - 1)" for a t
    by (induction trs) (auto simp: before_def)
  moreover have "(if t < stop then t else stop - 1) < stop" for t by simp
  ultimately have "(\<forall>a t. 0 \<le> balance_at (before stop trs) a t) \<longleftrightarrow> (\<forall>a t. t < stop \<longrightarrow> 0 \<le> balance_at trs a t)"
    by metis
  then show ?thesis by (auto simp: history_ok_def usable_def before_def)
qed

lemma usable_perm: "mset xs = mset ys \<Longrightarrow> usable xs = usable ys"
  using balance_at_perm [of xs ys] mset_eq_setD [of xs ys] by (auto simp: usable_def)

lemma before_sorted:
  "sorted (map T_Timestamp xs) \<Longrightarrow> takeWhile (\<lambda>x. T_Timestamp x < stop) xs = before stop xs"
  by (induction xs) (fastforce simp: before_def filter_empty_conv eq_commute [of "[]"])+

lemma mset_sortedByTimestamp [simp]: "mset (sortedByTimestamp trs) = mset trs"
  by (simp add: sortedByTimestamp_def)

lemma sorted_sortedByTimestamp [simp]: "sorted (map T_Timestamp (sortedByTimestamp trs))"
  by (simp add: sortedByTimestamp_def)

lemma times_ok_sorted [simp]: "times_ok (sortedByTimestamp trs) = times_ok trs"
  by (simp add: times_ok_def sortedByTimestamp_def)

lemma mset_before: "mset xs = mset ys \<Longrightarrow> mset (before stop xs) = mset (before stop ys)"
  by (simp add: before_def)

lemma history_ok_sorted: "usable (before stop (sortedByTimestamp trs)) \<longleftrightarrow> history_ok stop trs"
  unfolding history_ok_usable by (rule usable_perm, rule mset_before) simp

lemma state_ok_init: "state_ok w [] (init_state w)"
  by (simp add: state_ok_def lists_ok_def init_state_def standing_at_def new_standing_def
    standing_ok_def buys_def sells_def first_of_def last_of_def)

lemma usable_Nil [simp]: "usable []"
  by (simp add: usable_def)

lemma window_bounds:
  assumes "epoch_ok e"
  shows "0 \<le> Start (WindowOf e)" "Start (WindowOf e) < End (WindowOf e)" "in_i64 (End (WindowOf e))"
    "End (WindowOf e) = Start (WindowOf e) + EpochSeconds"
  using assms unsigned_greater_eq [where 'a = int, of e]
  by (simp_all add: WindowOf_ok [OF assms] epoch_ok_def in_i64_def EpochSeconds_def del: unsigned_greater_eq)

lemma walk_init:
  assumes "epoch_ok e" "times_ok trs"
  defines "w \<equiv> WindowOf e" and "P \<equiv> before (End (WindowOf e)) (sortedByTimestamp trs)"
  shows "if history_ok (End w) trs
    then \<exists>r. walk (End w) 0 (init_state w) (sortedByTimestamp trs) = Inr (length P, r) \<and> state_ok w P r \<and> moved r = []
    else \<exists>err. walk (End w) 0 (init_state w) (sortedByTimestamp trs) = Inl err"
proof -
  have "moved (init_state w) = []" by (simp add: init_state_def)
  from walk_ok [OF state_ok_init this usable_Nil, of "sortedByTimestamp trs" P "End w" 0]
  show ?thesis
    using assms(2) window_bounds(1) [OF assms(1)] history_ok_sorted [of "End w" trs]
    by (auto simp: before_sorted P_def w_def split: if_splits)
qed

lemma Replay_iff:
  assumes "epoch_ok e" "times_ok trs"
  shows "Replay e trs xs = Inr hs \<longleftrightarrow>
    history_ok (End (WindowOf e)) trs \<and>
    hs = replay_spec (WindowOf e) trs {X_Account x | x. x \<in> set xs \<and> X_Timestamp x < End (WindowOf e)}"
proof (cases "history_ok (End (WindowOf e)) trs")
  case True
  then obtain r where walk: "walk (End (WindowOf e)) 0 (init_state (WindowOf e)) (sortedByTimestamp trs) =
      Inr (length (before (End (WindowOf e)) (sortedByTimestamp trs)), r)"
    and r: "state_ok (WindowOf e) (before (End (WindowOf e)) (sortedByTimestamp trs)) r"
    using walk_init [OF assms] by auto
  have "snd (holders r (ExcludedAsOf e xs)) = replay_spec (WindowOf e) trs (set (ExcludedAsOf e xs))"
    by (rule holders_spec [OF r _ window_bounds(1-3) [OF assms(1)] refl])
      (use True in \<open>simp_all add: history_ok_sorted\<close>)
  with walk True show ?thesis by (auto simp: Replay_def Let_def set_ExcludedAsOf)
next
  case False
  with walk_init [OF assms] show ?thesis by (auto simp: Replay_def Let_def)
qed

section \<open>Properties\<close>

text \<open>The Excluded accounts of an Epoch, as a set.\<close>

definition excluded_set :: "uint64 \<Rightarrow> exclusion list \<Rightarrow> address set" where
  "excluded_set e xs = {X_Account x | x. x \<in> set xs \<and> X_Timestamp x < End (WindowOf e)}"

lemma replay_spec_perm:
  assumes "mset trs = mset trs'"
  shows "replay_spec w trs ex = replay_spec w trs' ex"
proof -
  have "twab_integral w trs = twab_integral w trs'"
    by (simp add: fun_eq_iff twab_integral_def balance_at_perm [OF assms])
  moreover have "buys (before stop trs) = buys (before stop trs')"
    "sells (before stop trs) = sells (before stop trs')" for stop
    using mset_eq_setD [OF mset_before [OF assms]] by (auto simp: fun_eq_iff buys_def sells_def)
  ultimately show ?thesis by (simp add: replay_spec_def eligible_def holder_spec_def)
qed

text \<open>Two days of a small token: a mint, a sale in the middle of the window, a repurchase.\<close>

definition demo_transfers :: "transfer list" where
  "demo_transfers =
     [\<lparr>T_Timestamp = 3601800, T_From = 1, T_To = 2, T_Value = Some 3600\<rparr>,
      \<lparr>T_Timestamp = 3600000, T_From = 0, T_To = 1, T_Value = Some 7200\<rparr>,
      \<lparr>T_Timestamp = 3605400, T_From = 2, T_To = 3, T_Value = Some 1800\<rparr>]"

definition demo_exclusions :: "exclusion list" where
  "demo_exclusions = [\<lparr>X_Timestamp = 3600005, X_Account = 3\<rparr>]"

lemma demo_times [simp]: "times_ok demo_transfers"
  by (simp add: times_ok_def demo_transfers_def in_i64_def)

lemma demo_epochs [simp]: "epoch_ok 1000" "epoch_ok 1001" "epoch_ok 1002"
  by (simp_all add: epoch_ok_def)

text \<open>
  C3. \<open>Replay\<close> returns Holders exactly when the history before the end of the Epoch is usable:
  every value present and not negative, and no balance below zero at any second. What it
  returns is then the specification: every account not Excluded as of the Epoch whose balance,
  summed over the 3600 seconds of the window and divided by 3600, is positive, with that TWAB,
  its first purchase and its last sale, in ascending order of address.
\<close>

theorem Replay_correct:
  assumes "epoch_ok e" "times_ok trs"
  shows "Replay e trs xs = Inr hs \<longleftrightarrow>
    history_ok (End (WindowOf e)) trs \<and> hs = replay_spec (WindowOf e) trs (excluded_set e xs)"
  unfolding excluded_set_def by (rule Replay_iff [OF assms])

theorem Replay_correct_witness:
  "Replay 1000 demo_transfers demo_exclusions =
     Inr [\<lparr>H_Account = 1, TWAB = 5400, FirstBuyAt = 3600000, LastSellAt = 3601800\<rparr>,
          \<lparr>H_Account = 2, TWAB = 1800, FirstBuyAt = 3601800, LastSellAt = 0\<rparr>] \<and>
   history_ok (End (WindowOf 1000)) demo_transfers \<and>
   [\<lparr>H_Account = 1, TWAB = 5400, FirstBuyAt = 3600000, LastSellAt = 3601800\<rparr>,
    \<lparr>H_Account = 2, TWAB = 1800, FirstBuyAt = 3601800, LastSellAt = 0\<rparr>] =
     replay_spec (WindowOf 1000) demo_transfers (excluded_set 1000 demo_exclusions)"
proof -
  have "Replay 1000 demo_transfers demo_exclusions =
     Inr [\<lparr>H_Account = 1, TWAB = 5400, FirstBuyAt = 3600000, LastSellAt = 3601800\<rparr>,
          \<lparr>H_Account = 2, TWAB = 1800, FirstBuyAt = 3601800, LastSellAt = 0\<rparr>]"
    by code_simp
  with Replay_correct [OF demo_epochs(1) demo_times] show ?thesis by blast
qed

text \<open>
  The order in which the transfers and the exclusions are given does not matter to a
  replay, nor does a repeated exclusion: two histories with the same transfers, each as often,
  and the same Excluded accounts give the same Holders.
\<close>

theorem Replay_order_irrelevant:
  assumes "epoch_ok e" "times_ok trs" "mset trs = mset trs'" "excluded_set e xs = excluded_set e xs'"
  shows "Replay e trs xs = Inr hs \<longleftrightarrow> Replay e trs' xs' = Inr hs"
proof -
  have times: "times_ok trs'"
    using assms(2) mset_eq_setD [OF assms(3)] by (simp add: times_ok_def)
  have "history_ok stop trs = history_ok stop trs'" for stop
    using mset_eq_setD [OF assms(3)] by (simp add: history_ok_def balance_at_perm [OF assms(3)])
  with assms(4) show ?thesis
    unfolding Replay_iff [OF assms(1,2)] Replay_iff [OF assms(1) times] excluded_set_def [symmetric]
    by (simp add: replay_spec_perm [OF assms(3)])
qed

theorem Replay_order_irrelevant_witness:
  "Replay 1000 demo_transfers demo_exclusions =
     Inr [\<lparr>H_Account = 1, TWAB = 5400, FirstBuyAt = 3600000, LastSellAt = 3601800\<rparr>,
          \<lparr>H_Account = 2, TWAB = 1800, FirstBuyAt = 3601800, LastSellAt = 0\<rparr>] \<longleftrightarrow>
   Replay 1000 (rev demo_transfers) (demo_exclusions @ demo_exclusions) =
     Inr [\<lparr>H_Account = 1, TWAB = 5400, FirstBuyAt = 3600000, LastSellAt = 3601800\<rparr>,
          \<lparr>H_Account = 2, TWAB = 1800, FirstBuyAt = 3601800, LastSellAt = 0\<rparr>]"
  by (rule Replay_order_irrelevant [OF demo_epochs(1) demo_times]) (simp_all add: excluded_set_def)

end
