(* ===== verification/Ledger.thy ===== *)
theory Ledger
  imports Twab
begin

text \<open>
  The incremental replay (\<open>internal/twab/ledger.go\<close>): \<open>NewLedger\<close>, \<open>Advance\<close> and \<open>open\<close>.

  The comment on the source's type says what it owes: a \<open>Ledger\<close> advanced Epoch by Epoch returns,
  at each one, what \<open>Replay\<close> would return over the same history, and refuses what \<open>Replay\<close> would
  refuse. That is the theorem here, errors included, for every ascending sequence of Epochs
  with any gaps.

  When the walk fails the source leaves \<open>state\<close> and \<open>next\<close> wherever the failure found them and
  sets \<open>failed\<close>, after which no call reads them again; the model keeps the values from before
  the call.
\<close>

record ledger =
  ordered :: "transfer list"
  l_exclusions :: "exclusion list"
  l_next :: nat
  l_state :: replayState
  l_floor :: uint64
  failed :: "twab_error option"

definition NewLedger :: "transfer list \<Rightarrow> exclusion list \<Rightarrow> ledger" where
  "NewLedger transfers exclusions =
     \<lparr>ordered = sortedByTimestamp transfers, l_exclusions = exclusions, l_next = 0,
      l_state = init_state \<lparr>Start = 0, End = 0\<rparr>, l_floor = 0, failed = None\<rparr>"

fun open_loop ::
  "window \<Rightarrow> replayState \<Rightarrow> address list \<Rightarrow> address list \<Rightarrow> replayState \<times> address list" where
  "open_loop w r [] kept = (r, kept)"
| "open_loop w r (account # rest) kept =
     (let s = (standing_at r account)\<lparr>weighted := 0, since := Start w\<rparr>
      in if balance s = 0 then open_loop w (put r account (s\<lparr>listed := False\<rparr>)) rest kept
         else open_loop w (put r account s) rest (kept @ [account]))"

definition open_window :: "replayState \<Rightarrow> window \<Rightarrow> replayState" where
  "open_window r w =
     (let (r', kept) = open_loop w (r\<lparr>r_window := w\<rparr>) (active r) []
      in r'\<lparr>active := kept\<rparr>)"

definition Advance :: "ledger \<Rightarrow> uint64 \<Rightarrow> ledger \<times> (twab_error + holder list)" where
  "Advance l epochID =
     (case failed l of
        Some err \<Rightarrow> (l, Inl err)
      | None \<Rightarrow>
          if epochID < l_floor l then (l, Inl (EpochClosed epochID (l_floor l)))
          else
            let window = WindowOf epochID;
                opened = open_window (l_state l) window
            in case walk (End window) (l_next l) opened (drop (l_next l) (ordered l)) of
                 Inl err \<Rightarrow> (l\<lparr>failed := Some err\<rparr>, Inl err)
               | Inr (i, st) \<Rightarrow>
                   let (st', hs) = holders st (ExcludedAsOf epochID (l_exclusions l))
                   in (l\<lparr>l_state := st', l_next := i, l_floor := epochID + 1\<rparr>, Inr hs))"

text \<open>A run of the ledger: the answers to a sequence of calls.\<close>

fun advance_all :: "ledger \<Rightarrow> uint64 list \<Rightarrow> (twab_error + holder list) list" where
  "advance_all l [] = []"
| "advance_all l (e # es) = (let (l', res) = Advance l e in res # advance_all l' es)"

section \<open>Opening a window\<close>

text \<open>Between two windows only the carried part of a standing is pinned down.\<close>

definition carried_ok :: "transfer list \<Rightarrow> replayState \<Rightarrow> bool" where
  "carried_ok P r \<longleftrightarrow> lists_ok r \<and> moved r = [] \<and>
     (\<forall>a. a \<noteq> zeroAddress \<longrightarrow> (let s = standing_at r a in
        balance s = (\<Sum>x \<leftarrow> P. delta a x) \<and> bought s = (buys P a \<noteq> {}) \<and>
        firstBuyAt s = first_of (buys P a) \<and> lastSellAt s = last_of (sells P a) \<and>
        (\<not> listed s \<longrightarrow> weighted s = 0 \<and> balance s = 0)))"

definition reopened :: "window \<Rightarrow> standing \<Rightarrow> standing" where
  "reopened w s = s\<lparr>weighted := 0, since := Start w, listed := (balance s \<noteq> 0 \<and> listed s)\<rparr>"

lemma open_loop_state:
  "distinct as \<Longrightarrow> (\<forall>a \<in> set as. listed (standing_at r a)) \<Longrightarrow>
   (let (r', kept') = open_loop w r as kept in
      r_window r' = r_window r \<and> moved r' = moved r \<and>
      kept' = kept @ filter (\<lambda>a. balance (standing_at r a) \<noteq> 0) as \<and>
      (\<forall>b. standing_at r' b = (if b \<in> set as then reopened w (standing_at r b) else standing_at r b)))"
proof (induction as arbitrary: r kept)
  case (Cons a as)
  have other: "filter (\<lambda>x. balance (if x = a then s else standing_at r x) \<noteq> 0) as
      = filter (\<lambda>x. balance (standing_at r x) \<noteq> 0) as" for s
    using Cons.prems(1) by (intro filter_cong) auto
  have listed: "\<forall>x \<in> set as. listed (standing_at (put r a s) x)" for s
    using Cons.prems by auto
  show ?case
    using Cons.IH [OF _ listed] Cons.prems
    by (auto simp: Let_def case_prod_beta other reopened_def)
qed simp

lemma open_window_ok:
  assumes ok: "carried_ok P r" and past: "\<forall>x \<in> set P. T_Timestamp x \<le> Start w"
  shows "state_ok w P (open_window r w)" "moved (open_window r w) = []"
proof -
  have lists: "distinct (active r)" "zeroAddress \<notin> set (active r)"
    "\<And>a. a \<noteq> zeroAddress \<Longrightarrow> a \<in> set (active r) \<longleftrightarrow> listed (standing_at r a)"
    using ok by (simp_all add: carried_ok_def lists_ok_def)
  then have listed: "\<forall>a \<in> set (active r). listed (standing_at (r\<lparr>r_window := w\<rparr>) a)"
    by (metis standing_at_updates(3))
  obtain r' kept where loop: "open_loop w (r\<lparr>r_window := w\<rparr>) (active r) [] = (r', kept)"
    by fastforce
  have r': "r_window r' = w" "moved r' = moved r"
    "kept = filter (\<lambda>a. balance (standing_at r a) \<noteq> 0) (active r)"
    "\<And>b. standing_at r' b = (if b \<in> set (active r) then reopened w (standing_at r b) else standing_at r b)"
    using open_loop_state [OF lists(1) listed, of w "[]"] loop by simp_all
  have "standing_ok w P a (standing_at r' a)" if "a \<noteq> zeroAddress" for a
    using ok that lists(3) [OF that] past by (auto simp: carried_ok_def Let_def r'(4) standing_ok_def reopened_def)
  moreover have "lists_ok (r'\<lparr>active := kept\<rparr>)"
    using lists by (auto simp: lists_ok_def r'(3,4) reopened_def)
  ultimately show "state_ok w P (open_window r w)" "moved (open_window r w) = []"
    using ok by (simp_all add: open_window_def loop state_ok_def r' carried_ok_def)
qed

lemma holders_carried_ok:
  assumes ok: "state_ok w P r" "moved r = []" and ex: "sorted excluded"
  shows "carried_ok P (fst (holders r excluded))"
proof -
  have lists: "lists_ok r" using ok(1) by (simp add: state_ok_def)
  define r' where "r' = fst (holders_loop excluded r (active r) [])"
  have r': "active r' = active r" "moved r' = []"
    "\<And>b. standing_at r' b = (if b \<in> set (active r) \<and> b \<notin> set excluded then closed r b else standing_at r b)"
    using holders_loop_state [of "active r" excluded r "[]"] lists ex ok(2)
    by (auto simp: r'_def lists_ok_def Let_def)
  have "lists_ok r'"
    using lists by (simp add: lists_ok_def r' closed_def)
  moreover have "fst (holders r excluded) = r'"
    by (simp add: holders_def r'_def case_prod_beta)
  ultimately show ?thesis
    using ok(1) r' by (auto simp: carried_ok_def Let_def state_ok_def standing_ok_def closed_def lists_ok_def split: if_splits)
qed

section \<open>What the walk depends on\<close>

text \<open>
  The walk's decisions read only balances and the moved list, never the accrual. Two states that
  agree on this core run into the same errors and stay in agreement.
\<close>

definition core :: "standing \<Rightarrow> int \<times> bool \<times> int64 \<times> int64" where
  "core s = (balance s, bought s, firstBuyAt s, lastSellAt s)"

definition core_eq :: "replayState \<Rightarrow> replayState \<Rightarrow> bool" where
  "core_eq r1 r2 \<longleftrightarrow> moved r1 = moved r2 \<and> (\<forall>a. core (standing_at r1 a) = core (standing_at r2 a))"

lemma core_eq_debit_credit:
  assumes "core_eq r1 r2"
  shows "core_eq (debit r1 a v ts) (debit r2 a v ts)" "core_eq (credit r1 a v ts) (credit r2 a v ts)"
  using assms by (auto simp: core_eq_def debit_def credit_def Let_def core_def)

lemma core_eq_apply:
  "core_eq r1 r2 \<Longrightarrow> rel_sum (=) core_eq (apply_transfer r1 tr) (apply_transfer r2 tr)"
  by (simp add: apply_transfer_def core_eq_debit_credit Let_def split: option.split)

lemma core_eq_block:
  "core_eq r1 r2 \<Longrightarrow>
   rel_sum (=) (rel_prod (=) (rel_prod core_eq (=))) (apply_block ts i r1 rest) (apply_block ts i r2 rest)"
proof (induction rest arbitrary: i r1 r2)
  case (Cons tr rest)
  then show ?case
    using core_eq_apply [OF Cons.prems, of tr]
    by (cases "apply_transfer r1 tr"; cases "apply_transfer r2 tr") auto
qed simp

lemma core_eq_settle:
  assumes "core_eq r1 r2"
  shows "rel_sum (=) core_eq (settle r1 ts) (settle r2 ts)"
proof -
  have "balance (standing_at r1 a) = balance (standing_at r2 a)" for a
    using assms by (auto simp: core_eq_def core_def)
  then have "settle_loop r1 ts as = settle_loop r2 ts as" for as
    by (induction as) auto
  with assms show ?thesis
    by (auto simp: settle_def core_eq_def split: option.split)
qed

lemma core_eq_walk:
  "core_eq r1 r2 \<Longrightarrow> rel_sum (=) (rel_prod (=) core_eq) (walk stop i r1 rest) (walk stop i r2 rest)"
proof (induction stop i r1 rest arbitrary: r2 rule: walk.induct)
  case (2 stop i r tr rest)
  show ?case
  proof (cases "stop \<le> T_Timestamp tr")
    case True
    with 2 show ?thesis by simp
  next
    case False
    from core_eq_block [OF "2.prems", of "T_Timestamp tr" i "tr # rest"] show ?thesis
    proof (cases rule: rel_sum.cases)
      case (2 x y)
      then obtain i' s1 s2 rest' where x: "x = (i', s1, rest')" "y = (i', s2, rest')" and s: "core_eq s1 s2"
        by (cases x; cases y) auto
      from core_eq_settle [OF s, of "T_Timestamp tr"] show ?thesis
      proof (cases rule: rel_sum.cases)
        case (2 u v)
        then show ?thesis
          using False x \<open>apply_block (T_Timestamp tr) i r (tr # rest) = Inr x\<close>
            \<open>apply_block (T_Timestamp tr) i r2 (tr # rest) = Inr y\<close> "2.IH"
          by simp
      qed (use False x 2 in simp)
    qed (use False in simp)
  qed
qed simp

text \<open>A walk to a later instant is the walk to an earlier one, resumed.\<close>

lemma apply_block_drop:
  "apply_block ts i r rest = Inr (i', r', rest') \<Longrightarrow> i \<le> i' \<and> rest' = drop (i' - i) rest"
proof (induction rest arbitrary: i r)
  case (Cons tr rest)
  show ?case
  proof (cases "T_Timestamp tr = ts")
    case True
    with Cons.prems obtain r1 where "apply_block ts (Suc i) r1 rest = Inr (i', r', rest')"
      by (auto split: sum.splits)
    from Cons.IH [OF this] show ?thesis by (simp add: drop_Cons')
  next
    case False
    with Cons.prems show ?thesis by simp
  qed
qed simp

lemma walk_ge: "walk stop i r rest = Inr (i', r') \<Longrightarrow> i \<le> i'"
  by (induction stop i r rest rule: walk.induct)
    (fastforce split: if_splits sum.splits prod.splits dest: apply_block_drop simp del: apply_block.simps)+

lemma walk_resume:
  "stop \<le> stop' \<Longrightarrow> walk stop' i r rest =
     (case walk stop i r rest of Inl e \<Rightarrow> Inl e | Inr (i', r') \<Rightarrow> walk stop' i' r' (drop (i' - i) rest))"
proof (induction stop i r rest rule: walk.induct)
  case (2 stop i r tr rest)
  show ?case
  proof (cases "T_Timestamp tr < stop")
    case False
    then show ?thesis by simp
  next
    case True
    show ?thesis
    proof (cases "apply_block (T_Timestamp tr) i r (tr # rest)")
      case (Inl e)
      with True 2 show ?thesis by simp
    next
      case (Inr x)
      then obtain j s rest' where x: "apply_block (T_Timestamp tr) i r (tr # rest) = Inr (j, s, rest')"
        by (metis surj_pair)
      with apply_block_drop have rest': "i \<le> j" "rest' = drop (j - i) (tr # rest)" by blast+
      show ?thesis
      proof (cases "settle s (T_Timestamp tr)")
        case (Inl e)
        with True x 2 show ?thesis by simp
      next
        case (Inr s')
        have "walk stop' j s' rest' = (case walk stop j s' rest' of Inl e \<Rightarrow> Inl e
            | Inr (i', r') \<Rightarrow> walk stop' i' r' (drop (i' - j) rest'))"
          using "2.IH" [OF _ x refl refl Inr "2.prems"] True by simp
        moreover have "drop (i' - j) rest' = drop (i' - i) (tr # rest)" if "j \<le> i'" for i'
          using rest' that by (simp del: drop_Suc_Cons)
        ultimately show ?thesis
          using True x Inr "2.prems" walk_ge [of stop j s' rest']
          by (auto split: sum.splits)
      qed
    qed
  qed
qed simp

lemma core_eq_sym: "core_eq r1 r2 \<Longrightarrow> core_eq r2 r1"
  and core_eq_trans: "core_eq r1 r2 \<Longrightarrow> core_eq r2 r3 \<Longrightarrow> core_eq r1 r3"
  by (auto simp: core_eq_def)

lemma open_window_core:
  assumes "lists_ok r"
  shows "core_eq (open_window r w) r"
proof -
  have lists: "distinct (active r)" "\<forall>a \<in> set (active r). listed (standing_at (r\<lparr>r_window := w\<rparr>) a)"
    using assms by (auto simp: lists_ok_def) (metis)
  from open_loop_state [OF lists, of w "[]"] show ?thesis
    by (auto simp: open_window_def case_prod_beta core_eq_def core_def reopened_def)
qed

lemma holders_core:
  assumes "lists_ok r" "sorted excluded"
  shows "core_eq (fst (holders r excluded)) r"
  using assms holders_loop_state [of "active r" excluded r "[]"]
  by (auto simp: holders_def case_prod_beta core_eq_def core_def closed_def lists_ok_def Let_def)

section \<open>The ledger's invariant\<close>

text \<open>
  The transfers applied so far are \<open>P\<close>, the walk has reached the instant \<open>reached\<close>, and a replay of
  the whole history would be at the same place in a state that agrees with the ledger's.
\<close>

definition at_instant :: "transfer list \<Rightarrow> ledger \<Rightarrow> int64 \<Rightarrow> bool" where
  "at_instant P l reached \<longleftrightarrow>
     (\<forall>x \<in> set P. T_Timestamp x < reached) \<and>
     (\<forall>e. epoch_ok e \<longrightarrow> l_floor l \<le> e \<longrightarrow> reached \<le> Start (WindowOf e)) \<and>
     (\<forall>w stop. reached \<le> stop \<longrightarrow> (\<exists>r0. core_eq r0 (l_state l) \<and>
        walk stop 0 (init_state w) (ordered l) = walk stop (l_next l) r0 (drop (l_next l) (ordered l))))"

definition ledger_ok :: "transfer list \<Rightarrow> exclusion list \<Rightarrow> ledger \<Rightarrow> bool" where
  "ledger_ok trs xs l \<longleftrightarrow>
     ordered l = sortedByTimestamp trs \<and> l_exclusions l = xs \<and> failed l = None \<and>
     (let P = take (l_next l) (ordered l); rest = drop (l_next l) (ordered l) in
        l_next l \<le> length (ordered l) \<and> usable P \<and> carried_ok P (l_state l) \<and>
        (\<forall>x \<in> set P. \<forall>y \<in> set rest. T_Timestamp x < T_Timestamp y) \<and>
        (\<exists>reached. at_instant P l reached))"

lemma carried_ok_init: "carried_ok [] (init_state w)"
  using state_ok_init [of w] by (auto simp: carried_ok_def state_ok_def standing_ok_def init_state_def
    standing_at_def new_standing_def lists_ok_def Let_def split: if_splits)

lemma core_eq_init: "core_eq (init_state w) (init_state w')"
  by (simp add: core_eq_def init_state_def standing_at_def)

lemma ledger_ok_New: "ledger_ok trs xs (NewLedger trs xs)"
  unfolding ledger_ok_def NewLedger_def at_instant_def
  using carried_ok_init window_bounds(1) by (auto simp: Let_def intro!: exI [of _ 0]) (use core_eq_init in blast)

lemma epoch_next:
  assumes "epoch_ok e" "epoch_ok e'" "e + 1 \<le> e'"
  shows "End (WindowOf e) \<le> Start (WindowOf e')"
proof -
  have "uint (e + 1) = uint e + 1"
    using assms(1) by (simp add: epoch_ok_def uint_word_ariths)
  then show ?thesis
    using assms(3) by (simp add: WindowOf_ok assms word_le_def)
qed

lemma dropWhile_from:
  "sorted (map T_Timestamp xs) \<Longrightarrow> y \<in> set (dropWhile (\<lambda>x. T_Timestamp x < stop) xs) \<Longrightarrow>
   stop \<le> T_Timestamp y"
  by (induction xs) (auto split: if_splits)

lemma before_split:
  assumes "sorted (map T_Timestamp (P @ rest))" "\<forall>x \<in> set P. T_Timestamp x < stop"
  shows "P @ takeWhile (\<lambda>x. T_Timestamp x < stop) rest = before stop (P @ rest)"
  using before_sorted [OF assms(1), of stop] assms(2) by simp


lemma Advance_walk_ok:
  assumes ok: "ledger_ok trs xs l" and e: "epoch_ok e" "l_floor l \<le> e" and times: "times_ok trs"
  defines "w \<equiv> WindowOf e" and "rest \<equiv> drop (l_next l) (ordered l)"
  defines "Q \<equiv> takeWhile (\<lambda>x. T_Timestamp x < End w) rest" and "P \<equiv> take (l_next l) (ordered l)"
  shows "P @ Q = before (End w) (sortedByTimestamp trs)"
    and "if history_ok (End w) trs
     then \<exists>r. walk (End w) (l_next l) (open_window (l_state l) w) rest = Inr (l_next l + length Q, r)
        \<and> state_ok w (P @ Q) r \<and> moved r = []
     else \<exists>err. walk (End w) (l_next l) (open_window (l_state l) w) rest = Inl err"
proof -
  obtain reached where reached: "at_instant P l reached"
    using ok by (auto simp: ledger_ok_def Let_def P_def)
  then have past: "\<forall>x \<in> set P. T_Timestamp x < Start w"
    using e by (fastforce simp: at_instant_def w_def)
  have sorted: "sorted (map T_Timestamp (P @ rest))"
    using ok by (simp add: ledger_ok_def P_def rest_def)
  have "ordered l = sortedByTimestamp trs" using ok by (simp add: ledger_ok_def)
  then show PQ: "P @ Q = before (End w) (sortedByTimestamp trs)"
    using before_split [OF sorted, of "End w"] past window_bounds(2) [OF e(1)]
    by (fastforce simp: Q_def P_def rest_def w_def)
  have opened: "state_ok w P (open_window (l_state l) w)" "moved (open_window (l_state l) w) = []"
    by (rule open_window_ok, use ok past in \<open>auto simp: ledger_ok_def Let_def P_def\<close>)+
  have "set rest \<subseteq> set (ordered l)" by (simp add: rest_def set_drop_subset)
  then have "times_ok rest"
    using times ok by (auto simp: ledger_ok_def times_ok_def sortedByTimestamp_def)
  then have "if usable (P @ Q)
     then \<exists>r. walk (End w) (l_next l) (open_window (l_state l) w) rest = Inr (l_next l + length Q, r)
        \<and> state_ok w (P @ Q) r \<and> moved r = []
     else \<exists>err. walk (End w) (l_next l) (open_window (l_state l) w) rest = Inl err"
    using ok sorted window_bounds(1) [OF e(1)] unfolding map_append sorted_append
    by (intro walk_ok opened) (auto simp: ledger_ok_def Let_def P_def rest_def w_def Q_def)
  then show "if history_ok (End w) trs
     then \<exists>r. walk (End w) (l_next l) (open_window (l_state l) w) rest = Inr (l_next l + length Q, r)
        \<and> state_ok w (P @ Q) r \<and> moved r = []
     else \<exists>err. walk (End w) (l_next l) (open_window (l_state l) w) rest = Inl err"
    unfolding PQ history_ok_sorted .
qed

lemma Replay_walk:
  assumes ok: "ledger_ok trs xs l" and e: "epoch_ok e" "l_floor l \<le> e" and stop: "Start (WindowOf e) \<le> stop"
  obtains r0 where "core_eq r0 (open_window (l_state l) w')"
    and "walk stop 0 (init_state w) (ordered l) = walk stop (l_next l) r0 (drop (l_next l) (ordered l))"
proof -
  obtain reached where "at_instant (take (l_next l) (ordered l)) l reached"
    using ok by (auto simp: ledger_ok_def Let_def)
  moreover from this e have "reached \<le> Start (WindowOf e)" by (simp add: at_instant_def)
  ultimately obtain r0 where "core_eq r0 (l_state l)"
    "walk stop 0 (init_state w) (ordered l) = walk stop (l_next l) r0 (drop (l_next l) (ordered l))"
    using stop unfolding at_instant_def by (meson order_trans)
  moreover have "core_eq (l_state l) (open_window (l_state l) w')"
    using open_window_core ok by (auto simp: ledger_ok_def carried_ok_def Let_def intro: core_eq_sym)
  ultimately show thesis using that core_eq_trans by blast
qed

lemma Replay_eq:
  "Replay e trs xs = (case walk (End (WindowOf e)) 0 (init_state (WindowOf e)) (sortedByTimestamp trs) of
     Inl err \<Rightarrow> Inl err | Inr (_, r) \<Rightarrow> Inr (snd (holders r (ExcludedAsOf e xs))))"
  by (simp add: Replay_def Let_def)

text \<open>A history refused at one Epoch is refused the same way at every later one.\<close>

lemma Replay_error_mono:
  assumes "Replay e trs xs = Inl err" "End (WindowOf e) \<le> End (WindowOf e')"
  shows "Replay e' trs xs = Inl err"
proof -
  from assms(1) have *: "walk (End (WindowOf e)) 0 (init_state (WindowOf e)) (sortedByTimestamp trs) = Inl err"
    by (auto simp: Replay_eq split: sum.splits)
  have "rel_sum (=) (rel_prod (=) core_eq)
      (walk (End (WindowOf e)) 0 (init_state (WindowOf e)) (sortedByTimestamp trs))
      (walk (End (WindowOf e)) 0 (init_state (WindowOf e')) (sortedByTimestamp trs))"
    by (rule core_eq_walk [OF core_eq_init])
  with * have "walk (End (WindowOf e)) 0 (init_state (WindowOf e')) (sortedByTimestamp trs) = Inl err"
    by (cases "walk (End (WindowOf e)) 0 (init_state (WindowOf e')) (sortedByTimestamp trs)") auto
  then show ?thesis
    by (simp add: Replay_eq walk_resume [OF assms(2)])
qed


lemma Advance_eq:
  assumes "ledger_ok trs xs l" "l_floor l \<le> e"
  shows "Advance l e = (case walk (End (WindowOf e)) (l_next l) (open_window (l_state l) (WindowOf e))
        (drop (l_next l) (ordered l)) of
      Inl err \<Rightarrow> (l\<lparr>failed := Some err\<rparr>, Inl err)
    | Inr (i, st) \<Rightarrow> (l\<lparr>l_state := fst (holders st (ExcludedAsOf e xs)), l_next := i, l_floor := e + 1\<rparr>,
         Inr (snd (holders st (ExcludedAsOf e xs)))))"
  using assms by (auto simp: Advance_def ledger_ok_def Let_def case_prod_beta not_less split: sum.splits)

lemma Advance_result:
  assumes ok: "ledger_ok trs xs l" and e: "epoch_ok e" "l_floor l \<le> e" and times: "times_ok trs"
  shows "snd (Advance l e) = Replay e trs xs"
proof (cases "history_ok (End (WindowOf e)) trs")
  case True
  let ?w = "WindowOf e" and ?P = "before (End (WindowOf e)) (sortedByTimestamp trs)"
  obtain r i where r: "walk (End ?w) (l_next l) (open_window (l_state l) ?w) (drop (l_next l) (ordered l)) = Inr (i, r)"
    "state_ok ?w ?P r"
    using Advance_walk_ok [OF ok e times] True by auto
  have "snd (holders r (ExcludedAsOf e xs)) = replay_spec ?w trs (set (ExcludedAsOf e xs))"
    using True by (intro holders_spec [OF r(2) _ window_bounds(1-3) [OF e(1)] refl]) (simp_all add: history_ok_sorted)
  moreover have "Replay e trs xs = Inr (replay_spec ?w trs (set (ExcludedAsOf e xs)))"
    using Replay_iff [OF e(1) times, of xs] True by (simp add: set_ExcludedAsOf)
  ultimately show ?thesis by (simp add: Advance_eq [OF ok e(2)] r)
next
  case False
  let ?w = "WindowOf e" and ?rest = "drop (l_next l) (ordered l)"
  obtain err where err: "walk (End ?w) (l_next l) (open_window (l_state l) ?w) ?rest = Inl err"
    using Advance_walk_ok(2) [OF ok e times] False by auto
  obtain r0 where r0: "core_eq r0 (open_window (l_state l) ?w)"
    "walk (End ?w) 0 (init_state ?w) (ordered l) = walk (End ?w) (l_next l) r0 ?rest"
    using Replay_walk [OF ok e, of "End ?w" ?w ?w] window_bounds(2) [OF e(1)] by auto
  with core_eq_walk [OF r0(1), of "End ?w" "l_next l" ?rest] err
  have "walk (End ?w) 0 (init_state ?w) (ordered l) = Inl err"
    by (cases "walk (End ?w) (l_next l) r0 ?rest") auto
  moreover have "ordered l = sortedByTimestamp trs" using ok by (simp add: ledger_ok_def)
  ultimately show ?thesis unfolding Advance_eq [OF ok e(2)] err Replay_eq by simp
qed

lemma at_instant_next:
  assumes ok: "ledger_ok trs xs l" and e: "epoch_ok e" "l_floor l \<le> e"
    and walk: "walk (End (WindowOf e)) (l_next l) (open_window (l_state l) (WindowOf e)) (drop (l_next l) (ordered l))
       = Inr (i, r)"
    and core: "core_eq r (l_state l')"
    and l': "ordered l' = ordered l" "l_next l' = i" "l_floor l' = e + 1"
    and P: "\<forall>x \<in> set P. T_Timestamp x < End (WindowOf e)"
  shows "at_instant P l' (End (WindowOf e))"
  unfolding at_instant_def
proof (intro conjI allI impI)
  fix w stop
  assume stop: "End (WindowOf e) \<le> stop"
  let ?rest = "drop (l_next l) (ordered l)"
  obtain r0 where r0: "core_eq r0 (open_window (l_state l) (WindowOf e))"
    "walk stop 0 (init_state w) (ordered l) = walk stop (l_next l) r0 ?rest"
    using Replay_walk [OF ok e, of stop "WindowOf e" w] stop window_bounds(2) [OF e(1)] by auto
  obtain r1 where r1: "walk (End (WindowOf e)) (l_next l) r0 ?rest = Inr (i, r1)" "core_eq r1 r"
    using core_eq_walk [OF r0(1), of "End (WindowOf e)" "l_next l" ?rest] walk
    by (cases "walk (End (WindowOf e)) (l_next l) r0 ?rest") auto
  have "walk stop (l_next l) r0 ?rest = walk stop i r1 (drop (i - l_next l) ?rest)"
    by (simp add: walk_resume [OF stop] r1)
  moreover have "drop (i - l_next l) ?rest = drop i (ordered l)"
    using walk_ge [OF walk] by simp
  ultimately show "\<exists>r0. core_eq r0 (l_state l') \<and>
      walk stop 0 (init_state w) (ordered l') = walk stop (l_next l') r0 (drop (l_next l') (ordered l'))"
    using r0(2) core_eq_trans [OF r1(2) core] l' by auto
qed (use P l' epoch_next [OF e(1)] in auto)

lemma Advance_ok:
  assumes ok: "ledger_ok trs xs l" and e: "epoch_ok e" "l_floor l \<le> e" and times: "times_ok trs"
    and hist: "history_ok (End (WindowOf e)) trs"
  shows "ledger_ok trs xs (fst (Advance l e))" "l_floor (fst (Advance l e)) = e + 1"
proof -
  let ?w = "WindowOf e" and ?P = "before (End (WindowOf e)) (sortedByTimestamp trs)"
  let ?Q = "takeWhile (\<lambda>x. T_Timestamp x < End ?w) (drop (l_next l) (ordered l))"
  have PQ: "take (l_next l) (ordered l) @ ?Q = ?P" using Advance_walk_ok(1) [OF ok e times] .
  obtain r where r: "walk (End ?w) (l_next l) (open_window (l_state l) ?w) (drop (l_next l) (ordered l))
      = Inr (l_next l + length ?Q, r)" "state_ok ?w ?P r" "moved r = []"
    using Advance_walk_ok(2) [OF ok e times] hist PQ by auto
  define l' where "l' = l\<lparr>l_state := fst (holders r (ExcludedAsOf e xs)), l_next := l_next l + length ?Q, l_floor := e + 1\<rparr>"
  have adv: "fst (Advance l e) = l'" by (simp add: Advance_eq [OF ok e(2)] r(1) l'_def)
  then show "l_floor (fst (Advance l e)) = e + 1" by (simp add: l'_def)
  have l: "ordered l = sortedByTimestamp trs" "l_next l \<le> length (ordered l)"
    "l_exclusions l = xs" "failed l = None"
    using ok by (auto simp: ledger_ok_def Let_def)
  have next_le: "l_next l' \<le> length (ordered l')"
    using l(2) length_takeWhile_le [of "\<lambda>x. T_Timestamp x < End ?w" "drop (l_next l) (ordered l)"]
    by (simp add: l'_def le_diff_conv2 add.commute)
  have split: "?P = takeWhile (\<lambda>x. T_Timestamp x < End ?w) (ordered l)"
    by (simp add: l before_sorted)
  have len: "l_next l' = length ?P" using arg_cong [OF PQ, of length] l(2) by (simp add: l'_def)
  have take: "take (l_next l') (ordered l') = ?P"
    unfolding len split by (simp add: l'_def takeWhile_eq_take [symmetric])
  have drop: "drop (l_next l') (ordered l') = dropWhile (\<lambda>x. T_Timestamp x < End ?w) (ordered l)"
    unfolding len split by (simp add: l'_def dropWhile_eq_drop [symmetric])
  have sep: "\<forall>x \<in> set ?P. \<forall>y \<in> set (drop (l_next l') (ordered l')). T_Timestamp x < T_Timestamp y"
  proof (intro ballI)
    fix x y assume "x \<in> set ?P" "y \<in> set (drop (l_next l') (ordered l'))"
    then have "T_Timestamp x < End ?w" "End ?w \<le> T_Timestamp y"
      using dropWhile_from [of "ordered l" y "End ?w"] l(1) by (simp_all add: drop before_def)
    then show "T_Timestamp x < T_Timestamp y" by simp
  qed
  have "core_eq r (l_state l')"
    using holders_core [of r "ExcludedAsOf e xs"] r(2) by (simp add: l'_def state_ok_def core_eq_sym)
  then have "at_instant ?P l' (End ?w)"
    by (rule at_instant_next [OF ok e r(1)]) (simp_all add: l'_def before_def)
  moreover have "carried_ok ?P (l_state l')"
    using holders_carried_ok [OF r(2,3)] by (simp add: l'_def)
  ultimately show "ledger_ok trs xs (fst (Advance l e))"
    using l hist next_le sep unfolding adv ledger_ok_def Let_def take
    by (auto simp: l'_def history_ok_sorted)
qed


lemma advance_all_failed: "failed l = Some err \<Longrightarrow> advance_all l es = map (\<lambda>_. Inl err) es"
  by (induction es) (simp_all add: Advance_def)

lemma End_mono: "epoch_ok e \<Longrightarrow> epoch_ok e' \<Longrightarrow> e \<le> e' \<Longrightarrow> End (WindowOf e) \<le> End (WindowOf e')"
  by (simp add: WindowOf_ok word_le_def)

lemma advance_all_agrees:
  "ledger_ok trs xs l \<Longrightarrow> times_ok trs \<Longrightarrow> sorted_wrt (<) es \<Longrightarrow> \<forall>e \<in> set es. epoch_ok e \<and> l_floor l \<le> e \<Longrightarrow>
   advance_all l es = map (\<lambda>e. Replay e trs xs) es"
proof (induction es arbitrary: l)
  case (Cons e es)
  then have e: "epoch_ok e" "l_floor l \<le> e" by simp_all
  note res = Advance_result [OF Cons.prems(1) e Cons.prems(2)]
  show ?case
  proof (cases "Replay e trs xs")
    case (Inl err)
    with res have "snd (Advance l e) = Inl err" by simp
    then have "failed (fst (Advance l e)) = Some err"
      using Cons.prems(1) e(2) by (auto simp: Advance_eq split: sum.splits prod.splits)
    moreover have "Replay e' trs xs = Inl err" if "e' \<in> set es" for e'
      by (rule Replay_error_mono [OF Inl], rule End_mono) (use Cons.prems that in auto)
    ultimately show ?thesis
      using res by (simp add: case_prod_beta advance_all_failed Inl)
  next
    case (Inr hs)
    then have "history_ok (End (WindowOf e)) trs"
      using Replay_iff [OF e(1) Cons.prems(2)] by simp
    note ok = Advance_ok [OF Cons.prems(1) e Cons.prems(2) this]
    have "\<forall>e' \<in> set es. epoch_ok e' \<and> e + 1 \<le> e'"
      using Cons.prems(3,4) by (auto simp: inc_le)
    with Cons.IH [OF ok(1) Cons.prems(2)] ok(2) Cons.prems(3) res show ?thesis
      by (simp add: case_prod_beta)
  qed
qed simp

section \<open>Properties\<close>

text \<open>
  C4. A \<open>Ledger\<close> over a history, advanced over any ascending sequence of Epochs, gaps included,
  returns at each of them what \<open>Replay\<close> returns over the same history: the same Holders in the
  same order, or the same refusal.
\<close>

theorem Ledger_agrees_with_Replay:
  assumes "times_ok trs" "sorted_wrt (<) es" "\<forall>e \<in> set es. epoch_ok e"
  shows "advance_all (NewLedger trs xs) es = map (\<lambda>e. Replay e trs xs) es"
  using advance_all_agrees [OF ledger_ok_New assms(1,2)] assms(3)
  by (simp add: NewLedger_def)

theorem Ledger_agrees_with_Replay_witness:
  "advance_all (NewLedger demo_transfers demo_exclusions) [1000, 1002] =
   map (\<lambda>e. Replay e demo_transfers demo_exclusions) [1000, 1002]"
  by (rule Ledger_agrees_with_Replay [OF demo_times]) simp_all

text \<open>
  A \<open>Ledger\<close> never goes back: once it has closed an Epoch, asking for that Epoch or an
  earlier one is refused, and the refusal changes nothing.
\<close>

theorem Advance_never_revisits:
  assumes "snd (Advance l e) = Inr hs" "uint e + 1 < 2 ^ 64" "e' \<le> e"
  shows "Advance (fst (Advance l e)) e' = (fst (Advance l e), Inl (EpochClosed e' (e + 1)))"
proof -
  have "e' < e + 1" using assms(2,3) by (simp add: word_less_def word_le_def uint_plus_if')
  with assms(1) show ?thesis
    by (auto simp: Advance_def Let_def split: sum.splits prod.splits option.splits if_splits)
qed

theorem Advance_never_revisits_witness:
  "Advance (fst (Advance (NewLedger demo_transfers demo_exclusions) 1000)) 1000 =
   (fst (Advance (NewLedger demo_transfers demo_exclusions) 1000), Inl (EpochClosed 1000 1001))"
proof -
  have "snd (Advance (NewLedger demo_transfers demo_exclusions) 1000) =
     Inr [\<lparr>H_Account = 1, TWAB = 5400, FirstBuyAt = 3600000, LastSellAt = 3601800\<rparr>,
          \<lparr>H_Account = 2, TWAB = 1800, FirstBuyAt = 3601800, LastSellAt = 0\<rparr>]"
    by code_simp
  from Advance_never_revisits [OF this, of 1000] show ?thesis by simp
qed

end
