(* ===== verification/Strings.thy ===== *)
theory Strings
  imports Prelude
begin

text \<open>
  The text the program reads and writes: positional digits (\<open>strconv.FormatUint\<close>,
  \<open>strconv.ParseUint\<close>, \<open>big.Int.String\<close>) and hexadecimal byte strings (\<open>encoding/hex\<close>).
  A Go string is the list of its bytes as characters. Each writer comes with its reader and
  the two are shown inverse, so the writers are injective.
\<close>

section \<open>Digits\<close>

definition digit_char :: "nat \<Rightarrow> char" where
  "digit_char d = char_of (if d < 10 then 48 + d else 87 + d)"

definition hex_value :: "char \<Rightarrow> nat option" where
  "hex_value c =
     (let n = of_char c :: nat
      in if 48 \<le> n \<and> n \<le> 57 then Some (n - 48)
         else if 97 \<le> n \<and> n \<le> 102 then Some (n - 87)
         else if 65 \<le> n \<and> n \<le> 70 then Some (n - 55)
         else None)"

lemma hex_value_digit [simp]: "d < 16 \<Longrightarrow> hex_value (digit_char d) = Some d"
  by (simp add: hex_value_def digit_char_def Let_def)

lemma hex_value_less: "hex_value c = Some d \<Longrightarrow> d < 16"
  by (auto simp: hex_value_def Let_def split: if_splits)

lemma digit_char_inject: "d < 16 \<Longrightarrow> d' < 16 \<Longrightarrow> digit_char d = digit_char d' \<longleftrightarrow> d = d'"
  by (metis hex_value_digit option.inject)

text \<open>The digits of a number, most significant first; zero is one digit.\<close>

function digits :: "nat \<Rightarrow> nat \<Rightarrow> nat list" where
  "digits b n = (if n < b \<or> b < 2 then [n] else digits b (n div b) @ [n mod b])"
  by pat_completeness auto
termination
  by (relation "measure snd") auto

declare digits.simps [simp del]

definition of_digits :: "nat \<Rightarrow> nat list \<Rightarrow> nat" where
  "of_digits b ds = foldl (\<lambda>n d. n * b + d) 0 ds"

lemma of_digits_snoc [simp]: "of_digits b (ds @ [d]) = of_digits b ds * b + d"
  by (simp add: of_digits_def)

lemma of_digits_digits [simp]: "of_digits b (digits b n) = n"
proof (induction b n rule: digits.induct)
  case (1 b n)
  show ?case
  proof (cases "n < b \<or> b < 2")
    case True
    then show ?thesis by (simp add: digits.simps [of b n] of_digits_def)
  next
    case False
    with 1 show ?thesis by (simp add: digits.simps [of b n])
  qed
qed

lemma digits_bound: "2 \<le> b \<Longrightarrow> d \<in> set (digits b n) \<Longrightarrow> d < b"
proof (induction b n rule: digits.induct)
  case (1 b n)
  show ?case
  proof (cases "n < b")
    case True
    with 1 show ?thesis by (simp add: digits.simps [of b n])
  next
    case False
    with 1 show ?thesis by (auto simp: digits.simps [of b n])
  qed
qed

lemma digits_not_Nil [simp]: "digits b n \<noteq> []"
  by (simp add: digits.simps [of b n])

lemma digits_inject: "digits b m = digits b n \<longleftrightarrow> m = n"
  by (metis of_digits_digits)

section \<open>Decimal numbers\<close>

definition dec :: "nat \<Rightarrow> string" where
  "dec n = map digit_char (digits 10 n)"

text \<open>\<open>big.Int.String\<close>, and \<open>%d\<close> of a signed integer.\<close>

definition dec_int :: "int \<Rightarrow> string" where
  "dec_int x = (if x < 0 then CHR ''-'' # dec (nat (- x)) else dec (nat x))"

lemma map_digit_char_inject:
  "\<forall>d \<in> set xs. d < 16 \<Longrightarrow> \<forall>d \<in> set ys. d < 16 \<Longrightarrow>
   map digit_char xs = map digit_char ys \<longleftrightarrow> xs = ys"
  by (rule inj_on_map_eq_map, rule inj_onI) (auto simp: digit_char_inject)

lemma digits_hex_bound: "2 \<le> b \<Longrightarrow> b \<le> 16 \<Longrightarrow> \<forall>d \<in> set (digits b n). d < 16"
  using digits_bound by fastforce

lemma dec_inject [simp]: "dec m = dec n \<longleftrightarrow> m = n"
  unfolding dec_def by (subst map_digit_char_inject) (simp_all add: digits_hex_bound [of 10, simplified] digits_inject)

lemma dec_not_minus: "dec n \<noteq> CHR ''-'' # s"
proof
  assume "dec n = CHR ''-'' # s"
  then have "CHR ''-'' \<in> set (dec n)" by simp
  then obtain d where "d < 10" "CHR ''-'' = digit_char d"
    using digits_bound [of 10 _ n] by (auto simp: dec_def)
  then have "(of_char (CHR ''-'') :: nat) = 48 + d" by (simp add: digit_char_def)
  then show False by simp
qed

lemma dec_int_inject [simp]: "dec_int x = dec_int y \<longleftrightarrow> x = y"
  using dec_not_minus [of "nat x"] dec_not_minus [of "nat y"]
  by (auto simp: dec_int_def dest: sym)

section \<open>Hexadecimal numbers\<close>

text \<open>\<open>strconv.FormatUint(n, 16)\<close> and the scanning loop of \<open>strconv.ParseUint(s, 16, 64)\<close>.\<close>

datatype num_error = ErrSyntax | ErrRange

definition FormatUint16 :: "uint64 \<Rightarrow> string" where
  "FormatUint16 n = map digit_char (digits 16 (unat n))"

fun parse_uint_loop :: "nat \<Rightarrow> string \<Rightarrow> num_error + nat" where
  "parse_uint_loop n [] = Inr n"
| "parse_uint_loop n (c # cs) =
     (case hex_value c of
        None \<Rightarrow> Inl ErrSyntax
      | Some d \<Rightarrow> if n \<ge> 2 ^ 60 then Inl ErrRange else parse_uint_loop (n * 16 + d) cs)"

definition ParseUint16 :: "string \<Rightarrow> num_error + uint64" where
  "ParseUint16 s =
     (if s = [] then Inl ErrSyntax
      else case parse_uint_loop 0 s of Inl e \<Rightarrow> Inl e | Inr n \<Rightarrow> Inr (of_nat n))"

lemma parse_uint_loop_digits:
  "\<forall>d \<in> set ds. d < 16 \<Longrightarrow> foldl (\<lambda>n d. n * 16 + d) n ds < 2 ^ 64 \<Longrightarrow>
   parse_uint_loop n (map digit_char ds) = Inr (foldl (\<lambda>n d. n * 16 + d) n ds)"
proof (induction ds arbitrary: n)
  case (Cons d ds)
  have mono: "n * 16 + d \<le> foldl (\<lambda>n d. n * 16 + d) (n * 16 + d) ds"
  proof -
    have "m \<le> foldl (\<lambda>n d. n * 16 + d) m ds" for m :: nat
    proof (induction ds arbitrary: m)
      case (Cons d ds)
      show ?case using Cons [of "m * 16 + d"] by simp
    qed simp
    then show ?thesis .
  qed
  then have "n < 2 ^ 60" using Cons.prems(2) by simp
  with Cons show ?case by simp
qed simp

lemma ParseUint16_FormatUint16 [simp]: "ParseUint16 (FormatUint16 n) = Inr n"
proof -
  have "unat n < 2 ^ 64" using unsigned_less [where 'a = nat, of n] by simp
  then have "parse_uint_loop 0 (map digit_char (digits 16 (unat n))) = Inr (unat n)"
    using parse_uint_loop_digits [of "digits 16 (unat n)" 0] digits_bound [of 16 _ "unat n"]
      of_digits_digits [of 16 "unat n"]
    by (simp add: of_digits_def)
  then show ?thesis by (simp add: ParseUint16_def FormatUint16_def)
qed

section \<open>Hexadecimal bytes\<close>

definition hex_encode :: "byte list \<Rightarrow> string" where
  "hex_encode bs = concat (map (\<lambda>b. [digit_char (unat b div 16), digit_char (unat b mod 16)]) bs)"

fun hex_decode :: "string \<Rightarrow> byte list option" where
  "hex_decode [] = Some []"
| "hex_decode [c] = None"
| "hex_decode (c # d # cs) =
     (case (hex_value c, hex_value d) of
        (Some h, Some l) \<Rightarrow> map_option (\<lambda>bs. of_nat (h * 16 + l) # bs) (hex_decode cs)
      | _ \<Rightarrow> None)"

lemma hex_encode_simps [simp]:
  "hex_encode [] = []"
  "hex_encode (b # bs) = digit_char (unat b div 16) # digit_char (unat b mod 16) # hex_encode bs"
  by (simp_all add: hex_encode_def)

lemma length_hex_encode [simp]: "length (hex_encode bs) = 2 * length bs"
  by (induction bs) simp_all

lemma hex_decode_encode [simp]: "hex_decode (hex_encode bs) = Some bs"
proof (induction bs)
  case (Cons b bs)
  have "unat b div 16 < 16" using unat_byte_less [of b] by (simp add: less_mult_imp_div_less)
  with Cons show ?case by simp
qed simp

lemma hex_encode_inject [simp]: "hex_encode as = hex_encode bs \<longleftrightarrow> as = bs"
  by (metis hex_decode_encode option.inject)

lemma length_hex_decode: "hex_decode s = Some bs \<Longrightarrow> length s = 2 * length bs"
  by (induction s arbitrary: bs rule: hex_decode.induct) (auto split: option.splits)

definition hexOf :: "byte list \<Rightarrow> string" where
  "hexOf bs = ''0x'' @ hex_encode bs"

lemma hexOf_inject [simp]: "hexOf as = hexOf bs \<longleftrightarrow> as = bs"
  by (simp add: hexOf_def)

end
