(* ===== verification/Merkle.thy ===== *)
theory Merkle
  imports Strings
begin

text \<open>
  Package \<open>merkle\<close> (\<open>merkle/merkle.go\<close>, \<open>merkle/tree.go\<close>, \<open>merkle/dump.go\<close>): the leaf encoding, the
  flat complete tree, its proofs and its dump.

  \<open>sha3.NewLegacyKeccak256\<close> is a package outside the repository. It is the parameter
  \<open>keccak :: byte list \<Rightarrow> hash\<close> of every definition that hashes: a streaming hash is a function
  of the bytes written to it. Nothing is assumed of it, but in the soundness theorem, whose
  hypothesis is that it has no collision among the byte strings that the tree and the proof hash.

  Slice writes out of range would panic; \<open>New_shape\<close> shows that none of the indices used
  leaves its slice.
\<close>

section \<open>Claims\<close>

text \<open>The five reward tokens, in the order of the arrays \<open>[AmountCount]*big.Int\<close>.\<close>

datatype token = SPY | NVDA | MU | SPCX | USDG

definition tokens :: "token list" where
  "tokens = [SPY, NVDA, MU, SPCX, USDG]"

instantiation token :: enum
begin

definition enum_token :: "token list" where
  "enum_token = tokens"

definition enum_all_token :: "(token \<Rightarrow> bool) \<Rightarrow> bool" where
  "enum_all_token P \<longleftrightarrow> list_all P tokens"

definition enum_ex_token :: "(token \<Rightarrow> bool) \<Rightarrow> bool" where
  "enum_ex_token P \<longleftrightarrow> list_ex P tokens"

instance
proof
  have univ: "(UNIV :: token set) = set tokens"
  proof (rule UNIV_eq_I)
    fix t show "t \<in> set tokens" by (cases t) (simp_all add: tokens_def)
  qed
  show "(UNIV :: token set) = set enum_class.enum" by (simp add: univ enum_token_def)
  show "distinct (enum_class.enum :: token list)" by (simp add: enum_token_def tokens_def)
  show "enum_class.enum_all P \<longleftrightarrow> Ball UNIV P" for P :: "token \<Rightarrow> bool"
    by (simp add: enum_all_token_def univ list_all_iff)
  show "enum_class.enum_ex P \<longleftrightarrow> Bex UNIV P" for P :: "token \<Rightarrow> bool"
    by (simp add: enum_ex_token_def univ list_ex_iff)
qed

end

lemma set_tokens [simp]: "set tokens = UNIV"
  using enum_UNIV [where 'a = token] by (simp add: enum_token_def)

lemma length_tokens [simp]: "length tokens = 5"
  by (simp add: tokens_def)

type_synonym amounts = "token \<Rightarrow> bigint"

record claim =
  C_ID :: bigint
  C_Account :: address
  C_Amounts :: amounts

datatype amount_error = ErrNilAmount | ErrNegativeAmount | TooManyBits nat
datatype claim_error = IdError amount_error | AmountError nat amount_error
datatype merkle_error = ErrNoClaims | ClaimError nat claim_error

text \<open>\<open>big.Int.BitLen\<close>.\<close>

fun bit_len :: "nat \<Rightarrow> nat" where
  "bit_len n = (if n = 0 then 0 else Suc (bit_len (n div 2)))"

declare bit_len.simps [simp del]

definition putUint256 :: "bigint \<Rightarrow> amount_error + byte list" where
  "putUint256 x =
     (case x of
        None \<Rightarrow> Inl ErrNilAmount
      | Some v \<Rightarrow>
          if v < 0 then Inl ErrNegativeAmount
          else if bit_len (nat v) > 256 then Inl (TooManyBits (bit_len (nat v)))
          else Inr (be_bytes 32 (nat v)))"

fun encode_amounts :: "nat \<Rightarrow> bigint list \<Rightarrow> claim_error + byte list" where
  "encode_amounts i [] = Inr []"
| "encode_amounts i (amount # rest) =
     (case putUint256 amount of
        Inl e \<Rightarrow> Inl (AmountError i e)
      | Inr w \<Rightarrow> (case encode_amounts (Suc i) rest of Inl e \<Rightarrow> Inl e | Inr ws \<Rightarrow> Inr (w @ ws)))"

definition encode :: "claim \<Rightarrow> claim_error + byte list" where
  "encode c =
     (case putUint256 (C_ID c) of
        Inl e \<Rightarrow> Inl (IdError e)
      | Inr w \<Rightarrow>
          (case encode_amounts 0 (map (C_Amounts c) tokens) of
             Inl e \<Rightarrow> Inl e
           | Inr ws \<Rightarrow> Inr (w @ replicate 12 0 @ addr_bytes (C_Account c) @ ws)))"

section \<open>The tree\<close>

type_synonym keccak = "byte list \<Rightarrow> hash"

definition keccak256 :: "keccak \<Rightarrow> byte list list \<Rightarrow> hash" where
  "keccak256 k parts = k (concat parts)"

definition leafHashOf :: "keccak \<Rightarrow> byte list \<Rightarrow> hash" where
  "leafHashOf k encoded = keccak256 k [hash_bytes (keccak256 k [encoded])]"

definition hashPair :: "keccak \<Rightarrow> hash \<Rightarrow> hash \<Rightarrow> hash" where
  "hashPair k a b =
     (if bytes_compare (hash_bytes a) (hash_bytes b) > 0
      then keccak256 k [hash_bytes b, hash_bytes a]
      else keccak256 k [hash_bytes a, hash_bytes b])"

record hashed =
  l_hash :: hash
  claimIndex :: nat

record tree =
  nodes :: "hash list"
  leafAt :: "nat list"
  encoded :: "byte list list"

fun hash_claims ::
  "keccak \<Rightarrow> nat \<Rightarrow> claim list \<Rightarrow> merkle_error + hashed list \<times> byte list list" where
  "hash_claims k i [] = Inr ([], [])"
| "hash_claims k i (c # cs) =
     (case encode c of
        Inl e \<Rightarrow> Inl (ClaimError i e)
      | Inr e \<Rightarrow>
          (case hash_claims k (Suc i) cs of
             Inl err \<Rightarrow> Inl err
           | Inr (ls, es) \<Rightarrow> Inr (\<lparr>l_hash = leafHashOf k e, claimIndex = i\<rparr> # ls, e # es)))"

text \<open>Leaves fill the tail back to front.\<close>

fun place :: "nat \<Rightarrow> hashed list \<Rightarrow> tree \<Rightarrow> tree" where
  "place i [] t = t"
| "place i (leaf # rest) t =
     (let at = length (nodes t) - 1 - i
      in place (Suc i) rest
           (t\<lparr>nodes := (nodes t)[at := l_hash leaf], leafAt := (leafAt t)[claimIndex leaf := at]\<rparr>))"

text \<open>The loop that counts \<open>i\<close> down to zero: the argument is the number of nodes left to fill.\<close>

fun build :: "keccak \<Rightarrow> nat \<Rightarrow> hash list \<Rightarrow> hash list" where
  "build k 0 ns = ns"
| "build k (Suc i) ns = build k i (ns[i := hashPair k (ns ! (2 * i + 1)) (ns ! (2 * i + 2))])"

definition New :: "keccak \<Rightarrow> claim list \<Rightarrow> merkle_error + tree" where
  "New k claims =
     (if claims = [] then Inl ErrNoClaims
      else case hash_claims k 0 claims of
             Inl e \<Rightarrow> Inl e
           | Inr (leaves, es) \<Rightarrow>
               let sorted_leaves = sort_key l_hash leaves;
                   t0 = \<lparr>nodes = replicate (2 * length claims - 1) 0,
                         leafAt = replicate (length claims) 0, encoded = es\<rparr>;
                   t1 = place 0 sorted_leaves t0
               in Inr (t1\<lparr>nodes := build k (length (nodes t1) - length sorted_leaves) (nodes t1)\<rparr>))"

definition Len :: "tree \<Rightarrow> nat" where
  "Len t = length (leafAt t)"

definition Root :: "tree \<Rightarrow> hash" where
  "Root t = nodes t ! 0"

definition Leaf :: "tree \<Rightarrow> nat \<Rightarrow> hash" where
  "Leaf t i = nodes t ! (leafAt t ! i)"

definition siblingIndex :: "nat \<Rightarrow> nat" where
  "siblingIndex at = (if at mod 2 = 0 then at - 1 else at + 1)"

fun proof_from :: "'h list \<Rightarrow> nat \<Rightarrow> 'h list" where
  "proof_from ns at = (if at = 0 then [] else ns ! siblingIndex at # proof_from ns ((at - 1) div 2))"

declare proof_from.simps [simp del]

definition Proof :: "tree \<Rightarrow> nat \<Rightarrow> hash list" where
  "Proof t i = proof_from (nodes t) (leafAt t ! i)"

definition Verify :: "keccak \<Rightarrow> hash \<Rightarrow> hash \<Rightarrow> hash list \<Rightarrow> bool" where
  "Verify k root leaf pf \<longleftrightarrow> foldl (hashPair k) leaf pf = root"

section \<open>The dump\<close>

record dumpValue =
  V_id :: string
  V_account :: string
  V_amounts :: "string list"
  V_treeIndex :: nat

record dump =
  D_Format :: string
  D_LeafEncoding :: "string list"
  D_Tree :: "string list"
  D_Values :: "dumpValue list"

definition set_bytes_string :: "byte list \<Rightarrow> string" where
  "set_bytes_string bs = dec (be_nat bs)"

definition dump_value :: "tree \<Rightarrow> nat \<Rightarrow> dumpValue" where
  "dump_value t i =
     (let e = encoded t ! i
      in \<lparr>V_id = set_bytes_string (take 32 e),
          V_account = hexOf (take 20 (drop 44 e)),
          V_amounts = map (\<lambda>j. set_bytes_string (take 32 (drop ((2 + j) * 32) e))) [0..<5],
          V_treeIndex = leafAt t ! i\<rparr>)"

definition Dump :: "tree \<Rightarrow> dump" where
  "Dump t =
     \<lparr>D_Format = ''standard-v1'', D_LeafEncoding = [''uint256'', ''address'', ''uint256[5]''],
      D_Tree = map (\<lambda>n. hexOf (hash_bytes n)) (nodes t),
      D_Values = map (dump_value t) [0..<length (encoded t)]\<rparr>"

definition TreeIndex :: "tree \<Rightarrow> nat \<Rightarrow> nat" where
  "TreeIndex t i = leafAt t ! i"

section \<open>Claims and their encoding\<close>

text \<open>What \<open>uint256\<close> can hold.\<close>

definition amount_ok :: "bigint \<Rightarrow> bool" where
  "amount_ok x = (case x of None \<Rightarrow> False | Some v \<Rightarrow> 0 \<le> v \<and> v < 2 ^ 256)"

definition claim_ok :: "claim \<Rightarrow> bool" where
  "claim_ok c \<longleftrightarrow> amount_ok (C_ID c) \<and> (\<forall>t. amount_ok (C_Amounts c t))"

definition word_of :: "bigint \<Rightarrow> byte list" where
  "word_of x = be_bytes 32 (nat (the x))"

lemma bit_len_le: "bit_len n \<le> k \<longleftrightarrow> n < 2 ^ k"
proof (induction n arbitrary: k rule: bit_len.induct)
  case (1 n)
  show ?case
  proof (cases "n = 0")
    case True
    then show ?thesis by (simp add: bit_len.simps [of 0])
  next
    case False
    then have eq: "bit_len n = Suc (bit_len (n div 2))" by (simp add: bit_len.simps [of n])
    show ?thesis
    proof (cases k)
      case 0
      with eq False show ?thesis by simp
    next
      case (Suc k')
      with 1 [OF False, of k'] eq show ?thesis by (simp add: less_mult_imp_div_less) auto
    qed
  qed
qed

lemma putUint256_Inr: "putUint256 x = Inr w \<longleftrightarrow> amount_ok x \<and> w = word_of x"
proof (cases x)
  case (Some v)
  have "bit_len (nat v) \<le> 256 \<longleftrightarrow> v < 2 ^ 256" if "0 \<le> v"
    using that unfolding bit_len_le by (simp add: nat_less_iff)
  then show ?thesis
    by (auto simp: Some putUint256_def amount_ok_def word_of_def)
qed (simp add: putUint256_def amount_ok_def)

lemma putUint256_Inl: "(\<exists>e. putUint256 x = Inl e) \<longleftrightarrow> \<not> amount_ok x"
  using putUint256_Inr [of x] by (cases "putUint256 x") auto

lemma encode_amounts_Inr:
  "encode_amounts i xs = Inr ws \<longleftrightarrow> (\<forall>x \<in> set xs. amount_ok x) \<and> ws = concat (map word_of xs)"
proof (induction xs arbitrary: i ws)
  case (Cons x xs)
  show ?case
  proof (cases "amount_ok x")
    case True
    then have "putUint256 x = Inr (word_of x)" by (simp add: putUint256_Inr)
    with True Cons.IH [of "Suc i"] show ?thesis
      by (cases "encode_amounts (Suc i) xs") auto
  next
    case False
    with putUint256_Inl [of x] show ?thesis by auto
  qed
qed auto

lemma encode_amounts_Inl:
  "(\<exists>e. encode_amounts i xs = Inl e) \<longleftrightarrow> (\<exists>x \<in> set xs. \<not> amount_ok x)"
  using encode_amounts_Inr [of i xs] by (cases "encode_amounts i xs") auto

definition claim_bytes :: "claim \<Rightarrow> byte list" where
  "claim_bytes c = word_of (C_ID c) @ replicate 12 0 @ addr_bytes (C_Account c) @
     concat (map word_of (map (C_Amounts c) tokens))"

lemma encode_Inr: "encode c = Inr e \<longleftrightarrow> claim_ok c \<and> e = claim_bytes c"
proof (cases "putUint256 (C_ID c)")
  case (Inl err)
  then have "\<not> amount_ok (C_ID c)" using putUint256_Inl by blast
  with Inl show ?thesis by (simp add: encode_def claim_ok_def)
next
  case (Inr w)
  show ?thesis
  proof (cases "encode_amounts 0 (map (C_Amounts c) tokens)")
    case (Inl err)
    then have "\<exists>x \<in> set (map (C_Amounts c) tokens). \<not> amount_ok x" using encode_amounts_Inl by blast
    with Inl Inr show ?thesis by (auto simp: encode_def claim_ok_def)
  next
    case (Inr ws)
    then have "(\<forall>t. amount_ok (C_Amounts c t)) \<and> ws = concat (map word_of (map (C_Amounts c) tokens))"
      by (simp add: encode_amounts_Inr)
    moreover have "amount_ok (C_ID c) \<and> w = word_of (C_ID c)"
      using \<open>putUint256 (C_ID c) = Inr w\<close> by (simp add: putUint256_Inr)
    ultimately show ?thesis
      using Inr \<open>putUint256 (C_ID c) = Inr w\<close>
      by (auto simp: encode_def claim_ok_def claim_bytes_def)
  qed
qed

lemma length_word_of [simp]: "length (word_of x) = 32"
  by (simp add: word_of_def)

lemma word_of_inject: "amount_ok x \<Longrightarrow> amount_ok y \<Longrightarrow> word_of x = word_of y \<longleftrightarrow> x = y"
  by (auto simp: amount_ok_def word_of_def nat_less_iff dest!: be_bytes_inject split: option.splits)

lemma concat_words_inject:
  "length xs = length ys \<Longrightarrow> concat (map word_of xs) = concat (map word_of ys) \<longleftrightarrow>
   map word_of xs = map word_of ys"
  by (induction xs ys rule: list_induct2) simp_all

lemma length_concat_words [simp]: "length (concat (map word_of xs)) = 32 * length xs"
  by (induction xs) simp_all

lemma length_claim_bytes [simp]: "length (claim_bytes c) = 224"
  by (simp add: claim_bytes_def del: map_map)

lemma claim_bytes_inject:
  assumes "claim_ok c" "claim_ok c'" "claim_bytes c = claim_bytes c'"
  shows "c = c'"
proof -
  have eqs: "word_of (C_ID c) = word_of (C_ID c')" "C_Account c = C_Account c'"
    "map word_of (map (C_Amounts c) tokens) = map word_of (map (C_Amounts c') tokens)"
    using assms(3) unfolding claim_bytes_def
    by (simp_all add: concat_words_inject del: map_map)
  have "C_Amounts c t = C_Amounts c' t" for t
  proof -
    have "word_of (C_Amounts c t) = word_of (C_Amounts c' t)"
      using eqs(3) by (auto simp: map_eq_conv)
    with assms(1,2) show ?thesis by (simp add: claim_ok_def word_of_inject)
  qed
  then have "C_Amounts c = C_Amounts c'" by (rule ext)
  with eqs assms(1,2) show ?thesis by (simp add: claim_ok_def word_of_inject)
qed

section \<open>A commutative node hash\<close>

text \<open>A flat complete tree with \<open>n\<close> leaves whose internal nodes combine their children.\<close>

definition heap_ok :: "('h \<Rightarrow> 'h \<Rightarrow> 'h) \<Rightarrow> nat \<Rightarrow> 'h list \<Rightarrow> bool" where
  "heap_ok hp n ns \<longleftrightarrow> 0 < n \<and> length ns = 2 * n - 1 \<and>
     (\<forall>i < n - 1. ns ! i = hp (ns ! (2 * i + 1)) (ns ! (2 * i + 2)))"

locale pair_hash =
  fixes hp :: "'h \<Rightarrow> 'h \<Rightarrow> 'h"
  assumes commute: "hp a b = hp b a"
begin

text \<open>Folding the sibling chain of any node climbs to the root, whatever side each sibling is on.\<close>

lemma climb:
  assumes "heap_ok hp n ns" "at < length ns"
  shows "foldl hp (ns ! at) (proof_from ns at) = ns ! 0"
  using assms(2)
proof (induction at rule: less_induct)
  case (less at)
  show ?case
  proof (cases "at = 0")
    case True
    then show ?thesis by (simp add: proof_from.simps [of ns 0])
  next
    case False
    let ?p = "(at - 1) div 2"
    have p: "?p < n - 1" "?p < at" "?p < length ns"
      using less.prems False assms(1) by (auto simp: heap_ok_def)
    have "hp (ns ! at) (ns ! siblingIndex at) = ns ! ?p"
    proof (cases "at mod 2 = 0")
      case True
      then have "at = 2 * ?p + 2" "siblingIndex at = 2 * ?p + 1"
        using False by (auto simp: siblingIndex_def elim!: evenE)
      then show ?thesis using assms(1) p(1) commute [of "ns ! at"] by (simp add: heap_ok_def)
    next
      case odd: False
      then have "at = 2 * ?p + 1" "siblingIndex at = 2 * ?p + 2"
        by (simp_all add: siblingIndex_def) presburger+
      then show ?thesis using assms(1) p(1) by (simp add: heap_ok_def)
    qed
    with less.IH [OF p(2,3)] False show ?thesis by (simp add: proof_from.simps [of ns at])
  qed
qed

end

text \<open>The bytes that \<open>hashPair\<close> hashes.\<close>

definition pair_bytes :: "hash \<Rightarrow> hash \<Rightarrow> byte list" where
  "pair_bytes a b = (if b < a then hash_bytes b @ hash_bytes a else hash_bytes a @ hash_bytes b)"

lemma hashPair_bytes: "hashPair k a b = k (pair_bytes a b)"
  using compare_hash_bytes [of a b]
  by (auto simp: hashPair_def keccak256_def pair_bytes_def split: if_splits)

lemma pair_bytes_commute: "pair_bytes a b = pair_bytes b a"
  by (auto simp: pair_bytes_def)

lemma length_pair_bytes [simp]: "length (pair_bytes a b) = 64"
  by (simp add: pair_bytes_def)

lemma pair_bytes_inject: "pair_bytes a b = pair_bytes c d \<Longrightarrow> a = c \<or> a = d"
  by (auto simp: pair_bytes_def split: if_splits)

interpretation node: pair_hash "hashPair k" for k
  by unfold_locales (simp add: hashPair_bytes pair_bytes_commute)

section \<open>The shape of the tree\<close>

lemma hash_claims_Inr:
  "hash_claims k i cs = Inr (ls, es) \<longleftrightarrow>
   (\<forall>c \<in> set cs. claim_ok c) \<and> es = map claim_bytes cs \<and>
   ls = map (\<lambda>j. \<lparr>l_hash = leafHashOf k (claim_bytes (cs ! j)), claimIndex = i + j\<rparr>) [0..<length cs]"
proof (induction cs arbitrary: i ls es)
  case (Cons c cs)
  have upt: "[0..<Suc (length cs)] = 0 # map Suc [0..<length cs]"
    by (simp add: upt_conv_Cons map_Suc_upt del: upt_Suc)
  show ?case
  proof (cases "encode c")
    case (Inl err)
    then have "\<not> claim_ok c" using encode_Inr [of c] by auto
    with Inl show ?thesis by simp
  next
    case (Inr e)
    then have "claim_ok c" "e = claim_bytes c" by (auto simp: encode_Inr)
    with Inr Cons.IH [of "Suc i"] show ?thesis
      by (cases "hash_claims k (Suc i) cs") (auto simp: upt comp_def simp del: upt_Suc)
  qed
qed auto

lemma place_frame [simp]:
  "length (nodes (place i ls t)) = length (nodes t)" "encoded (place i ls t) = encoded t"
  "length (leafAt (place i ls t)) = length (leafAt t)"
  by (induction ls arbitrary: i t) (simp_all add: Let_def)

lemma place_nodes:
  "nodes t = replicate m 0 @ rest \<Longrightarrow> length rest = i \<Longrightarrow> length ls \<le> m \<Longrightarrow>
   nodes (place i ls t) = replicate (m - length ls) 0 @ rev (map l_hash ls) @ rest"
proof (induction ls arbitrary: i t m rest)
  case (Cons l ls)
  then obtain m' where m: "m = Suc m'" by (cases m) auto
  have "replicate (Suc m') 0 @ rest = replicate m' 0 @ 0 # rest"
    by (simp add: replicate_append_same)
  then have upd: "(nodes t)[length (nodes t) - 1 - i := l_hash l] = replicate m' 0 @ l_hash l # rest"
    using Cons.prems by (simp add: m list_update_append)
  show ?case
    using Cons.IH [of _ m' "l_hash l # rest" "Suc i"] Cons.prems upd by (simp add: Let_def m)
qed simp

lemma place_leafAt:
  assumes "distinct (map claimIndex ls)" "\<forall>l \<in> set ls. claimIndex l < length (leafAt t)" "j < length ls"
  shows "leafAt (place i ls t) ! claimIndex (ls ! j) = length (nodes t) - 1 - (i + j)"
proof -
  have other: "leafAt (place i ls t) ! c = leafAt t ! c" if "c \<notin> claimIndex ` set ls" for i ls t c
    using that by (induction ls arbitrary: i t) (auto simp: Let_def)
  show ?thesis
    using assms
  proof (induction ls arbitrary: i j t)
    case (Cons l ls)
    show ?case
    proof (cases j)
      case 0
      with Cons.prems show ?thesis by (auto simp: Let_def other)
    next
      case (Suc j')
      with Cons.prems show ?thesis
        by (simp add: Let_def Cons.IH [where j = j'])
    qed
  qed simp
qed

lemma length_build [simp]: "length (build k m ns) = length ns"
  by (induction m arbitrary: ns) simp_all

lemma build_nth_ge: "m \<le> i \<Longrightarrow> build k m ns ! i = ns ! i"
  by (induction m arbitrary: ns) simp_all

lemma build_nth:
  "i < m \<Longrightarrow> m \<le> length ns \<Longrightarrow>
   build k m ns ! i = hashPair k (build k m ns ! (2 * i + 1)) (build k m ns ! (2 * i + 2))"
proof (induction m arbitrary: ns)
  case (Suc m)
  show ?case
  proof (cases "i = m")
    case True
    with Suc.prems show ?thesis by (simp add: build_nth_ge)
  next
    case False
    with Suc show ?thesis by simp
  qed
qed simp

definition leaf_hash :: "keccak \<Rightarrow> claim \<Rightarrow> hash" where
  "leaf_hash k c = leafHashOf k (claim_bytes c)"

lemma New_Inr_iff: "(\<exists>t. New k cs = Inr t) \<longleftrightarrow> cs \<noteq> [] \<and> (\<forall>c \<in> set cs. claim_ok c)"
proof (cases "hash_claims k 0 cs")
  case (Inl e)
  then show ?thesis using hash_claims_Inr [of k 0 cs] by (auto simp: New_def)
next
  case (Inr p)
  obtain ls es where p: "p = (ls, es)" by (cases p)
  have "\<forall>c \<in> set cs. claim_ok c" using hash_claims_Inr [of k 0 cs ls es] Inr p by simp
  then show ?thesis by (simp add: New_def Inr p Let_def)
qed

lemma hash_claims_Inl:
  "hash_claims k i cs = Inl err \<longleftrightarrow>
   (\<exists>j e. j < length cs \<and> list_all claim_ok (take j cs) \<and> encode (cs ! j) = Inl e \<and> err = ClaimError (i + j) e)"
proof (induction cs arbitrary: i)
  case (Cons c cs)
  show ?case
  proof (cases "encode c")
    case (Inl e)
    then have "\<not> claim_ok c" using encode_Inr [of c] by auto
    with Inl show ?thesis by (auto simp: less_Suc_eq_0_disj)
  next
    case (Inr e)
    then have "claim_ok c" by (simp add: encode_Inr)
    with Inr Cons.IH [of "Suc i"] show ?thesis
      by (cases "hash_claims k (Suc i) cs") (auto simp: less_Suc_eq_0_disj)
  qed
qed simp

lemma map_sort_key_id: "map f (sort_key f xs) = sort (map f xs)"
proof -
  have "sorted (map f (sort_key f xs))" "mset (map f (sort_key f xs)) = mset (map f xs)"
    by simp_all
  then show ?thesis by (metis properties_for_sort)
qed

text \<open>
  What \<open>New\<close> builds. The nodes depend on the leaf hashes only as a sorted list, and the leaf of
  the \<open>j\<close>-th claim is at \<open>leafAt ! j\<close>, in the half of the slice that \<open>build\<close> does not write.
\<close>

lemma New_nodes:
  assumes "New k cs = Inr t"
  shows "nodes t = build k (length cs - 1) (replicate (length cs - 1) 0 @ rev (sort (map (leaf_hash k) cs)))"
    and "encoded t = map claim_bytes cs" and "length (leafAt t) = length cs"
    and "\<forall>j < length cs. length cs - 1 \<le> leafAt t ! j \<and> leafAt t ! j < 2 * length cs - 1 \<and>
           nodes t ! (leafAt t ! j) = leaf_hash k (cs ! j)"
proof -
  let ?n = "length cs"
  let ?ls = "map (\<lambda>j. \<lparr>l_hash = leafHashOf k (claim_bytes (cs ! j)), claimIndex = j\<rparr>) [0..<?n]"
  let ?t0 = "\<lparr>nodes = replicate (2 * ?n - 1) 0, leafAt = replicate ?n 0, encoded = map claim_bytes cs\<rparr>"
  define srt where "srt = sort_key l_hash ?ls"
  have "\<exists>p. hash_claims k 0 cs = Inr p" and ne: "cs \<noteq> []"
    using assms by (auto simp: New_def split: sum.splits if_splits)
  then have hc: "hash_claims k 0 cs = Inr (?ls, map claim_bytes cs)"
    using hash_claims_Inr [of k 0 cs] by auto
  then have t: "t = (place 0 srt ?t0)\<lparr>nodes := build k (2 * ?n - 1 - ?n) (nodes (place 0 srt ?t0))\<rparr>"
    using assms ne by (simp add: New_def Let_def srt_def)
  have n: "0 < ?n" "2 * ?n - 1 - ?n = ?n - 1" "length srt = ?n" using ne by (simp_all add: srt_def)
  have hashes: "map l_hash srt = sort (map (leaf_hash k) cs)"
    unfolding srt_def map_sort_key_id
    by (rule arg_cong [where f = sort], rule nth_equalityI) (simp_all add: leaf_hash_def)
  have placed: "nodes (place 0 srt ?t0) = replicate (?n - 1) 0 @ rev (sort (map (leaf_hash k) cs))"
    using place_nodes [of ?t0 "2 * ?n - 1" "[]" 0 srt] n by (simp add: hashes)
  show nodes: "nodes t = build k (?n - 1) (replicate (?n - 1) 0 @ rev (sort (map (leaf_hash k) cs)))"
    unfolding t using placed n(2) by simp
  show "encoded t = map claim_bytes cs" "length (leafAt t) = ?n" by (simp_all add: t)
  have idx: "distinct (map claimIndex srt)" "\<forall>l \<in> set srt. claimIndex l < ?n"
  proof -
    have "mset (map claimIndex srt) = mset (map claimIndex ?ls)"
      unfolding mset_map by (simp add: srt_def)
    moreover have "map claimIndex ?ls = [0..<?n]" by (simp add: comp_def)
    ultimately show "distinct (map claimIndex srt)" by (metis distinct_upt mset_eq_imp_distinct_iff)
  qed (auto simp: srt_def)
  show "\<forall>j < ?n. ?n - 1 \<le> leafAt t ! j \<and> leafAt t ! j < 2 * ?n - 1 \<and>
          nodes t ! (leafAt t ! j) = leaf_hash k (cs ! j)"
  proof (intro allI impI)
    fix j assume j: "j < ?n"
    then have "\<lparr>l_hash = leaf_hash k (cs ! j), claimIndex = j\<rparr> \<in> set srt"
      by (simp add: srt_def leaf_hash_def)
    then obtain i where i: "i < ?n" "srt ! i = \<lparr>l_hash = leaf_hash k (cs ! j), claimIndex = j\<rparr>"
      using n(3) by (auto simp: in_set_conv_nth)
    then have at: "leafAt t ! j = 2 * ?n - 2 - i"
      using place_leafAt [of srt ?t0 i 0] idx n(3) by (simp add: t)
    have "nodes t ! (2 * ?n - 2 - i) = (replicate (?n - 1) 0 @ rev (map l_hash srt)) ! (2 * ?n - 2 - i)"
      unfolding nodes hashes by (rule build_nth_ge) (use i in simp)
    also have "\<dots> = l_hash (srt ! i)"
    proof -
      have "\<not> 2 * ?n - 2 - i < ?n - 1" "2 * ?n - 2 - i - (?n - 1) = ?n - 1 - i" using i(1) by simp_all
      then show ?thesis using i(1) n(3) by (simp add: nth_append rev_nth)
    qed
    finally show "?n - 1 \<le> leafAt t ! j \<and> leafAt t ! j < 2 * ?n - 1 \<and>
        nodes t ! (leafAt t ! j) = leaf_hash k (cs ! j)"
      using i at by auto
  qed
qed

lemma New_heap: "New k cs = Inr t \<Longrightarrow> heap_ok (hashPair k) (length cs) (nodes t)"
  using New_Inr_iff [of k cs] New_nodes(1) [of k cs t]
  by (auto simp: heap_ok_def intro!: build_nth [simplified])

lemma New_leaf_nodes:
  assumes "New k cs = Inr t" "length cs - 1 \<le> i" "i < 2 * length cs - 1"
  shows "nodes t ! i \<in> leaf_hash k ` set cs"
proof -
  let ?hs = "sort (map (leaf_hash k) cs)"
  have "nodes t ! i = rev ?hs ! (i - (length cs - 1))"
    unfolding New_nodes(1) [OF assms(1)] using assms(2) by (simp add: build_nth_ge nth_append)
  also have "\<dots> \<in> set (rev ?hs)" by (rule nth_mem) (use assms(2,3) in simp)
  finally show ?thesis by simp
qed

lemma Proof_ok:
  assumes "New k cs = Inr t" "i < length cs"
  shows "Verify k (Root t) (Leaf t i) (Proof t i) \<and> encode (cs ! i) = Inr (encoded t ! i) \<and>
    Leaf t i = leafHashOf k (encoded t ! i)"
proof -
  have at: "leafAt t ! i < length (nodes t)" "nodes t ! (leafAt t ! i) = leaf_hash k (cs ! i)"
    using New_nodes(4) [OF assms(1)] New_heap [OF assms(1)] assms(2) by (simp_all add: heap_ok_def)
  have "claim_ok (cs ! i)" using New_Inr_iff [of k cs] assms by auto
  then show ?thesis
    using node.climb [OF New_heap [OF assms(1)] at(1)] at(2) New_nodes(2) [OF assms(1)] assms(2)
    by (simp add: Verify_def Root_def Leaf_def Proof_def encode_Inr leaf_hash_def)
qed

section \<open>Soundness\<close>

text \<open>Every byte string that building the tree and checking a proof hash.\<close>

definition hashed_by_tree :: "keccak \<Rightarrow> tree \<Rightarrow> byte list set" where
  "hashed_by_tree k t =
     set (encoded t) \<union> (\<lambda>e. hash_bytes (k e)) ` set (encoded t) \<union>
     (\<lambda>i. pair_bytes (nodes t ! (2 * i + 1)) (nodes t ! (2 * i + 2))) ` {..<Len t - 1}"

fun fold_inputs :: "keccak \<Rightarrow> hash \<Rightarrow> hash list \<Rightarrow> byte list set" where
  "fold_inputs k h [] = {}"
| "fold_inputs k h (s # ss) = insert (pair_bytes h s) (fold_inputs k (hashPair k h s) ss)"

definition hashed_by_proof :: "keccak \<Rightarrow> byte list \<Rightarrow> hash list \<Rightarrow> byte list set" where
  "hashed_by_proof k e pf = {e, hash_bytes (k e)} \<union> fold_inputs k (leafHashOf k e) pf"

lemma fold_inputs_snoc:
  "fold_inputs k h (p @ [s]) = insert (pair_bytes (foldl (hashPair k) h p) s) (fold_inputs k h p)"
  by (induction p arbitrary: h) auto

lemma leafHashOf_eq: "leafHashOf k e = k (hash_bytes (k e))"
  by (simp add: leafHashOf_def keccak256_def)

lemma proof_reaches_leaf:
  assumes t: "New k cs = Inr t" and leaf: "length l = 32"
    and inj: "inj_on k (hashed_by_tree k t \<union> {l} \<union> fold_inputs k (k l) pf)"
    and fold: "foldl (hashPair k) (k l) pf = nodes t ! j" and j: "j < 2 * length cs - 1"
  shows "k l \<in> leaf_hash k ` set cs"
  using inj fold j
proof (induction pf arbitrary: j rule: rev_induct)
  case Nil
  have "\<not> j < length cs - 1"
  proof
    assume j: "j < length cs - 1"
    then have "k l = k (pair_bytes (nodes t ! (2 * j + 1)) (nodes t ! (2 * j + 2)))"
      using New_heap [OF t] Nil.prems(2) by (simp add: heap_ok_def hashPair_bytes)
    then have "l = pair_bytes (nodes t ! (2 * j + 1)) (nodes t ! (2 * j + 2))"
      by (rule inj_onD [OF Nil.prems(1)]) (use j New_nodes(3) [OF t] in \<open>auto simp: hashed_by_tree_def Len_def\<close>)
    then have "length l = 64" by simp
    with leaf show False by simp
  qed
  with New_leaf_nodes [OF t, of j] Nil.prems show ?case by simp
next
  case (snoc s pf)
  let ?c = "foldl (hashPair k) (k l) pf"
  have pair: "k (pair_bytes ?c s) = nodes t ! j" using snoc.prems(2) hashPair_bytes [of k ?c s] by simp
  have "j < length cs - 1"
  proof (rule ccontr)
    assume "\<not> j < length cs - 1"
    then obtain c where c: "c \<in> set cs" "nodes t ! j = leaf_hash k c"
      using New_leaf_nodes [OF t, of j] snoc.prems(3) by auto
    have "pair_bytes ?c s = hash_bytes (k (claim_bytes c))"
      by (rule inj_onD [OF snoc.prems(1)])
        (use pair c New_nodes(2) [OF t] in \<open>auto simp: leaf_hash_def leafHashOf_eq hashed_by_tree_def fold_inputs_snoc\<close>)
    then have "length (pair_bytes ?c s) = 32" by simp
    then show False by simp
  qed
  note j = this
  have "pair_bytes ?c s = pair_bytes (nodes t ! (2 * j + 1)) (nodes t ! (2 * j + 2))"
    by (rule inj_onD [OF snoc.prems(1)])
      (use pair j New_heap [OF t] New_nodes(3) [OF t] in
        \<open>auto simp: heap_ok_def hashPair_bytes hashed_by_tree_def Len_def fold_inputs_snoc\<close>)
  then have "?c = nodes t ! (2 * j + 1) \<or> ?c = nodes t ! (2 * j + 2)" by (rule pair_bytes_inject)
  moreover have "inj_on k (hashed_by_tree k t \<union> {l} \<union> fold_inputs k (k l) pf)"
    by (rule inj_on_subset [OF snoc.prems(1)]) (auto simp: fold_inputs_snoc)
  ultimately show ?case
    using snoc.IH [of "2 * j + 1"] snoc.IH [of "2 * j + 2"] j by auto
qed

section \<open>Properties\<close>

text \<open>
  A hash for the examples: short strings of different lengths or with different last bytes
  do not collide.
\<close>

definition demo_hash :: keccak where
  "demo_hash bs = of_nat (256 * length bs + be_nat bs mod 256)"

definition demo_claim :: "int \<Rightarrow> claim" where
  "demo_claim n = \<lparr>C_ID = Some 1000, C_Account = of_int n, C_Amounts = (\<lambda>_. Some n)\<rparr>"

definition demo_claims :: "claim list" where
  "demo_claims = [demo_claim 2, demo_claim 1]"

lemma demo_hash_append:
  assumes "0 < k"
  shows "demo_hash (xs @ be_bytes k n) = of_nat (256 * (length xs + k) + n mod 256)"
proof -
  obtain k' where k: "k = Suc k'" using assms by (cases k) auto
  have "be_nat (xs @ be_bytes k n) mod 256 = n mod 256"
    using be_nat_snoc [of "xs @ be_bytes k' (n div 256)" "of_nat n"]
    by (simp only: k be_bytes.simps append_assoc [symmetric]) (simp add: unat_of_nat_byte)
  then show ?thesis by (simp add: demo_hash_def)
qed

lemma demo_hash_claim: "demo_hash (claim_bytes (demo_claim n)) = of_nat (57344 + nat n mod 256)"
proof -
  let ?w = "be_bytes 32 (nat n)"
  have "claim_bytes (demo_claim n) =
      (word_of (Some 1000) @ replicate 12 0 @ addr_bytes (of_int n) @ ?w @ ?w @ ?w @ ?w) @ ?w"
    by (simp add: claim_bytes_def demo_claim_def tokens_def word_of_def)
  then show ?thesis by (simp only: demo_hash_append) simp
qed

lemma demo_hash_hash: "demo_hash (hash_bytes h) = of_nat (8192 + unat h mod 256)"
  using demo_hash_append [of 32 "[]" "unat h"] by (simp add: hash_bytes_def)

lemma demo_hash_pair: "demo_hash (pair_bytes a b) = of_nat (16384 + unat (max a b) mod 256)"
  using demo_hash_append [of 32 "hash_bytes a" "unat b"] demo_hash_append [of 32 "hash_bytes b" "unat a"]
  by (auto simp: pair_bytes_def hash_bytes_def max_def)

lemma demo_New: "\<exists>t. New demo_hash demo_claims = Inr t"
  by (simp add: New_Inr_iff demo_claims_def demo_claim_def claim_ok_def amount_ok_def)

lemma demo_nodes: "New demo_hash demo_claims = Inr t \<Longrightarrow> nodes t = [16386, 8194, 8193]"
  by (simp add: New_nodes(1) demo_claims_def leaf_hash_def leafHashOf_eq demo_hash_claim demo_hash_hash
      hashPair_bytes demo_hash_pair)

lemma demo_hash_values:
  "demo_hash (claim_bytes (demo_claim 1)) = 57345" "demo_hash (claim_bytes (demo_claim 2)) = 57346"
  "demo_hash (hash_bytes 57345) = 8193" "demo_hash (hash_bytes 57346) = 8194"
  "demo_hash (pair_bytes 8194 8193) = 16386" "demo_hash (pair_bytes 8193 8194) = 16386"
  by (simp_all add: demo_hash_claim demo_hash_hash demo_hash_pair)

text \<open>
  C22. A proof that \<open>Proof\<close> returns is accepted by \<open>Verify\<close> against the root, for the leaf of
  every claim, and that leaf is the double hash of the claim's encoding.
\<close>

theorem Proof_verifies:
  assumes "New k cs = Inr t" "i < length cs"
  shows "Verify k (Root t) (Leaf t i) (Proof t i) \<and> encode (cs ! i) = Inr (encoded t ! i) \<and>
    Leaf t i = leafHashOf k (encoded t ! i)"
  by (rule Proof_ok [OF assms])

theorem Proof_verifies_witness:
  "\<exists>t. New demo_hash demo_claims = Inr t \<and>
     Verify demo_hash (Root t) (Leaf t 1) (Proof t 1) \<and> encode (demo_claims ! 1) = Inr (encoded t ! 1) \<and>
     Leaf t 1 = leafHashOf demo_hash (encoded t ! 1)"
proof -
  obtain t where t: "New demo_hash demo_claims = Inr t" using demo_New by blast
  with Proof_verifies [OF t, of 1] show ?thesis by (auto simp: demo_claims_def)
qed

text \<open>
  C21. A proof that \<open>Verify\<close> accepts for an encodable claim, whoever made the proof, means that the
  claim is one of the tree's, unless the hash has a collision among the byte strings that
  building the tree and checking the proof hash. The double hash of the leaf is what keeps an
  internal node from being passed off as a leaf.
\<close>

theorem Verify_sound:
  assumes "New k cs = Inr t" "encode c = Inr e" "Verify k (Root t) (leafHashOf k e) pf"
    and "inj_on k (hashed_by_tree k t \<union> hashed_by_proof k e pf)"
  shows "c \<in> set cs"
proof -
  have cs: "cs \<noteq> []" "\<forall>c \<in> set cs. claim_ok c" using New_Inr_iff [of k cs] assms(1) by auto
  have c: "claim_ok c" "e = claim_bytes c" using assms(2) by (simp_all add: encode_Inr)
  have "k (hash_bytes (k e)) \<in> leaf_hash k ` set cs"
  proof (rule proof_reaches_leaf [OF assms(1), where j = 0 and pf = pf])
    show "inj_on k (hashed_by_tree k t \<union> {hash_bytes (k e)} \<union> fold_inputs k (k (hash_bytes (k e))) pf)"
      by (rule inj_on_subset [OF assms(4)]) (auto simp: hashed_by_proof_def leafHashOf_eq)
    show "0 < 2 * length cs - 1" using cs(1) by (cases cs) simp_all
  qed (use assms(3) in \<open>simp_all add: Verify_def Root_def leafHashOf_eq\<close>)
  then obtain c' where c': "c' \<in> set cs" "k (hash_bytes (k e)) = k (hash_bytes (k (claim_bytes c')))"
    by (auto simp: leaf_hash_def leafHashOf_eq)
  have "hash_bytes (k e) = hash_bytes (k (claim_bytes c'))"
    by (rule inj_onD [OF assms(4) c'(2)])
      (use c'(1) New_nodes(2) [OF assms(1)] in \<open>auto simp: hashed_by_proof_def hashed_by_tree_def\<close>)
  then have "k e = k (claim_bytes c')" by simp
  then have "e = claim_bytes c'"
    by (rule inj_onD [OF assms(4)])
      (use c'(1) New_nodes(2) [OF assms(1)] in \<open>auto simp: hashed_by_proof_def hashed_by_tree_def\<close>)
  with c c' cs(2) have "c = c'" by (auto intro: claim_bytes_inject)
  with c'(1) show ?thesis by simp
qed

theorem Verify_sound_witness: "demo_claim 1 \<in> set demo_claims"
proof -
  obtain t where t: "New demo_hash demo_claims = Inr t" using demo_New by blast
  let ?e = "claim_bytes (demo_claim 1)"
  have e: "encode (demo_claim 1) = Inr ?e"
    by (simp add: encode_Inr demo_claim_def claim_ok_def amount_ok_def)
  have nodes: "nodes t = [16386, 8194, 8193]" by (rule demo_nodes [OF t])
  have "Verify demo_hash (Root t) (leafHashOf demo_hash ?e) [8194]"
    by (simp add: Verify_def Root_def nodes leafHashOf_eq demo_hash_values hashPair_bytes)
  moreover have "inj_on demo_hash (hashed_by_tree demo_hash t \<union> hashed_by_proof demo_hash ?e [8194])"
    unfolding hashed_by_tree_def hashed_by_proof_def Len_def New_nodes(2,3) [OF t]
    by (simp add: demo_claims_def nodes leafHashOf_eq demo_hash_values hashPair_bytes inj_on_def
        lessThan_Suc pair_bytes_commute [of 8193])
  ultimately show ?thesis by (rule Verify_sound [OF t e])
qed

text \<open>
  The root does not depend on the order in which the claims arrive.
\<close>

theorem Root_order_irrelevant:
  assumes "mset cs = mset cs'"
  shows "map_sum id Root (New k cs) = map_sum id Root (New k cs') \<or> (\<exists>e e'. New k cs = Inl e \<and> New k cs' = Inl e')"
proof (cases "New k cs")
  case (Inl e)
  then have "\<not> (\<exists>t. New k cs' = Inr t)"
    using New_Inr_iff [of k cs] New_Inr_iff [of k cs'] mset_eq_setD [OF assms] by auto
  with Inl show ?thesis by (cases "New k cs'") auto
next
  case (Inr t)
  then obtain t' where t': "New k cs' = Inr t'"
    using New_Inr_iff [of k cs] New_Inr_iff [of k cs'] mset_eq_setD [OF assms] by auto
  have "sort (map (leaf_hash k) cs) = sort (map (leaf_hash k) cs')"
    by (rule properties_for_sort) (simp_all add: assms)
  then have "nodes t = nodes t'"
    using New_nodes(1) [OF Inr] New_nodes(1) [OF t'] mset_eq_length [OF assms] by simp
  with Inr t' show ?thesis by (simp add: Root_def)
qed

theorem Root_order_irrelevant_witness:
  "map_sum id Root (New demo_hash demo_claims) = map_sum id Root (New demo_hash (rev demo_claims)) \<or>
   (\<exists>e e'. New demo_hash demo_claims = Inl e \<and> New demo_hash (rev demo_claims) = Inl e')"
  by (rule Root_order_irrelevant) simp

text \<open>
  \<open>New\<close> refuses exactly the inputs that have no Root: no claims at all, or a claim with an id
  or amount that is missing, negative or wider than 256 bits. It names the first such claim.
\<close>

theorem New_accepts:
  "((\<exists>t. New k cs = Inr t) \<longleftrightarrow> cs \<noteq> [] \<and> list_all claim_ok cs) \<and>
   (New k cs = Inl ErrNoClaims \<longleftrightarrow> cs = []) \<and>
   (New k cs = Inl (ClaimError i e) \<longleftrightarrow>
      i < length cs \<and> list_all claim_ok (take i cs) \<and> encode (cs ! i) = Inl e)"
proof -
  have "New k cs = Inl err \<longleftrightarrow> (if cs = [] then err = ErrNoClaims else hash_claims k 0 cs = Inl err)" for err
    by (auto simp: New_def Let_def split: sum.splits)
  then show ?thesis using New_Inr_iff [of k cs] by (auto simp: hash_claims_Inl list_all_iff)
qed

text \<open>
  The encoding is \<open>abi.encode(uint256, address, uint256[5])\<close>: 224 bytes, and
  different claims have different encodings.
\<close>

theorem encode_faithful:
  assumes "encode c = Inr e" "encode c' = Inr e'"
  shows "length e = 224 \<and> (e = e' \<longleftrightarrow> c = c')"
  using assms claim_bytes_inject by (auto simp: encode_Inr)

theorem encode_faithful_witness:
  "length (claim_bytes (demo_claim 1)) = 224 \<and>
   (claim_bytes (demo_claim 1) = claim_bytes (demo_claim 2) \<longleftrightarrow> demo_claim 1 = demo_claim 2)"
  by (rule encode_faithful) (simp_all add: encode_Inr demo_claim_def claim_ok_def amount_ok_def)

text \<open>
  The dump of a tree spells out every claim it was built over, in the order they were given,
  each with the node index of its leaf: the id and amounts in decimal, the account in hex.
\<close>

theorem Dump_claims:
  assumes "New k cs = Inr t" "i < length cs"
  shows "D_Values (Dump t) ! i =
    \<lparr>V_id = dec_int (the (C_ID (cs ! i))), V_account = hexOf (addr_bytes (C_Account (cs ! i))),
     V_amounts = map (\<lambda>tok. dec_int (the (C_Amounts (cs ! i) tok))) tokens,
     V_treeIndex = TreeIndex t i\<rparr>
    \<and> D_Tree (Dump t) ! TreeIndex t i = hexOf (hash_bytes (Leaf t i))"
proof -
  let ?c = "cs ! i"
  have ok: "claim_ok ?c" using New_Inr_iff [of k cs] assms by auto
  have e: "encoded t ! i = claim_bytes ?c" using New_nodes(2) [OF assms(1)] assms(2) by simp
  have num: "set_bytes_string (word_of x) = dec_int (the x)" if "amount_ok x" for x
    using that by (auto simp: set_bytes_string_def word_of_def amount_ok_def be_nat_be_bytes_id
        nat_less_iff dec_int_def split: option.splits)
  have len: "length (encoded t) = length cs" using New_nodes(2) [OF assms(1)] by simp
  have "map (\<lambda>j. set_bytes_string (take 32 (drop ((2 + j) * 32) (claim_bytes ?c)))) [0..<5] =
      map (\<lambda>tok. dec_int (the (C_Amounts ?c tok))) tokens"
    using ok by (simp add: upt_rec claim_bytes_def tokens_def num claim_ok_def)
  moreover have "set_bytes_string (take 32 (claim_bytes ?c)) = dec_int (the (C_ID ?c))"
    using ok by (simp add: claim_bytes_def num claim_ok_def)
  moreover have "take 20 (drop 44 (claim_bytes ?c)) = addr_bytes (C_Account ?c)"
    by (simp add: claim_bytes_def)
  moreover have "leafAt t ! i < length (nodes t)"
    using New_nodes(4) [OF assms(1)] New_heap [OF assms(1)] assms(2) by (simp add: heap_ok_def)
  ultimately show ?thesis
    using len assms(2) by (simp add: Dump_def dump_value_def Let_def e TreeIndex_def Leaf_def)
qed

theorem Dump_claims_witness:
  "\<exists>t. New demo_hash demo_claims = Inr t \<and> D_Values (Dump t) ! 1 =
    \<lparr>V_id = ''1000'', V_account = hexOf (addr_bytes 1),
     V_amounts = [''1'', ''1'', ''1'', ''1'', ''1''], V_treeIndex = TreeIndex t 1\<rparr>
    \<and> D_Tree (Dump t) ! TreeIndex t 1 = hexOf (hash_bytes (Leaf t 1))"
proof -
  obtain t where t: "New demo_hash demo_claims = Inr t" using demo_New by blast
  have "dec_int 1000 = ''1000''" "dec_int 1 = ''1''"
    by (simp_all add: dec_int_def dec_def digits.simps digit_char_def char_of_def bit_0)
  with t Dump_claims [OF t, of 1] show ?thesis
    by (simp add: demo_claims_def demo_claim_def tokens_def)
qed

end
