(* ===== verification/Alloc.thy ===== *)
theory Alloc
  imports Ledger Merkle
begin

text \<open>
  Package \<open>alloc\<close> (\<open>internal/alloc/streak.go\<close>, \<open>internal/alloc/compute.go\<close>): from an Epoch's Holders to the
  Allocations, the totals, the Carry and the Root.

  An \<open>Allocation\<close> is built in two steps: \<open>weigh\<close> leaves its \<open>Amounts\<close> nil and the next loop fills
  them. The first state is the record \<open>row\<close>, the second its extension \<open>allocation\<close>. \<open>big.Int.Quo\<close>
  panics on a zero divisor, which is the error value \<open>DivisionByZero\<close> here; that it never happens on
  Holders from \<open>Replay\<close> or from a \<open>Ledger\<close> is part of what is shown.
\<close>

section \<open>Streaks and multipliers\<close>

definition secondsPerDay :: int where "secondsPerDay = 86400"
definition StreakWeek :: int where "StreakWeek = 7"
definition StreakMonth :: int where "StreakMonth = 30"
definition MultBpsBase :: int64 where "MultBpsBase = 10000"
definition MultBpsWeek :: int64 where "MultBpsWeek = 12500"
definition MultBpsMonth :: int64 where "MultBpsMonth = 15000"

definition StreakDays :: "window \<Rightarrow> holder \<Rightarrow> int64" where
  "StreakDays w h =
     (let since = (if LastSellAt h > FirstBuyAt h then LastSellAt h else FirstBuyAt h)
      in quo (i64 (End w - since)) secondsPerDay)"

definition MultBps :: "int64 \<Rightarrow> int64" where
  "MultBps streakDays =
     (if streakDays \<ge> StreakMonth then MultBpsMonth
      else if streakDays \<ge> StreakWeek then MultBpsWeek
      else MultBpsBase)"

section \<open>One Epoch's Allocations\<close>

record params =
  P_EpochID :: uint64
  P_Transfers :: "transfer list"
  P_Exclusions :: "exclusion list"
  P_DevWallet :: address
  P_Funded :: amounts
  P_CarryIn :: amounts

record row =
  A_Account :: address
  A_TWAB :: int
  A_MultBps :: int64
  A_Weight :: int

record allocation = row +
  A_Amounts :: "token \<Rightarrow> int"

record result =
  R_Allocations :: "allocation list"
  R_Totals :: "token \<Rightarrow> int"
  R_CarryOut :: "token \<Rightarrow> int"
  R_TotalWeight :: int
  R_Tree :: "tree option"
  R_Root :: hash
  R_HasRoot :: bool

datatype funding_error = NilFunding | NegativeFunding

datatype alloc_error =
    ReplayError twab_error
  | FundedError nat funding_error
  | CarryInError nat funding_error
  | TreeError uint64 merkle_error
  | DivisionByZero

definition checkAmount :: "bigint \<Rightarrow> funding_error + int" where
  "checkAmount x =
     (case x of None \<Rightarrow> Inl NilFunding | Some v \<Rightarrow> if v < 0 then Inl NegativeFunding else Inr v)"

fun base_loop :: "params \<Rightarrow> nat \<Rightarrow> token list \<Rightarrow> (token \<Rightarrow> int) \<Rightarrow> alloc_error + (token \<Rightarrow> int)" where
  "base_loop p i [] b = Inr b"
| "base_loop p i (t # ts) b =
     (case checkAmount (P_Funded p t) of
        Inl e \<Rightarrow> Inl (FundedError i e)
      | Inr funded \<Rightarrow>
          (case checkAmount (P_CarryIn p t) of
             Inl e \<Rightarrow> Inl (CarryInError i e)
           | Inr carryIn \<Rightarrow> base_loop p (Suc i) ts (b(t := funded + carryIn))))"

definition base :: "params \<Rightarrow> alloc_error + (token \<Rightarrow> int)" where
  "base p = base_loop p 0 tokens (\<lambda>_. 0)"

fun weigh_loop :: "params \<Rightarrow> window \<Rightarrow> holder list \<Rightarrow> row list \<Rightarrow> int \<Rightarrow> row list \<times> int" where
  "weigh_loop p w [] rows totalWeight = (rows, totalWeight)"
| "weigh_loop p w (h # hs) rows totalWeight =
     (let multBps = (if H_Account h = P_DevWallet p then MultBpsBase else MultBps (StreakDays w h));
          weight = TWAB h * multBps
      in weigh_loop p w hs
           (rows @ [\<lparr>A_Account = H_Account h, A_TWAB = TWAB h, A_MultBps = multBps, A_Weight = weight\<rparr>])
           (totalWeight + weight))"

definition weigh :: "params \<Rightarrow> holder list \<Rightarrow> int \<Rightarrow> row list \<times> int" where
  "weigh p hs totalWeight = weigh_loop p (WindowOf (P_EpochID p)) hs [] totalWeight"

fun fill :: "(token \<Rightarrow> int) \<Rightarrow> int \<Rightarrow> row list \<Rightarrow> alloc_error + allocation list" where
  "fill b totalWeight [] = Inr []"
| "fill b totalWeight (r # rs) =
     (if totalWeight = 0 then Inl DivisionByZero
      else case fill b totalWeight rs of
             Inl e \<Rightarrow> Inl e
           | Inr as \<Rightarrow>
               Inr (row.extend r (allocation.fields (\<lambda>t. quo (b t * A_Weight r) totalWeight)) # as))"

definition isEmpty :: "(token \<Rightarrow> int) \<Rightarrow> bool" where
  "isEmpty amounts \<longleftrightarrow> list_all (\<lambda>t. amounts t = 0) tokens"

fun omit_loop ::
  "allocation list \<Rightarrow> allocation list \<Rightarrow> (token \<Rightarrow> int) \<Rightarrow> allocation list \<times> (token \<Rightarrow> int)" where
  "omit_loop [] kept totals = (kept, totals)"
| "omit_loop (a # as) kept totals =
     (if isEmpty (A_Amounts a) then omit_loop as kept totals
      else omit_loop as (kept @ [a]) (\<lambda>t. totals t + A_Amounts a t))"

definition claims :: "result \<Rightarrow> uint64 \<Rightarrow> claim list" where
  "claims r epochID =
     map (\<lambda>a. \<lparr>C_ID = Some (uint epochID), C_Account = A_Account a, C_Amounts = Some \<circ> A_Amounts a\<rparr>)
       (R_Allocations r)"

definition Allocate :: "keccak \<Rightarrow> params \<Rightarrow> holder list \<Rightarrow> alloc_error + result" where
  "Allocate k p hs =
     (case base p of
        Inl e \<Rightarrow> Inl e
      | Inr b \<Rightarrow>
          let (rows, totalWeight) = weigh p hs 0
          in case fill b totalWeight rows of
               Inl e \<Rightarrow> Inl e
             | Inr filled \<Rightarrow>
                 let (kept, totals) = omit_loop filled [] (\<lambda>_. 0);
                     result = \<lparr>R_Allocations = kept, R_Totals = totals,
                               R_CarryOut = (\<lambda>t. b t - totals t), R_TotalWeight = totalWeight,
                               R_Tree = None, R_Root = 0, R_HasRoot = False\<rparr>
                 in if kept = [] then Inr result
                    else case New k (claims result (P_EpochID p)) of
                           Inl e \<Rightarrow> Inl (TreeError (P_EpochID p) e)
                         | Inr t \<Rightarrow> Inr (result\<lparr>R_Tree := Some t, R_Root := Root t, R_HasRoot := True\<rparr>))"

definition Compute :: "keccak \<Rightarrow> params \<Rightarrow> alloc_error + result" where
  "Compute k p =
     (case Replay (P_EpochID p) (P_Transfers p) (P_Exclusions p) of
        Inl e \<Rightarrow> Inl (ReplayError e)
      | Inr hs \<Rightarrow> Allocate k p hs)"

section \<open>The pieces of an allocation\<close>

definition funded_ok :: "bigint \<Rightarrow> bool" where
  "funded_ok x = (case x of None \<Rightarrow> False | Some v \<Rightarrow> 0 \<le> v)"

definition funding_ok :: "params \<Rightarrow> bool" where
  "funding_ok p \<longleftrightarrow> (\<forall>t. funded_ok (P_Funded p t) \<and> funded_ok (P_CarryIn p t))"

definition base_of :: "params \<Rightarrow> token \<Rightarrow> int" where
  "base_of p t = the (P_Funded p t) + the (P_CarryIn p t)"

lemma checkAmount_Inr: "checkAmount x = Inr v \<longleftrightarrow> funded_ok x \<and> v = the x"
  by (auto simp: checkAmount_def funded_ok_def split: option.splits)

lemma checkAmount_Inl: "(\<exists>e. checkAmount x = Inl e) \<longleftrightarrow> \<not> funded_ok x"
  using checkAmount_Inr [of x] by (cases "checkAmount x") auto

lemma base_loop_Inr:
  "base_loop p i ts b0 = Inr b \<longleftrightarrow>
   (\<forall>t \<in> set ts. funded_ok (P_Funded p t) \<and> funded_ok (P_CarryIn p t)) \<and>
   b = (\<lambda>t. if t \<in> set ts then base_of p t else b0 t)"
proof (induction ts arbitrary: i b0)
  case (Cons t ts)
  show ?case
  proof (cases "funded_ok (P_Funded p t) \<and> funded_ok (P_CarryIn p t)")
    case True
    then have "checkAmount (P_Funded p t) = Inr (the (P_Funded p t))"
      "checkAmount (P_CarryIn p t) = Inr (the (P_CarryIn p t))"
      by (simp_all add: checkAmount_Inr)
    with True show ?thesis by (auto simp: Cons.IH fun_eq_iff base_of_def)
  next
    case False
    then have "(\<exists>e. checkAmount (P_Funded p t) = Inl e) \<or> (\<exists>e. checkAmount (P_CarryIn p t) = Inl e)"
      using checkAmount_Inl by blast
    with False show ?thesis by (auto split: sum.splits)
  qed
qed auto

lemma base_Inr: "base p = Inr b \<longleftrightarrow> funding_ok p \<and> b = base_of p"
  by (auto simp: base_def base_loop_Inr funding_ok_def fun_eq_iff)

definition mult_of :: "params \<Rightarrow> holder \<Rightarrow> int64" where
  "mult_of p h =
     (if H_Account h = P_DevWallet p then MultBpsBase
      else MultBps (StreakDays (WindowOf (P_EpochID p)) h))"

definition weight_of :: "params \<Rightarrow> holder \<Rightarrow> int" where
  "weight_of p h = TWAB h * mult_of p h"

definition total_weight :: "params \<Rightarrow> holder list \<Rightarrow> int" where
  "total_weight p hs = (\<Sum>h \<leftarrow> hs. weight_of p h)"

definition row_of :: "params \<Rightarrow> holder \<Rightarrow> row" where
  "row_of p h = \<lparr>A_Account = H_Account h, A_TWAB = TWAB h, A_MultBps = mult_of p h, A_Weight = weight_of p h\<rparr>"

lemma weigh_loop_eq:
  "weigh_loop p (WindowOf (P_EpochID p)) hs rows W = (rows @ map (row_of p) hs, W + total_weight p hs)"
  by (induction hs arbitrary: rows W)
    (simp_all add: Let_def row_of_def weight_of_def mult_of_def total_weight_def)

lemma weigh_eq: "weigh p hs 0 = (map (row_of p) hs, total_weight p hs)"
  by (simp add: weigh_def weigh_loop_eq)

text \<open>The share of one Holder: the floor of its part of the base of each token.\<close>

definition share :: "params \<Rightarrow> holder list \<Rightarrow> holder \<Rightarrow> token \<Rightarrow> int" where
  "share p hs h t = quo (base_of p t * weight_of p h) (total_weight p hs)"

definition allocation_of :: "params \<Rightarrow> holder list \<Rightarrow> holder \<Rightarrow> allocation" where
  "allocation_of p hs h =
     \<lparr>A_Account = H_Account h, A_TWAB = TWAB h, A_MultBps = mult_of p h, A_Weight = weight_of p h,
      A_Amounts = share p hs h\<rparr>"

lemma fill_eq:
  "W \<noteq> 0 \<Longrightarrow> fill b W rows =
     Inr (map (\<lambda>r. row.extend r (allocation.fields (\<lambda>t. quo (b t * A_Weight r) W))) rows)"
  by (induction rows) simp_all

lemma isEmpty_iff: "isEmpty f \<longleftrightarrow> f = (\<lambda>_. 0)"
  by (auto simp: isEmpty_def list_all_iff)

lemma omit_loop_eq:
  "omit_loop as kept totals =
     (kept @ filter (\<lambda>a. \<not> isEmpty (A_Amounts a)) as, \<lambda>t. totals t + (\<Sum>a \<leftarrow> as. A_Amounts a t))"
  by (induction as arbitrary: kept totals) (auto simp: isEmpty_iff fun_eq_iff)

definition kept_allocations :: "params \<Rightarrow> holder list \<Rightarrow> allocation list" where
  "kept_allocations p hs = filter (\<lambda>a. \<not> isEmpty (A_Amounts a)) (map (allocation_of p hs) hs)"

definition positive :: "holder list \<Rightarrow> bool" where
  "positive hs \<longleftrightarrow> (\<forall>h \<in> set hs. 0 < TWAB h)"

lemma MultBps_bounds: "10000 \<le> MultBps d \<and> MultBps d \<le> 15000"
  by (simp add: MultBps_def MultBpsBase_def MultBpsWeek_def MultBpsMonth_def)

lemma weight_pos: "0 < TWAB h \<Longrightarrow> 0 < weight_of p h"
  using MultBps_bounds [of "StreakDays (WindowOf (P_EpochID p)) h"]
  by (simp add: weight_of_def mult_of_def MultBpsBase_def)

lemma total_weight_pos: "positive hs \<Longrightarrow> hs \<noteq> [] \<Longrightarrow> 0 < total_weight p hs"
proof (induction hs)
  case (Cons h hs)
  then show ?case
    using weight_pos [of h p] by (cases "hs = []") (auto simp: positive_def total_weight_def)
qed simp

lemma filled:
  assumes "positive hs"
  shows "fill (base_of p) (total_weight p hs) (map (row_of p) hs) = Inr (map (allocation_of p hs) hs)"
proof (cases "hs = []")
  case False
  with total_weight_pos [OF assms] have "total_weight p hs \<noteq> 0" by (simp add: less_le)
  then show ?thesis
    by (simp add: fill_eq row_of_def allocation_of_def share_def row.defs allocation.defs fun_eq_iff)
qed simp

text \<open>The result without its tree, and with the tree when there is something to commit to.\<close>

definition bare_result :: "params \<Rightarrow> holder list \<Rightarrow> result" where
  "bare_result p hs =
     \<lparr>R_Allocations = kept_allocations p hs,
      R_Totals = (\<lambda>t. \<Sum>h \<leftarrow> hs. share p hs h t),
      R_CarryOut = (\<lambda>t. base_of p t - (\<Sum>h \<leftarrow> hs. share p hs h t)),
      R_TotalWeight = total_weight p hs, R_Tree = None, R_Root = 0, R_HasRoot = False\<rparr>"

lemma Allocate_eq:
  assumes "positive hs"
  shows "Allocate k p hs =
    (if \<not> funding_ok p then Inl (projl (base p))
     else if kept_allocations p hs = [] then Inr (bare_result p hs)
     else case New k (claims (bare_result p hs) (P_EpochID p)) of
            Inl e \<Rightarrow> Inl (TreeError (P_EpochID p) e)
          | Inr t \<Rightarrow> Inr ((bare_result p hs)\<lparr>R_Tree := Some t, R_Root := Root t, R_HasRoot := True\<rparr>))"
proof (cases "base p")
  case (Inl e)
  then have "\<not> funding_ok p" using base_Inr [of p "base_of p"] by auto
  with Inl show ?thesis by (simp add: Allocate_def)
next
  case (Inr b)
  then have b: "funding_ok p" "b = base_of p" by (simp_all add: base_Inr)
  have "omit_loop (map (allocation_of p hs) hs) [] (\<lambda>_. 0) = (kept_allocations p hs, \<lambda>t. \<Sum>h \<leftarrow> hs. share p hs h t)"
    by (simp add: omit_loop_eq kept_allocations_def comp_def) (simp add: allocation_of_def)
  with Inr b show ?thesis
    by (simp add: Allocate_def weigh_eq filled [OF assms] Let_def bare_result_def claims_def split: sum.split)
qed

section \<open>Dust\<close>

text \<open>Floors of proportional shares lose less than one unit each.\<close>

lemma sum_floor_shares:
  fixes b W :: int and w :: "'a \<Rightarrow> int"
  assumes "0 < W"
  shows "W * (\<Sum>x \<leftarrow> xs. b * w x div W) \<le> b * (\<Sum>x \<leftarrow> xs. w x)"
    and "b * (\<Sum>x \<leftarrow> xs. w x) \<le> W * (\<Sum>x \<leftarrow> xs. b * w x div W) + (W - 1) * int (length xs)"
proof -
  have one: "W * (b * w x div W) \<le> b * w x" for x
    using minus_mod_eq_mult_div [of "b * w x" W] pos_mod_sign [OF assms, of "b * w x"] by simp
  show "W * (\<Sum>x \<leftarrow> xs. b * w x div W) \<le> b * (\<Sum>x \<leftarrow> xs. w x)"
  proof (induction xs)
    case (Cons x xs)
    with one [of x] show ?case by (simp add: distrib_left add_mono)
  qed simp
  have two: "b * w x \<le> W * (b * w x div W) + (W - 1)" for x
    using minus_mod_eq_mult_div [of "b * w x" W] pos_mod_bound [OF assms, of "b * w x"] by simp
  show "b * (\<Sum>x \<leftarrow> xs. w x) \<le> W * (\<Sum>x \<leftarrow> xs. b * w x div W) + (W - 1) * int (length xs)"
  proof (induction xs)
    case (Cons x xs)
    with two [of x] show ?case by (simp add: distrib_left)
  qed simp
qed

lemma base_nonneg: "funding_ok p \<Longrightarrow> 0 \<le> base_of p t"
  by (auto simp: funding_ok_def base_of_def funded_ok_def split: option.splits dest!: spec [of _ t])

lemma share_div:
  assumes "positive hs" "h \<in> set hs" "funding_ok p"
  shows "share p hs h t = base_of p t * weight_of p h div total_weight p hs" "0 \<le> share p hs h t"
proof -
  have "hs \<noteq> []" using assms(2) by auto
  then have "0 \<le> base_of p t * weight_of p h" "0 < total_weight p hs"
    using base_nonneg [OF assms(3)] weight_pos [of h p] total_weight_pos [OF assms(1)] assms(1,2)
    by (simp_all add: positive_def)
  then show "share p hs h t = base_of p t * weight_of p h div total_weight p hs" "0 \<le> share p hs h t"
    by (simp_all add: share_def quo_nonneg pos_imp_zdiv_nonneg_iff)
qed

lemma dust:
  assumes "positive hs" "funding_ok p"
  shows "0 \<le> (\<Sum>h \<leftarrow> hs. share p hs h t)" "(\<Sum>h \<leftarrow> hs. share p hs h t) \<le> base_of p t"
    "hs \<noteq> [] \<Longrightarrow> base_of p t - (\<Sum>h \<leftarrow> hs. share p hs h t) < int (length hs)"
proof -
  let ?W = "total_weight p hs" and ?b = "base_of p t"
  let ?S = "\<Sum>h \<leftarrow> hs. share p hs h t"
  show "0 \<le> ?S" by (rule sum_list_nonneg) (auto simp: share_div(2) [OF assms(1) _ assms(2)])
  have S: "?S = (\<Sum>h \<leftarrow> hs. ?b * weight_of p h div ?W)"
    by (rule arg_cong [where f = sum_list]) (simp add: share_div [OF assms(1) _ assms(2)])
  have bounds: "?W * ?S \<le> ?b * ?W" "?b * ?W \<le> ?W * ?S + (?W - 1) * int (length hs)" "0 < ?W"
    if "hs \<noteq> []"
    using sum_floor_shares [of ?W ?b "weight_of p" hs] total_weight_pos [OF assms(1) that, of p]
    by (simp_all add: S total_weight_def)
  show "?S \<le> ?b"
    using bounds(1,3) base_nonneg [OF assms(2)] by (cases "hs = []") (simp_all add: mult.commute)
  show "?b - ?S < int (length hs)" if "hs \<noteq> []"
  proof -
    have "?W * (?b - ?S) \<le> (?W - 1) * int (length hs)"
      using bounds(2) [OF that] by (simp add: right_diff_distrib mult.commute)
    also have "\<dots> < ?W * int (length hs)" using that by simp
    finally show ?thesis using bounds(3) [OF that] by (simp add: mult_less_cancel_left_pos)
  qed
qed

lemma share_le_base:
  assumes "positive hs" "h \<in> set hs" "funding_ok p"
  shows "share p hs h t \<le> base_of p t"
proof -
  have "share p hs h t \<le> (\<Sum>h \<leftarrow> hs. share p hs h t)"
    by (rule member_le_sum_list) (use assms in \<open>auto intro: share_div(2)\<close>)
  with dust(2) [OF assms(1,3), of t] show ?thesis by simp
qed

lemma claims_ok:
  assumes "positive hs" "funding_ok p" "\<forall>t. base_of p t < 2 ^ 256"
  shows "list_all claim_ok (claims (bare_result p hs) e)"
proof -
  have "uint e < 2 ^ 256" using unsigned_less [where 'a = int, of e] by simp
  moreover have "0 \<le> share p hs h t \<and> share p hs h t < 2 ^ 256" if "h \<in> set hs" for h t
    using share_div(2) [OF assms(1) that assms(2)] share_le_base [OF assms(1) that assms(2)] assms(3)
    by (meson order_le_less_trans)
  ultimately show ?thesis
    by (auto simp: list_all_iff claims_def bare_result_def kept_allocations_def allocation_of_def
        claim_ok_def amount_ok_def)
qed

lemma Allocate_total:
  assumes "positive hs" "funding_ok p" "\<forall>t. base_of p t < 2 ^ 256"
  shows "\<exists>r. Allocate k p hs = Inr r"
proof (cases "kept_allocations p hs = []")
  case False
  then have "claims (bare_result p hs) (P_EpochID p) \<noteq> []" by (simp add: claims_def bare_result_def)
  with claims_ok [OF assms] obtain t where "New k (claims (bare_result p hs) (P_EpochID p)) = Inr t"
    using New_Inr_iff by (metis list_all_iff)
  with False show ?thesis by (simp add: Allocate_eq assms)
qed (simp add: Allocate_eq assms)

lemma Allocate_result:
  assumes "positive hs" "Allocate k p hs = Inr r"
  shows "funding_ok p" "R_Allocations r = kept_allocations p hs"
    "R_Totals r = R_Totals (bare_result p hs)" "R_CarryOut r = R_CarryOut (bare_result p hs)"
    "R_TotalWeight r = total_weight p hs" "R_HasRoot r \<longleftrightarrow> kept_allocations p hs \<noteq> []"
    "R_HasRoot r \<Longrightarrow> \<exists>t. R_Tree r = Some t \<and> R_Root r = Root t \<and> New k (claims r (P_EpochID p)) = Inr t"
    "\<not> R_HasRoot r \<Longrightarrow> R_Tree r = None \<and> R_Root r = 0"
  using assms(2) unfolding Allocate_eq [OF assms(1)]
  by (auto simp: bare_result_def claims_def split: if_splits sum.splits)

lemma Allocate_conserving:
  assumes "positive hs" "Allocate k p hs = Inr r"
  shows "R_Totals r t = (\<Sum>a \<leftarrow> R_Allocations r. A_Amounts a t) \<and>
    R_Totals r t + R_CarryOut r t = the (P_Funded p t) + the (P_CarryIn p t) \<and>
    0 \<le> R_Totals r t \<and> 0 \<le> R_CarryOut r t \<and> (hs \<noteq> [] \<longrightarrow> R_CarryOut r t < int (length hs))"
proof -
  have "(\<Sum>h \<leftarrow> hs. share p hs h t) = (\<Sum>a \<leftarrow> kept_allocations p hs. A_Amounts a t)"
  proof -
    have "(\<Sum>a \<leftarrow> filter (\<lambda>a. \<not> isEmpty (A_Amounts a)) as. A_Amounts a t) = (\<Sum>a \<leftarrow> as. A_Amounts a t)"
      for as :: "allocation list"
      by (induction as) (auto simp: isEmpty_iff)
    then show ?thesis by (simp add: kept_allocations_def comp_def) (simp add: allocation_of_def)
  qed
  then show ?thesis
    using dust [OF assms(1), of p t] Allocate_result(1-4) [OF assms]
    by (simp add: bare_result_def base_of_def)
qed

section \<open>Holders from either source\<close>

text \<open>
  What \<open>Allocate\<close> relies on in its Holders, whoever replayed the history: ascending by address and
  of positive weight. The client's lemmas are proved once for both sources.
\<close>

locale holder_source =
  fixes produce :: "'k \<Rightarrow> twab_error + holder list"
  assumes weighty: "produce x = Inr hs \<Longrightarrow> positive hs"
    and ascending: "produce x = Inr hs \<Longrightarrow> sorted (map H_Account hs)"
begin

lemma allocates_without_panic: "produce x = Inr hs \<Longrightarrow> Allocate k p hs \<noteq> Inl DivisionByZero"
proof
  assume hs: "produce x = Inr hs" and eq: "Allocate k p hs = Inl DivisionByZero"
  have "base p \<noteq> Inl DivisionByZero"
  proof -
    have "base_loop p i ts b \<noteq> Inl DivisionByZero" for i ts b
      by (induction ts arbitrary: i b) (auto split: sum.splits)
    then show ?thesis by (simp add: base_def)
  qed
  moreover have "\<not> funding_ok p \<longleftrightarrow> (\<exists>e. base p = Inl e)"
    using base_Inr [of p] by (cases "base p") auto
  ultimately show False
    using eq unfolding Allocate_eq [OF weighty [OF hs]] by (auto split: if_splits sum.splits)
qed

lemma allocations_ascending:
  assumes "produce x = Inr hs" "Allocate k p hs = Inr r"
  shows "sorted (map A_Account (R_Allocations r))"
proof -
  have "map A_Account (R_Allocations r) = map H_Account (filter (\<lambda>h. \<not> isEmpty (share p hs h)) hs)"
    by (simp add: Allocate_result(2) [OF weighty [OF assms(1)] assms(2)] kept_allocations_def
        filter_map comp_def allocation_of_def)
  then show ?thesis using ascending [OF assms(1)] by (simp add: sorted_filter)
qed

lemmas conserves = dust [OF weighty] and result = Allocate_result [OF weighty]

end

lemma holders_loop_positive:
  "\<forall>h \<in> set out. 0 < TWAB h \<Longrightarrow> \<forall>h \<in> set (snd (holders_loop ex r as out)). 0 < TWAB h"
proof (induction as arbitrary: r out)
  case (Cons a as)
  note IH = Cons.IH [rule_format] and out = Cons.prems [rule_format]
  show ?case by (auto simp: Let_def not_le out dest!: IH [rotated] split: if_splits)
qed simp

lemma holders_positive: "positive (snd (holders r ex))"
  using holders_loop_positive [of "[]" ex r "active r"]
  by (simp add: holders_def positive_def case_prod_beta)

lemma holders_sorted: "sorted (map H_Account (snd (holders r ex)))"
  by (simp add: holders_def case_prod_beta)

interpretation replay: holder_source "\<lambda>(e, trs, xs). Replay e trs xs"
  by unfold_locales
    (auto simp: Replay_def Let_def holders_positive holders_sorted split: sum.splits prod.splits)

interpretation ledger: holder_source "\<lambda>(l, e). snd (Advance l e)"
proof unfold_locales
  fix x hs assume "(\<lambda>(l, e). snd (Advance l e)) x = Inr hs"
  then obtain r ex where "hs = snd (holders r ex)"
    by (auto simp: Advance_def Let_def case_prod_beta split: option.splits if_splits sum.splits)
  then show "positive hs" "sorted (map H_Account hs)"
    by (simp_all add: holders_positive holders_sorted)
qed

section \<open>Properties\<close>

text \<open>A small Epoch for the examples: two Holders, one of them the developer's wallet.\<close>

definition demo_params :: params where
  "demo_params =
     \<lparr>P_EpochID = 1000, P_Transfers = demo_transfers, P_Exclusions = demo_exclusions, P_DevWallet = 2,
      P_Funded = (\<lambda>_. Some 100), P_CarryIn = (\<lambda>t. if t = SPY then Some 1 else Some 0)\<rparr>"

definition demo_holders :: "holder list" where
  "demo_holders =
     [\<lparr>H_Account = 1, TWAB = 5400, FirstBuyAt = 3600000, LastSellAt = 3601800\<rparr>,
      \<lparr>H_Account = 2, TWAB = 1800, FirstBuyAt = 3601800, LastSellAt = 0\<rparr>]"

lemma demo_Replay: "Replay 1000 demo_transfers demo_exclusions = Inr demo_holders"
  by code_simp

lemma demo_positive: "positive demo_holders"
  by (simp add: positive_def demo_holders_def)

lemma demo_funding: "funding_ok demo_params" "\<forall>t. base_of demo_params t < 2 ^ 256"
  by (simp_all add: funding_ok_def funded_ok_def base_of_def demo_params_def)

lemma demo_Allocate: "\<exists>r. Allocate demo_hash demo_params demo_holders = Inr r"
  by (rule Allocate_total [OF demo_positive demo_funding])

lemma demo_Compute: "\<exists>r. Compute demo_hash demo_params = Inr r"
  using demo_Allocate by (simp add: Compute_def demo_params_def demo_Replay)

text \<open>
  C5. Nothing is created or lost: for every token the Totals are the sum of the Allocations of the
  tree, Totals and the Carry that goes to the next Root add up to funding plus the Carry that
  came in, both are non-negative, and with at least one Holder the Carry is less than one base unit for each.
\<close>

theorem Allocate_conserves:
  assumes "positive hs" "Allocate k p hs = Inr r"
  shows "R_Totals r t = (\<Sum>a \<leftarrow> R_Allocations r. A_Amounts a t) \<and>
    R_Totals r t + R_CarryOut r t = the (P_Funded p t) + the (P_CarryIn p t) \<and>
    0 \<le> R_Totals r t \<and> 0 \<le> R_CarryOut r t \<and> (hs \<noteq> [] \<longrightarrow> R_CarryOut r t < int (length hs))"
  by (rule Allocate_conserving [OF assms])

theorem Allocate_conserves_witness:
  "\<exists>r. Allocate demo_hash demo_params demo_holders = Inr r \<and>
    R_Totals r SPY = (\<Sum>a \<leftarrow> R_Allocations r. A_Amounts a SPY) \<and>
    R_Totals r SPY + R_CarryOut r SPY = 101 \<and> 0 \<le> R_Totals r SPY \<and> 0 \<le> R_CarryOut r SPY \<and>
    R_CarryOut r SPY < 2"
proof -
  obtain r where r: "Allocate demo_hash demo_params demo_holders = Inr r" using demo_Allocate by blast
  have p: "the (P_Funded demo_params SPY) + the (P_CarryIn demo_params SPY) = 101"
    by (simp add: demo_params_def)
  have "demo_holders \<noteq> []" "length demo_holders = 2" by (simp_all add: demo_holders_def)
  with r Allocate_conserves [OF demo_positive r, of SPY] show ?thesis unfolding p by auto
qed

text \<open>
  C24. Each Holder is owed the floor of \<open>base \<times> weight / W\<close> of each token, where a weight is the TWAB
  times the multiplier and \<open>W\<close> is the sum of the weights of all Holders, those later omitted
  included; the Allocations are the Holders in their order, less those owed nothing at all.
\<close>

theorem Allocate_shares:
  assumes "positive hs" "Allocate k p hs = Inr r"
  shows "R_TotalWeight r = (\<Sum>h \<leftarrow> hs. TWAB h * mult_of p h) \<and>
    R_Allocations r =
      filter (\<lambda>a. \<exists>t. A_Amounts a t \<noteq> 0)
        (map (\<lambda>h. \<lparr>A_Account = H_Account h, A_TWAB = TWAB h, A_MultBps = mult_of p h,
                    A_Weight = TWAB h * mult_of p h,
                    A_Amounts = (\<lambda>t. (the (P_Funded p t) + the (P_CarryIn p t)) * (TWAB h * mult_of p h)
                                      div R_TotalWeight r)\<rparr>) hs)"
proof -
  note res = Allocate_result [OF assms]
  have "map (allocation_of p hs) hs =
      map (\<lambda>h. \<lparr>A_Account = H_Account h, A_TWAB = TWAB h, A_MultBps = mult_of p h,
                 A_Weight = TWAB h * mult_of p h,
                 A_Amounts = (\<lambda>t. (the (P_Funded p t) + the (P_CarryIn p t)) * (TWAB h * mult_of p h)
                                   div R_TotalWeight r)\<rparr>) hs"
    by (rule map_cong)
      (simp_all add: allocation_of_def weight_of_def fun_eq_iff share_div [OF assms(1) _ res(1)]
        base_of_def res(5))
  moreover have "(\<lambda>a. \<not> isEmpty (A_Amounts a)) = (\<lambda>a :: allocation. \<exists>t. A_Amounts a t \<noteq> 0)"
    by (auto simp: isEmpty_iff fun_eq_iff)
  moreover have "R_TotalWeight r = (\<Sum>h \<leftarrow> hs. TWAB h * mult_of p h)"
    by (simp add: res(5) total_weight_def weight_of_def)
  ultimately show ?thesis unfolding res(2) kept_allocations_def by metis
qed

theorem Allocate_shares_witness:
  "\<exists>r. Allocate demo_hash demo_params demo_holders = Inr r \<and> R_TotalWeight r = 72000000 \<and>
     map (\<lambda>a. (A_Account a, A_Amounts a SPY, A_Amounts a MU)) (R_Allocations r) = [(1, 75, 75), (2, 25, 25)]"
proof -
  obtain r where r: "Allocate demo_hash demo_params demo_holders = Inr r" using demo_Allocate by blast
  have m: "mult_of demo_params \<lparr>H_Account = 1, TWAB = 5400, FirstBuyAt = 3600000, LastSellAt = 3601800\<rparr> = 10000"
    "mult_of demo_params \<lparr>H_Account = 2, TWAB = 1800, FirstBuyAt = 3601800, LastSellAt = 0\<rparr> = 10000"
    by (simp_all add: mult_of_def demo_params_def MultBps_def StreakDays_def WindowOf_def i64_def quo_def
        EpochSeconds_def secondsPerDay_def StreakWeek_def StreakMonth_def MultBpsBase_def)
  define f where "f = (\<lambda>h. \<lparr>A_Account = H_Account h, A_TWAB = TWAB h, A_MultBps = mult_of demo_params h,
    A_Weight = TWAB h * mult_of demo_params h,
    A_Amounts = (\<lambda>t. (the (P_Funded demo_params t) + the (P_CarryIn demo_params t)) *
                      (TWAB h * mult_of demo_params h) div R_TotalWeight r)\<rparr>)"
  have W: "R_TotalWeight r = 72000000"
    using Allocate_shares [OF demo_positive r] by (simp add: demo_holders_def m)
  have "A_Amounts (f h) t \<noteq> 0" if "h \<in> set demo_holders" for h t
    using that by (auto simp: f_def demo_holders_def m W) (auto simp: demo_params_def split: if_splits)
  then have "filter (\<lambda>a. \<exists>t. A_Amounts a t \<noteq> 0) (map f demo_holders) = map f demo_holders"
    by (auto simp: filter_id_conv)
  with Allocate_shares [OF demo_positive r] have "R_Allocations r = map f demo_holders"
    by (simp add: f_def)
  moreover have "map (\<lambda>a. (A_Account a, A_Amounts a SPY, A_Amounts a MU)) (map f demo_holders) =
      [(1, 75, 75), (2, 25, 25)]"
    by (simp add: f_def demo_holders_def m W) (simp add: demo_params_def)
  ultimately show ?thesis using r W by auto
qed

text \<open>
  The multiplier depends on how long before the close of the Epoch the Holder last sent or, if it
  never did, first received: 1.50x from thirty days on, 1.25x from seven, 1.00x below, and
  always 1.00x for the developer's wallet.
\<close>

theorem multiplier_tiers:
  assumes "epoch_ok (P_EpochID p)" "0 \<le> FirstBuyAt h" "0 \<le> LastSellAt h"
    and held: "held = End (WindowOf (P_EpochID p)) - max (LastSellAt h) (FirstBuyAt h)" and "0 \<le> held"
  shows "mult_of p h =
    (if H_Account h = P_DevWallet p then 10000
     else if 30 * 86400 \<le> held then 15000 else if 7 * 86400 \<le> held then 12500 else 10000)"
proof -
  have "End (WindowOf (P_EpochID p)) < 2 ^ 63"
    using assms(1) by (simp add: WindowOf_ok) (simp add: epoch_ok_def)
  then have "in_i64 held" using assms(2-5) by (simp add: in_i64_def max_def split: if_splits)
  moreover have "(if LastSellAt h > FirstBuyAt h then LastSellAt h else FirstBuyAt h) = max (LastSellAt h) (FirstBuyAt h)"
    by (simp add: max_def)
  ultimately have "StreakDays (WindowOf (P_EpochID p)) h = held div 86400"
    using assms(5) by (simp add: StreakDays_def Let_def held [symmetric] i64_id secondsPerDay_def quo_nonneg)
  moreover have "30 \<le> held div 86400 \<longleftrightarrow> 30 * 86400 \<le> held" "7 \<le> held div 86400 \<longleftrightarrow> 7 * 86400 \<le> held"
    by (simp_all add: le_div_int)
  ultimately show ?thesis
    by (simp add: mult_of_def MultBps_def MultBpsBase_def MultBpsWeek_def MultBpsMonth_def
        StreakWeek_def StreakMonth_def)
qed

theorem multiplier_tiers_witness:
  "mult_of demo_params \<lparr>H_Account = 1, TWAB = 5, FirstBuyAt = 999999, LastSellAt = 1000000\<rparr> = 15000 \<and>
   mult_of demo_params \<lparr>H_Account = 2, TWAB = 5, FirstBuyAt = 1000000, LastSellAt = 0\<rparr> = 10000"
proof -
  have e: "epoch_ok (P_EpochID demo_params)" "End (WindowOf (P_EpochID demo_params)) = 3603600"
    by (simp_all add: demo_params_def WindowOf_ok)
  let ?h = "\<lparr>H_Account = 1, TWAB = 5, FirstBuyAt = 999999, LastSellAt = 1000000\<rparr>"
  let ?d = "\<lparr>H_Account = 2, TWAB = 5, FirstBuyAt = 1000000, LastSellAt = 0\<rparr>"
  have "mult_of demo_params ?h = 15000"
    using multiplier_tiers [OF e(1), of ?h 2603600] by (simp add: e(2)) (simp add: demo_params_def)
  moreover have "mult_of demo_params ?d = 10000"
    using multiplier_tiers [OF e(1), of ?d 2603600] by (simp add: e(2)) (simp add: demo_params_def)
  ultimately show ?thesis ..
qed

text \<open>
  C25. With funding and Carry that are present, not negative and below \<open>2 ^ 256\<close> together, a Recompute
  returns a result exactly when the transfer history is usable; its Allocations name each account at
  most once, ascending; and no Recompute divides by a total weight of zero.
\<close>

theorem Compute_total:
  assumes "epoch_ok (P_EpochID p)" "times_ok (P_Transfers p)" "funding_ok p" "\<forall>t. base_of p t < 2 ^ 256"
  shows "((\<exists>r. Compute k p = Inr r) \<longleftrightarrow> history_ok (End (WindowOf (P_EpochID p))) (P_Transfers p)) \<and>
    (Compute k p = Inr r \<longrightarrow> sorted_wrt (<) (map A_Account (R_Allocations r))) \<and>
    Compute k p \<noteq> Inl DivisionByZero"
proof (cases "Replay (P_EpochID p) (P_Transfers p) (P_Exclusions p)")
  case (Inl e)
  with Replay_iff [OF assms(1,2), of "P_Exclusions p"] show ?thesis by (auto simp: Compute_def)
next
  case (Inr hs)
  then have hist: "history_ok (End (WindowOf (P_EpochID p))) (P_Transfers p)"
    and hs: "\<exists>S. map H_Account hs = sorted_list_of_set S"
    using Replay_iff [OF assms(1,2), of "P_Exclusions p" hs]
    by (auto simp: replay_spec_def holder_spec_def comp_def)
  have produced: "(\<lambda>(e, trs, xs). Replay e trs xs) (P_EpochID p, P_Transfers p, P_Exclusions p) = Inr hs"
    using Inr by simp
  have pos: "positive hs" using replay.weighty [OF produced] .
  have eq: "Compute k p = Allocate k p hs" by (simp add: Compute_def Inr)
  have "sorted_wrt (<) (map A_Account (R_Allocations r))" if "Allocate k p hs = Inr r"
  proof -
    have "sorted (map A_Account (R_Allocations r))" by (rule replay.allocations_ascending [OF produced that])
    moreover have "distinct (map A_Account (map (allocation_of p hs) hs))"
      using hs by (auto simp: comp_def allocation_of_def)
    then have "distinct (map A_Account (R_Allocations r))"
      unfolding Allocate_result(2) [OF pos that] kept_allocations_def by (rule distinct_map_filter)
    ultimately show ?thesis by (simp add: strict_sorted_iff)
  qed
  then show ?thesis
    using hist Allocate_total [OF pos assms(3,4), of k] replay.allocates_without_panic [OF produced, of k p]
    by (simp add: eq)
qed

theorem Compute_total_witness:
  "\<exists>r. Compute demo_hash demo_params = Inr r \<and> history_ok (End (WindowOf 1000)) demo_transfers \<and>
     sorted_wrt (<) (map A_Account (R_Allocations r)) \<and> Compute demo_hash demo_params \<noteq> Inl DivisionByZero"
proof -
  obtain r where r: "Compute demo_hash demo_params = Inr r" using demo_Compute by blast
  have "epoch_ok (P_EpochID demo_params)" "times_ok (P_Transfers demo_params)"
    by (simp_all add: demo_params_def)
  from Compute_total [OF this demo_funding, of demo_hash r] r show ?thesis
    by (auto simp: demo_params_def)
qed

text \<open>
  C23. The Root of a Recompute commits to its Allocations: when there are any, the leaf of the \<open>i\<close>-th
  Allocation is the double hash of the epoch id, the account and the five amounts, and its proof
  verifies against the Root. With none there is no Root.
\<close>

theorem Compute_root_commits:
  assumes "Compute k p = Inr r"
  shows "(R_HasRoot r \<longleftrightarrow> R_Allocations r \<noteq> []) \<and> (\<not> R_HasRoot r \<longrightarrow> R_Root r = 0) \<and>
    (i < length (R_Allocations r) \<longrightarrow>
      (\<exists>t e. R_Tree r = Some t \<and>
        encode \<lparr>C_ID = Some (uint (P_EpochID p)), C_Account = A_Account (R_Allocations r ! i),
                C_Amounts = Some \<circ> A_Amounts (R_Allocations r ! i)\<rparr> = Inr e \<and>
        Leaf t i = leafHashOf k e \<and> Verify k (R_Root r) (Leaf t i) (Proof t i)))"
proof -
  obtain hs where hs: "Replay (P_EpochID p) (P_Transfers p) (P_Exclusions p) = Inr hs"
    and r: "Allocate k p hs = Inr r"
    using assms by (auto simp: Compute_def split: sum.splits)
  have "(\<lambda>(e, trs, xs). Replay e trs xs) (P_EpochID p, P_Transfers p, P_Exclusions p) = Inr hs"
    using hs by simp
  note pos = replay.weighty [OF this]
  note res = Allocate_result [OF pos r]
  show ?thesis
  proof (cases "R_HasRoot r")
    case True
    then obtain t where t: "R_Tree r = Some t" "R_Root r = Root t" "New k (claims r (P_EpochID p)) = Inr t"
      using res(7) by blast
    show ?thesis
      using True res(2,6) t Proof_ok [OF t(3), of i] by (auto simp: claims_def)
  qed (use res in simp)
qed

theorem Compute_root_commits_witness:
  "\<exists>r. Compute demo_hash demo_params = Inr r \<and> (R_HasRoot r \<longleftrightarrow> R_Allocations r \<noteq> [])"
  using Compute_root_commits demo_Compute by blast

end
