(* ===== verification/Report.thy ===== *)
theory Report
  imports Merkle
begin

text \<open>
  Package \<open>report\<close>, the assessment (\<open>internal/report/assess.go\<close>) and the text form of a run
  (\<open>internal/report/report.go\<close>): Verdicts and exit codes, the four Assertions and the fifth
  that an Expectation adds, with the words they are reported in.

  \<open>assertCapOver\<close> adds \<open>*big.Int\<close>s it has not checked, and adding a nil pointer panics. A panic is
  the value \<open>None\<close>; \<open>Assess_defined\<close> says what keeps it away.
\<close>

section \<open>Verdicts\<close>

datatype verdict = Match | Mismatch | Indeterminate

definition ExitCode :: "verdict \<Rightarrow> nat" where
  "ExitCode v = (case v of Match \<Rightarrow> 0 | Mismatch \<Rightarrow> 1 | Indeterminate \<Rightarrow> 2)"

fun worst_loop :: "verdict \<Rightarrow> verdict list \<Rightarrow> verdict" where
  "worst_loop worst [] = worst"
| "worst_loop worst (v # vs) =
     (if v = Indeterminate then Indeterminate
      else if v = Mismatch then worst_loop Mismatch vs
      else worst_loop worst vs)"

definition Worst :: "verdict list \<Rightarrow> verdict" where
  "Worst vs = worst_loop Match vs"

text \<open>Verdicts in the order in which they outrank each other.\<close>

instantiation verdict :: linorder
begin

definition less_eq_verdict :: "verdict \<Rightarrow> verdict \<Rightarrow> bool" where
  "v \<le> w \<longleftrightarrow> ExitCode v \<le> ExitCode w"

definition less_verdict :: "verdict \<Rightarrow> verdict \<Rightarrow> bool" where
  "v < w \<longleftrightarrow> ExitCode v < ExitCode w"

instance
proof
  fix v w :: verdict
  show "v \<le> w \<Longrightarrow> w \<le> v \<Longrightarrow> v = w"
    by (cases v; cases w) (simp_all add: less_eq_verdict_def ExitCode_def)
qed (auto simp: less_eq_verdict_def less_verdict_def)

end

section \<open>Assertions\<close>

datatype status = Pass | Fail | NotApplicable

definition AssertRoot :: string where "AssertRoot = ''root''"
definition AssertTotals :: string where "AssertTotals = ''totals''"
definition AssertCap :: string where "AssertCap = ''cap''"
definition AssertCarryIn :: string where "AssertCarryIn = ''carryIn''"
definition AssertExpected :: string where "AssertExpected = ''expected''"

record assertion =
  Name :: string
  Status :: status
  Detail :: string

record recompute =
  Rc_HasRoot :: bool
  Rc_Root :: hash
  Rc_Totals :: amounts
  Rc_Holders :: nat
  Rc_ExpectedCarryIn :: amounts
  Rc_CarryFrom :: string

record posted =
  Po_HasRoot :: bool
  Po_Skipped :: bool
  Po_Root :: hash
  Po_Totals :: amounts
  Po_Funded :: amounts
  Po_CarryIn :: amounts

record assessment =
  As_Verdict :: verdict
  As_Assertions :: "assertion list"
  As_Reason :: string

definition hash_string :: "hash \<Rightarrow> string" where
  "hash_string h = hexOf (hash_bytes h)"

text \<open>\<open>fmt\<close> prints a nil \<open>*big.Int\<close> as \<open><nil>\<close>; \<open>Decimals\<close> prints it as a question mark.\<close>

definition fmt_big :: "bigint \<Rightarrow> string" where
  "fmt_big x = (case x of None \<Rightarrow> ''<nil>'' | Some v \<Rightarrow> dec_int v)"

definition Decimals :: "amounts \<Rightarrow> string list" where
  "Decimals a = map (\<lambda>t. case a t of None \<Rightarrow> ''?'' | Some v \<Rightarrow> dec_int v) tokens"

definition join :: "string \<Rightarrow> string list \<Rightarrow> string" where
  "join sep xs = (case xs of [] \<Rightarrow> '''' | x # rest \<Rightarrow> x @ concat (map (\<lambda>y. sep @ y) rest))"

definition list_string :: "string list \<Rightarrow> string" where
  "list_string values = ''['' @ join '' '' values @ '']''"

definition formatAmounts :: "amounts \<Rightarrow> string" where
  "formatAmounts a = list_string (Decimals a)"

fun first_difference_loop :: "amounts \<Rightarrow> amounts \<Rightarrow> nat \<Rightarrow> token list \<Rightarrow> (nat \<times> token) option" where
  "first_difference_loop a b i [] = None"
| "first_difference_loop a b i (t # ts) =
     (if a t = None \<or> b t = None \<or> a t \<noteq> b t then Some (i, t) else first_difference_loop a b (Suc i) ts)"

definition firstDifference :: "amounts \<Rightarrow> amounts \<Rightarrow> (nat \<times> token) option" where
  "firstDifference a b = first_difference_loop a b 0 tokens"

definition fromAssertions :: "assertion list \<Rightarrow> assessment" where
  "fromAssertions as =
     \<lparr>As_Verdict = foldl (\<lambda>v a. if Status a = Fail then Mismatch else v) Match as,
      As_Assertions = as, As_Reason = ''''\<rparr>"

definition assertRoot :: "recompute \<Rightarrow> posted \<Rightarrow> assertion" where
  "assertRoot rc po =
     (if \<not> Rc_HasRoot rc then
        \<lparr>Name = AssertRoot, Status = Fail,
         Detail = ''posted '' @ hash_string (Po_Root po) @
                  '', but the Recompute has no eligible Holders and so no Root''\<rparr>
      else if Rc_Root rc \<noteq> Po_Root po then
        \<lparr>Name = AssertRoot, Status = Fail,
         Detail = ''recomputed '' @ hash_string (Rc_Root rc) @ '', posted '' @ hash_string (Po_Root po)\<rparr>
      else \<lparr>Name = AssertRoot, Status = Pass, Detail = hash_string (Po_Root po)\<rparr>)"

definition assertTotals :: "amounts \<Rightarrow> amounts \<Rightarrow> assertion" where
  "assertTotals recomputed po =
     (case firstDifference recomputed po of
        Some (i, t) \<Rightarrow>
          \<lparr>Name = AssertTotals, Status = Fail,
           Detail = ''token '' @ dec i @ '': recomputed '' @ fmt_big (recomputed t) @ '', posted '' @ fmt_big (po t) @
                    '' (recomputed '' @ formatAmounts recomputed @ '', posted '' @ formatAmounts po @ '')''\<rparr>
      | None \<Rightarrow> \<lparr>Name = AssertTotals, Status = Pass, Detail = formatAmounts po\<rparr>)"

fun cap_loop :: "amounts \<Rightarrow> amounts \<Rightarrow> amounts \<Rightarrow> nat \<Rightarrow> token list \<Rightarrow> (nat \<times> token) option option" where
  "cap_loop totals funded carryIn i [] = Some None"
| "cap_loop totals funded carryIn i (t # ts) =
     (case (totals t, funded t, carryIn t) of
        (Some tot, Some f, Some c) \<Rightarrow>
          if tot > f + c then Some (Some (i, t)) else cap_loop totals funded carryIn (Suc i) ts
      | _ \<Rightarrow> None)"

definition assertCapOver :: "amounts \<Rightarrow> amounts \<Rightarrow> amounts \<Rightarrow> assertion option" where
  "assertCapOver totals funded carryIn =
     map_option
       (\<lambda>found. case found of
          Some (i, t) \<Rightarrow>
            \<lparr>Name = AssertCap, Status = Fail,
             Detail = ''token '' @ dec i @ '': totals '' @ fmt_big (totals t) @ '' > funded '' @ fmt_big (funded t) @
                      '' + carryIn '' @ fmt_big (carryIn t)\<rparr>
        | None \<Rightarrow>
            \<lparr>Name = AssertCap, Status = Pass,
             Detail = ''totals <= funded '' @ formatAmounts funded @ '' + carryIn '' @ formatAmounts carryIn @
                      '' in every token''\<rparr>)
       (cap_loop totals funded carryIn 0 tokens)"

definition assertCap :: "posted \<Rightarrow> assertion option" where
  "assertCap po = assertCapOver (Po_Totals po) (Po_Funded po) (Po_CarryIn po)"

definition assertCarryIn :: "recompute \<Rightarrow> amounts \<Rightarrow> assertion" where
  "assertCarryIn rc po =
     (case firstDifference (Rc_ExpectedCarryIn rc) po of
        Some (i, t) \<Rightarrow>
          \<lparr>Name = AssertCarryIn, Status = Fail,
           Detail = ''token '' @ dec i @ '': posted '' @ fmt_big (po t) @ '', but '' @ Rc_CarryFrom rc @ '' leaves '' @
                    fmt_big (Rc_ExpectedCarryIn rc t) @ '' (posted '' @ formatAmounts po @ '', expected '' @
                    formatAmounts (Rc_ExpectedCarryIn rc) @ '')''\<rparr>
      | None \<Rightarrow>
          \<lparr>Name = AssertCarryIn, Status = Pass, Detail = formatAmounts po @ '' = '' @ Rc_CarryFrom rc\<rparr>)"

definition assertExpected :: "hash \<Rightarrow> hash \<Rightarrow> assertion" where
  "assertExpected expected po =
     (if expected \<noteq> po
      then \<lparr>Name = AssertExpected, Status = Fail,
            Detail = ''expected '' @ hash_string expected @ '', posted '' @ hash_string po\<rparr>
      else \<lparr>Name = AssertExpected, Status = Pass, Detail = ''equals the posted Root''\<rparr>)"

definition expectedStoodIn :: assertion where
  "expectedStoodIn =
     \<lparr>Name = AssertExpected, Status = NotApplicable,
      Detail = ''no Root posted: the expectation was the root line's comparand''\<rparr>"

definition withExpected :: "assessment \<Rightarrow> assertion \<Rightarrow> assessment" where
  "withExpected assessed expected = fromAssertions (As_Assertions assessed @ [expected])"

definition assessPosted :: "recompute \<Rightarrow> posted \<Rightarrow> assessment option" where
  "assessPosted rc po =
     (case assertCap po of
        None \<Rightarrow> None
      | Some capped \<Rightarrow>
          Some (fromAssertions
            [assertRoot rc po, assertTotals (Rc_Totals rc) (Po_Totals po), capped,
             assertCarryIn rc (Po_CarryIn po)]))"

definition assessSkipped :: "recompute \<Rightarrow> assessment" where
  "assessSkipped rc =
     (let root = (if Rc_HasRoot rc
            then \<lparr>Name = AssertRoot, Status = Fail,
                  Detail = ''skipped by a later Root, but the Recompute has a Root '' @ hash_string (Rc_Root rc) @
                           '' over '' @ dec (Rc_Holders rc) @ '' Holders''\<rparr>
            else \<lparr>Name = AssertRoot, Status = Pass,
                  Detail = ''skipped by a later Root, and no Root recomputed: no eligible Holders''\<rparr>);
          totals = (if Rc_HasRoot rc
            then \<lparr>Name = AssertTotals, Status = Fail,
                  Detail = ''nothing committed, but the Recompute allocates '' @ formatAmounts (Rc_Totals rc)\<rparr>
            else \<lparr>Name = AssertTotals, Status = Pass, Detail = ''nothing committed, and nothing allocated''\<rparr>)
      in fromAssertions
           [root, totals,
            \<lparr>Name = AssertCap, Status = NotApplicable, Detail = ''no totals committed''\<rparr>,
            \<lparr>Name = AssertCarryIn, Status = NotApplicable,
             Detail = ''skipped; the funding rolled into the next Root's Carry''\<rparr>])"

definition assessExpected :: "recompute \<Rightarrow> posted \<Rightarrow> hash \<Rightarrow> assessment option" where
  "assessExpected rc po expected =
     (if \<not> Rc_HasRoot rc then
        Some (fromAssertions
          [\<lparr>Name = AssertRoot, Status = Fail,
            Detail = ''expected '' @ hash_string expected @
                     '', but the Recompute has no eligible Holders and so no Root''\<rparr>,
           \<lparr>Name = AssertTotals, Status = Pass, Detail = ''nothing allocated''\<rparr>,
           \<lparr>Name = AssertCap, Status = NotApplicable, Detail = ''no totals recomputed''\<rparr>,
           \<lparr>Name = AssertCarryIn, Status = NotApplicable,
            Detail = ''no Root posted; the funding stays as Carry for the next Root''\<rparr>,
           expectedStoodIn])
      else
        let root = (if Rc_Root rc \<noteq> expected
              then \<lparr>Name = AssertRoot, Status = Fail,
                    Detail = ''recomputed '' @ hash_string (Rc_Root rc) @ '', expected '' @ hash_string expected\<rparr>
              else \<lparr>Name = AssertRoot, Status = Pass,
                    Detail = hash_string expected @ '', as expected; no Root posted yet''\<rparr>)
        in case assertCapOver (Rc_Totals rc) (Po_Funded po) (Rc_ExpectedCarryIn rc) of
             None \<Rightarrow> None
           | Some capped \<Rightarrow>
               Some (fromAssertions
                 [root,
                  \<lparr>Name = AssertTotals, Status = Pass,
                   Detail = formatAmounts (Rc_Totals rc) @ '' recomputed; nothing posted to compare with''\<rparr>,
                  capped,
                  \<lparr>Name = AssertCarryIn, Status = Pass,
                   Detail = formatAmounts (Rc_ExpectedCarryIn rc) @ '' = '' @ Rc_CarryFrom rc @
                            ''; nothing posted to compare with''\<rparr>,
                  expectedStoodIn]))"

definition Assess :: "recompute \<Rightarrow> posted \<Rightarrow> hash option \<Rightarrow> assessment option" where
  "Assess rc po expected =
     (if Po_HasRoot po then
        (case assessPosted rc po of
           None \<Rightarrow> None
         | Some assessed \<Rightarrow>
             Some (case expected of
                     None \<Rightarrow> assessed
                   | Some h \<Rightarrow> withExpected assessed (assertExpected h (Po_Root po))))
      else if Po_Skipped po then
        Some (case expected of
                None \<Rightarrow> assessSkipped rc
              | Some h \<Rightarrow>
                  withExpected (assessSkipped rc)
                    \<lparr>Name = AssertExpected, Status = Fail,
                     Detail = ''expected '' @ hash_string h @
                       '', but the Epoch was skipped by a later Root: nothing can be posted for it''\<rparr>)
      else
        (case expected of
           Some h \<Rightarrow> assessExpected rc po h
         | None \<Rightarrow>
             if Rc_HasRoot rc then
               Some \<lparr>As_Verdict = Indeterminate, As_Assertions = [],
                     As_Reason = ''no Root posted yet: the Recompute has one over '' @ dec (Rc_Holders rc) @ '' Holders''\<rparr>
             else
               Some (fromAssertions
                 [\<lparr>Name = AssertRoot, Status = Pass,
                   Detail = ''no Root posted, and none recomputed: no eligible Holders''\<rparr>,
                  \<lparr>Name = AssertTotals, Status = Pass, Detail = ''nothing committed, and nothing allocated''\<rparr>,
                  \<lparr>Name = AssertCap, Status = NotApplicable, Detail = ''no totals committed''\<rparr>,
                  \<lparr>Name = AssertCarryIn, Status = NotApplicable,
                   Detail = ''no Root posted; the funding stays as Carry for the next Root''\<rparr>])))"

section \<open>The report\<close>

text \<open>
  What a run prints. The empty \<open>Verdict\<close> of a sync is \<open>None\<close>, a nil pointer is \<open>None\<close>, and the
  lines of text are a list.

  \<open>CallsPerSecond\<close> is a float that a run prints, compares with zero and paces its calls with: the model carries its text, the number
  that \<open>encoding/json\<close> writes (an infinity and what is not a number have none), and the two comparisons.
\<close>

record rate =
  Rate_text :: string
  Rate_json :: "string option"
  Rate_zero :: bool
  Rate_negative :: bool

record tipInfo =
  Tip_Number :: uint64
  Tip_Hash :: string
  Tip_Lag :: uint64

record reorg =
  Reorg_Block :: uint64
  Reorg_Dropped :: int64

record cacheInfo =
  CI_Dir :: string
  CI_Records :: int64
  CI_Through :: uint64
  CI_Appended :: int64
  CI_Reorg :: "reorg option"
  CI_Repaired :: string

record run =
  Run_ChainID :: uint64
  Run_Distributor :: string
  Run_Token :: string
  Run_DevWallet :: string
  Run_Finality :: string
  Run_Expected :: string
  Run_Endpoints :: "string list"
  Run_CallsPerSecond :: rate
  Run_Tip :: "tipInfo option"
  Run_Cache :: "cacheInfo option"

record recomputed =
  Rd_HasRoot :: bool
  Rd_Root :: string
  Rd_Totals :: "string list"
  Rd_CarryOut :: "string list"
  Rd_TotalWeight :: string
  Rd_CarryIn :: "string list"

record postedRoot =
  PR_Root :: string
  PR_Block :: uint64
  PR_Totals :: "string list"
  PR_Funded :: "string list"
  PR_CarryIn :: "string list"

record epochReport =
  Ep_ID :: uint64
  Ep_Start :: int64
  Ep_End :: int64
  Ep_EndBlock :: "(uint64 \<times> string) option"
  Ep_Holders :: nat
  Ep_Recomputed :: recomputed
  Ep_Posted :: "postedRoot option"
  Ep_Expected :: string
  Ep_Skipped :: bool
  Ep_Assertions :: "assertion list"
  Ep_Verdict :: verdict
  Ep_Reason :: string

record artifactsReport =
  Ar_Path :: string
  Ar_Rows :: nat
  Ar_Root :: string
  Ar_Diff :: string
  Ar_Error :: string

record report =
  Command :: string
  Rp_Run :: run
  Rp_Verdict :: "verdict option"
  Rp_Reason :: string
  Rp_Epochs :: "epochReport list"
  Rp_Artifacts :: "artifactsReport option"

definition verdict_string :: "verdict \<Rightarrow> string" where
  "verdict_string v =
     (case v of Match \<Rightarrow> ''MATCH'' | Mismatch \<Rightarrow> ''MISMATCH'' | Indeterminate \<Rightarrow> ''INDETERMINATE'')"

definition status_string :: "status \<Rightarrow> string" where
  "status_string s = (case s of Pass \<Rightarrow> ''ok'' | Fail \<Rightarrow> ''FAIL'' | NotApplicable \<Rightarrow> ''n/a'')"

definition pad :: "nat \<Rightarrow> string \<Rightarrow> string" where
  "pad n s = s @ replicate (n - length s) CHR '' ''"

definition dec64 :: "uint64 \<Rightarrow> string" where
  "dec64 n = dec (unat n)"

definition field :: "string \<Rightarrow> string \<Rightarrow> string" where
  "field label val = ''  '' @ pad 13 label @ val"

definition cache_lines :: "cacheInfo \<Rightarrow> string list" where
  "cache_lines c =
     [field ''cache'' (CI_Dir c @ '': '' @
        (if CI_Records c > 0
         then dec_int (CI_Records c) @ '' records through block '' @ dec64 (CI_Through c) else ''empty''))] @
     (if CI_Repaired c \<noteq> '''' then [field '''' (''repaired: '' @ CI_Repaired c)] else []) @
     (case CI_Reorg c of
        None \<Rightarrow> []
      | Some r \<Rightarrow>
          [field '''' (''reorg: dropped '' @ dec_int (Reorg_Dropped r) @ '' records from block '' @
             dec64 (Reorg_Block r) @ '' on'')]) @
     (if CI_Appended c > 0 then [field '''' (''synced: '' @ dec_int (CI_Appended c) @ '' records appended'')] else [])"

definition header_lines :: "report \<Rightarrow> string list" where
  "header_lines r =
     (let run = Rp_Run r
      in [''nutz-verify '' @ Command r,
          field ''chain'' (dec64 (Run_ChainID run)),
          field ''distributor'' (Run_Distributor run),
          field ''token'' (Run_Token run),
          field ''dev wallet'' (Run_DevWallet run)] @
         (if Run_Expected run \<noteq> '''' then [field ''expected'' (Run_Expected run)] else []) @
         (case Run_Tip run of
            Some t \<Rightarrow>
              [field ''finality'' (Run_Finality run @ '': block '' @ dec64 (Tip_Number t) @ '' '' @ Tip_Hash t @
                 '', endpoints within '' @ dec64 (Tip_Lag t) @ '' blocks of each other'')]
          | None \<Rightarrow> [field ''finality'' (Run_Finality run)]) @
         [field ''endpoints'' (join '', '' (Run_Endpoints run) @ '', at '' @ Rate_text (Run_CallsPerSecond run) @ '' calls/s each'')] @
         (case Run_Cache run of None \<Rightarrow> [] | Some c \<Rightarrow> cache_lines c))"

definition assertion_line :: "assertion \<Rightarrow> string" where
  "assertion_line a = ''  '' @ pad 9 (Name a) @ pad 6 (status_string (Status a)) @ Detail a"

definition epoch_lines :: "epochReport \<Rightarrow> string list" where
  "epoch_lines e =
     ['''',
      ''epoch '' @ dec64 (Ep_ID e) @ ''  window ['' @ dec_int (Ep_Start e) @ '', '' @ dec_int (Ep_End e) @ '')'' @
        (case Ep_EndBlock e of None \<Rightarrow> '''' | Some (n, h) \<Rightarrow> ''  end block '' @ dec64 n @ '' '' @ h),
      field ''holders'' (dec (Ep_Holders e) @ '' in the tree, W = '' @ Rd_TotalWeight (Ep_Recomputed e)),
      (if Rd_HasRoot (Ep_Recomputed e)
       then field ''recomputed'' (''root '' @ Rd_Root (Ep_Recomputed e) @ ''  totals '' @
              list_string (Rd_Totals (Ep_Recomputed e)) @ ''  carryOut '' @ list_string (Rd_CarryOut (Ep_Recomputed e)))
       else field ''recomputed'' (''no Root: no allocation survives  carryOut '' @
              list_string (Rd_CarryOut (Ep_Recomputed e)))),
      (case Ep_Posted e of
         Some p \<Rightarrow>
           field ''posted'' (''root '' @ PR_Root p @ '' at block '' @ dec64 (PR_Block p) @ ''  totals '' @
             list_string (PR_Totals p) @ ''  funded '' @ list_string (PR_Funded p) @ ''  carryIn '' @
             list_string (PR_CarryIn p))
       | None \<Rightarrow> if Ep_Skipped e then field ''posted'' ''no Root: skipped by a later Root''
                 else field ''posted'' ''no Root'')] @
     (if Ep_Expected e \<noteq> '''' then [field ''expected'' (''root '' @ Ep_Expected e)] else []) @
     map assertion_line (Ep_Assertions e) @
     (if Ep_Reason e \<noteq> '''' then [field ''verdict'' (verdict_string (Ep_Verdict e) @ '': '' @ Ep_Reason e)] else [])"

definition artifacts_lines :: "artifactsReport \<Rightarrow> string list" where
  "artifacts_lines a =
     (if Ar_Error a \<noteq> '''' then ['''', ''artifacts '' @ Ar_Path a @ ''  NOT COMPARED: '' @ Ar_Error a]
      else ['''', ''artifacts '' @ Ar_Path a @ ''  '' @ dec (Ar_Rows a) @ '' rows, '' @
                 (if Ar_Root a \<noteq> '''' then ''root.txt '' @ Ar_Root a else ''no root.txt''),
            (if Ar_Diff a = '''' then field '''' ''agrees with the Recompute''
             else field '''' (''DIFFERS: '' @ Ar_Diff a))])"

definition Write :: "report \<Rightarrow> string list" where
  "Write r =
     header_lines r @ concat (map epoch_lines (Rp_Epochs r)) @
     (case Rp_Artifacts r of None \<Rightarrow> [] | Some a \<Rightarrow> artifacts_lines a) @
     (case Rp_Verdict r of
        None \<Rightarrow> []
      | Some v \<Rightarrow>
          ['''', (if Rp_Reason r \<noteq> '''' then verdict_string v @ '': '' @ Rp_Reason r else verdict_string v)])"

section \<open>What the Assertions compare\<close>

definition present :: "amounts \<Rightarrow> bool" where
  "present a \<longleftrightarrow> (\<forall>t. a t \<noteq> None)"

definition cap_at :: "amounts \<Rightarrow> amounts \<Rightarrow> amounts \<Rightarrow> token \<Rightarrow> bool" where
  "cap_at totals funded carryIn t =
     (case (totals t, funded t, carryIn t) of
        (Some x, Some f, Some c) \<Rightarrow> x \<le> f + c
      | _ \<Rightarrow> False)"

text \<open>The cap of ADR-0002: in every token the totals are within funding plus Carry.\<close>

definition cap_ok :: "amounts \<Rightarrow> amounts \<Rightarrow> amounts \<Rightarrow> bool" where
  "cap_ok totals funded carryIn \<longleftrightarrow> (\<forall>t. cap_at totals funded carryIn t)"

lemma first_difference_loop_None:
  "first_difference_loop a b i ts = None \<longleftrightarrow> (\<forall>t \<in> set ts. a t \<noteq> None \<and> a t = b t)"
  by (induction ts arbitrary: i) auto

lemma firstDifference_None: "firstDifference a b = None \<longleftrightarrow> present a \<and> a = b"
  by (auto simp: firstDifference_def first_difference_loop_None present_def fun_eq_iff)

lemma cap_loop_None: "cap_loop totals funded carryIn i ts = Some None \<longleftrightarrow> (\<forall>t \<in> set ts. cap_at totals funded carryIn t)"
  by (induction ts arbitrary: i) (auto simp: cap_at_def split: option.splits)

lemma cap_loop_defined:
  "present totals \<Longrightarrow> present funded \<Longrightarrow> present carryIn \<Longrightarrow> cap_loop totals funded carryIn i ts \<noteq> None"
proof (induction ts arbitrary: i)
  case (Cons t ts)
  obtain x f c where "totals t = Some x" "funded t = Some f" "carryIn t = Some c"
    using Cons.prems unfolding present_def by blast
  with Cons show ?case by simp
qed simp

lemma assertCapOver_status:
  "assertCapOver totals funded carryIn = Some a \<Longrightarrow>
   Name a = AssertCap \<and> (Status a = Fail \<longleftrightarrow> \<not> cap_ok totals funded carryIn)"
  using cap_loop_None [of totals funded carryIn 0 tokens]
  by (auto simp: assertCapOver_def cap_ok_def split: option.splits)

lemma assertCapOver_defined:
  "present totals \<Longrightarrow> present funded \<Longrightarrow> present carryIn \<Longrightarrow> \<exists>a. assertCapOver totals funded carryIn = Some a"
  using cap_loop_defined [of totals funded carryIn 0 tokens] by (auto simp: assertCapOver_def)

lemma fromAssertions_verdict:
  "As_Verdict (fromAssertions as) = (if \<exists>a \<in> set as. Status a = Fail then Mismatch else Match)"
proof -
  have "foldl (\<lambda>v a. if Status a = Fail then Mismatch else v) v as =
      (if \<exists>a \<in> set as. Status a = Fail then Mismatch else v)" for v
    by (induction as arbitrary: v) auto
  then show ?thesis by (simp add: fromAssertions_def)
qed

lemma As_Assertions_from [simp]: "As_Assertions (fromAssertions as) = as"
  by (simp add: fromAssertions_def)

lemma assertRoot_status: "Name (assertRoot rc po) = AssertRoot"
  "Status (assertRoot rc po) = Fail \<longleftrightarrow> \<not> (Rc_HasRoot rc \<and> Rc_Root rc = Po_Root po)"
  by (simp_all add: assertRoot_def)

lemma assertTotals_status: "Name (assertTotals a b) = AssertTotals"
  "Status (assertTotals a b) = Fail \<longleftrightarrow> \<not> (present a \<and> a = b)"
  using firstDifference_None [of a b] by (auto simp: assertTotals_def split: option.splits)

lemma assertCarryIn_status: "Name (assertCarryIn rc b) = AssertCarryIn"
  "Status (assertCarryIn rc b) = Fail \<longleftrightarrow> \<not> (present (Rc_ExpectedCarryIn rc) \<and> Rc_ExpectedCarryIn rc = b)"
  using firstDifference_None [of "Rc_ExpectedCarryIn rc" b] by (auto simp: assertCarryIn_def split: option.splits)

lemma assertExpected_status: "Name (assertExpected h r) = AssertExpected"
  "Status (assertExpected h r) = Fail \<longleftrightarrow> h \<noteq> r"
  by (simp_all add: assertExpected_def)

lemmas assertion_status = assertRoot_status assertTotals_status assertCarryIn_status assertExpected_status

text \<open>The four things that a MATCH against a posted Root commits to.\<close>

definition agrees :: "recompute \<Rightarrow> posted \<Rightarrow> bool" where
  "agrees rc po \<longleftrightarrow>
     Rc_HasRoot rc \<and> Rc_Root rc = Po_Root po \<and>
     present (Rc_Totals rc) \<and> Rc_Totals rc = Po_Totals po \<and>
     cap_ok (Po_Totals po) (Po_Funded po) (Po_CarryIn po) \<and>
     present (Rc_ExpectedCarryIn rc) \<and> Rc_ExpectedCarryIn rc = Po_CarryIn po"

lemma assessPosted_result:
  assumes "assessPosted rc po = Some a"
  shows "map Name (As_Assertions a) = [AssertRoot, AssertTotals, AssertCap, AssertCarryIn]"
    "(\<exists>x \<in> set (As_Assertions a). Status x = Fail) \<longleftrightarrow> \<not> agrees rc po"
    "As_Verdict a = (if agrees rc po then Match else Mismatch)"
proof -
  obtain c where c: "assertCap po = Some c" and a: "a = fromAssertions
      [assertRoot rc po, assertTotals (Rc_Totals rc) (Po_Totals po), c, assertCarryIn rc (Po_CarryIn po)]"
    using assms by (auto simp: assessPosted_def split: option.splits)
  note cap = assertCapOver_status [OF c [unfolded assertCap_def]]
  show "map Name (As_Assertions a) = [AssertRoot, AssertTotals, AssertCap, AssertCarryIn]"
    by (simp add: a cap assertion_status)
  show fail: "(\<exists>x \<in> set (As_Assertions a). Status x = Fail) \<longleftrightarrow> \<not> agrees rc po"
    by (auto simp: a cap assertion_status agrees_def)
  then show "As_Verdict a = (if agrees rc po then Match else Mismatch)"
    by (simp add: a fromAssertions_verdict)
qed

definition verdict_spec :: "recompute \<Rightarrow> posted \<Rightarrow> hash option \<Rightarrow> verdict" where
  "verdict_spec rc po expected =
     (if Po_HasRoot po
      then if agrees rc po \<and> (\<forall>h. expected = Some h \<longrightarrow> h = Po_Root po) then Match else Mismatch
      else if Po_Skipped po then if Rc_HasRoot rc \<or> expected \<noteq> None then Mismatch else Match
      else case expected of
             Some h \<Rightarrow> if Rc_HasRoot rc \<and> Rc_Root rc = h \<and>
                          cap_ok (Rc_Totals rc) (Po_Funded po) (Rc_ExpectedCarryIn rc)
                       then Match else Mismatch
           | None \<Rightarrow> if Rc_HasRoot rc then Indeterminate else Match)"

definition lines_spec :: "hash option \<Rightarrow> string list" where
  "lines_spec expected =
     [AssertRoot, AssertTotals, AssertCap, AssertCarryIn] @ (if expected = None then [] else [AssertExpected])"

lemma assessExpected_result:
  assumes "assessExpected rc po h = Some a"
  shows "map Name (As_Assertions a) = lines_spec (Some h)"
    "As_Verdict a = (if Rc_HasRoot rc \<and> Rc_Root rc = h \<and>
        cap_ok (Rc_Totals rc) (Po_Funded po) (Rc_ExpectedCarryIn rc) then Match else Mismatch)"
  using assms
  by (auto simp: assessExpected_def Let_def lines_spec_def expectedStoodIn_def fromAssertions_verdict
      split: if_splits option.splits dest!: assertCapOver_status)

lemma assessSkipped_result:
  "map Name (As_Assertions (assessSkipped rc)) = lines_spec None"
  "(\<exists>x \<in> set (As_Assertions (assessSkipped rc)). Status x = Fail) \<longleftrightarrow> Rc_HasRoot rc"
  "As_Verdict (assessSkipped rc) = (if Rc_HasRoot rc then Mismatch else Match)"
  by (simp_all add: assessSkipped_def Let_def lines_spec_def fromAssertions_verdict)

lemma withExpected_result:
  "map Name (As_Assertions (withExpected a x)) = map Name (As_Assertions a) @ [Name x]"
  "As_Verdict (withExpected a x) =
     (if (\<exists>y \<in> set (As_Assertions a). Status y = Fail) \<or> Status x = Fail then Mismatch else Match)"
  by (auto simp: withExpected_def fromAssertions_verdict)

section \<open>Properties\<close>

text \<open>A posted Root and a Recompute that agree.\<close>

definition demo_recompute :: recompute where
  "demo_recompute =
     \<lparr>Rc_HasRoot = True, Rc_Root = 7, Rc_Totals = (\<lambda>_. Some 99), Rc_Holders = 2,
      Rc_ExpectedCarryIn = (\<lambda>_. Some 1), Rc_CarryFrom = ''epoch 999''\<rparr>"

definition demo_posted :: posted where
  "demo_posted =
     \<lparr>Po_HasRoot = True, Po_Skipped = False, Po_Root = 7, Po_Totals = (\<lambda>_. Some 99),
      Po_Funded = (\<lambda>_. Some 100), Po_CarryIn = (\<lambda>_. Some 1)\<rparr>"

definition demo_run :: run where
  "demo_run =
     \<lparr>Run_ChainID = 1, Run_Distributor = ''0x01'', Run_Token = ''0x02'', Run_DevWallet = ''0x03'',
      Run_Finality = ''finalized'', Run_Expected = '''', Run_Endpoints = [''1 (host)''],
      Run_CallsPerSecond = \<lparr>Rate_text = ''10'', Rate_json = Some ''10'', Rate_zero = False, Rate_negative = False\<rparr>, Run_Tip = None, Run_Cache = None\<rparr>"

lemma demo_Assess: "\<exists>a. Assess demo_recompute demo_posted (Some 7) = Some a"
  by (simp add: Assess_def assessPosted_def assertCap_def assertCapOver_def tokens_def
      demo_recompute_def demo_posted_def)

lemma worst_loop_max: "worst_loop v vs = Max (set (v # vs))" if "v \<noteq> Indeterminate"
  using that
proof (induction vs arbitrary: v)
  case (Cons w vs)
  show ?case
  proof (cases w)
    case Indeterminate
    have "Max (set (v # w # vs)) = Indeterminate"
    proof (rule Max_eqI)
      fix x show "x \<le> Indeterminate" by (cases x) (simp_all add: less_eq_verdict_def ExitCode_def)
    qed (simp_all add: Indeterminate)
    with Indeterminate show ?thesis by simp
  next
    case Mismatch
    have "max Mismatch v = Mismatch" using Cons.prems
      by (cases v) (simp_all add: max_def less_eq_verdict_def ExitCode_def)
    with Cons.IH [of Mismatch] Mismatch show ?thesis
      by (cases "vs = []") (simp_all add: insert_commute max.assoc [symmetric])
  next
    case Match
    have "max v Match = v"
      by (cases v) (simp_all add: max_def less_eq_verdict_def ExitCode_def)
    with Cons.IH [OF Cons.prems] Match show ?thesis
      by (cases "vs = []") (simp_all add: max.assoc [symmetric])
  qed
qed simp

text \<open>
  The Verdict of a run made of several is the worst of them, where INDETERMINATE is worse than
  MISMATCH and that is worse than MATCH; so the process exits with 0 only when every one of
  them is a MATCH.
\<close>

theorem Worst_is_worst:
  "Worst vs = Max (set (Match # vs)) \<and> (ExitCode (Worst vs) = 0 \<longleftrightarrow> set vs \<subseteq> {Match}) \<and>
   (Worst vs = Indeterminate \<longleftrightarrow> Indeterminate \<in> set vs)"
proof -
  have ind: "worst_loop v vs = Indeterminate \<longleftrightarrow> Indeterminate \<in> set vs" if "v \<noteq> Indeterminate" for v
    using that
  proof (induction vs arbitrary: v)
    case (Cons w vs)
    then show ?case by (cases w) simp_all
  qed simp
  have match: "worst_loop v vs = Match \<longleftrightarrow> v = Match \<and> set vs \<subseteq> {Match}" for v
  proof (induction vs arbitrary: v)
    case (Cons w vs)
    then show ?case by (cases w) simp_all
  qed simp
  have "ExitCode v = 0 \<longleftrightarrow> v = Match" for v
    by (simp add: ExitCode_def split: verdict.splits)
  then show ?thesis using worst_loop_max [of Match vs] ind [of Match] match [of Match] by (simp add: Worst_def)
qed

lemma Assess_judges:
  assumes "Assess rc po expected = Some a"
  shows "As_Verdict a = verdict_spec rc po expected"
proof (cases "Po_HasRoot po")
  case True
  then obtain b where b: "assessPosted rc po = Some b" using assms by (auto simp: Assess_def split: option.splits)
  note res = assessPosted_result [OF b]
  show ?thesis
    using assms True b res
    by (cases expected) (auto simp: Assess_def verdict_spec_def withExpected_result assertion_status)
next
  case False
  then show ?thesis
    using assms
    by (cases expected)
      (auto simp: Assess_def verdict_spec_def assessSkipped_result withExpected_result fromAssertions_verdict
        split: if_splits dest!: assessExpected_result(2))
qed

text \<open>
  C26. The Verdict in every case. With a Root posted it is MATCH exactly when the Recompute has the
  same Root, the same totals and the expected Carry, the posted totals are within the cap, and an
  Expectation, if given, is the posted Root. A skipped Epoch is a MATCH when the Recompute has no Root
  either and nothing was expected. With nothing posted, an Expectation is compared with the
  Recompute, and without one the answer is INDETERMINATE unless the Recompute has no Root.
\<close>

theorem Assess_verdict:
  assumes "Assess rc po expected = Some a"
  shows "As_Verdict a = verdict_spec rc po expected"
  by (rule Assess_judges [OF assms])

theorem Assess_verdict_witness:
  "Assess demo_recompute demo_posted (Some 7) = Some (the (Assess demo_recompute demo_posted (Some 7))) \<and>
   As_Verdict (the (Assess demo_recompute demo_posted (Some 7))) = Match"
proof -
  obtain a where a: "Assess demo_recompute demo_posted (Some 7) = Some a" using demo_Assess by blast
  have "verdict_spec demo_recompute demo_posted (Some 7) = Match"
    by (simp add: verdict_spec_def agrees_def present_def cap_ok_def cap_at_def demo_recompute_def demo_posted_def)
  with Assess_verdict [OF a] a show ?thesis by simp
qed

text \<open>
  A reader always gets the same lines in the same order: root, totals, cap and carryIn, and the
  expected line when there is an Expectation; or, when the Verdict is INDETERMINATE, no lines at
  all and a reason.
\<close>

theorem Assess_lines:
  assumes "Assess rc po expected = Some a"
  shows "map Name (As_Assertions a) = (if As_Verdict a = Indeterminate then [] else lines_spec expected) \<and>
    (As_Reason a \<noteq> [] \<longleftrightarrow> As_Verdict a = Indeterminate) \<and>
    (As_Verdict a = Mismatch \<longleftrightarrow> (\<exists>x \<in> set (As_Assertions a). Status x = Fail))"
proof -
  have from_lines: "As_Verdict (fromAssertions as) \<noteq> Indeterminate" "As_Reason (fromAssertions as) = []"
    "As_Verdict (fromAssertions as) = Mismatch \<longleftrightarrow> (\<exists>x \<in> set as. Status x = Fail)" for as
    by (simp_all add: fromAssertions_verdict) (simp add: fromAssertions_def)
  let ?from = "\<lambda>b. b = fromAssertions (As_Assertions b)"
  have shape: "?from a \<and> map Name (As_Assertions a) = lines_spec expected" if "As_Verdict a \<noteq> Indeterminate"
  proof (cases "Po_HasRoot po")
    case True
    then obtain b where b: "assessPosted rc po = Some b" using assms by (auto simp: Assess_def split: option.splits)
    have "?from b" using b by (auto simp: assessPosted_def split: option.splits)
    then show ?thesis
      using assms True b assessPosted_result(1) [OF b]
      by (cases expected) (auto simp: Assess_def lines_spec_def withExpected_def assertion_status)
  next
    case False
    have "?from (assessSkipped rc)" by (simp add: assessSkipped_def Let_def)
    moreover have "?from b" if "assessExpected rc po h = Some b" for b h
      using that by (auto simp: assessExpected_def Let_def split: if_splits option.splits)
    ultimately show ?thesis
      using assms False that assessSkipped_result(1) [of rc]
      by (cases expected)
        (auto simp: Assess_def lines_spec_def withExpected_def split: if_splits dest: assessExpected_result(1))
  qed
  show ?thesis
  proof (cases "As_Verdict a = Indeterminate")
    case True
    then have "As_Assertions a = [] \<and> As_Reason a \<noteq> []"
      using assms assessPosted_result(3) [of rc po] assessExpected_result(2) [of rc po]
      by (auto simp: Assess_def from_lines withExpected_result assessSkipped_result
          split: if_splits option.splits)
    with True show ?thesis by simp
  next
    case False
    with shape from_lines(2,3) [of "As_Assertions a"] show ?thesis by auto
  qed
qed

theorem Assess_lines_witness:
  "\<exists>a. Assess demo_recompute demo_posted (Some 7) = Some a \<and>
     map Name (As_Assertions a) = (if As_Verdict a = Indeterminate then [] else lines_spec (Some 7))"
  using demo_Assess Assess_lines by blast

lemma Assess_not_nil:
  assumes "present (Po_Funded po)" "Po_HasRoot po \<longrightarrow> present (Po_Totals po) \<and> present (Po_CarryIn po)"
    and "\<not> Po_HasRoot po \<longrightarrow> present (Rc_Totals rc) \<and> present (Rc_ExpectedCarryIn rc)"
  shows "\<exists>a. Assess rc po expected = Some a"
proof (cases "Po_HasRoot po")
  case True
  then obtain c where "assertCap po = Some c"
    using assms assertCapOver_defined unfolding assertCap_def by blast
  with True show ?thesis by (simp add: Assess_def assessPosted_def)
next
  case False
  then obtain c where "assertCapOver (Rc_Totals rc) (Po_Funded po) (Rc_ExpectedCarryIn rc) = Some c"
    using assms assertCapOver_defined by blast
  with False show ?thesis
    by (cases expected) (simp_all add: Assess_def assessExpected_def Let_def)
qed

text \<open>
  The assessment never dereferences a missing amount when the amounts it is given are there:
  those of the chain when a Root is posted, and the funding and the Recompute's own otherwise.
\<close>

theorem Assess_defined:
  assumes "present (Po_Funded po)" "Po_HasRoot po \<longrightarrow> present (Po_Totals po) \<and> present (Po_CarryIn po)"
    and "\<not> Po_HasRoot po \<longrightarrow> present (Rc_Totals rc) \<and> present (Rc_ExpectedCarryIn rc)"
  shows "\<exists>a. Assess rc po expected = Some a"
  by (rule Assess_not_nil [OF assms])

theorem Assess_defined_witness: "\<exists>a. Assess demo_recompute demo_posted (Some 7) = Some a"
  by (rule Assess_defined) (simp_all add: present_def demo_recompute_def demo_posted_def)

text \<open>
  A report with a Verdict ends with it, on a line of its own, with the reason if there is one;
  every Assertion of every Epoch has its line above it, and the comparison with published
  artifacts changes neither.
\<close>

theorem Write_verdict_last:
  "(Rp_Verdict r = Some v \<longrightarrow>
      last (Write r) = verdict_string v @ (if Rp_Reason r = '''' then '''' else '': '' @ Rp_Reason r)) \<and>
   (e \<in> set (Rp_Epochs r) \<and> a \<in> set (Ep_Assertions e) \<longrightarrow> assertion_line a \<in> set (Write r)) \<and>
   (Rp_Verdict r = Some v \<longrightarrow> last (Write (r\<lparr>Rp_Artifacts := x\<rparr>)) = last (Write r))"
  by (auto simp: Write_def epoch_lines_def)

theorem Write_verdict_last_witness:
  "last (Write \<lparr>Command = ''latest'', Rp_Run = demo_run, Rp_Verdict = Some Match, Rp_Reason = '''',
                Rp_Epochs = [], Rp_Artifacts = None\<rparr>) = ''MATCH''"
proof -
  let ?r = "\<lparr>Command = ''latest'', Rp_Run = demo_run, Rp_Verdict = Some Match, Rp_Reason = '''',
             Rp_Epochs = [], Rp_Artifacts = None\<rparr>"
  have "Rp_Verdict ?r = Some Match" by simp
  with Write_verdict_last [of ?r Match] have "last (Write ?r) = verdict_string Match" by auto
  then show ?thesis by (simp add: verdict_string_def)
qed

end
