(* ===== verification/Document.thy ===== *)
theory Document
  imports Report
begin

text \<open>
  The machine-readable form of a run (\<open>WriteJSON\<close> of \<open>internal/report/report.go\<close>, with the field tags of the report's types): the document as a
  tree, with the members in the order of the fields and those left out that \<open>omitempty\<close> leaves out. \<open>encoding/json\<close> has no number for
  an infinity or for what is not a number, and refuses a report with one; and it writes the replacement character for every byte of a string that
  is not part of UTF-8. What makes characters of the tree (indentation and escapes) is the library's.

  The document is shown to determine the report it was made of, up to those bytes.
\<close>

section \<open>The tree\<close>

datatype doc = DBool bool | DInt int | DFloat string | DStr string | DArr "doc list" | DObj "(string \<times> doc) list"

text \<open>A struct: its fields by name, \<open>None\<close> for one that is omitted.\<close>

fun members :: "(string \<times> doc option) list \<Rightarrow> (string \<times> doc) list" where
  "members [] = []"
| "members ((k, None) # rest) = members rest"
| "members ((k, Some d) # rest) = (k, d) # members rest"

definition struct :: "(string \<times> doc option) list \<Rightarrow> doc" where
  "struct xs = DObj (members xs)"

definition nonempty :: "string \<Rightarrow> doc option" where
  "nonempty s = (if s = [] then None else Some (DStr s))"

definition SchemaVersion :: string where "SchemaVersion = ''nutz-verify-report/1''"

definition status_json :: "status \<Rightarrow> string" where
  "status_json s = (case s of Pass \<Rightarrow> ''pass'' | Fail \<Rightarrow> ''fail'' | NotApplicable \<Rightarrow> ''n/a'')"

definition strings :: "string list \<Rightarrow> doc" where
  "strings xs = DArr (map DStr xs)"

definition assertion_json :: "assertion \<Rightarrow> doc" where
  "assertion_json a = struct [(''name'', Some (DStr (Name a))), (''status'', Some (DStr (status_json (Status a)))), (''detail'', Some (DStr (Detail a)))]"

definition tip_json :: "tipInfo \<Rightarrow> doc" where
  "tip_json t = struct [(''number'', Some (DInt (uint (Tip_Number t)))), (''hash'', Some (DStr (Tip_Hash t))), (''lag'', Some (DInt (uint (Tip_Lag t))))]"

definition reorg_json :: "reorg \<Rightarrow> doc" where
  "reorg_json r = struct [(''block'', Some (DInt (uint (Reorg_Block r)))), (''dropped'', Some (DInt (Reorg_Dropped r)))]"

definition cache_json :: "cacheInfo \<Rightarrow> doc" where
  "cache_json c = struct
     [(''dir'', Some (DStr (CI_Dir c))), (''records'', Some (DInt (CI_Records c))), (''through'', Some (DInt (uint (CI_Through c)))),
      (''appended'', Some (DInt (CI_Appended c))), (''reorg'', map_option reorg_json (CI_Reorg c)), (''repaired'', nonempty (CI_Repaired c))]"

definition run_json :: "string \<Rightarrow> run \<Rightarrow> doc" where
  "run_json number r = struct
     [(''chainId'', Some (DInt (uint (Run_ChainID r)))), (''distributor'', Some (DStr (Run_Distributor r))), (''token'', Some (DStr (Run_Token r))),
      (''devWallet'', Some (DStr (Run_DevWallet r))), (''finality'', Some (DStr (Run_Finality r))), (''expected'', nonempty (Run_Expected r)),
      (''endpoints'', Some (strings (Run_Endpoints r))), (''callsPerSecond'', Some (DFloat number)),
      (''tip'', map_option tip_json (Run_Tip r)), (''cache'', map_option cache_json (Run_Cache r))]"

definition recomputed_json :: "recomputed \<Rightarrow> doc" where
  "recomputed_json r = struct
     [(''hasRoot'', Some (DBool (Rd_HasRoot r))), (''root'', nonempty (Rd_Root r)), (''totals'', Some (strings (Rd_Totals r))),
      (''carryOut'', Some (strings (Rd_CarryOut r))), (''totalWeight'', Some (DStr (Rd_TotalWeight r))), (''carryIn'', Some (strings (Rd_CarryIn r)))]"

definition posted_json :: "postedRoot \<Rightarrow> doc" where
  "posted_json p = struct
     [(''root'', Some (DStr (PR_Root p))), (''block'', Some (DInt (uint (PR_Block p)))), (''totals'', Some (strings (PR_Totals p))),
      (''funded'', Some (strings (PR_Funded p))), (''carryIn'', Some (strings (PR_CarryIn p)))]"

definition window_json :: "int64 \<Rightarrow> int64 \<Rightarrow> doc" where
  "window_json start finish = struct [(''start'', Some (DInt start)), (''end'', Some (DInt finish))]"

definition block_json :: "uint64 \<times> string \<Rightarrow> doc" where
  "block_json b = struct [(''number'', Some (DInt (uint (fst b)))), (''hash'', Some (DStr (snd b)))]"

definition array :: "doc list \<Rightarrow> doc option" where
  "array ds = (if ds = [] then None else Some (DArr ds))"

definition epoch_json :: "epochReport \<Rightarrow> doc" where
  "epoch_json e = struct
     [(''id'', Some (DInt (uint (Ep_ID e)))), (''window'', Some (window_json (Ep_Start e) (Ep_End e))),
      (''endBlock'', map_option block_json (Ep_EndBlock e)), (''holders'', Some (DInt (int (Ep_Holders e)))),
      (''recomputed'', Some (recomputed_json (Ep_Recomputed e))), (''posted'', map_option posted_json (Ep_Posted e)),
      (''expected'', nonempty (Ep_Expected e)), (''skipped'', if Ep_Skipped e then Some (DBool True) else None),
      (''assertions'', array (map assertion_json (Ep_Assertions e))), (''verdict'', Some (DStr (verdict_string (Ep_Verdict e)))),
      (''reason'', nonempty (Ep_Reason e))]"

definition artifacts_json :: "artifactsReport \<Rightarrow> doc" where
  "artifacts_json a = struct
     [(''path'', Some (DStr (Ar_Path a))), (''rows'', Some (DInt (int (Ar_Rows a)))), (''root'', nonempty (Ar_Root a)),
      (''diff'', nonempty (Ar_Diff a)), (''error'', nonempty (Ar_Error a))]"

definition report_fields :: "string \<Rightarrow> report \<Rightarrow> (string \<times> doc option) list" where
  "report_fields number r =
     [(''schema'', Some (DStr SchemaVersion)), (''command'', Some (DStr (Command r))), (''run'', Some (run_json number (Rp_Run r))),
      (''verdict'', map_option (DStr \<circ> verdict_string) (Rp_Verdict r)), (''reason'', nonempty (Rp_Reason r)),
      (''epochs'', array (map epoch_json (Rp_Epochs r))), (''artifacts'', map_option artifacts_json (Rp_Artifacts r))]"

section \<open>Text\<close>

text \<open>
  \<open>utf8.DecodeRuneInString\<close>: how many bytes the character at the front of a string has, none if it is not UTF-8. Surrogates, overlong
  forms and what lies past the last code point are not.
\<close>

definition follows :: "nat \<Rightarrow> nat \<Rightarrow> nat \<Rightarrow> string \<Rightarrow> bool" where
  "follows i lo hi s \<longleftrightarrow> i < length s \<and> lo \<le> of_char (s ! i) \<and> of_char (s ! i) \<le> hi"

definition rune_length :: "string \<Rightarrow> nat" where
  "rune_length s =
     (if s = [] then 0
      else
        let b = of_char (hd s) :: nat; more = (\<lambda>i. follows i 0x80 0xBF s)
        in if b < 0x80 then 1
           else if 0xC2 \<le> b \<and> b \<le> 0xDF then (if more 1 then 2 else 0)
           else if 0xE0 \<le> b \<and> b \<le> 0xEF then
             (if follows 1 (if b = 0xE0 then 0xA0 else 0x80) (if b = 0xED then 0x9F else 0xBF) s \<and> more 2 then 3 else 0)
           else if 0xF0 \<le> b \<and> b \<le> 0xF4 then
             (if follows 1 (if b = 0xF0 then 0x90 else 0x80) (if b = 0xF4 then 0x8F else 0xBF) s \<and> more 2 \<and> more 3 then 4 else 0)
           else 0)"

definition replacement :: string where "replacement = [CHR 0xEF, CHR 0xBF, CHR 0xBD]"

function utf8 :: "string \<Rightarrow> string" where
  "utf8 s =
     (if s = [] then []
      else if rune_length s = 0 then replacement @ utf8 (drop 1 s)
      else take (rune_length s) s @ utf8 (drop (rune_length s) s))"
  by pat_completeness auto
termination by (relation "measure length") auto

declare utf8.simps [simp del]

text \<open>\<open>utf8.ValidString\<close>.\<close>

function valid_utf8 :: "string \<Rightarrow> bool" where
  "valid_utf8 s = (if s = [] then True else if rune_length s = 0 then False else valid_utf8 (drop (rune_length s) s))"
  by pat_completeness auto
termination by (relation "measure length") auto

declare valid_utf8.simps [simp del]

lemma utf8_valid: "valid_utf8 s \<Longrightarrow> utf8 s = s"
proof (induction s rule: valid_utf8.induct)
  case (1 s)
  show ?case
  proof (cases "s = []")
    case False
    then have "rune_length s \<noteq> 0" "valid_utf8 (drop (rune_length s) s)"
      using 1(2) by (simp_all add: valid_utf8.simps [of s] split: if_splits)
    with 1(1) False show ?thesis by (simp add: utf8.simps [of s])
  qed (simp add: utf8.simps)
qed

lemma utf8_Nil [simp]: "utf8 s = [] \<longleftrightarrow> s = []"
  by (subst utf8.simps) (simp add: replacement_def)

primrec utf8_doc :: "doc \<Rightarrow> doc" where
  "utf8_doc (DBool b) = DBool b"
| "utf8_doc (DInt i) = DInt i"
| "utf8_doc (DFloat x) = DFloat x"
| "utf8_doc (DStr s) = DStr (utf8 s)"
| "utf8_doc (DArr ds) = DArr (map utf8_doc ds)"
| "utf8_doc (DObj ms) = DObj (map (map_prod id utf8_doc) ms)"

definition WriteJSON :: "report \<Rightarrow> doc option" where
  "WriteJSON r = map_option (\<lambda>number. utf8_doc (struct (report_fields number r))) (Rate_json (Run_CallsPerSecond (Rp_Run r)))"

section \<open>The document determines the report\<close>

lemma members_keys: "fst ` set (members xs) \<subseteq> fst ` set xs"
  by (induction xs rule: members.induct) auto

lemma struct_inject:
  assumes "map fst xs = map fst ys" "distinct (map fst xs)" "struct xs = struct ys"
  shows "xs = ys"
proof -
  have "members xs = members ys" using assms(3) by (simp add: struct_def)
  with assms(1,2) show ?thesis
  proof (induction xs ys rule: list_induct2')
    case (4 x xs y ys)
    obtain k v w where kv: "x = (k, v)" "y = (k, w)" using 4(2) by (cases x; cases y) auto
    have "set (map fst ys) = set (map fst xs)" using 4(2) by simp
    then have "k \<notin> fst ` set xs" "k \<notin> fst ` set ys" using 4(3) kv by auto
    then have "k \<notin> fst ` set (members xs)" "k \<notin> fst ` set (members ys)" using members_keys by blast+
    then have fresh: "(k, d) \<notin> set (members xs)" "(k, d) \<notin> set (members ys)" for d by force+
    have v: "v = w"
    proof (cases v; cases w)
      fix d assume "v = None" "w = Some d"
      then have "(k, d) \<in> set (members xs)" using 4(4) kv by simp
      then show ?thesis using fresh by simp
    next
      fix d assume "v = Some d" "w = None"
      then have "(k, d) \<in> set (members ys)" using 4(4) [symmetric] kv by simp
      then show ?thesis using fresh by simp
    qed (use 4(4) kv in simp_all)
    then have "members xs = members ys" using 4(4) kv by (cases w) simp_all
    then show ?case using 4(1,2,3) kv v by simp
  qed simp_all
qed

lemma uint_inject [simp]: "uint a = uint b \<longleftrightarrow> a = b"
  by (simp add: word_uint_eq_iff)

lemma status_json_inject [simp]: "status_json a = status_json b \<longleftrightarrow> a = b"
  by (cases a; cases b) (simp_all add: status_json_def)

lemma verdict_string_inject [simp]: "verdict_string a = verdict_string b \<longleftrightarrow> a = b"
  by (cases a; cases b) (simp_all add: verdict_string_def)

lemma nonempty_inject [simp]: "nonempty a = nonempty b \<longleftrightarrow> a = b"
  by (simp add: nonempty_def)

lemma strings_inject [simp]: "strings xs = strings ys \<longleftrightarrow> xs = ys"
  using map_injective [of DStr xs ys] by (auto simp: strings_def inj_def)

lemma array_inject: "inj f \<Longrightarrow> array (map f xs) = array (map f ys) \<longleftrightarrow> xs = ys"
  using map_injective [of f xs ys] by (auto simp: array_def)

lemma option_inject: "inj f \<Longrightarrow> map_option f x = map_option f y \<longleftrightarrow> x = y"
  by (metis option.inj_map injD)

lemma inj_struct:
  assumes "\<And>x y. map fst (f x) = map fst (f y)" "\<And>x. distinct (map fst (f x))" "inj f"
  shows "inj (\<lambda>x. struct (f x))"
  by (rule injI) (metis assms injD struct_inject)

lemma inj_assertion: "inj assertion_json"
  unfolding assertion_json_def by (rule inj_struct) (auto simp: inj_def)

lemma inj_tip: "inj tip_json"
  unfolding tip_json_def by (rule inj_struct) (auto simp: inj_def)

lemma inj_reorg: "inj reorg_json"
  unfolding reorg_json_def by (rule inj_struct) (auto simp: inj_def)

lemma inj_cache: "inj cache_json"
  unfolding cache_json_def by (rule inj_struct) (auto simp: inj_def option_inject [OF inj_reorg])

lemma inj_recomputed: "inj recomputed_json"
  unfolding recomputed_json_def by (rule inj_struct) (auto simp: inj_def)

lemma inj_posted: "inj posted_json"
  unfolding posted_json_def by (rule inj_struct) (auto simp: inj_def)

lemma inj_block: "inj block_json"
  unfolding block_json_def by (rule inj_struct) (auto simp: inj_def)

lemma window_inject [simp]: "window_json a b = window_json c d \<longleftrightarrow> a = c \<and> b = d"
  by (auto simp: window_json_def struct_def)

lemma inj_artifacts: "inj artifacts_json"
  unfolding artifacts_json_def by (rule inj_struct) (auto simp: inj_def)

lemma inj_epoch: "inj epoch_json"
  unfolding epoch_json_def
  by (rule inj_struct)
    (auto simp: inj_def option_inject [OF inj_block] option_inject [OF inj_posted] array_inject [OF inj_assertion] inj_eq [OF inj_recomputed]
      split: if_splits)

text \<open>Two runs may differ in how their rate is printed as text and not in the number of the document.\<close>

definition same_report :: "report \<Rightarrow> report \<Rightarrow> bool" where
  "same_report r r' \<longleftrightarrow>
     Rate_json (Run_CallsPerSecond (Rp_Run r)) = Rate_json (Run_CallsPerSecond (Rp_Run r')) \<and>
     r = r'\<lparr>Rp_Run := (Rp_Run r')\<lparr>Run_CallsPerSecond := Run_CallsPerSecond (Rp_Run r)\<rparr>\<rparr>"

lemma run_json_inject:
  "run_json a r = run_json b r' \<longleftrightarrow> a = b \<and> r = r'\<lparr>Run_CallsPerSecond := Run_CallsPerSecond r\<rparr>"
proof
  assume "run_json a r = run_json b r'"
  from struct_inject [OF _ _ this [unfolded run_json_def]] show "a = b \<and> r = r'\<lparr>Run_CallsPerSecond := Run_CallsPerSecond r\<rparr>"
    by (auto simp: option_inject [OF inj_tip] option_inject [OF inj_cache])
next
  assume "a = b \<and> r = r'\<lparr>Run_CallsPerSecond := Run_CallsPerSecond r\<rparr>"
  then show "run_json a r = run_json b r'" by (cases r; cases r') (simp add: run_json_def)
qed

lemma inj_verdict: "inj (DStr \<circ> verdict_string)"
  by (auto simp: inj_def)

text \<open>The tree of a report without the replacement of bytes.\<close>

lemma report_fields_inject:
  "struct (report_fields a r) = struct (report_fields b r') \<longleftrightarrow>
     a = b \<and> r = r'\<lparr>Rp_Run := (Rp_Run r')\<lparr>Run_CallsPerSecond := Run_CallsPerSecond (Rp_Run r)\<rparr>\<rparr>"
proof
  assume s: "struct (report_fields a r) = struct (report_fields b r')"
  have "report_fields a r = report_fields b r'" by (rule struct_inject [OF _ _ s]) (simp_all add: report_fields_def)
  then have "Command r = Command r'" "run_json a (Rp_Run r) = run_json b (Rp_Run r')" "Rp_Verdict r = Rp_Verdict r'" "Rp_Reason r = Rp_Reason r'"
    "Rp_Epochs r = Rp_Epochs r'" "Rp_Artifacts r = Rp_Artifacts r'"
    by (simp_all add: report_fields_def option_inject [OF inj_verdict] array_inject [OF inj_epoch] option_inject [OF inj_artifacts])
  then show "a = b \<and> r = r'\<lparr>Rp_Run := (Rp_Run r')\<lparr>Run_CallsPerSecond := Run_CallsPerSecond (Rp_Run r)\<rparr>\<rparr>"
    unfolding run_json_inject by (cases r; cases r') simp
next
  assume same: "a = b \<and> r = r'\<lparr>Rp_Run := (Rp_Run r')\<lparr>Run_CallsPerSecond := Run_CallsPerSecond (Rp_Run r)\<rparr>\<rparr>"
  then have "run_json a (Rp_Run r) = run_json b (Rp_Run r')"
    using run_json_inject [of a "Rp_Run r" b "Rp_Run r'"] by (cases r; cases r') simp
  then show "struct (report_fields a r) = struct (report_fields b r')" using same by (cases r; cases r') (simp add: report_fields_def)
qed

section \<open>The strings of a report\<close>

text \<open>A report with a function applied to every string of it that is not fixed by the program.\<close>

definition map_assertion :: "(string \<Rightarrow> string) \<Rightarrow> assertion \<Rightarrow> assertion" where
  "map_assertion f a = a\<lparr>Name := f (Name a), Detail := f (Detail a)\<rparr>"

definition map_cache :: "(string \<Rightarrow> string) \<Rightarrow> cacheInfo \<Rightarrow> cacheInfo" where
  "map_cache f c = c\<lparr>CI_Dir := f (CI_Dir c), CI_Repaired := f (CI_Repaired c)\<rparr>"

definition map_tip :: "(string \<Rightarrow> string) \<Rightarrow> tipInfo \<Rightarrow> tipInfo" where
  "map_tip f t = t\<lparr>Tip_Hash := f (Tip_Hash t)\<rparr>"

definition map_run :: "(string \<Rightarrow> string) \<Rightarrow> run \<Rightarrow> run" where
  "map_run f r = r\<lparr>Run_Distributor := f (Run_Distributor r), Run_Token := f (Run_Token r), Run_DevWallet := f (Run_DevWallet r),
     Run_Finality := f (Run_Finality r), Run_Expected := f (Run_Expected r), Run_Endpoints := map f (Run_Endpoints r),
     Run_Tip := map_option (map_tip f) (Run_Tip r), Run_Cache := map_option (map_cache f) (Run_Cache r)\<rparr>"

definition map_recomputed :: "(string \<Rightarrow> string) \<Rightarrow> recomputed \<Rightarrow> recomputed" where
  "map_recomputed f r = r\<lparr>Rd_Root := f (Rd_Root r), Rd_Totals := map f (Rd_Totals r), Rd_CarryOut := map f (Rd_CarryOut r),
     Rd_TotalWeight := f (Rd_TotalWeight r), Rd_CarryIn := map f (Rd_CarryIn r)\<rparr>"

definition map_posted :: "(string \<Rightarrow> string) \<Rightarrow> postedRoot \<Rightarrow> postedRoot" where
  "map_posted f p = p\<lparr>PR_Root := f (PR_Root p), PR_Totals := map f (PR_Totals p), PR_Funded := map f (PR_Funded p), PR_CarryIn := map f (PR_CarryIn p)\<rparr>"

definition map_epoch :: "(string \<Rightarrow> string) \<Rightarrow> epochReport \<Rightarrow> epochReport" where
  "map_epoch f e = e\<lparr>Ep_EndBlock := map_option (map_prod id f) (Ep_EndBlock e), Ep_Recomputed := map_recomputed f (Ep_Recomputed e),
     Ep_Posted := map_option (map_posted f) (Ep_Posted e), Ep_Expected := f (Ep_Expected e), Ep_Assertions := map (map_assertion f) (Ep_Assertions e),
     Ep_Reason := f (Ep_Reason e)\<rparr>"

definition map_artifacts :: "(string \<Rightarrow> string) \<Rightarrow> artifactsReport \<Rightarrow> artifactsReport" where
  "map_artifacts f a = a\<lparr>Ar_Path := f (Ar_Path a), Ar_Root := f (Ar_Root a), Ar_Diff := f (Ar_Diff a), Ar_Error := f (Ar_Error a)\<rparr>"

definition map_report :: "(string \<Rightarrow> string) \<Rightarrow> report \<Rightarrow> report" where
  "map_report f r = r\<lparr>Command := f (Command r), Rp_Run := map_run f (Rp_Run r), Rp_Reason := f (Rp_Reason r),
     Rp_Epochs := map (map_epoch f) (Rp_Epochs r), Rp_Artifacts := map_option (map_artifacts f) (Rp_Artifacts r)\<rparr>"

lemmas map_defs = map_assertion_def map_tip_def map_recomputed_def map_posted_def map_artifacts_def

lemma utf8_struct: "utf8_doc (struct xs) = struct (map (map_prod id (map_option utf8_doc)) xs)"
proof -
  have "map (map_prod id utf8_doc) (members xs) = members (map (map_prod id (map_option utf8_doc)) xs)"
    by (induction xs rule: members.induct) simp_all
  then show ?thesis by (simp add: struct_def)
qed

lemma utf8_fixed [simp]: "utf8 (status_json s) = status_json s" "utf8 (verdict_string v) = verdict_string v" "utf8 SchemaVersion = SchemaVersion"
proof -
  have "valid_utf8 (status_json Pass)" "valid_utf8 (status_json Fail)" "valid_utf8 (status_json NotApplicable)" by code_simp+
  then show "utf8 (status_json s) = status_json s" by (cases s) (simp_all add: utf8_valid)
  have "valid_utf8 (verdict_string Match)" "valid_utf8 (verdict_string Mismatch)" "valid_utf8 (verdict_string Indeterminate)" by code_simp+
  then show "utf8 (verdict_string v) = verdict_string v" by (cases v) (simp_all add: utf8_valid)
  have "valid_utf8 SchemaVersion" by code_simp
  then show "utf8 SchemaVersion = SchemaVersion" by (simp add: utf8_valid)
qed

lemma utf8_nonempty [simp]: "map_option utf8_doc (nonempty s) = nonempty (utf8 s)"
  by (simp add: nonempty_def)

lemma utf8_strings [simp]: "utf8_doc (strings xs) = strings (map utf8 xs)"
  by (simp add: strings_def)

lemma utf8_array [simp]: "map_option utf8_doc (array ds) = array (map utf8_doc ds)"
  by (simp add: array_def)

lemma utf8_parts [simp]:
  "utf8_doc (assertion_json a) = assertion_json (map_assertion utf8 a)" "utf8_doc (tip_json t) = tip_json (map_tip utf8 t)"
  "utf8_doc (reorg_json r) = reorg_json r" "utf8_doc (recomputed_json rc) = recomputed_json (map_recomputed utf8 rc)"
  "utf8_doc (posted_json p) = posted_json (map_posted utf8 p)" "utf8_doc (window_json x y) = window_json x y"
  "utf8_doc (block_json b) = block_json (map_prod id utf8 b)" "utf8_doc (artifacts_json ar) = artifacts_json (map_artifacts utf8 ar)"
  by (simp_all add: assertion_json_def tip_json_def reorg_json_def recomputed_json_def posted_json_def window_json_def block_json_def artifacts_json_def
      utf8_struct map_defs)

lemma utf8_cache [simp]: "utf8_doc (cache_json c) = cache_json (map_cache utf8 c)"
  by (simp add: cache_json_def utf8_struct map_cache_def option.map_comp comp_def)

lemma utf8_run [simp]: "utf8_doc (run_json number r) = run_json number (map_run utf8 r)"
  by (simp add: run_json_def utf8_struct map_run_def option.map_comp comp_def)

lemma utf8_epoch [simp]: "utf8_doc (epoch_json e) = epoch_json (map_epoch utf8 e)"
  by (simp add: epoch_json_def utf8_struct map_epoch_def option.map_comp comp_def)

lemma utf8_report: "utf8_doc (struct (report_fields number r)) = struct (report_fields number (map_report utf8 r))"
  by (simp add: report_fields_def utf8_struct map_report_def option.map_comp comp_def)

text \<open>All strings of a report that are not fixed by the program.\<close>

definition run_strings :: "run \<Rightarrow> string list" where
  "run_strings r =
     [Run_Distributor r, Run_Token r, Run_DevWallet r, Run_Finality r, Run_Expected r] @ Run_Endpoints r @
     (case Run_Tip r of None \<Rightarrow> [] | Some t \<Rightarrow> [Tip_Hash t]) @ (case Run_Cache r of None \<Rightarrow> [] | Some c \<Rightarrow> [CI_Dir c, CI_Repaired c])"

definition epoch_strings :: "epochReport \<Rightarrow> string list" where
  "epoch_strings e =
     (let rc = Ep_Recomputed e
      in [Ep_Expected e, Ep_Reason e, Rd_Root rc, Rd_TotalWeight rc] @ Rd_Totals rc @ Rd_CarryOut rc @ Rd_CarryIn rc @
         concat (map (\<lambda>a. [Name a, Detail a]) (Ep_Assertions e)) @ (case Ep_EndBlock e of None \<Rightarrow> [] | Some b \<Rightarrow> [snd b]) @
         (case Ep_Posted e of None \<Rightarrow> [] | Some p \<Rightarrow> PR_Root p # PR_Totals p @ PR_Funded p @ PR_CarryIn p))"

definition report_strings :: "report \<Rightarrow> string list" where
  "report_strings r =
     [Command r, Rp_Reason r] @ run_strings (Rp_Run r) @ concat (map epoch_strings (Rp_Epochs r)) @
     (case Rp_Artifacts r of None \<Rightarrow> [] | Some a \<Rightarrow> [Ar_Path a, Ar_Root a, Ar_Diff a, Ar_Error a])"

lemma map_run_same:
  assumes "\<forall>s \<in> set (run_strings r). f s = s"
  shows "map_run f r = r"
proof -
  have "map_option (map_tip f) (Run_Tip r) = Run_Tip r"
    using assms by (cases "Run_Tip r") (simp_all add: run_strings_def map_tip_def ball_Un)
  moreover have "map_option (map_cache f) (Run_Cache r) = Run_Cache r"
    using assms by (cases "Run_Cache r") (simp_all add: run_strings_def map_cache_def ball_Un)
  moreover have "map f (Run_Endpoints r) = Run_Endpoints r" using assms by (intro map_idI) (simp add: run_strings_def ball_Un)
  ultimately show ?thesis using assms by (simp add: run_strings_def map_run_def)
qed

lemma map_epoch_same:
  assumes "\<forall>s \<in> set (epoch_strings e). f s = s"
  shows "map_epoch f e = e"
proof -
  have "map_recomputed f (Ep_Recomputed e) = Ep_Recomputed e"
    using assms by (cases "Ep_Recomputed e") (simp add: epoch_strings_def map_recomputed_def map_idI Let_def ball_Un)
  moreover have "map (map_assertion f) (Ep_Assertions e) = Ep_Assertions e"
    using assms by (intro map_idI) (simp add: epoch_strings_def map_assertion_def Let_def ball_Un)
  moreover have "map_option (map_posted f) (Ep_Posted e) = Ep_Posted e"
    using assms by (cases "Ep_Posted e") (simp_all add: epoch_strings_def map_posted_def map_idI Let_def ball_Un)
  moreover have "map_option (map_prod id f) (Ep_EndBlock e) = Ep_EndBlock e"
    using assms by (cases "Ep_EndBlock e") (auto simp: epoch_strings_def Let_def ball_Un map_prod_def case_prod_unfold)
  moreover have "f (Ep_Expected e) = Ep_Expected e" "f (Ep_Reason e) = Ep_Reason e" using assms by (simp_all add: epoch_strings_def Let_def)
  ultimately show ?thesis by (simp add: map_epoch_def)
qed

lemma map_report_same:
  assumes "\<forall>s \<in> set (report_strings r). f s = s"
  shows "map_report f r = r"
proof -
  have "map_run f (Rp_Run r) = Rp_Run r" using assms by (intro map_run_same) (simp add: report_strings_def ball_Un)
  moreover have "map (map_epoch f) (Rp_Epochs r) = Rp_Epochs r"
    using assms by (intro map_idI map_epoch_same) (auto simp: report_strings_def ball_Un)
  moreover have "map_option (map_artifacts f) (Rp_Artifacts r) = Rp_Artifacts r"
    using assms by (cases "Rp_Artifacts r") (simp_all add: report_strings_def map_artifacts_def ball_Un)
  moreover have "f (Command r) = Command r" "f (Rp_Reason r) = Rp_Reason r" using assms by (simp_all add: report_strings_def)
  ultimately show ?thesis by (simp add: map_report_def)
qed

text \<open>
  C20. What the JSON document loses. A report is refused exactly when its rate is no number. Two reports that can be written are written as the same
  document exactly when they are the same report, in every field of the run, the Epochs, their Assertions and the bundle's section, once the bytes
  that are not UTF-8 are replaced in their strings: nothing else is lost, and what is omitted because it is empty can be told from everything
  else. A report whose strings are UTF-8 has no such bytes.
\<close>

theorem WriteJSON_faithful:
  "(WriteJSON r = None \<longleftrightarrow> Rate_json (Run_CallsPerSecond (Rp_Run r)) = None) \<and>
   (WriteJSON r = WriteJSON r' \<longleftrightarrow>
      (if Rate_json (Run_CallsPerSecond (Rp_Run r)) = None then Rate_json (Run_CallsPerSecond (Rp_Run r')) = None
       else same_report (map_report utf8 r) (map_report utf8 r'))) \<and>
   ((\<forall>s \<in> set (report_strings r). valid_utf8 s) \<longrightarrow> map_report utf8 r = r)"
proof (intro conjI impI)
  have rate: "Run_CallsPerSecond (Rp_Run (map_report utf8 x)) = Run_CallsPerSecond (Rp_Run x)" for x by (simp add: map_report_def map_run_def)
  show "WriteJSON r = WriteJSON r' \<longleftrightarrow>
      (if Rate_json (Run_CallsPerSecond (Rp_Run r)) = None then Rate_json (Run_CallsPerSecond (Rp_Run r')) = None
       else same_report (map_report utf8 r) (map_report utf8 r'))"
    by (cases "Rate_json (Run_CallsPerSecond (Rp_Run r))"; cases "Rate_json (Run_CallsPerSecond (Rp_Run r'))")
      (simp_all add: WriteJSON_def utf8_report report_fields_inject same_report_def rate)
qed (simp_all add: WriteJSON_def map_report_same utf8_valid)

definition demo_bundle :: "string \<Rightarrow> report" where
  "demo_bundle path =
     \<lparr>Command = ''latest'', Rp_Run = demo_run, Rp_Verdict = Some Match, Rp_Reason = [], Rp_Epochs = [],
      Rp_Artifacts = Some \<lparr>Ar_Path = path, Ar_Rows = 0, Ar_Root = [], Ar_Diff = [], Ar_Error = []\<rparr>\<rparr>"

text \<open>Two reports that differ in one byte that is not UTF-8 are written alike; two that differ in a letter are not.\<close>

theorem WriteJSON_faithful_witness:
  "WriteJSON (demo_bundle [CHR 0xFF]) = WriteJSON (demo_bundle [CHR 0xFE]) \<and>
   list_all valid_utf8 (report_strings (demo_bundle ''a'')) \<and> list_all valid_utf8 (report_strings (demo_bundle ''b'')) \<and>
   WriteJSON (demo_bundle ''a'') \<noteq> WriteJSON (demo_bundle ''b'')"
proof -
  have rate: "Rate_json (Run_CallsPerSecond (Rp_Run (demo_bundle s))) = Some ''10''" for s by (simp add: demo_bundle_def demo_run_def)
  have "utf8 [CHR 0xFF] = replacement" "utf8 [CHR 0xFE] = replacement" by code_simp+
  then have "map_report utf8 (demo_bundle [CHR 0xFF]) = map_report utf8 (demo_bundle [CHR 0xFE])"
    by (simp add: demo_bundle_def map_report_def map_artifacts_def)
  then have "WriteJSON (demo_bundle [CHR 0xFF]) = WriteJSON (demo_bundle [CHR 0xFE])"
    using WriteJSON_faithful [of "demo_bundle [CHR 0xFF]" "demo_bundle [CHR 0xFE]"] rate by (simp add: same_report_def)
  moreover have ab: "list_all valid_utf8 (report_strings (demo_bundle ''a''))" "list_all valid_utf8 (report_strings (demo_bundle ''b''))"
    by code_simp+
  moreover have "WriteJSON (demo_bundle ''a'') \<noteq> WriteJSON (demo_bundle ''b'')"
  proof -
    have "map_report utf8 (demo_bundle ''a'') = demo_bundle ''a''" "map_report utf8 (demo_bundle ''b'') = demo_bundle ''b''"
      using WriteJSON_faithful [of "demo_bundle ''a''" "demo_bundle ''a''"] WriteJSON_faithful [of "demo_bundle ''b''" "demo_bundle ''b''"] ab
      by (simp_all add: list_all_iff)
    then show ?thesis
      using WriteJSON_faithful [of "demo_bundle ''a''" "demo_bundle ''b''"] rate by (simp add: same_report_def) (simp add: demo_bundle_def)
  qed
  ultimately show ?thesis by blast
qed

end
