(* ===== verification/Wire.thy ===== *)
theory Wire
  imports Twab Merkle
begin

text \<open>
  What the program reads off a node and what it sends (\<open>chain/chain.go\<close>, \<open>chain/word.go\<close>,
  \<open>chain/event.go\<close>, \<open>chain/call.go\<close>, \<open>chain/excluded.go\<close>): quantities and byte strings in hex, ABI
  words, the three events, the two view calls and the one dynamic return, and the hash of the
  Excluded set.

  The decoders are shown exact: each accepts a payload only when it is, byte for byte, the ABI
  encoding of the value it returns. The encodings (\<open>abi_uint\<close>, \<open>abi_address\<close> and what is built
  from them) are the specification's side; the program has no such encoders.
\<close>

section \<open>Types\<close>

datatype kind = KindEpoch | KindDraw

definition ordinal :: "kind \<Rightarrow> nat" where
  "ordinal k = (case k of KindEpoch \<Rightarrow> 0 | KindDraw \<Rightarrow> 1)"

record block =
  B_Number :: uint64
  B_Hash :: hash
  B_ParentHash :: hash
  B_Timestamp :: int64

record site =
  S_BlockNumber :: uint64
  S_BlockHash :: hash
  S_LogIndex :: uint64
  S_Timestamp :: int64

record chainTransfer = site +
  CT_From :: address
  CT_To :: address
  CT_Value :: bigint

record chainExclusion = site +
  CE_Account :: address

record rootPosted = site +
  RP_Kind :: kind
  RP_ID :: uint64
  RP_Root :: hash
  RP_Totals :: amounts
  RP_CarryIn :: amounts

record chainLedger =
  L_Root :: hash
  L_RootPostedAt :: int64
  L_Skipped :: bool
  L_Funded :: amounts
  L_Totals :: amounts
  L_Claimed :: amounts

definition HasRoot :: "chainLedger \<Rightarrow> bool" where
  "HasRoot l \<longleftrightarrow> L_RootPostedAt l \<noteq> 0"

section \<open>Hexadecimal values\<close>

datatype hex_error =
    NoPrefix | NoDigits | OddDigits | NotQuantity num_error | NotHex | WrongSize nat nat

definition digitsOf :: "string \<Rightarrow> hex_error + string" where
  "digitsOf s =
     (if take 2 s \<noteq> ''0x'' \<and> take 2 s \<noteq> ''0X'' then Inl NoPrefix else Inr (drop 2 s))"

definition parseQuantity :: "string \<Rightarrow> hex_error + uint64" where
  "parseQuantity s =
     (case digitsOf s of
        Inl e \<Rightarrow> Inl e
      | Inr ds \<Rightarrow>
          if ds = '''' then Inl NoDigits
          else case ParseUint16 ds of Inl e \<Rightarrow> Inl (NotQuantity e) | Inr n \<Rightarrow> Inr n)"

definition quantity :: "uint64 \<Rightarrow> string" where
  "quantity n = ''0x'' @ FormatUint16 n"

definition parseHexBytes :: "string \<Rightarrow> hex_error + byte list" where
  "parseHexBytes s =
     (case digitsOf s of
        Inl e \<Rightarrow> Inl e
      | Inr ds \<Rightarrow>
          if length ds mod 2 \<noteq> 0 then Inl OddDigits
          else case hex_decode ds of None \<Rightarrow> Inl NotHex | Some bs \<Rightarrow> Inr bs)"

definition hexBytes :: "byte list \<Rightarrow> string" where
  "hexBytes b = ''0x'' @ hex_encode b"

definition ParseHash :: "string \<Rightarrow> hex_error + hash" where
  "ParseHash s =
     (case parseHexBytes s of
        Inl e \<Rightarrow> Inl e
      | Inr raw \<Rightarrow> if length raw \<noteq> 32 then Inl (WrongSize (length raw) 32) else Inr (bytes_hash raw))"

definition ParseAddress :: "string \<Rightarrow> hex_error + address" where
  "ParseAddress s =
     (case parseHexBytes s of
        Inl e \<Rightarrow> Inl e
      | Inr raw \<Rightarrow> if length raw \<noteq> 20 then Inl (WrongSize (length raw) 20) else Inr (bytes_addr raw))"

definition Address_String :: "address \<Rightarrow> string" where
  "Address_String a = hexBytes (addr_bytes a)"

definition Hash_String :: "hash \<Rightarrow> string" where
  "Hash_String h = hexBytes (hash_bytes h)"

section \<open>ABI words\<close>

text \<open>A word that was misread is reported with its bytes.\<close>

datatype word_error = NotUint64 "byte list" | NotAddress "byte list" | NotBool "byte list"

definition wordUint256 :: "byte list \<Rightarrow> bigint" where
  "wordUint256 w = Some (int (be_nat w))"

unbundle bit_operations_syntax

definition shift_in :: "uint64 \<Rightarrow> byte \<Rightarrow> uint64" where
  "shift_in n b = push_bit 8 n OR ucast b"

definition wordUint64 :: "byte list \<Rightarrow> word_error + uint64" where
  "wordUint64 w =
     (if list_ex (\<lambda>b. b \<noteq> 0) (take 24 w) then Inl (NotUint64 w)
      else Inr (foldl shift_in 0 (drop 24 w)))"

definition wordAddress :: "byte list \<Rightarrow> word_error + address" where
  "wordAddress w =
     (if list_ex (\<lambda>b. b \<noteq> 0) (take 12 w) then Inl (NotAddress w) else Inr (bytes_addr (drop 12 w)))"

definition wordBool :: "byte list \<Rightarrow> word_error + bool" where
  "wordBool w =
     (case wordUint64 w of
        Inl _ \<Rightarrow> Inl (NotBool w)
      | Inr n \<Rightarrow> if n > 1 then Inl (NotBool w) else Inr (n = 1))"

definition dataWord :: "byte list \<Rightarrow> nat \<Rightarrow> byte list" where
  "dataWord data i = take 32 (drop (i * 32) data)"

definition token_index :: "token \<Rightarrow> nat" where
  "token_index t = (case t of SPY \<Rightarrow> 0 | NVDA \<Rightarrow> 1 | MU \<Rightarrow> 2 | SPCX \<Rightarrow> 3 | USDG \<Rightarrow> 4)"

definition words_at :: "byte list \<Rightarrow> nat \<Rightarrow> amounts" where
  "words_at data i t = wordUint256 (dataWord data (i + token_index t))"

section \<open>Events\<close>

definition ascii :: "string \<Rightarrow> byte list" where
  "ascii s = map of_char s"

definition topicTransfer :: "keccak \<Rightarrow> hash" where
  "topicTransfer k = keccak256 k [ascii ''Transfer(address,address,uint256)'']"

definition topicRootPosted :: "keccak \<Rightarrow> hash" where
  "topicRootPosted k = keccak256 k [ascii ''RootPosted(uint8,uint256,bytes32,uint256[5],uint256[5])'']"

definition topicExcludedAppended :: "keccak \<Rightarrow> hash" where
  "topicExcludedAppended k = keccak256 k [ascii ''ExcludedAppended(address)'']"

record eventLog =
  EL_Address :: address
  EL_Topics :: "hash list"
  EL_Data :: "byte list"
  EL_BlockNumber :: uint64
  EL_BlockHash :: hash
  EL_LogIndex :: uint64

datatype event_error =
    NotThisEvent string uint64 uint64
  | WrongTopics string uint64 uint64 nat nat
  | WrongData string uint64 uint64 nat nat
  | BadWord string uint64 uint64 string word_error
  | BadKind uint64 uint64 hash

definition check :: "eventLog \<Rightarrow> string \<Rightarrow> hash \<Rightarrow> nat \<Rightarrow> nat \<Rightarrow> event_error option" where
  "check l name topic0 topics dataWords =
     (if EL_Topics l = [] \<or> hd (EL_Topics l) \<noteq> topic0
      then Some (NotThisEvent name (EL_BlockNumber l) (EL_LogIndex l))
      else if length (EL_Topics l) \<noteq> topics + 1
      then Some (WrongTopics name (EL_BlockNumber l) (EL_LogIndex l) (length (EL_Topics l)) (topics + 1))
      else if length (EL_Data l) \<noteq> dataWords * 32
      then Some (WrongData name (EL_BlockNumber l) (EL_LogIndex l) (length (EL_Data l)) (dataWords * 32))
      else None)"

definition site_of :: "eventLog \<Rightarrow> site" where
  "site_of l =
     \<lparr>S_BlockNumber = EL_BlockNumber l, S_BlockHash = EL_BlockHash l, S_LogIndex = EL_LogIndex l, S_Timestamp = 0\<rparr>"

definition topic_word :: "eventLog \<Rightarrow> nat \<Rightarrow> byte list" where
  "topic_word l i = hash_bytes (EL_Topics l ! i)"

definition decodeTransfer :: "keccak \<Rightarrow> eventLog \<Rightarrow> event_error + chainTransfer" where
  "decodeTransfer k l =
     (case check l ''Transfer'' (topicTransfer k) 2 1 of
        Some e \<Rightarrow> Inl e
      | None \<Rightarrow>
          (case wordAddress (topic_word l 1) of
             Inl e \<Rightarrow> Inl (BadWord ''Transfer'' (EL_BlockNumber l) (EL_LogIndex l) ''from'' e)
           | Inr from \<Rightarrow>
               (case wordAddress (topic_word l 2) of
                  Inl e \<Rightarrow> Inl (BadWord ''Transfer'' (EL_BlockNumber l) (EL_LogIndex l) ''to'' e)
                | Inr to \<Rightarrow>
                    Inr (site.extend (site_of l)
                      (chainTransfer.fields from to (wordUint256 (EL_Data l)))))))"

definition rootPostedWords :: nat where
  "rootPostedWords = 1 + 2 * 5"

definition decodeRootPosted :: "keccak \<Rightarrow> eventLog \<Rightarrow> event_error + rootPosted" where
  "decodeRootPosted k l =
     (case check l ''RootPosted'' (topicRootPosted k) 2 rootPostedWords of
        Some e \<Rightarrow> Inl e
      | None \<Rightarrow>
          (case wordUint64 (topic_word l 1) of
             Inl _ \<Rightarrow> Inl (BadKind (EL_BlockNumber l) (EL_LogIndex l) (EL_Topics l ! 1))
           | Inr kd \<Rightarrow>
               if kd > of_nat (ordinal KindDraw)
               then Inl (BadKind (EL_BlockNumber l) (EL_LogIndex l) (EL_Topics l ! 1))
               else
                 (case wordUint64 (topic_word l 2) of
                    Inl e \<Rightarrow> Inl (BadWord ''RootPosted'' (EL_BlockNumber l) (EL_LogIndex l) ''id'' e)
                  | Inr i \<Rightarrow>
                      Inr (site.extend (site_of l)
                        (rootPosted.fields (if kd = 0 then KindEpoch else KindDraw) i
                          (bytes_hash (take 32 (EL_Data l)))
                          (words_at (EL_Data l) 1) (words_at (EL_Data l) (1 + 5)))))))"

definition decodeExcludedAppended :: "keccak \<Rightarrow> eventLog \<Rightarrow> event_error + chainExclusion" where
  "decodeExcludedAppended k l =
     (case check l ''ExcludedAppended'' (topicExcludedAppended k) 1 0 of
        Some e \<Rightarrow> Inl e
      | None \<Rightarrow>
          (case wordAddress (topic_word l 1) of
             Inl e \<Rightarrow> Inl (BadWord ''ExcludedAppended'' (EL_BlockNumber l) (EL_LogIndex l) ''account'' e)
           | Inr account \<Rightarrow> Inr (site.extend (site_of l) (chainExclusion.fields account))))"

section \<open>Calls\<close>

definition selectorOf :: "keccak \<Rightarrow> string \<Rightarrow> byte list" where
  "selectorOf k signature = take 4 (hash_bytes (keccak256 k [ascii signature]))"

definition selectorLedger :: "keccak \<Rightarrow> byte list" where
  "selectorLedger k = selectorOf k ''ledger(uint8,uint256)''"

definition selectorExcluded :: "keccak \<Rightarrow> byte list" where
  "selectorExcluded k = selectorOf k ''excluded()''"

definition selectorGetLaunchedToken :: "keccak \<Rightarrow> byte list" where
  "selectorGetLaunchedToken k = selectorOf k ''getLaunchedToken(address)''"

definition encodeLedgerCall :: "keccak \<Rightarrow> kind \<Rightarrow> uint64 \<Rightarrow> byte list" where
  "encodeLedgerCall k kd i =
     selectorLedger k @ (replicate 32 0)[31 := of_nat (ordinal kd)] @ be_bytes 32 (unat i)"

datatype call_error =
    LedgerBytes nat nat
  | LedgerSkipped word_error
  | LedgerPostedAt "byte list"
  | LaunchBytes nat nat
  | LaunchExists word_error
  | NoLaunchRecord
  | LaunchCurve word_error
  | NoCurve
  | ArrayHeader nat nat
  | ArrayOffset "byte list"
  | ArrayLength word_error
  | ArrayClaims uint64 nat
  | ArrayNeeds uint64 nat nat
  | ArrayEntry nat word_error

definition ledgerWords :: nat where
  "ledgerWords = 3 + 3 * 5"

definition decodeLedger :: "byte list \<Rightarrow> call_error + chainLedger" where
  "decodeLedger data =
     (if length data \<noteq> ledgerWords * 32 then Inl (LedgerBytes (length data) (ledgerWords * 32))
      else case wordBool (dataWord data 2) of
             Inl e \<Rightarrow> Inl (LedgerSkipped e)
           | Inr skipped \<Rightarrow>
               (case wordUint64 (dataWord data 1) of
                  Inl _ \<Rightarrow> Inl (LedgerPostedAt (dataWord data 1))
                | Inr postedAt \<Rightarrow>
                    if unat postedAt > 2 ^ 63 - 1 then Inl (LedgerPostedAt (dataWord data 1))
                    else Inr \<lparr>L_Root = bytes_hash (dataWord data 0), L_RootPostedAt = uint postedAt,
                              L_Skipped = skipped, L_Funded = words_at data 3,
                              L_Totals = words_at data (3 + 5), L_Claimed = words_at data (3 + 2 * 5)\<rparr>))"

definition encodeGetLaunchedToken :: "keccak \<Rightarrow> address \<Rightarrow> byte list" where
  "encodeGetLaunchedToken k token = selectorGetLaunchedToken k @ replicate 12 0 @ addr_bytes token"

definition launchedTokenWords :: nat where
  "launchedTokenWords = 15"

definition decodeLaunchedToken :: "byte list \<Rightarrow> call_error + address" where
  "decodeLaunchedToken data =
     (if length data \<noteq> launchedTokenWords * 32 then Inl (LaunchBytes (length data) (launchedTokenWords * 32))
      else case wordBool (dataWord data (launchedTokenWords - 1)) of
             Inl e \<Rightarrow> Inl (LaunchExists e)
           | Inr exists \<Rightarrow>
               if \<not> exists then Inl NoLaunchRecord
               else case wordAddress (dataWord data 1) of
                      Inl e \<Rightarrow> Inl (LaunchCurve e)
                    | Inr curve \<Rightarrow> if curve = 0 then Inl NoCurve else Inr curve)"

text \<open>\<open>n\<close> entries are left to read, \<open>i\<close> is the next.\<close>

fun address_entries :: "byte list \<Rightarrow> nat \<Rightarrow> nat \<Rightarrow> call_error + address list" where
  "address_entries data i 0 = Inr []"
| "address_entries data i (Suc n) =
     (case wordAddress (dataWord data (2 + i)) of
        Inl e \<Rightarrow> Inl (ArrayEntry i e)
      | Inr a \<Rightarrow>
          (case address_entries data (Suc i) n of Inl e \<Rightarrow> Inl e | Inr as \<Rightarrow> Inr (a # as)))"

definition decodeAddressArray :: "byte list \<Rightarrow> call_error + address list" where
  "decodeAddressArray data =
     (if length data < 64 then Inl (ArrayHeader (length data) 64)
      else if wordUint64 (dataWord data 0) \<noteq> Inr 32 then Inl (ArrayOffset (dataWord data 0))
      else case wordUint64 (dataWord data 1) of
             Inl e \<Rightarrow> Inl (ArrayLength e)
           | Inr len \<Rightarrow>
               if unat len > (length data - 64) div 32 then Inl (ArrayClaims len (length data))
               else if length data \<noteq> 64 + unat len * 32
               then Inl (ArrayNeeds len (64 + unat len * 32) (length data))
               else address_entries data 0 (unat len))"

section \<open>The Excluded set\<close>

definition chain_ExcludedAsOf :: "uint64 \<Rightarrow> chainExclusion list \<Rightarrow> address list" where
  "chain_ExcludedAsOf epochID exclusions =
     ExcludedAsOf epochID (map (\<lambda>e. \<lparr>X_Timestamp = S_Timestamp e, X_Account = CE_Account e\<rparr>) exclusions)"

definition ExcludedSet_Hash :: "keccak \<Rightarrow> address list \<Rightarrow> hash" where
  "ExcludedSet_Hash k s = keccak256 k [concat (map addr_bytes s)]"

section \<open>Words\<close>

definition abi_uint :: "nat \<Rightarrow> byte list" where
  "abi_uint n = be_bytes 32 n"

definition abi_address :: "address \<Rightarrow> byte list" where
  "abi_address a = replicate 12 0 @ addr_bytes a"

lemma length_abi [simp]: "length (abi_uint n) = 32" "length (abi_address a) = 32"
  by (simp_all add: abi_uint_def abi_address_def)

lemma shift_in_eq: "shift_in n b = n * 256 + ucast b"
proof -
  have "push_bit 8 n AND ucast b = (0 :: uint64)"
    by (rule bit_word_eqI) (auto simp: bit_simps dest: bit_imp_le_length)
  then have "push_bit 8 n OR ucast b = push_bit 8 n + (ucast b :: uint64)"
    by (simp add: disjunctive_add_eq_or)
  then show ?thesis by (simp add: shift_in_def push_bit_eq_mult)
qed

lemma foldl_shift_in: "foldl shift_in 0 bs = of_nat (be_nat bs)"
proof (induction bs rule: rev_induct)
  case (snoc b bs)
  then show ?case by (simp add: shift_in_eq)
qed simp

lemma all_zero_replicate: "\<not> list_ex (\<lambda>b. b \<noteq> 0) xs \<longleftrightarrow> xs = replicate (length xs) (0 :: byte)"
  by (induction xs) auto

lemma be_nat_zeros [simp]: "be_nat (replicate n 0 @ bs) = be_nat bs"
proof -
  have "be_nat (replicate n 0) = 0"
    by (induction n) (simp_all add: be_nat_Cons)
  then show ?thesis by (simp add: be_nat_append)
qed

lemma wordUint64_iff: "length w = 32 \<Longrightarrow> wordUint64 w = Inr n \<longleftrightarrow> w = abi_uint (unat n)"
proof -
  assume len: "length w = 32"
  have n: "unat n < 256 ^ 8" using unsigned_less [where 'a = nat, of n] by simp
  have split: "w = take 24 w @ drop 24 w" by simp
  show ?thesis
  proof
    assume "wordUint64 w = Inr n"
    then have z: "take 24 w = replicate 24 0" and n: "n = of_nat (be_nat (drop 24 w))"
      using len by (auto simp: wordUint64_def foldl_shift_in all_zero_replicate split: if_splits)
    have "be_nat (drop 24 w) < 2 ^ 64" using be_nat_less [of "drop 24 w"] len by simp
    then have "unat n = be_nat (drop 24 w)" by (simp add: n unat_of_nat)
    also have "\<dots> = be_nat w" by (subst (2) split) (simp add: z)
    finally show "w = abi_uint (unat n)" using len by (simp add: abi_uint_def be_bytes_be_nat)
  next
    assume w: "w = abi_uint (unat n)"
    have "be_bytes 32 (unat n) = replicate 24 0 @ be_bytes 8 (unat n)"
      by (rule be_nat_inject) (use n in \<open>simp_all add: be_nat_be_bytes_id\<close>)
    then show "wordUint64 w = Inr n"
      using n by (simp add: w abi_uint_def wordUint64_def foldl_shift_in be_nat_be_bytes_id list_ex_iff)
  qed
qed

lemma wordAddress_iff: "length w = 32 \<Longrightarrow> wordAddress w = Inr a \<longleftrightarrow> w = abi_address a"
proof -
  assume len: "length w = 32"
  have split: "w = take 12 w @ drop 12 w" by simp
  show ?thesis
  proof
    assume "wordAddress w = Inr a"
    then have "take 12 w = replicate 12 0" "a = bytes_addr (drop 12 w)"
      using len by (auto simp: wordAddress_def all_zero_replicate split: if_splits)
    then show "w = abi_address a"
      using len by (subst split) (simp add: abi_address_def addr_bytes_addr)
  qed (simp add: abi_address_def wordAddress_def list_ex_iff)
qed

lemma wordBool_iff: "length w = 32 \<Longrightarrow> wordBool w = Inr b \<longleftrightarrow> w = abi_uint (of_bool b)"
proof -
  assume len: "length w = 32"
  show ?thesis
  proof (cases "wordUint64 w")
    case (Inl e)
    then have "w \<noteq> abi_uint (of_bool b)" using wordUint64_iff [OF len, of "of_bool b"] by (auto simp: of_bool_def split: if_splits)
    with Inl show ?thesis by (simp add: wordBool_def)
  next
    case (Inr n)
    then have w: "w = abi_uint (unat n)" using wordUint64_iff [OF len] by simp
    have "unat n < 256 ^ 32" using unsigned_less [where 'a = nat, of n] by simp
    then have "w = abi_uint (of_bool b) \<longleftrightarrow> unat n = of_bool b"
      unfolding w abi_uint_def by (auto dest: be_bytes_inject)
    also have "\<dots> \<longleftrightarrow> \<not> n > 1 \<and> (n = 1) = b"
      by (cases b) (auto simp: word_less_nat_alt word_unat_eq_iff)
    finally show ?thesis by (auto simp: wordBool_def Inr split: if_splits)
  qed
qed

section \<open>Static payloads\<close>

lemma length_dataWord: "32 * (i + 1) \<le> length data \<Longrightarrow> length (dataWord data i) = 32"
  by (simp add: dataWord_def)

lemma dataWord_concat: "\<forall>w \<in> set ws. length w = 32 \<Longrightarrow> i < length ws \<Longrightarrow> dataWord (concat ws) i = ws ! i"
proof (induction ws arbitrary: i)
  case (Cons w ws)
  then show ?case by (cases i) (simp_all add: dataWord_def)
qed simp

lemma dataWord_drop: "dataWord (drop 32 data) i = dataWord data (Suc i)"
  by (simp add: dataWord_def add.commute)

lemma concat_dataWords: "length data = 32 * n \<Longrightarrow> concat (map (dataWord data) [0..<n]) = data"
proof (induction n arbitrary: data)
  case (Suc n)
  have "map (dataWord data) [0..<Suc n] = dataWord data 0 # map (dataWord (drop 32 data)) [0..<n]"
    by (simp add: upt_conv_Cons map_Suc_upt [symmetric] dataWord_drop comp_def del: upt_Suc)
  moreover have "concat (map (dataWord (drop 32 data)) [0..<n]) = drop 32 data"
    by (rule Suc.IH) (use Suc.prems in simp)
  ultimately have "concat (map (dataWord data) [0..<Suc n]) = dataWord data 0 @ drop 32 data"
    by (simp only: concat.simps)
  then show ?case by (simp only:) (simp add: dataWord_def)
qed simp

lemma payload_iff:
  assumes "length ws = n" "\<forall>w \<in> set ws. length w = 32"
  shows "data = concat ws \<longleftrightarrow> length data = 32 * n \<and> map (dataWord data) [0..<n] = ws"
proof
  assume data: "data = concat ws"
  have "length (concat ws) = 32 * length ws" using assms(2) by (induction ws) simp_all
  moreover have "map (dataWord data) [0..<n] = ws"
    using assms by (intro nth_equalityI) (simp_all add: data dataWord_concat)
  ultimately show "length data = 32 * n \<and> map (dataWord data) [0..<n] = ws" using assms(1) data by simp
next
  assume "length data = 32 * n \<and> map (dataWord data) [0..<n] = ws"
  with concat_dataWords [of data n] show "data = concat ws" by simp
qed

lemma wordUint256_iff: "length w = 32 \<Longrightarrow> wordUint256 w = x \<longleftrightarrow> amount_ok x \<and> w = word_of x"
proof
  assume len: "length w = 32" and x: "wordUint256 w = x"
  have "be_nat w < 2 ^ 256" using be_nat_less [of w] len by simp
  then have "int (be_nat w) < 2 ^ 256"
    using of_nat_less_iff [where 'a = int, of "be_nat w" "2 ^ 256"] by simp
  then show "amount_ok x \<and> w = word_of x"
    using len x by (auto simp: wordUint256_def amount_ok_def word_of_def be_bytes_be_nat)
next
  assume "amount_ok x \<and> w = word_of x"
  then obtain v where v: "x = Some v" "0 \<le> v" "v < 2 ^ 256" "w = be_bytes 32 (nat v)"
    by (auto simp: amount_ok_def word_of_def split: option.splits)
  then have "nat v < 256 ^ 32" by (simp add: nat_less_iff)
  with v show "wordUint256 w = x" by (simp add: wordUint256_def be_nat_be_bytes_id)
qed

lemma all_tokens: "(\<forall>t. P t) \<longleftrightarrow> P SPY \<and> P NVDA \<and> P MU \<and> P SPCX \<and> P USDG"
  by (metis token.exhaust)

definition amounts_ok :: "amounts \<Rightarrow> bool" where
  "amounts_ok a \<longleftrightarrow> (\<forall>t. amount_ok (a t))"

definition amount_words :: "amounts \<Rightarrow> byte list list" where
  "amount_words a = map (\<lambda>t. word_of (a t)) tokens"

lemma amount_words_simps [simp]: "length (amount_words a) = 5" "w \<in> set (amount_words a) \<Longrightarrow> length w = 32"
  by (auto simp: amount_words_def)

lemma words_at_iff:
  assumes "32 * (i + 5) \<le> length data"
  shows "words_at data i = a \<longleftrightarrow> amounts_ok a \<and> map (dataWord data) [i, i + 1, i + 2, i + 3, i + 4] = amount_words a"
proof -
  have "wordUint256 (dataWord data (i + j)) = x \<longleftrightarrow> amount_ok x \<and> dataWord data (i + j) = word_of x" if "j < 5" for j x
    by (rule wordUint256_iff, rule length_dataWord) (use assms that in simp)
  note this [of 0] this [of 1] this [of 2] this [of 3] this [of 4]
  then show ?thesis
    by (auto simp: fun_eq_iff all_tokens words_at_def token_index_def amounts_ok_def amount_words_def tokens_def)
qed

section \<open>Returns of the view calls\<close>

definition ledger_words :: "chainLedger \<Rightarrow> byte list list" where
  "ledger_words l =
     [hash_bytes (L_Root l), abi_uint (nat (L_RootPostedAt l)), abi_uint (of_bool (L_Skipped l))] @
     amount_words (L_Funded l) @ amount_words (L_Totals l) @ amount_words (L_Claimed l)"

definition abi_ledger :: "chainLedger \<Rightarrow> byte list" where
  "abi_ledger l = concat (ledger_words l)"

definition ledger_fields_ok :: "chainLedger \<Rightarrow> bool" where
  "ledger_fields_ok l \<longleftrightarrow> 0 \<le> L_RootPostedAt l \<and> L_RootPostedAt l < 2 ^ 63 \<and>
     amounts_ok (L_Funded l) \<and> amounts_ok (L_Totals l) \<and> amounts_ok (L_Claimed l)"

lemma ledger_words_18: "length (ledger_words l) = 18" "\<forall>w \<in> set (ledger_words l). length w = 32"
  by (auto simp: ledger_words_def)

lemma upt_18: "[0..<18] = [0, 1, 2] @ map ((+) 3) [0..<5] @ map ((+) 8) [0..<5] @ map ((+) 13) [0..<5]"
  by (simp add: upt_rec)

lemma five: "map f [0..<5] = [f 0, f 1, f 2, f 3, f 4]"
  by (simp add: upt_rec numeral_eq_Suc)

lemma postedAt_iff:
  "length w = 32 \<Longrightarrow>
   (\<exists>n. wordUint64 w = Inr n \<and> \<not> unat n > 2 ^ 63 - 1 \<and> x = uint n) \<longleftrightarrow>
   0 \<le> x \<and> x < 2 ^ 63 \<and> w = abi_uint (nat x)"
proof
  assume len: "length w = 32"
  assume "\<exists>n. wordUint64 w = Inr n \<and> \<not> unat n > 2 ^ 63 - 1 \<and> x = uint n"
  then obtain n where dcd: "wordUint64 w = Inr n" and "\<not> unat n > 2 ^ 63 - 1" and x: "x = uint n"
    by blast
  then have "unat n < 2 ^ 63" by simp
  then have "uint n < 2 ^ 63" using of_nat_less_iff [where 'a = int, of "unat n" "2 ^ 63"] by simp
  moreover have "w = abi_uint (unat n)" using wordUint64_iff [OF len, of n] dcd by simp
  ultimately show "0 \<le> x \<and> x < 2 ^ 63 \<and> w = abi_uint (nat x)" by (simp add: x)
next
  assume len: "length w = 32"
  assume x: "0 \<le> x \<and> x < 2 ^ 63 \<and> w = abi_uint (nat x)"
  let ?n = "word_of_int x :: uint64"
  have u: "uint ?n = x" using x by (simp add: uint_word_of_int)
  then have "unat ?n = nat x" by (metis unat_eq_nat_uint)
  with u x wordUint64_iff [OF len, of ?n] show "\<exists>n. wordUint64 w = Inr n \<and> \<not> unat n > 2 ^ 63 - 1 \<and> x = uint n"
    by (intro exI [of _ ?n]) (simp add: zless_nat_eq_int_zless)
qed

lemma decodeLedger_iff: "decodeLedger data = Inr l \<longleftrightarrow> ledger_fields_ok l \<and> data = abi_ledger l"
proof (cases "length data = 18 * 32")
  case False
  then show ?thesis
    using payload_iff [where data = data, OF ledger_words_18 [of l]] by (auto simp: decodeLedger_def ledgerWords_def abi_ledger_def)
next
  case True
  have len: "length (dataWord data i) = 32" if "i < 18" for i
    by (rule length_dataWord) (use True that in simp)
  have main: "decodeLedger data = Inr l \<longleftrightarrow>
      wordBool (dataWord data 2) = Inr (L_Skipped l) \<and>
      (\<exists>n. wordUint64 (dataWord data 1) = Inr n \<and> \<not> unat n > 2 ^ 63 - 1 \<and> L_RootPostedAt l = uint n) \<and>
      bytes_hash (dataWord data 0) = L_Root l \<and> words_at data 3 = L_Funded l \<and>
      words_at data 8 = L_Totals l \<and> words_at data 13 = L_Claimed l"
    using True by (cases l) (auto simp: decodeLedger_def ledgerWords_def split: sum.splits)
  have root: "bytes_hash (dataWord data 0) = L_Root l \<longleftrightarrow> dataWord data 0 = hash_bytes (L_Root l)"
    using hash_bytes_hash [OF len [of 0]] by auto
  have payload: "data = abi_ledger l \<longleftrightarrow> map (dataWord data) [0..<18] = ledger_words l"
    using payload_iff [where data = data, OF ledger_words_18 [of l]] True by (simp add: abi_ledger_def)
  have funded: "words_at data 3 = L_Funded l \<longleftrightarrow>
      amounts_ok (L_Funded l) \<and> map (dataWord data) [3, 4, 5, 6, 7] = amount_words (L_Funded l)"
    using words_at_iff [of 3 data] True by simp
  have totals: "words_at data 8 = L_Totals l \<longleftrightarrow>
      amounts_ok (L_Totals l) \<and> map (dataWord data) [8, 9, 10, 11, 12] = amount_words (L_Totals l)"
    using words_at_iff [of 8 data] True by simp
  have claimed: "words_at data 13 = L_Claimed l \<longleftrightarrow>
      amounts_ok (L_Claimed l) \<and> map (dataWord data) [13, 14, 15, 16, 17] = amount_words (L_Claimed l)"
    using words_at_iff [of 13 data] True by simp
  have words: "map (dataWord data) [0..<18] = ledger_words l \<longleftrightarrow>
      dataWord data 0 = hash_bytes (L_Root l) \<and> dataWord data 1 = abi_uint (nat (L_RootPostedAt l)) \<and>
      dataWord data 2 = abi_uint (of_bool (L_Skipped l)) \<and>
      map (dataWord data) [3, 4, 5, 6, 7] = amount_words (L_Funded l) \<and>
      map (dataWord data) [8, 9, 10, 11, 12] = amount_words (L_Totals l) \<and>
      map (dataWord data) [13, 14, 15, 16, 17] = amount_words (L_Claimed l)"
    by (simp add: upt_18 five ledger_words_def amount_words_def tokens_def)
  have "length (dataWord data 1) = 32" by (rule len) simp
  note posted = postedAt_iff [OF this, of "L_RootPostedAt l"]
    and skipped = wordBool_iff [OF len [of 2, simplified], of "L_Skipped l"]
  show ?thesis
    unfolding main root payload words funded totals claimed skipped posted ledger_fields_ok_def by blast
qed

interpretation ledger_codec: exact_codec abi_ledger decodeLedger ledger_fields_ok
  by unfold_locales (simp_all add: decodeLedger_iff)

definition abi_addresses :: "address list \<Rightarrow> byte list" where
  "abi_addresses as = concat (abi_uint 32 # abi_uint (length as) # map abi_address as)"

lemma address_entries_iff:
  "32 * (2 + i + n) \<le> length data \<Longrightarrow>
   address_entries data i n = Inr as \<longleftrightarrow> length as = n \<and> map (\<lambda>j. dataWord data (2 + j)) [i..<i + n] = map abi_address as"
proof (induction n arbitrary: i as)
  case (Suc n)
  define f where "f = (\<lambda>j. dataWord data (2 + j))"
  have len: "length (f i) = 32" unfolding f_def by (rule length_dataWord) (use Suc.prems in simp)
  have upt: "[i..<i + Suc n] = i # [Suc i..<Suc i + n]" by (simp add: upt_conv_Cons)
  have inj: "abi_address a = abi_address b \<longleftrightarrow> a = b" for a b by (simp add: abi_address_def)
  have step: "address_entries data i (Suc n) = Inr (b # bs) \<longleftrightarrow>
      wordAddress (f i) = Inr b \<and> address_entries data (Suc i) n = Inr bs" for b bs
    unfolding f_def by (auto split: sum.splits)
  have IH: "address_entries data (Suc i) n = Inr bs \<longleftrightarrow>
      length bs = n \<and> map f [Suc i..<Suc i + n] = map abi_address bs" for bs
    unfolding f_def by (rule Suc.IH) (use Suc.prems in simp)
  show ?case
  proof (cases as)
    case Nil
    then show ?thesis by (simp split: sum.splits)
  next
    case (Cons b bs)
    show ?thesis unfolding f_def [symmetric] upt Cons step IH wordAddress_iff [OF len] by auto
  qed
qed auto

lemma decodeAddressArray_iff:
  "decodeAddressArray data = Inr as \<longleftrightarrow> length as < 2 ^ 64 \<and> data = abi_addresses as"
proof -
  let ?ws = "abi_uint 32 # abi_uint (length as) # map abi_address as"
  have payload: "data = abi_addresses as \<longleftrightarrow>
      length data = 32 * (2 + length as) \<and> map (dataWord data) [0..<2 + length as] = ?ws"
    unfolding abi_addresses_def by (rule payload_iff) auto
  have upt: "map (dataWord data) [0..<2 + length as] =
      dataWord data 0 # dataWord data 1 # map (\<lambda>j. dataWord data (2 + j)) [0..<length as]"
    by (rule nth_equalityI) (auto simp: nth_Cons simp del: upt_Suc split: nat.splits)
  show ?thesis
  proof (cases "64 \<le> length data")
    case False
    then show ?thesis by (auto simp: decodeAddressArray_def payload)
  next
    case True
    have len: "length (dataWord data 0) = 32" "length (dataWord data 1) = 32"
      by (rule length_dataWord, use True in simp)+
    have off: "wordUint64 (dataWord data 0) = Inr 32 \<longleftrightarrow> dataWord data 0 = abi_uint 32"
      using wordUint64_iff [OF len(1), of 32] by simp
    have "decodeAddressArray data = Inr as \<longleftrightarrow>
        dataWord data 0 = abi_uint 32 \<and>
        (\<exists>n. wordUint64 (dataWord data 1) = Inr n \<and> length data = 64 + unat n * 32 \<and>
             address_entries data 0 (unat n) = Inr as)"
      using True by (auto simp: decodeAddressArray_def off split: sum.splits)
    also have "\<dots> \<longleftrightarrow> dataWord data 0 = abi_uint 32 \<and>
        (\<exists>n :: uint64. dataWord data 1 = abi_uint (unat n) \<and> length data = 64 + unat n * 32 \<and> length as = unat n \<and>
             map (\<lambda>j. dataWord data (2 + j)) [0..<unat n] = map abi_address as)"
      using wordUint64_iff [OF len(2)] address_entries_iff [of 0 _ data as] by auto
    also have "\<dots> \<longleftrightarrow> dataWord data 0 = abi_uint 32 \<and> length as < 2 ^ 64 \<and>
        dataWord data 1 = abi_uint (length as) \<and> length data = 64 + length as * 32 \<and>
        map (\<lambda>j. dataWord data (2 + j)) [0..<length as] = map abi_address as"
    proof -
      have "(\<exists>n :: uint64. P (unat n) \<and> length as = unat n \<and> Q (unat n)) \<longleftrightarrow>
          length as < 2 ^ 64 \<and> P (length as) \<and> Q (length as)" for P Q
      proof
        assume "\<exists>n :: uint64. P (unat n) \<and> length as = unat n \<and> Q (unat n)"
        then obtain n :: uint64 where "P (unat n)" "length as = unat n" "Q (unat n)" by blast
        moreover have "unat n < 2 ^ 64" using unsigned_less [where 'a = nat, of n] by simp
        ultimately show "length as < 2 ^ 64 \<and> P (length as) \<and> Q (length as)" by simp
      next
        assume len: "length as < 2 ^ 64 \<and> P (length as) \<and> Q (length as)"
        then have "unat (of_nat (length as) :: uint64) = length as" by (simp add: unat_of_nat)
        with len show "\<exists>n :: uint64. P (unat n) \<and> length as = unat n \<and> Q (unat n)" by metis
      qed
      from this [of "\<lambda>n. dataWord data 1 = abi_uint n \<and> length data = 64 + n * 32"
          "\<lambda>n. map (\<lambda>j. dataWord data (2 + j)) [0..<n] = map abi_address as"]
      show ?thesis by (simp only: conj_assoc)
    qed
    also have "\<dots> \<longleftrightarrow> length as < 2 ^ 64 \<and> data = abi_addresses as"
      unfolding payload upt by auto
    finally show ?thesis .
  qed
qed

interpretation array_codec: exact_codec abi_addresses decodeAddressArray "\<lambda>as. length as < 2 ^ 64"
  by unfold_locales (simp_all add: decodeAddressArray_iff)

section \<open>Events\<close>

text \<open>The topics and the data with which each event is emitted.\<close>

definition transfer_log :: "keccak \<Rightarrow> chainTransfer \<Rightarrow> hash list \<times> byte list" where
  "transfer_log k t =
     ([topicTransfer k, bytes_hash (abi_address (CT_From t)), bytes_hash (abi_address (CT_To t))], word_of (CT_Value t))"

definition root_words :: "rootPosted \<Rightarrow> byte list list" where
  "root_words r = hash_bytes (RP_Root r) # amount_words (RP_Totals r) @ amount_words (RP_CarryIn r)"

definition root_posted_log :: "keccak \<Rightarrow> rootPosted \<Rightarrow> hash list \<times> byte list" where
  "root_posted_log k r =
     ([topicRootPosted k, bytes_hash (abi_uint (ordinal (RP_Kind r))), bytes_hash (abi_uint (unat (RP_ID r)))],
      concat (root_words r))"

definition excluded_log :: "keccak \<Rightarrow> chainExclusion \<Rightarrow> hash list \<times> byte list" where
  "excluded_log k x = ([topicExcludedAppended k, bytes_hash (abi_address (CE_Account x))], [])"

lemma check_None:
  "check l name t0 n d = None \<longleftrightarrow> (\<exists>ts. EL_Topics l = t0 # ts \<and> length ts = n) \<and> length (EL_Data l) = d * 32"
  by (cases "EL_Topics l") (auto simp: check_def)

lemma topic_iff: "length w = 32 \<Longrightarrow> hash_bytes h = w \<longleftrightarrow> h = bytes_hash w"
  using hash_bytes_hash [of w] by auto

lemma two: "length ts = 2 \<longleftrightarrow> (\<exists>a b. ts = [a, b])"
  by (auto simp: numeral_2_eq_2 length_Suc_conv)

lemma decodeTransfer_iff:
  "decodeTransfer k l = Inr t \<longleftrightarrow>
   amount_ok (CT_Value t) \<and> (EL_Topics l, EL_Data l) = transfer_log k t \<and> site.truncate t = site_of l"
proof (cases "check l ''Transfer'' (topicTransfer k) 2 1")
  case (Some e)
  then have "(EL_Topics l, EL_Data l) \<noteq> transfer_log k t"
    using check_None [of l "''Transfer''" "topicTransfer k" 2 1] by (auto simp: transfer_log_def)
  with Some show ?thesis by (simp add: decodeTransfer_def)
next
  case None
  then obtain a b where ts: "EL_Topics l = [topicTransfer k, a, b]" and data: "length (EL_Data l) = 32"
    by (auto simp: check_None two)
  have "decodeTransfer k l = Inr t \<longleftrightarrow>
      wordAddress (hash_bytes a) = Inr (CT_From t) \<and> wordAddress (hash_bytes b) = Inr (CT_To t) \<and>
      wordUint256 (EL_Data l) = CT_Value t \<and> site.truncate t = site_of l"
    using None by (cases t)
      (auto simp: decodeTransfer_def topic_word_def ts site.defs chainTransfer.defs site_of_def split: sum.splits)
  then show ?thesis
    by (auto simp: transfer_log_def ts wordAddress_iff topic_iff wordUint256_iff [OF data])
qed

lemma decodeExcludedAppended_iff:
  "decodeExcludedAppended k l = Inr x \<longleftrightarrow>
   (EL_Topics l, EL_Data l) = excluded_log k x \<and> site.truncate x = site_of l"
proof (cases "check l ''ExcludedAppended'' (topicExcludedAppended k) 1 0")
  case (Some e)
  then have "(EL_Topics l, EL_Data l) \<noteq> excluded_log k x"
    using check_None [of l "''ExcludedAppended''" "topicExcludedAppended k" 1 0] by (auto simp: excluded_log_def)
  with Some show ?thesis by (simp add: decodeExcludedAppended_def)
next
  case None
  then obtain a where ts: "EL_Topics l = [topicExcludedAppended k, a]" and data: "EL_Data l = []"
    by (auto simp: check_None length_Suc_conv)
  have "decodeExcludedAppended k l = Inr x \<longleftrightarrow>
      wordAddress (hash_bytes a) = Inr (CE_Account x) \<and> site.truncate x = site_of l"
    using None by (cases x)
      (auto simp: decodeExcludedAppended_def topic_word_def ts site.defs chainExclusion.defs site_of_def split: sum.splits)
  then show ?thesis
    by (auto simp: excluded_log_def ts data wordAddress_iff topic_iff)
qed

lemma root_words_11: "length (root_words r) = 11" "\<forall>w \<in> set (root_words r). length w = 32"
  by (auto simp: root_words_def)

lemma upt_11: "[0..<11] = [0, 1, 2, 3, 4, 5, 6, 7, 8, 9, 10 :: nat]"
  by code_simp

lemma kind_iff:
  "(\<exists>n. wordUint64 (hash_bytes h) = Inr n \<and> \<not> n > of_nat (ordinal KindDraw) \<and> (if n = 0 then KindEpoch else KindDraw) = kd) \<longleftrightarrow>
   h = bytes_hash (abi_uint (ordinal kd))"
proof -
  have one: "wordUint64 (hash_bytes h) = Inr n \<longleftrightarrow> h = bytes_hash (abi_uint (unat n))" for n
    by (simp add: wordUint64_iff topic_iff)
  have small: "\<not> n > of_nat (ordinal KindDraw) \<longleftrightarrow> n = 0 \<or> n = 1" for n :: uint64
    by (auto simp: ordinal_def word_less_nat_alt word_unat_eq_iff)
  show ?thesis
    unfolding one small by (cases kd) (auto simp: ordinal_def intro: exI [of _ 0] exI [of _ 1] split: if_splits)
qed

lemma decodeRootPosted_iff:
  "decodeRootPosted k l = Inr r \<longleftrightarrow>
   amounts_ok (RP_Totals r) \<and> amounts_ok (RP_CarryIn r) \<and>
   (EL_Topics l, EL_Data l) = root_posted_log k r \<and> site.truncate r = site_of l"
proof (cases "check l ''RootPosted'' (topicRootPosted k) 2 rootPostedWords")
  case (Some e)
  have "length (concat (root_words r)) = 352"
    using payload_iff [where data = "concat (root_words r)", OF root_words_11 [of r]] by simp
  then have "(EL_Topics l, EL_Data l) \<noteq> root_posted_log k r"
    using Some check_None [of l "''RootPosted''" "topicRootPosted k" 2 rootPostedWords]
    by (auto simp: root_posted_log_def rootPostedWords_def)
  with Some show ?thesis by (simp add: decodeRootPosted_def)
next
  case None
  let ?d = "EL_Data l"
  from None obtain a b where ts: "EL_Topics l = [topicRootPosted k, a, b]" and data: "length ?d = 352"
    by (auto simp: check_None two rootPostedWords_def)
  have main: "decodeRootPosted k l = Inr r \<longleftrightarrow>
      (\<exists>n. wordUint64 (hash_bytes a) = Inr n \<and> \<not> n > of_nat (ordinal KindDraw) \<and> (if n = 0 then KindEpoch else KindDraw) = RP_Kind r) \<and>
      wordUint64 (hash_bytes b) = Inr (RP_ID r) \<and> bytes_hash (take 32 ?d) = RP_Root r \<and>
      words_at ?d 1 = RP_Totals r \<and> words_at ?d 6 = RP_CarryIn r \<and> site.truncate r = site_of l"
    using None by (cases r)
      (auto simp: decodeRootPosted_def topic_word_def ts site.defs rootPosted.defs site_of_def split: sum.splits)
  have i: "wordUint64 (hash_bytes b) = Inr (RP_ID r) \<longleftrightarrow> b = bytes_hash (abi_uint (unat (RP_ID r)))"
    by (simp add: wordUint64_iff topic_iff)
  have root: "bytes_hash (take 32 ?d) = RP_Root r \<longleftrightarrow> dataWord ?d 0 = hash_bytes (RP_Root r)"
    using hash_bytes_hash [of "take 32 ?d"] data by (auto simp: dataWord_def)
  have totals: "words_at ?d 1 = RP_Totals r \<longleftrightarrow>
      amounts_ok (RP_Totals r) \<and> map (dataWord ?d) [1, 2, 3, 4, 5] = amount_words (RP_Totals r)"
  proof -
    have idx: "[1, 1 + 1, 1 + 2, 1 + 3, 1 + 4] = [1, 2, 3, 4, 5 :: nat]" by simp
    show ?thesis using words_at_iff [of 1 ?d, unfolded idx] data by simp
  qed
  have carry: "words_at ?d 6 = RP_CarryIn r \<longleftrightarrow>
      amounts_ok (RP_CarryIn r) \<and> map (dataWord ?d) [6, 7, 8, 9, 10] = amount_words (RP_CarryIn r)"
    using words_at_iff [of 6 ?d] data by simp
  have payload: "?d = concat (root_words r) \<longleftrightarrow> map (dataWord ?d) [0..<11] = root_words r"
    using payload_iff [where data = ?d, OF root_words_11 [of r]] data by simp
  have words: "map (dataWord ?d) [0..<11] = root_words r \<longleftrightarrow> dataWord ?d 0 = hash_bytes (RP_Root r) \<and>
      map (dataWord ?d) [1, 2, 3, 4, 5] = amount_words (RP_Totals r) \<and>
      map (dataWord ?d) [6, 7, 8, 9, 10] = amount_words (RP_CarryIn r)"
    by (simp add: upt_11 root_words_def amount_words_def tokens_def)
  have log: "(EL_Topics l, ?d) = root_posted_log k r \<longleftrightarrow>
      a = bytes_hash (abi_uint (ordinal (RP_Kind r))) \<and> b = bytes_hash (abi_uint (unat (RP_ID r))) \<and>
      ?d = concat (root_words r)"
    by (simp add: root_posted_log_def ts)
  show ?thesis unfolding main kind_iff i root totals carry log payload words by blast
qed

section \<open>Hexadecimal values\<close>

lemma digitsOf_prefix [simp]: "digitsOf (CHR ''0'' # CHR ''x'' # s) = Inr s"
  by (simp add: digitsOf_def)

lemma FormatUint16_not_Nil [simp]: "FormatUint16 n \<noteq> []"
  by (simp add: FormatUint16_def)

interpretation quantity_codec: codec quantity parseQuantity "\<lambda>_. True"
  by unfold_locales (simp add: parseQuantity_def quantity_def)

interpretation hex_codec: codec hexBytes parseHexBytes "\<lambda>_. True"
  by unfold_locales (simp add: parseHexBytes_def hexBytes_def)

interpretation hash_codec: codec Hash_String ParseHash "\<lambda>_. True"
  by unfold_locales (simp add: ParseHash_def Hash_String_def hex_codec.roundtrip)

interpretation address_codec: codec Address_String ParseAddress "\<lambda>_. True"
  by unfold_locales (simp add: ParseAddress_def Address_String_def hex_codec.roundtrip)

section \<open>Properties\<close>

text \<open>
  A log decodes as a Transfer exactly when its topics and data are, byte for byte, those the
  token emits for it: the signature's hash, the two addresses zero-padded to words, and
  one word of data holding the value. The block, index and value are carried over unchanged.
\<close>

theorem decodeTransfer_exact:
  "decodeTransfer k l = Inr t \<longleftrightarrow>
   amount_ok (CT_Value t) \<and> (EL_Topics l, EL_Data l) = transfer_log k t \<and> site.truncate t = site_of l"
  by (rule decodeTransfer_iff)

text \<open>
  A log decodes as a RootPosted exactly when it is the encoding of one: kind and id in its
  topics, then the root, the five totals and the five Carry amounts in eleven words of data.
\<close>

theorem decodeRootPosted_exact:
  "decodeRootPosted k l = Inr r \<longleftrightarrow>
   amounts_ok (RP_Totals r) \<and> amounts_ok (RP_CarryIn r) \<and>
   (EL_Topics l, EL_Data l) = root_posted_log k r \<and> site.truncate r = site_of l"
  by (rule decodeRootPosted_iff)

text \<open>
  C37. The return of \<open>ledger()\<close> and the one dynamic return, \<open>address[]\<close>, are accepted exactly when they
  are the ABI encoding of the value returned; everything else, an empty return and a hostile
  length included, is refused.
\<close>

theorem view_returns_exact:
  "(decodeLedger data = Inr l \<longleftrightarrow> ledger_fields_ok l \<and> data = abi_ledger l) \<and>
   (decodeAddressArray data = Inr as \<longleftrightarrow> length as < 2 ^ 64 \<and> data = abi_addresses as) \<and>
   ((\<exists>e. decodeLedger data = Inl e) \<longleftrightarrow> (\<nexists>l. ledger_fields_ok l \<and> data = abi_ledger l))"
  using ledger_codec.decodes_iff array_codec.decodes_iff ledger_codec.rejects_iff by blast

text \<open>
  Quantities, byte strings, hashes and addresses survive being written to the wire and read back,
  so no two of them are written the same way.
\<close>

theorem hex_roundtrips:
  "parseQuantity (quantity n) = Inr n \<and> parseHexBytes (hexBytes bs) = Inr bs \<and>
   ParseHash (Hash_String h) = Inr h \<and> ParseAddress (Address_String a) = Inr a \<and>
   (quantity n = quantity m \<longleftrightarrow> n = m)"
  using quantity_codec.roundtrip hex_codec.roundtrip hash_codec.roundtrip address_codec.roundtrip
    quantity_codec.enc_inject [of n m] by simp

text \<open>
  The calldata for \<open>ledger(kind, id)\<close> is the selector followed by the two words, 68 bytes when the
  selector is four, and it determines the kind and the id.
\<close>

theorem encodeLedgerCall_words:
  "encodeLedgerCall k kd i = selectorLedger k @ abi_uint (ordinal kd) @ abi_uint (unat i) \<and>
   length (encodeLedgerCall k kd i) = 68 \<and>
   (encodeLedgerCall k kd i = encodeLedgerCall k kd' i' \<longleftrightarrow> kd = kd' \<and> i = i')"
proof -
  have word: "(replicate 32 0)[31 := of_nat (ordinal kd)] = abi_uint (ordinal kd)" for kd
  proof -
    have zeros: "be_bytes n 0 = replicate n 0" for n by (induction n) (simp_all add: replicate_append_same)
    have "ordinal kd div 256 = 0" by (cases kd) (simp_all add: ordinal_def)
    then have "be_bytes (Suc 31) (ordinal kd) = replicate 31 0 @ [of_nat (ordinal kd)]"
      by (simp only: be_bytes.simps zeros)
    moreover have "(replicate (Suc 31) 0)[31 := x] = replicate 31 0 @ [x]" for x :: byte
      using list_update_append [of "replicate 31 0" "[0]" 31 x] replicate_append_same [of 31 "0 :: byte"]
      by (simp only: replicate_Suc length_replicate) simp
    ultimately show ?thesis by (simp add: abi_uint_def)
  qed
  have small: "ordinal kd < 256 ^ 32" "unat i < 256 ^ 32" for kd and i :: uint64
  proof -
    show "ordinal kd < 256 ^ 32" by (cases kd) (simp_all add: ordinal_def)
    show "unat i < 256 ^ 32" using unsigned_less [where 'a = nat, of i] by simp
  qed
  have "abi_uint (ordinal kd) = abi_uint (ordinal kd') \<longleftrightarrow> kd = kd'"
    unfolding abi_uint_def using be_bytes_inject [of 32 "ordinal kd" "ordinal kd'"] small(1)
    by (cases kd; cases kd') (auto simp: ordinal_def)
  moreover have "abi_uint (unat i) = abi_uint (unat i') \<longleftrightarrow> i = i'"
    unfolding abi_uint_def using be_bytes_inject [of 32 "unat i" "unat i'"] small(2) by (auto simp: word_unat_eq_iff)
  moreover have "length (selectorLedger k) = 4" by (simp add: selectorLedger_def selectorOf_def)
  ultimately show ?thesis by (simp add: encodeLedgerCall_def word flip: abi_uint_def)
qed

lemma addr_bytes_not_Nil [simp]: "addr_bytes a \<noteq> []"
  using length_addr_bytes [of a] by (metis list.size(3) zero_neq_numeral)

lemma concat_addresses_inject: "concat (map addr_bytes as) = concat (map addr_bytes bs) \<longleftrightarrow> as = bs"
proof (induction as arbitrary: bs)
  case Nil
  have "concat (map addr_bytes bs) = [] \<longleftrightarrow> bs = []" by (cases bs) simp_all
  then show ?case by auto
next
  case (Cons a as)
  show ?case
  proof (cases bs)
    case Nil
    then show ?thesis by simp
  next
    case (Cons b bs')
    with Cons.IH [of bs'] show ?thesis by simp
  qed
qed

text \<open>
  The hash of the Excluded set is a hash of the set: two streams give an Epoch the same hash exactly
  when they exclude the same accounts from it, in whatever order and however often, barring a
  collision between the two strings hashed.
\<close>

theorem ExcludedSet_Hash_of_set:
  assumes "inj_on k ((\<lambda>s. concat (map addr_bytes s)) ` {chain_ExcludedAsOf e xs, chain_ExcludedAsOf e ys})"
  shows "ExcludedSet_Hash k (chain_ExcludedAsOf e xs) = ExcludedSet_Hash k (chain_ExcludedAsOf e ys) \<longleftrightarrow>
    {CE_Account x | x. x \<in> set xs \<and> S_Timestamp x < End (WindowOf e)} =
    {CE_Account y | y. y \<in> set ys \<and> S_Timestamp y < End (WindowOf e)}"
proof -
  have sets: "set (chain_ExcludedAsOf e zs) = {CE_Account x | x. x \<in> set zs \<and> S_Timestamp x < End (WindowOf e)}" for zs
  proof -
    let ?c = "\<lambda>x. \<lparr>X_Timestamp = S_Timestamp x, X_Account = CE_Account x\<rparr>"
    have "set (chain_ExcludedAsOf e zs) = {X_Account y | y. y \<in> ?c ` set zs \<and> X_Timestamp y < End (WindowOf e)}"
      by (simp add: chain_ExcludedAsOf_def set_ExcludedAsOf)
    also have "\<dots> = {X_Account (?c x) | x. x \<in> set zs \<and> X_Timestamp (?c x) < End (WindowOf e)}" by blast
    finally show ?thesis by simp
  qed
  have "chain_ExcludedAsOf e xs = chain_ExcludedAsOf e ys \<longleftrightarrow>
      set (chain_ExcludedAsOf e xs) = set (chain_ExcludedAsOf e ys)"
    by (auto simp: chain_ExcludedAsOf_def intro: sorted_distinct_set_unique)
  moreover have "ExcludedSet_Hash k (chain_ExcludedAsOf e xs) = ExcludedSet_Hash k (chain_ExcludedAsOf e ys) \<longleftrightarrow>
      chain_ExcludedAsOf e xs = chain_ExcludedAsOf e ys"
    using inj_on_eq_iff [OF assms, of "concat (map addr_bytes (chain_ExcludedAsOf e xs))"
        "concat (map addr_bytes (chain_ExcludedAsOf e ys))"]
    by (simp add: ExcludedSet_Hash_def keccak256_def concat_addresses_inject)
  ultimately show ?thesis by (simp add: sets)
qed

definition demo_exclusion :: "address \<Rightarrow> chainExclusion" where
  "demo_exclusion a =
     \<lparr>S_BlockNumber = 1, S_BlockHash = 0, S_LogIndex = 0, S_Timestamp = 5, CE_Account = a\<rparr>"

theorem ExcludedSet_Hash_of_set_witness:
  "ExcludedSet_Hash demo_hash (chain_ExcludedAsOf 1000 [demo_exclusion 1, demo_exclusion 2, demo_exclusion 1]) =
   ExcludedSet_Hash demo_hash (chain_ExcludedAsOf 1000 [demo_exclusion 2, demo_exclusion 1])"
proof -
  let ?xs = "[demo_exclusion 1, demo_exclusion 2, demo_exclusion 1]" and ?ys = "[demo_exclusion 2, demo_exclusion 1]"
  have "chain_ExcludedAsOf 1000 ?xs = [1, 2]" "chain_ExcludedAsOf 1000 ?ys = [1, 2]"
    by (simp_all add: chain_ExcludedAsOf_def ExcludedAsOf_def demo_exclusion_def WindowOf_ok word_le_def)
  then have inj: "inj_on demo_hash ((\<lambda>s. concat (map addr_bytes s)) ` {chain_ExcludedAsOf 1000 ?xs, chain_ExcludedAsOf 1000 ?ys})"
    by simp
  show ?thesis unfolding ExcludedSet_Hash_of_set [OF inj] by auto
qed

end
