(* ===== verification/Place.thy ===== *)
theory Place
  imports Wire
begin

text \<open>
  Where the Cache of a history lives (\<open>Dir\<close> of \<open>cache/cache.go\<close>), with what it uses of the standard library on Unix:
  \<open>filepath.Join\<close> and \<open>filepath.Clean\<close>, which work on the text of a path alone, and \<open>os.UserHomeDir\<close>. The variables of the
  process are a parameter.
\<close>

section \<open>Paths\<close>

fun elements :: "string \<Rightarrow> string list" where
  "elements [] = [[]]"
| "elements (c # cs) =
     (if c = CHR ''/'' then [] # elements cs
      else case elements cs of [] \<Rightarrow> [[c]] | e # es \<Rightarrow> (c # e) # es)"

fun slashed :: "string list \<Rightarrow> string" where
  "slashed [] = []"
| "slashed [e] = e"
| "slashed (e # es) = e @ ''/'' @ slashed es"

text \<open>The elements kept so far, the newest first.\<close>

definition clean_step :: "bool \<Rightarrow> string list \<Rightarrow> string \<Rightarrow> string list" where
  "clean_step rooted kept e =
     (if e = [] \<or> e = ''.'' then kept
      else if e = ''..'' then
        (case kept of
           [] \<Rightarrow> if rooted then [] else [''..'']
         | newest # rest \<Rightarrow> if newest = ''..'' then ''..'' # kept else rest)
      else e # kept)"

definition Clean :: "string \<Rightarrow> string" where
  "Clean path =
     (let rooted = (take 1 path = ''/''); body = slashed (rev (foldl (clean_step rooted) [] (elements path)))
      in if rooted then ''/'' @ body else if body = [] then ''.'' else body)"

definition Join :: "string list \<Rightarrow> string" where
  "Join es = (case dropWhile (\<lambda>e. e = []) es of [] \<Rightarrow> [] | e # rest \<Rightarrow> Clean (slashed (e # rest)))"

definition UserHomeDir :: "(string \<Rightarrow> string) \<Rightarrow> string option" where
  "UserHomeDir getenv = (if getenv ''HOME'' = [] then None else Some (getenv ''HOME''))"

section \<open>The directory of a Cache\<close>

definition history_name :: "uint64 \<Rightarrow> address \<Rightarrow> string" where
  "history_name chainID token = dec (unat chainID) @ ''-'' @ Address_String token"

definition cache_base :: "(string \<Rightarrow> string) \<Rightarrow> string option" where
  "cache_base getenv =
     (if getenv ''XDG_CACHE_HOME'' = [] then map_option (\<lambda>home. Join [home, ''.cache'']) (UserHomeDir getenv)
      else Some (getenv ''XDG_CACHE_HOME''))"

definition Dir :: "(string \<Rightarrow> string) \<Rightarrow> uint64 \<Rightarrow> address \<Rightarrow> string option" where
  "Dir getenv chainID token =
     map_option (\<lambda>base. Join [base, ''nutz-verify'', history_name chainID token]) (cache_base getenv)"

section \<open>One directory for one history\<close>

lemma elements_not_Nil [simp]: "elements s \<noteq> []"
  by (cases s) (simp_all split: list.split)

lemma elements_slash [simp]: "elements (u @ CHR ''/'' # v) = elements u @ elements v"
proof (induction u)
  case (Cons a u)
  obtain e es where "elements u = e # es" by (meson elements_not_Nil list.exhaust)
  then show ?case using Cons by simp
qed simp

lemma elements_plain: "CHR ''/'' \<notin> set s \<Longrightarrow> elements s = [s]"
  by (induction s) auto

lemma slashed_snoc: "slashed (es @ [e]) = (if es = [] then e else slashed es @ ''/'' @ e)"
  by (induction es rule: slashed.induct) simp_all

definition plain_name :: "string \<Rightarrow> bool" where
  "plain_name e \<longleftrightarrow> CHR ''/'' \<notin> set e \<and> e \<noteq> [] \<and> e \<noteq> ''.'' \<and> e \<noteq> ''..''"

lemma clean_step_plain: "plain_name e \<Longrightarrow> clean_step rooted kept e = e # kept"
  by (simp add: plain_name_def clean_step_def)

text \<open>Joining plain names to a base keeps them as they are, below what the base is cleaned to.\<close>

lemma Join_below:
  assumes "base \<noteq> []" "plain_name x"
  shows "\<exists>above. \<forall>y. plain_name y \<longrightarrow> Join [base, x, y] = above @ y"
proof -
  define r where "r = (take 1 base = ''/'')"
  define above where "above = (if r then ''/'' else []) @ slashed (rev (foldl (clean_step r) [] (elements base)) @ [x]) @ ''/''"
  have "Join [base, x, y] = above @ y" if y: "plain_name y" for y
  proof -
    have path: "slashed [base, x, y] = base @ CHR ''/'' # x @ CHR ''/'' # y" by simp
    have "CHR ''/'' \<notin> set x" "CHR ''/'' \<notin> set y" using assms(2) y by (simp_all add: plain_name_def)
    then have es: "elements (slashed [base, x, y]) = elements base @ [x, y]" unfolding path by (simp add: elements_plain)
    have first: "(take 1 (slashed [base, x, y]) = ''/'') = r" using assms(1) by (cases base) (simp_all add: r_def)
    have kept: "rev (foldl (clean_step r) [] (elements base @ [x, y])) = (rev (foldl (clean_step r) [] (elements base)) @ [x]) @ [y]"
      by (simp add: clean_step_plain [OF assms(2)] clean_step_plain [OF y])
    have "Clean (slashed [base, x, y]) = above @ y"
      unfolding Clean_def Let_def first es kept slashed_snoc [of _ y] by (simp add: above_def)
    then show ?thesis using assms(1) by (simp add: Join_def)
  qed
  then show ?thesis by blast
qed

lemma digit_char_mark:
  assumes "d < 16"
  shows "digit_char d \<noteq> CHR ''-''" "digit_char d \<noteq> CHR ''/''"
proof -
  have "hex_value (CHR ''-'') = None" "hex_value (CHR ''/'') = None" by code_simp+
  then show "digit_char d \<noteq> CHR ''-''" "digit_char d \<noteq> CHR ''/''" using hex_value_digit [OF assms] by auto
qed

lemma dec_plain: "CHR ''-'' \<notin> set (dec n)" "CHR ''/'' \<notin> set (dec n)"
  using digits_hex_bound [of 10 n] digit_char_mark by (fastforce simp: dec_def)+

lemma hex_plain: "CHR ''/'' \<notin> set (hex_encode bs)"
proof (induction bs)
  case (Cons b bs)
  have "unat b div 16 < 16" using unat_byte_less [of b] by (simp add: less_mult_imp_div_less)
  then show ?case using Cons digit_char_mark(2) [of "unat b div 16"] digit_char_mark(2) [of "unat b mod 16"] by auto
qed simp

lemma history_name_plain: "plain_name (history_name i a)"
proof -
  have "CHR ''-'' \<in> set (history_name i a)" by (simp add: history_name_def)
  then have "history_name i a \<noteq> s" if "CHR ''-'' \<notin> set s" for s using that by blast
  then show ?thesis using dec_plain(2) hex_plain
    by (simp add: plain_name_def) (simp add: history_name_def Address_String_def hexBytes_def)
qed

lemma history_name_inject: "history_name i a = history_name j b \<longleftrightarrow> i = j \<and> a = b"
proof
  assume "history_name i a = history_name j b"
  then have e: "dec (unat i) @ CHR ''-'' # Address_String a = dec (unat j) @ CHR ''-'' # Address_String b" by (simp add: history_name_def)
  then have "takeWhile (\<lambda>c. c \<noteq> CHR ''-'') (dec (unat i) @ CHR ''-'' # Address_String a) = dec (unat j)"
    using dec_plain(1) [of "unat j"] by (simp add: takeWhile_append2) (subst takeWhile_append2, auto)
  moreover have "takeWhile (\<lambda>c. c \<noteq> CHR ''-'') (dec (unat i) @ CHR ''-'' # Address_String a) = dec (unat i)"
    using dec_plain(1) [of "unat i"] by (subst takeWhile_append2) auto
  ultimately have "unat i = unat j" by simp
  then show "i = j \<and> a = b" using e address_codec.enc_inject [of a b] by (simp add: word_unat_eq_iff)
qed simp

lemma cache_base_not_Nil: "cache_base getenv = Some base \<Longrightarrow> base \<noteq> []"
proof
  assume "cache_base getenv = Some base" "base = []"
  then have "Clean (slashed [getenv ''HOME'', ''.cache'']) = []"
    by (auto simp: cache_base_def UserHomeDir_def Join_def split: if_splits)
  then show False by (simp add: Clean_def Let_def split: if_splits)
qed

lemma Dir_below:
  assumes "cache_base getenv = Some base"
  obtains above where "\<And>i a. Dir getenv i a = Some (above @ history_name i a)"
proof -
  have "plain_name ''nutz-verify''" by (simp add: plain_name_def)
  then obtain above where j: "Join [base, ''nutz-verify'', y] = above @ y" if "plain_name y" for y
    using Join_below cache_base_not_Nil [OF assms] by blast
  have "Dir getenv i a = Some (above @ history_name i a)" for i a using assms j [OF history_name_plain] by (simp add: Dir_def)
  then show thesis by (rule that)
qed

lemma Dir_not_Nil: "Dir getenv i a = Some d \<Longrightarrow> d \<noteq> []"
proof -
  assume d: "Dir getenv i a = Some d"
  then obtain base where "cache_base getenv = Some base" by (auto simp: Dir_def)
  then obtain above where "Dir getenv i a = Some (above @ history_name i a)" by (rule Dir_below) blast
  with d history_name_plain [of i a] show "d \<noteq> []" by (auto simp: plain_name_def)
qed

text \<open>
  C30. One directory for one history. There is a directory as soon as one of the two variables is set, and then two histories share it exactly
  when they are of the same chain and the same token: whatever the base is, with dots, empty elements or none, the last element
  of the path tells them apart.
\<close>

theorem Dir_exact:
  "(Dir getenv i a = None \<longleftrightarrow> getenv ''XDG_CACHE_HOME'' = [] \<and> getenv ''HOME'' = []) \<and>
   (Dir getenv i a = Dir getenv j b \<longleftrightarrow> Dir getenv i a = None \<or> i = j \<and> a = b)"
proof (cases "cache_base getenv")
  case None
  then show ?thesis by (auto simp: Dir_def cache_base_def UserHomeDir_def split: if_splits)
next
  case (Some base)
  then have set: "\<not> (getenv ''XDG_CACHE_HOME'' = [] \<and> getenv ''HOME'' = [])" by (auto simp: cache_base_def UserHomeDir_def)
  obtain above where "\<And>i a. Dir getenv i a = Some (above @ history_name i a)" using Dir_below [OF Some] by blast
  with set show ?thesis by (simp add: history_name_inject)
qed

end
