(* ===== verification/Actions.thy ===== *)
theory Actions
  imports Results
begin

text \<open>
  Operations that change a state and may fail: a function from the state to the state it leaves and its
  outcome. The state is left as it was at the failure, as a method of the program leaves its receiver.
\<close>

type_synonym ('s, 'e, 'a) action = "'s \<Rightarrow> 's \<times> ('e + 'a)"

definition return_with :: "'a \<Rightarrow> ('s, 'e, 'a) action" where
  "return_with a s = (s, Inr a)"

definition fail_with :: "'e \<Rightarrow> ('s, 'e, 'a) action" where
  "fail_with e s = (s, Inl e)"

definition reads :: "('s \<Rightarrow> 'e + 'a) \<Rightarrow> ('s, 'e, 'a) action" where
  "reads f s = (s, f s)"

definition follow :: "('s, 'e, 'a) action \<Rightarrow> ('a \<Rightarrow> ('s, 'e, 'b) action) \<Rightarrow> ('s, 'e, 'b) action" where
  "follow m f s = (case m s of (s', Inl e) \<Rightarrow> (s', Inl e) | (s', Inr a) \<Rightarrow> f a s')"

lemma follow_cong [fundef_cong]:
  "m s = m' s' \<Longrightarrow> (\<And>t a. m' s' = (t, Inr a) \<Longrightarrow> f a t = f' a t) \<Longrightarrow> follow m f s = follow m' f' s'"
  by (auto simp: follow_def split: prod.split sum.split)

lemma follow_simps [simp]:
  "m s = (t, Inr a) \<Longrightarrow> follow m f s = f a t"
  "m s = (t, Inl e) \<Longrightarrow> follow m f s = (t, Inl e)"
  by (simp_all add: follow_def)

lemma action_simps [simp]:
  "return_with a s = (s, Inr a)" "fail_with e s = (s, Inl e)" "reads f s = (s, f s)"
  by (simp_all add: return_with_def fail_with_def reads_def)

section \<open>Actions that answer as a function would\<close>

text \<open>
  \<open>acts I m v\<close>: from any state with the invariant \<open>I\<close>, the outcome of \<open>m\<close> is \<open>v\<close> and the invariant is kept. What an
  operation returns is then independent of everything the invariant leaves open.
\<close>

definition acts :: "('s \<Rightarrow> bool) \<Rightarrow> ('s, 'e, 'a) action \<Rightarrow> 'e + 'a \<Rightarrow> bool" where
  "acts I m v \<longleftrightarrow> (\<forall>s. I s \<longrightarrow> I (fst (m s)) \<and> snd (m s) = v)"

lemma acts_return [intro]: "acts I (return_with a) (Inr a)"
  by (simp add: acts_def)

lemma acts_fail [intro]: "acts I (fail_with e) (Inl e)"
  by (simp add: acts_def)

lemma acts_reads: "(\<And>s. I s \<Longrightarrow> f s = v) \<Longrightarrow> acts I (reads f) v"
  by (simp add: acts_def)

lemma acts_follow:
  assumes "acts I m v" "\<And>a. v = Inr a \<Longrightarrow> acts I (f a) (g a)"
  shows "acts I (follow m f) (and_then v g)"
  unfolding acts_def
proof (intro allI impI)
  fix s
  assume "I s"
  obtain t o' where m: "m s = (t, o')" by (cases "m s")
  have t: "I t" "o' = v" using assms(1) \<open>I s\<close> m by (auto simp: acts_def)
  show "I (fst (follow m f s)) \<and> snd (follow m f s) = and_then v g"
  proof (cases v)
    case (Inl e)
    with m t show ?thesis by simp
  next
    case (Inr a)
    with m t assms(2) [OF Inr] show ?thesis by (simp add: acts_def)
  qed
qed

lemma acts_result: "acts I m v \<Longrightarrow> I s \<Longrightarrow> snd (m s) = v \<and> I (fst (m s))"
  by (simp add: acts_def)

lemma acts_if: "(b \<Longrightarrow> acts I m v) \<Longrightarrow> (\<not> b \<Longrightarrow> acts I m' v') \<Longrightarrow> acts I (if b then m else m') (if b then v else v')"
  by simp

end
