(* ===== verification/Rpc.thy ===== *)
theory Rpc
  imports Wire Results
begin

text \<open>
  JSON-RPC over HTTP (\<open>chain/rpc.go\<close>): what a reply body decodes to, single and batched calls, retries and their
  pauses, and the wire shapes of headers and logs.

  A reply body is what \<open>encoding/json\<close> makes of it, a value of type \<open>json\<close>, or nothing when it is not JSON; the
  unmarshalling of a value into a Go struct follows the package (names match without regard to
  case, the last of equal names wins, a null leaves the field alone, a value of another type is an
  error). HTTP itself is the parameter \<open>post\<close>: what the endpoint replies to the requests of one
  attempt. \<open>alive n\<close> says that the pauses before attempt \<open>n\<close> ended by the clock and not by a
  cancelled context. The token bucket \<open>pacer\<close>, which only delays a call, is in \<open>Pacer\<close>.
\<close>

section \<open>JSON values\<close>

datatype json = JNull | JBool bool | JInt int | JFloat | JStr string | JArr "json list" | JObj "(string \<times> json) list"

definition lower_char :: "char \<Rightarrow> char" where
  "lower_char c = (let n = of_char c :: nat in if 65 \<le> n \<and> n \<le> 90 then char_of (n + 32) else c)"

definition lower :: "string \<Rightarrow> string" where
  "lower s = map lower_char s"

text \<open>The members of an object, in order, assigned to the fields of a struct.\<close>

fun assign_members :: "(string \<Rightarrow> json \<Rightarrow> 's \<Rightarrow> 's option) \<Rightarrow> (string \<times> json) list \<Rightarrow> 's \<Rightarrow> 's option" where
  "assign_members f [] s = Some s"
| "assign_members f ((k, v) # ms) s = Option.bind (f (lower k) v s) (assign_members f ms)"

definition to_struct :: "(string \<Rightarrow> json \<Rightarrow> 's \<Rightarrow> 's option) \<Rightarrow> json \<Rightarrow> 's \<Rightarrow> 's option" where
  "to_struct f j s = (case j of JObj ms \<Rightarrow> assign_members f ms s | JNull \<Rightarrow> Some s | _ \<Rightarrow> None)"

definition to_string :: "json \<Rightarrow> string \<Rightarrow> string option" where
  "to_string j old = (case j of JStr s \<Rightarrow> Some s | JNull \<Rightarrow> Some old | _ \<Rightarrow> None)"

definition to_bool :: "json \<Rightarrow> bool \<Rightarrow> bool option" where
  "to_bool j old = (case j of JBool b \<Rightarrow> Some b | JNull \<Rightarrow> Some old | _ \<Rightarrow> None)"

definition to_uint64 :: "json \<Rightarrow> uint64 \<Rightarrow> uint64 option" where
  "to_uint64 j old =
     (case j of JInt n \<Rightarrow> if 0 \<le> n \<and> n < 2 ^ 64 then Some (word_of_int n) else None | JNull \<Rightarrow> Some old | _ \<Rightarrow> None)"

definition to_int :: "json \<Rightarrow> int64 \<Rightarrow> int64 option" where
  "to_int j old = (case j of JInt n \<Rightarrow> if in_i64 n then Some n else None | JNull \<Rightarrow> Some old | _ \<Rightarrow> None)"

definition to_list :: "(json \<Rightarrow> 'a option) \<Rightarrow> json \<Rightarrow> 'a list option" where
  "to_list f j = (case j of JArr js \<Rightarrow> those (map f js) | JNull \<Rightarrow> Some [] | _ \<Rightarrow> None)"

section \<open>Requests and replies\<close>

record rpcError =
  E_Code :: int64
  E_Message :: string

record rpcRequest =
  RQ_ID :: uint64
  RQ_Method :: string
  RQ_Params :: "json list"

text \<open>A body carries one request, or a batch.\<close>

datatype rpc_body = One rpcRequest | Many "rpcRequest list"

record rpcResponse =
  RS_ID :: uint64
  RS_Result :: "json option"
  RS_Error :: "rpcError option"

definition rpcError_member :: "string \<Rightarrow> json \<Rightarrow> rpcError \<Rightarrow> rpcError option" where
  "rpcError_member k v e =
     (if k = ''code'' then map_option (\<lambda>n. e\<lparr>E_Code := n\<rparr>) (to_int v (E_Code e))
      else if k = ''message'' then map_option (\<lambda>m. e\<lparr>E_Message := m\<rparr>) (to_string v (E_Message e))
      else Some e)"

definition rpcResponse_member :: "string \<Rightarrow> json \<Rightarrow> rpcResponse \<Rightarrow> rpcResponse option" where
  "rpcResponse_member k v r =
     (if k = ''id'' then map_option (\<lambda>n. r\<lparr>RS_ID := n\<rparr>) (to_uint64 v (RS_ID r))
      else if k = ''result'' then Some (r\<lparr>RS_Result := Some v\<rparr>)
      else if k = ''error'' then
        (if v = JNull then Some (r\<lparr>RS_Error := None\<rparr>)
         else map_option (\<lambda>e. r\<lparr>RS_Error := Some e\<rparr>)
                (to_struct rpcError_member v
                   (case RS_Error r of None \<Rightarrow> \<lparr>E_Code = 0, E_Message = ''''\<rparr> | Some e \<Rightarrow> e)))
      else Some r)"

definition to_response :: "json \<Rightarrow> rpcResponse option" where
  "to_response j = to_struct rpcResponse_member j \<lparr>RS_ID = 0, RS_Result = None, RS_Error = None\<rparr>"

datatype rpc_error =
    RpcObject string rpcError
  | NoAnswer string
  | BadReply string
  | HttpFailure nat
  | GaveUp nat
  | TransportFailure
  | Cancelled
  | NotAnswered uint64

definition isNull :: "json option \<Rightarrow> bool" where
  "isNull raw \<longleftrightarrow> raw = None \<or> raw = Some JNull"

definition response_result :: "rpcResponse \<Rightarrow> string \<Rightarrow> rpc_error + json" where
  "response_result r method =
     (case RS_Error r of
        Some e \<Rightarrow> Inl (RpcObject method e)
      | None \<Rightarrow> if isNull (RS_Result r) then Inl (NoAnswer method) else Inr (the (RS_Result r)))"

definition request :: "uint64 \<Rightarrow> string \<Rightarrow> json list \<Rightarrow> uint64 \<times> rpcRequest" where
  "request nextID method params = (nextID + 1, \<lparr>RQ_ID = nextID + 1, RQ_Method = method, RQ_Params = params\<rparr>)"

fun requests :: "uint64 \<Rightarrow> string \<Rightarrow> json list list \<Rightarrow> uint64 \<times> rpcRequest list" where
  "requests nextID method [] = (nextID, [])"
| "requests nextID method (p # ps) =
     (let (n, r) = request nextID method p; (n', rs) = requests n method ps in (n', r # rs))"

section \<open>Attempts and retries\<close>

text \<open>Durations are nanoseconds.\<close>

type_synonym duration = int64

definition second :: duration where "second = 10 ^ 9"
definition maxAttempts :: nat where "maxAttempts = 5"
definition retryBase :: duration where "retryBase = 250 * 10 ^ 6"
definition retryCap :: duration where "retryCap = 8 * second"

text \<open>
  What became of one HTTP request: no reply, or a status, its \<open>Retry-After\<close> header and a body, which is
  \<open>Unreadable\<close> when the connection broke while it was read.
\<close>

datatype body = Unreadable | Text "json option"

datatype http_reply = Broken | Replied nat string body

datatype attempt_error = Failed | Retryable nat duration | Refused nat

definition is_space :: "char \<Rightarrow> bool" where
  "is_space c \<longleftrightarrow> c \<in> {CHR '' '', CHR 0x09, CHR 0x0A, CHR 0x0B, CHR 0x0C, CHR 0x0D}"

definition TrimSpace :: "string \<Rightarrow> string" where
  "TrimSpace s = rev (dropWhile is_space (rev (dropWhile is_space s)))"

definition dec_value :: "char \<Rightarrow> nat option" where
  "dec_value c = (let n = of_char c :: nat in if 48 \<le> n \<and> n \<le> 57 then Some (n - 48) else None)"

definition Atoi :: "string \<Rightarrow> int option" where
  "Atoi s =
     (let neg = (take 1 s = ''-''); ds = (if take 1 s = ''-'' \<or> take 1 s = ''+'' then drop 1 s else s)
      in if ds = [] then None
         else case those (map dec_value ds) of
                None \<Rightarrow> None
              | Some vs \<Rightarrow>
                  let n = (if neg then - int (of_digits 10 vs) else int (of_digits 10 vs))
                  in if in_i64 n then Some n else None)"

definition retryAfter :: "string \<Rightarrow> duration" where
  "retryAfter hdr =
     (case Atoi (TrimSpace hdr) of
        None \<Rightarrow> 0
      | Some seconds \<Rightarrow> if seconds < 0 then 0 else min (i64 (seconds * second)) retryCap)"

definition attempt :: "http_reply \<Rightarrow> attempt_error + json option" where
  "attempt reply =
     (case reply of
        Broken \<Rightarrow> Inl Failed
      | Replied status hdr body \<Rightarrow>
          if status \<noteq> 200 then
            (if status = 429 \<or> status \<ge> 500 then Inl (Retryable status (retryAfter hdr)) else Inl (Refused status))
          else (case body of Unreadable \<Rightarrow> Inl Failed | Text raw \<Rightarrow> Inr raw))"

text \<open>\<open>rnd\<close> is \<open>rand.Int64N\<close>: a number in \<open>[0, window)\<close>.\<close>

definition backoff_window :: "nat \<Rightarrow> duration" where
  "backoff_window n = min (i64 (retryBase * 2 ^ (n - 1))) retryCap"

definition backoff :: "nat \<Rightarrow> attempt_error \<Rightarrow> (int \<Rightarrow> int) \<Rightarrow> duration" where
  "backoff n prev rnd =
     (case prev of
        Retryable status after \<Rightarrow> if after > 0 then after else i64 (rnd (backoff_window n) + retryBase)
      | _ \<Rightarrow> i64 (rnd (backoff_window n) + retryBase))"

fun round_trip_loop :: "(nat \<Rightarrow> bool) \<Rightarrow> (nat \<Rightarrow> http_reply) \<Rightarrow> nat \<Rightarrow> nat \<Rightarrow> nat \<Rightarrow> rpc_error + json option" where
  "round_trip_loop alive post n 0 status = Inl (GaveUp status)"
| "round_trip_loop alive post n (Suc left) status =
     (if \<not> alive n then Inl Cancelled
      else case attempt (post n) of
             Inr raw \<Rightarrow> Inr raw
           | Inl (Retryable st after) \<Rightarrow> round_trip_loop alive post (Suc n) left st
           | Inl Failed \<Rightarrow> Inl TransportFailure
           | Inl (Refused st) \<Rightarrow> Inl (HttpFailure st))"

definition roundTrip :: "(nat \<Rightarrow> bool) \<Rightarrow> (nat \<Rightarrow> http_reply) \<Rightarrow> rpc_error + json option" where
  "roundTrip alive post = round_trip_loop alive post 0 maxAttempts 0"

section \<open>Calls\<close>

definition call ::
  "(nat \<Rightarrow> bool) \<Rightarrow> (nat \<Rightarrow> rpc_body \<Rightarrow> http_reply) \<Rightarrow> uint64 \<Rightarrow> string \<Rightarrow> json list \<Rightarrow> uint64 \<times> (rpc_error + json)" where
  "call alive post nextID method params =
     (let (nextID', req) = request nextID method params
      in (nextID',
          and_then (roundTrip alive (\<lambda>n. post n (One req))) (\<lambda>raw.
          (case Option.bind raw to_response of
             None \<Rightarrow> Inl (BadReply method)
           | Some r \<Rightarrow> response_result r method))))"

datatype batch_error = BatchRefused rpc_error | BatchFailed rpc_error

definition by_id :: "rpcResponse list \<Rightarrow> uint64 \<rightharpoonup> rpcResponse" where
  "by_id replies = foldl (\<lambda>m r. m(RS_ID r \<mapsto> r)) Map.empty replies"

definition collect_replies :: "string \<Rightarrow> (uint64 \<rightharpoonup> rpcResponse) \<Rightarrow> rpcRequest list \<Rightarrow> rpc_error + json list" where
  "collect_replies method byID reqs =
     traverse (\<lambda>req.
       (case byID (RQ_ID req) of
          None \<Rightarrow> Inl (NotAnswered (RQ_ID req))
        | Some reply \<Rightarrow> response_result reply method)) reqs"

definition is_http_failure :: "rpc_error \<Rightarrow> bool" where
  "is_http_failure e \<longleftrightarrow> (case e of HttpFailure _ \<Rightarrow> True | _ \<Rightarrow> False)"

definition batch_body :: "string \<Rightarrow> rpcRequest list \<Rightarrow> json option \<Rightarrow> batch_error + json list" where
  "batch_body method reqs raw =
     (case Option.bind raw (to_list to_response) of
        Some replies \<Rightarrow> with_error BatchFailed (collect_replies method (by_id replies) reqs)
      | None \<Rightarrow>
          (case Option.bind raw to_response of
             Some single \<Rightarrow>
               (case RS_Error single of
                  Some e \<Rightarrow> Inl (BatchRefused (RpcObject method e))
                | None \<Rightarrow> Inl (BatchFailed (BadReply method)))
           | None \<Rightarrow> Inl (BatchFailed (BadReply method))))"

definition callBatch ::
  "(nat \<Rightarrow> bool) \<Rightarrow> (nat \<Rightarrow> rpc_body \<Rightarrow> http_reply) \<Rightarrow> uint64 \<Rightarrow> string \<Rightarrow> json list list \<Rightarrow>
   uint64 \<times> (batch_error + json list)" where
  "callBatch alive post nextID method params =
     (let (nextID', reqs) = requests nextID method params
      in (nextID',
          (case roundTrip alive (\<lambda>n. post n (Many reqs)) of
             Inl e \<Rightarrow> Inl (if is_http_failure e then BatchRefused e else BatchFailed e)
           | Inr raw \<Rightarrow> batch_body method reqs raw)))"

section \<open>Wire shapes\<close>

record wireBlock =
  WB_Number :: string
  WB_Hash :: string
  WB_ParentHash :: string
  WB_Timestamp :: string

definition wireBlock_member :: "string \<Rightarrow> json \<Rightarrow> wireBlock \<Rightarrow> wireBlock option" where
  "wireBlock_member k v w =
     (if k = ''number'' then map_option (\<lambda>s. w\<lparr>WB_Number := s\<rparr>) (to_string v (WB_Number w))
      else if k = ''hash'' then map_option (\<lambda>s. w\<lparr>WB_Hash := s\<rparr>) (to_string v (WB_Hash w))
      else if k = ''parenthash'' then map_option (\<lambda>s. w\<lparr>WB_ParentHash := s\<rparr>) (to_string v (WB_ParentHash w))
      else if k = ''timestamp'' then map_option (\<lambda>s. w\<lparr>WB_Timestamp := s\<rparr>) (to_string v (WB_Timestamp w))
      else Some w)"

definition to_wireBlock :: "json \<Rightarrow> wireBlock option" where
  "to_wireBlock j =
     to_struct wireBlock_member j \<lparr>WB_Number = [], WB_Hash = [], WB_ParentHash = [], WB_Timestamp = []\<rparr>"

datatype wire_error =
    BlockNumber hex_error
  | BlockHash uint64 hex_error
  | BlockParent uint64 hex_error
  | BlockTimestamp uint64 hex_error
  | BlockNotUnix uint64 uint64
  | LogRemoved string string
  | LogNumber hex_error
  | LogIndex uint64 hex_error
  | LogBlockHash uint64 uint64 hex_error
  | LogAddress uint64 uint64 hex_error
  | LogData uint64 uint64 hex_error
  | LogTopic uint64 uint64 nat hex_error

definition decode_block :: "wireBlock \<Rightarrow> wire_error + block" where
  "decode_block w =
     and_then (with_error BlockNumber (parseQuantity (WB_Number w))) (\<lambda>n.
     and_then (with_error (BlockHash n) (ParseHash (WB_Hash w))) (\<lambda>h.
     and_then (with_error (BlockParent n) (ParseHash (WB_ParentHash w))) (\<lambda>p.
     and_then (with_error (BlockTimestamp n) (parseQuantity (WB_Timestamp w))) (\<lambda>seconds.
       if unat seconds > 2 ^ 63 - 1 then Inl (BlockNotUnix n seconds)
       else Inr \<lparr>B_Number = n, B_Hash = h, B_ParentHash = p, B_Timestamp = uint seconds\<rparr>))))"

definition appendUint64 :: "byte list \<Rightarrow> nat \<Rightarrow> byte list" where
  "appendUint64 dst n = dst @ be_bytes 8 n"

definition canonical :: "block \<Rightarrow> byte list" where
  "canonical b =
     appendUint64 (appendUint64 [] (unat (B_Number b)) @ hash_bytes (B_Hash b) @ hash_bytes (B_ParentHash b))
       (nat (B_Timestamp b mod 2 ^ 64))"

record wireLog =
  WL_Address :: string
  WL_Topics :: "string list"
  WL_Data :: string
  WL_BlockNumber :: string
  WL_BlockHash :: string
  WL_LogIndex :: string
  WL_Removed :: bool

definition wireLog_member :: "string \<Rightarrow> json \<Rightarrow> wireLog \<Rightarrow> wireLog option" where
  "wireLog_member k v w =
     (if k = ''address'' then map_option (\<lambda>s. w\<lparr>WL_Address := s\<rparr>) (to_string v (WL_Address w))
      else if k = ''topics'' then map_option (\<lambda>ts. w\<lparr>WL_Topics := ts\<rparr>) (to_list (\<lambda>t. to_string t []) v)
      else if k = ''data'' then map_option (\<lambda>s. w\<lparr>WL_Data := s\<rparr>) (to_string v (WL_Data w))
      else if k = ''blocknumber'' then map_option (\<lambda>s. w\<lparr>WL_BlockNumber := s\<rparr>) (to_string v (WL_BlockNumber w))
      else if k = ''blockhash'' then map_option (\<lambda>s. w\<lparr>WL_BlockHash := s\<rparr>) (to_string v (WL_BlockHash w))
      else if k = ''logindex'' then map_option (\<lambda>s. w\<lparr>WL_LogIndex := s\<rparr>) (to_string v (WL_LogIndex w))
      else if k = ''removed'' then map_option (\<lambda>b. w\<lparr>WL_Removed := b\<rparr>) (to_bool v (WL_Removed w))
      else Some w)"

definition to_wireLog :: "json \<Rightarrow> wireLog option" where
  "to_wireLog j =
     to_struct wireLog_member j
       \<lparr>WL_Address = [], WL_Topics = [], WL_Data = [], WL_BlockNumber = [], WL_BlockHash = [],
        WL_LogIndex = [], WL_Removed = False\<rparr>"

fun decode_topics :: "uint64 \<Rightarrow> uint64 \<Rightarrow> nat \<Rightarrow> string list \<Rightarrow> wire_error + hash list" where
  "decode_topics n ix i [] = Inr []"
| "decode_topics n ix i (t # ts) =
     and_then (with_error (LogTopic n ix i) (ParseHash t)) (\<lambda>h.
     and_then (decode_topics n ix (Suc i) ts) (\<lambda>hs. Inr (h # hs)))"

definition decode_log :: "wireLog \<Rightarrow> wire_error + eventLog" where
  "decode_log w =
     (if WL_Removed w then Inl (LogRemoved (WL_BlockNumber w) (WL_LogIndex w))
      else
        and_then (with_error LogNumber (parseQuantity (WL_BlockNumber w))) (\<lambda>n.
        and_then (with_error (LogIndex n) (parseQuantity (WL_LogIndex w))) (\<lambda>ix.
        and_then (with_error (LogBlockHash n ix) (ParseHash (WL_BlockHash w))) (\<lambda>h.
        and_then (with_error (LogAddress n ix) (ParseAddress (WL_Address w))) (\<lambda>a.
        and_then (with_error (LogData n ix) (parseHexBytes (WL_Data w))) (\<lambda>d.
        and_then (decode_topics n ix 0 (WL_Topics w)) (\<lambda>ts.
          Inr \<lparr>EL_Address = a, EL_Topics = ts, EL_Data = d, EL_BlockNumber = n, EL_BlockHash = h,
               EL_LogIndex = ix\<rparr>)))))))"

definition canonical_log :: "eventLog \<Rightarrow> byte list" where
  "canonical_log l =
     appendUint64 (appendUint64 [] (unat (EL_BlockNumber l))) (unat (EL_LogIndex l)) @
     hash_bytes (EL_BlockHash l) @ addr_bytes (EL_Address l) @
     appendUint64 [] (length (EL_Topics l)) @ concat (map hash_bytes (EL_Topics l)) @
     appendUint64 [] (length (EL_Data l)) @ EL_Data l"

definition canonicalLogs :: "eventLog list \<Rightarrow> byte list" where
  "canonicalLogs logs = concat (map canonical_log logs)"

text \<open>
  \<open>slices.SortFunc\<close> leaves the order of logs with one block and index open; no chain has two such logs, and the
  model keeps them in the order they came.
\<close>

definition log_key :: "eventLog \<Rightarrow> nat" where
  "log_key l = unat (EL_BlockNumber l) * 2 ^ 64 + unat (EL_LogIndex l)"

definition sortLogs :: "eventLog list \<Rightarrow> eventLog list" where
  "sortLogs logs = sort_key log_key logs"

section \<open>Retries\<close>

definition again :: "http_reply \<Rightarrow> bool" where
  "again reply \<longleftrightarrow> (case attempt reply of Inl (Retryable _ _) \<Rightarrow> True | _ \<Rightarrow> False)"

definition settled :: "http_reply \<Rightarrow> rpc_error + json option" where
  "settled reply =
     (case attempt reply of
        Inr raw \<Rightarrow> Inr raw
      | Inl (Refused st) \<Rightarrow> Inl (HttpFailure st)
      | Inl _ \<Rightarrow> Inl TransportFailure)"

lemma round_trip_loop_step:
  "round_trip_loop alive post n (Suc left) st =
     (if \<not> alive n then Inl Cancelled
      else if again (post n) then round_trip_loop alive post (Suc n) left
        (case attempt (post n) of Inl (Retryable s a) \<Rightarrow> s | _ \<Rightarrow> 0)
      else settled (post n))"
  by (simp add: again_def settled_def split: sum.split attempt_error.split)

lemma round_trip_loop_settles:
  assumes "k < left" "\<forall>i \<le> k. alive (n + i)" "\<forall>i < k. again (post (n + i))" "\<not> again (post (n + k))"
  shows "round_trip_loop alive post n left st = settled (post (n + k))"
  using assms
proof (induction k arbitrary: n left st)
  case 0
  then show ?case by (cases left) (auto simp: round_trip_loop_step simp del: round_trip_loop.simps)
next
  case (Suc k)
  obtain l where l: "left = Suc l" using Suc.prems(1) by (cases left) auto
  have 1: "alive n" "again (post n)" using Suc.prems(2,3) by (metis add.right_neutral le0 zero_less_Suc)+
  have 2: "\<forall>i \<le> k. alive (Suc n + i)" "\<forall>i < k. again (post (Suc n + i))" "\<not> again (post (Suc n + k))"
    using Suc.prems(2-4) by (metis Suc_le_mono add_Suc_shift, metis Suc_less_eq add_Suc_shift, simp)
  show ?case using 1 Suc.IH [OF _ 2, of l] Suc.prems(1) by (simp add: l round_trip_loop_step del: round_trip_loop.simps)
qed

lemma round_trip_loop_gives_up:
  assumes "\<forall>i < left. alive (n + i)" "\<forall>i < left. again (post (n + i))"
  shows "\<exists>s. round_trip_loop alive post n left st = Inl (GaveUp s)"
  using assms
proof (induction left arbitrary: n st)
  case (Suc l)
  have 1: "alive n" "again (post n)" using Suc.prems by (metis add.right_neutral zero_less_Suc)+
  have "\<forall>i < l. alive (Suc n + i)" "\<forall>i < l. again (post (Suc n + i))"
    using Suc.prems by (metis Suc_less_eq add_Suc_shift)+
  from Suc.IH [OF this] 1 show ?case by (simp add: round_trip_loop_step del: round_trip_loop.simps)
qed simp

lemma roundTrip_settles:
  assumes "k < maxAttempts" "\<forall>i \<le> k. alive i" "\<forall>i < k. again (post i)" "\<not> again (post k)"
  shows "roundTrip alive post = settled (post k)"
  using round_trip_loop_settles [of k maxAttempts alive 0 post 0] assms by (simp add: roundTrip_def)

lemma roundTrip_gives_up:
  assumes "\<forall>i < maxAttempts. alive i \<and> again (post i)"
  shows "\<exists>s. roundTrip alive post = Inl (GaveUp s)"
  using round_trip_loop_gives_up [of maxAttempts alive 0 post 0] assms by (simp add: roundTrip_def)

lemma roundTrip_first: "alive 0 \<Longrightarrow> post 0 = Replied 200 h (Text raw) \<Longrightarrow> roundTrip alive post = Inr raw"
  using roundTrip_settles [of 0 alive post] by (simp add: again_def settled_def attempt_def maxAttempts_def)

lemma backoff_bounds:
  assumes "1 \<le> n" "n < maxAttempts" "\<And>w. 0 < w \<Longrightarrow> 0 \<le> rnd w \<and> rnd w < w"
    and "prev = Retryable st (retryAfter hdr)"
  shows "0 < backoff n prev rnd \<and> backoff n prev rnd \<le> retryCap"
proof -
  have n: "n = 1 \<or> n = 2 \<or> n = 3 \<or> n = 4" using assms(1,2) by (auto simp: maxAttempts_def)
  then have w: "0 < backoff_window n" "backoff_window n \<le> 2 * second"
    by (auto simp: backoff_window_def retryBase_def retryCap_def second_def i64_def)
  have "in_i64 (rnd (backoff_window n) + retryBase)"
    using assms(3) [OF w(1)] w(2) by (simp add: in_i64_def retryBase_def second_def)
  then have "i64 (rnd (backoff_window n) + retryBase) = rnd (backoff_window n) + retryBase" by (rule i64_id)
  moreover have "retryAfter hdr \<le> retryCap"
    by (simp add: retryAfter_def retryCap_def second_def split: option.split)
  ultimately show ?thesis
    using assms(3) [OF w(1)] w(2) by (simp add: backoff_def assms(4) retryBase_def retryCap_def second_def)
qed

section \<open>Batches\<close>

lemma requests_spec:
  "\<exists>rs. requests n m ps = (n + of_nat (length ps), rs) \<and> map RQ_Params rs = ps \<and>
     (\<forall>i < length ps. RQ_ID (rs ! i) = n + 1 + of_nat i)"
proof (induction ps arbitrary: n)
  case (Cons p ps)
  obtain rs where rs: "requests (n + 1) m ps = (n + 1 + of_nat (length ps), rs)" "map RQ_Params rs = ps"
    "\<forall>i < length ps. RQ_ID (rs ! i) = n + 1 + 1 + of_nat i"
    using Cons.IH [of "n + 1"] by blast
  show ?case
    using rs by (auto simp: request_def nth_Cons algebra_simps split: nat.split)
qed simp

lemma requests_length: "requests n m ps = (n', rs) \<Longrightarrow> length rs = length ps"
  using requests_spec [of n m ps] by (metis length_map prod.inject)

lemma requests_distinct:
  assumes "requests n m ps = (n', rs)" "length ps < 2 ^ 64"
  shows "distinct (map RQ_ID rs)"
proof -
  have ids: "\<forall>i < length ps. RQ_ID (rs ! i) = n + 1 + of_nat i" and len: "length rs = length ps"
    using requests_spec [of n m ps] requests_length [OF assms(1)] assms(1) by auto
  have "unat (of_nat i :: uint64) = i" if "i < length ps" for i
    using that assms(2) by (simp add: unat_of_nat)
  then have "(of_nat i :: uint64) = of_nat j \<longleftrightarrow> i = j" if "i < length ps" "j < length ps" for i j
    using that by metis
  then show ?thesis using ids len by (auto simp: distinct_conv_nth)
qed

lemma by_id_map_of: "by_id replies = map_of (rev (map (\<lambda>r. (RS_ID r, r)) replies))"
proof -
  have "foldl (\<lambda>m r. m(RS_ID r \<mapsto> r)) m0 replies = m0 ++ map_of (rev (map (\<lambda>r. (RS_ID r, r)) replies))" for m0
    by (induction replies arbitrary: m0) (auto simp: map_add_def fun_eq_iff split: option.split)
  then show ?thesis by (simp add: by_id_def)
qed

lemma by_id_Some: "by_id replies n = Some r \<Longrightarrow> r \<in> set replies \<and> RS_ID r = n"
  by (auto simp: by_id_map_of dest!: map_of_SomeD)

lemma by_id_distinct: "distinct (map RS_ID replies) \<Longrightarrow> r \<in> set replies \<Longrightarrow> by_id replies (RS_ID r) = Some r"
  unfolding by_id_map_of by (rule map_of_is_SomeI) (auto simp: comp_def rev_map [symmetric])

lemma response_result_Inr:
  "response_result r m = Inr v \<longleftrightarrow> RS_Error r = None \<and> RS_Result r = Some v \<and> v \<noteq> JNull"
  by (auto simp: response_result_def isNull_def split: option.splits)

lemma batch_body_Inr:
  "batch_body m reqs raw = Inr out \<longleftrightarrow>
     (\<exists>replies. Option.bind raw (to_list to_response) = Some replies \<and> collect_replies m (by_id replies) reqs = Inr out)"
  by (auto simp: batch_body_def split: option.splits)

lemma collect_replies_Inr:
  assumes "collect_replies m (by_id replies) reqs = Inr out" "i < length reqs"
  shows "\<exists>r \<in> set replies. RS_ID r = RQ_ID (reqs ! i) \<and> RS_Error r = None \<and> RS_Result r = Some (out ! i) \<and> out ! i \<noteq> JNull"
  using traverse_nth [OF assms(1) [unfolded collect_replies_def] assms(2)] by_id_Some
  by (fastforce simp: response_result_Inr split: option.splits)

text \<open>What a node that answers every request replies, in whatever order.\<close>

definition reply_to :: "(json list \<Rightarrow> json) \<Rightarrow> rpcRequest \<Rightarrow> rpcResponse" where
  "reply_to node rq = \<lparr>RS_ID = RQ_ID rq, RS_Result = Some (node (RQ_Params rq)), RS_Error = None\<rparr>"

lemma collect_replies_any_order:
  assumes "mset replies = mset (map (reply_to node) reqs)" "distinct (map RQ_ID reqs)" "\<forall>rq \<in> set reqs. node (RQ_Params rq) \<noteq> JNull"
  shows "collect_replies m (by_id replies) reqs = Inr (map (node \<circ> RQ_Params) reqs)"
  unfolding collect_replies_def
proof (rule traverse_total)
  fix rq
  assume rq: "rq \<in> set reqs"
  have "mset (map RS_ID replies) = mset (map RQ_ID reqs)"
    using arg_cong [OF assms(1), of "image_mset RS_ID"] by (simp add: image_mset.compositionality reply_to_def comp_def)
  then have "distinct (map RS_ID replies)" using assms(2) by (metis mset_eq_imp_distinct_iff)
  moreover have "reply_to node rq \<in> set replies"
    using rq mset_eq_setD [OF assms(1)] by simp
  ultimately have "by_id replies (RQ_ID rq) = Some (reply_to node rq)"
    using by_id_distinct [of replies "reply_to node rq"] by (simp add: reply_to_def)
  then show "(case by_id replies (RQ_ID rq) of None \<Rightarrow> Inl (NotAnswered (RQ_ID rq)) | Some reply \<Rightarrow> response_result reply m) =
      Inr ((node \<circ> RQ_Params) rq)"
    using assms(3) rq by (simp add: response_result_Inr reply_to_def)
qed

lemma callBatch_sound:
  assumes "callBatch alive post nextID m ps = (n', Inr out)" "i < length ps"
  shows "\<exists>raw replies. roundTrip alive (\<lambda>n. post n (Many (snd (requests nextID m ps)))) = Inr raw \<and>
    Option.bind raw (to_list to_response) = Some replies \<and> length out = length ps \<and>
    (\<exists>r \<in> set replies. RS_ID r = nextID + 1 + of_nat i \<and> RS_Error r = None \<and> RS_Result r = Some (out ! i) \<and> out ! i \<noteq> JNull)"
proof -
  obtain reqs where reqs: "requests nextID m ps = (nextID + of_nat (length ps), reqs)" "map RQ_Params reqs = ps"
    "\<forall>i < length ps. RQ_ID (reqs ! i) = nextID + 1 + of_nat i"
    using requests_spec [of nextID m ps] by blast
  have len: "length reqs = length ps" by (rule requests_length [OF reqs(1)])
  obtain raw where raw: "roundTrip alive (\<lambda>n. post n (Many reqs)) = Inr raw" "batch_body m reqs raw = Inr out"
    using assms(1) reqs(1) by (auto simp: callBatch_def Let_def split: sum.splits if_splits)
  then obtain replies where r: "Option.bind raw (to_list to_response) = Some replies" "collect_replies m (by_id replies) reqs = Inr out"
    by (auto simp: batch_body_Inr)
  have "length out = length ps" using traverse_length [OF r(2) [unfolded collect_replies_def]] len by simp
  with raw(1) r(1) collect_replies_Inr [OF r(2), of i] assms(2) len reqs show ?thesis by auto
qed

lemma callBatch_any_order:
  assumes "alive 0" "length ps < 2 ^ 64" "post 0 (Many (snd (requests nextID m ps))) = Replied 200 h (Text (Some (JArr js)))"
    and "those (map to_response js) = Some replies"
    and "mset replies = mset (map (reply_to node) (snd (requests nextID m ps)))" "\<forall>p \<in> set ps. node p \<noteq> JNull"
  shows "snd (callBatch alive post nextID m ps) = Inr (map node ps)"
proof -
  obtain reqs where reqs: "requests nextID m ps = (nextID + of_nat (length ps), reqs)" "map RQ_Params reqs = ps"
    using requests_spec [of nextID m ps] by blast
  have "roundTrip alive (\<lambda>n. post n (Many reqs)) = Inr (Some (JArr js))"
    using roundTrip_first [of alive "\<lambda>n. post n (Many reqs)"] assms(1,3) reqs(1) by simp
  moreover have "collect_replies m (by_id replies) reqs = Inr (map (node \<circ> RQ_Params) reqs)"
    by (rule collect_replies_any_order) (use assms reqs requests_distinct [OF reqs(1)] in auto)
  ultimately show ?thesis
    using assms(4) reqs by (auto simp: callBatch_def Let_def batch_body_def to_list_def)
qed

section \<open>The form answers are compared in\<close>

lemma nat_mod_i64_inject: "in_i64 x \<Longrightarrow> in_i64 y \<Longrightarrow> nat (x mod 2 ^ 64) = nat (y mod 2 ^ 64) \<Longrightarrow> x = y"
proof -
  assume i: "in_i64 x" "in_i64 y" and "nat (x mod 2 ^ 64) = nat (y mod 2 ^ 64)"
  then have "x mod 2 ^ 64 = y mod 2 ^ 64" by (simp add: eq_nat_nat_iff)
  then have "i64 x = i64 y" unfolding i64_def by (metis mod_add_left_eq)
  with i show "x = y" by (simp add: i64_id)
qed

lemma be_bytes_8_inject: "m < 2 ^ 64 \<Longrightarrow> n < 2 ^ 64 \<Longrightarrow> be_bytes 8 m = be_bytes 8 n \<Longrightarrow> m = n"
  using be_bytes_inject [of 8 m n] by simp

lemma unat_uint64_less: "unat (n :: uint64) < 2 ^ 64"
  using unsigned_less [where 'a = nat, of n] by simp

lemma canonical_inject:
  assumes "canonical a = canonical b" "in_i64 (B_Timestamp a)" "in_i64 (B_Timestamp b)"
  shows "a = b"
proof -
  have "be_bytes 8 (unat (B_Number a)) = be_bytes 8 (unat (B_Number b))" "B_Hash a = B_Hash b" "B_ParentHash a = B_ParentHash b"
    "be_bytes 8 (nat (B_Timestamp a mod 2 ^ 64)) = be_bytes 8 (nat (B_Timestamp b mod 2 ^ 64))"
    using assms(1) by (simp_all add: canonical_def appendUint64_def)
  then have "B_Number a = B_Number b" "B_Timestamp a = B_Timestamp b"
    using be_bytes_8_inject [OF unat_uint64_less unat_uint64_less]
      be_bytes_8_inject [of "nat (B_Timestamp a mod 2 ^ 64)" "nat (B_Timestamp b mod 2 ^ 64)"]
      nat_mod_i64_inject [OF assms(2,3)] by (auto simp: word_unat_eq_iff nat_less_iff)
  with \<open>B_Hash a = B_Hash b\<close> \<open>B_ParentHash a = B_ParentHash b\<close> show ?thesis by simp
qed

text \<open>A log's topics and data are held in memory, so their lengths are 64-bit numbers.\<close>

definition log_fits :: "eventLog \<Rightarrow> bool" where
  "log_fits l \<longleftrightarrow> length (EL_Topics l) < 2 ^ 64 \<and> length (EL_Data l) < 2 ^ 64"

lemma concat_hash_bytes_inject:
  "length as = length bs \<Longrightarrow> concat (map hash_bytes as) @ x = concat (map hash_bytes bs) @ y \<longleftrightarrow> as = bs \<and> x = y"
proof (induction as bs rule: list_induct2)
  case (Cons a as b bs)
  then show ?case by (auto simp: append_eq_append_conv)
qed simp

lemma canonical_log_prefix:
  assumes "canonical_log a @ x = canonical_log b @ y" "log_fits a" "log_fits b"
  shows "a = b \<and> x = y"
proof -
  have *: "be_bytes 8 (unat (EL_BlockNumber a)) = be_bytes 8 (unat (EL_BlockNumber b))"
    "be_bytes 8 (unat (EL_LogIndex a)) = be_bytes 8 (unat (EL_LogIndex b))"
    "EL_BlockHash a = EL_BlockHash b" "EL_Address a = EL_Address b"
    "be_bytes 8 (length (EL_Topics a)) = be_bytes 8 (length (EL_Topics b))"
    "concat (map hash_bytes (EL_Topics a)) @ be_bytes 8 (length (EL_Data a)) @ EL_Data a @ x =
     concat (map hash_bytes (EL_Topics b)) @ be_bytes 8 (length (EL_Data b)) @ EL_Data b @ y"
    using assms(1) by (simp_all add: canonical_log_def appendUint64_def)
  have n: "EL_BlockNumber a = EL_BlockNumber b" "EL_LogIndex a = EL_LogIndex b"
    using be_bytes_8_inject [OF unat_uint64_less unat_uint64_less] *(1,2) by (auto simp: word_unat_eq_iff)
  have "length (EL_Topics a) = length (EL_Topics b)"
    using be_bytes_8_inject [OF _ _ *(5)] assms(2,3) by (simp add: log_fits_def)
  from *(6) concat_hash_bytes_inject [OF this]
  have t: "EL_Topics a = EL_Topics b" "be_bytes 8 (length (EL_Data a)) @ EL_Data a @ x = be_bytes 8 (length (EL_Data b)) @ EL_Data b @ y"
    by blast+
  from t(2) have d: "be_bytes 8 (length (EL_Data a)) = be_bytes 8 (length (EL_Data b))" "EL_Data a @ x = EL_Data b @ y"
    by simp_all
  have "length (EL_Data a) = length (EL_Data b)"
    using be_bytes_8_inject [OF _ _ d(1)] assms(2,3) by (simp add: log_fits_def)
  with d(2) have "EL_Data a = EL_Data b" "x = y" by simp_all
  with n t(1) *(3,4) show ?thesis by simp
qed

lemma canonical_log_not_Nil [simp]: "canonical_log a \<noteq> []"
proof
  assume "canonical_log a = []"
  from arg_cong [OF this, of length] show False by (simp add: canonical_log_def appendUint64_def)
qed

lemma canonicalLogs_inject:
  "canonicalLogs as = canonicalLogs bs \<Longrightarrow> \<forall>l \<in> set as \<union> set bs. log_fits l \<Longrightarrow> as = bs"
proof (induction as arbitrary: bs)
  case Nil
  then show ?case by (cases bs) (simp_all add: canonicalLogs_def)
next
  case (Cons a as)
  then obtain b cs where bs: "bs = b # cs" by (cases bs) (auto simp: canonicalLogs_def)
  have "a = b \<and> canonicalLogs as = canonicalLogs cs"
    using Cons.prems canonical_log_prefix [of a _ b] by (simp add: bs canonicalLogs_def)
  with Cons bs show ?case by simp
qed

text \<open>The order \<open>sortLogs\<close> puts a page in is that of block number, then log index.\<close>

lemma log_key_less:
  "log_key a < log_key b \<longleftrightarrow>
     EL_BlockNumber a < EL_BlockNumber b \<or> EL_BlockNumber a = EL_BlockNumber b \<and> EL_LogIndex a < EL_LogIndex b"
proof -
  have pos: "a' * 2 ^ 64 + i < b' * 2 ^ 64 + j \<longleftrightarrow> a' < b' \<or> a' = b' \<and> i < j"
    if "i < 2 ^ 64" "j < 2 ^ 64" for a' b' i j :: nat
  proof -
    have "a' * 2 ^ 64 + i < b' * 2 ^ 64 + j" if "a' < b'"
    proof -
      have "(a' + 1) * 2 ^ 64 \<le> b' * 2 ^ 64" using that by (intro mult_le_mono1) simp
      then show ?thesis using \<open>i < 2 ^ 64\<close> by simp
    qed
    moreover have "b' * 2 ^ 64 + j < a' * 2 ^ 64 + i" if "b' < a'"
    proof -
      have "(b' + 1) * 2 ^ 64 \<le> a' * 2 ^ 64" using that by (intro mult_le_mono1) simp
      then show ?thesis using \<open>j < 2 ^ 64\<close> by simp
    qed
    ultimately show ?thesis by (metis add_less_cancel_left less_imp_not_less linorder_neqE_nat)
  qed
  show ?thesis
    unfolding log_key_def word_less_nat_alt pos [OF unat_uint64_less unat_uint64_less] by (simp add: word_unat_eq_iff)
qed

lemma log_key_inject:
  "log_key a = log_key b \<longleftrightarrow> EL_BlockNumber a = EL_BlockNumber b \<and> EL_LogIndex a = EL_LogIndex b"
proof
  assume "log_key a = log_key b"
  then have "\<not> log_key a < log_key b" "\<not> log_key b < log_key a" by simp_all
  then show "EL_BlockNumber a = EL_BlockNumber b \<and> EL_LogIndex a = EL_LogIndex b"
    unfolding log_key_less by (metis linorder_less_linear)
qed (simp add: log_key_def)

section \<open>Properties\<close>

text \<open>
  A call is settled by the first attempt the endpoint does not ask to repeat (a rate limit or a server error does),
  and given up after \<open>maxAttempts\<close> of those: it always returns, and no attempt is made after one
  that was answered or refused.
\<close>

theorem roundTrip_retries:
  assumes "\<forall>i < maxAttempts. alive i"
  shows "(\<forall>k < maxAttempts. (\<forall>i < k. again (post i)) \<longrightarrow> \<not> again (post k) \<longrightarrow> roundTrip alive post = settled (post k)) \<and>
    ((\<forall>i < maxAttempts. again (post i)) \<longrightarrow> (\<exists>status. roundTrip alive post = Inl (GaveUp status)))"
  using roundTrip_settles [of _ alive post] roundTrip_gives_up [of alive post] assms by simp

theorem roundTrip_retries_witness:
  "roundTrip (\<lambda>n. True) (\<lambda>n. if n < 2 then Replied 429 ''1'' (Text None) else Replied 200 [] (Text (Some JNull))) = Inr (Some JNull)"
proof -
  let ?post = "\<lambda>n :: nat. if n < 2 then Replied 429 ''1'' (Text None) else Replied 200 [] (Text (Some JNull))"
  have "\<forall>i < 2. again (?post i)" "\<not> again (?post 2)" "settled (?post 2) = Inr (Some JNull)"
    by (simp_all add: again_def settled_def attempt_def)
  with roundTrip_retries [of "\<lambda>n. True" ?post, THEN conjunct1, THEN spec [of _ 2]] show ?thesis
    by (simp add: maxAttempts_def)
qed

text \<open>
  The pause before a retry is positive and at most eight seconds, whatever the endpoint's \<open>Retry-After\<close> header
  says: a header that overflows the duration falls back to the jittered pause.
\<close>

theorem backoff_bounded:
  assumes "1 \<le> n" "n < maxAttempts" "\<forall>w > 0. 0 \<le> rnd w \<and> rnd w < w"
    and "attempt (Replied status hdr b) = Inl prev" "again (Replied status hdr b)"
  shows "0 < backoff n prev rnd \<and> backoff n prev rnd \<le> retryCap"
proof -
  have "prev = Retryable status (retryAfter hdr)"
    using assms(4,5) by (auto simp: again_def attempt_def split: if_splits body.splits)
  with backoff_bounds [OF assms(1,2)] assms(3) show ?thesis by blast
qed

theorem backoff_bounded_witness:
  "0 < backoff 1 (Retryable 429 (retryAfter ''9223372036854775807'')) (\<lambda>w. w - 1) \<and>
   backoff 1 (Retryable 429 (retryAfter ''9223372036854775807'')) (\<lambda>w. w - 1) \<le> retryCap"
  by (rule backoff_bounded [of 1 "\<lambda>w. w - 1" 429 "''9223372036854775807''" Unreadable])
    (simp_all add: maxAttempts_def attempt_def again_def)

text \<open>
  Replies of a batch are matched to requests by id. When a node answers every request, in any order, \<open>callBatch\<close>
  returns the answers in the order of the requests.
\<close>

theorem callBatch_by_id:
  assumes "alive 0" "length ps < 2 ^ 64" "post 0 (Many (snd (requests nextID m ps))) = Replied 200 h (Text (Some (JArr js)))"
    and "those (map to_response js) = Some replies"
    and "mset replies = mset (map (reply_to node) (snd (requests nextID m ps)))" "\<forall>p \<in> set ps. node p \<noteq> JNull"
  shows "snd (callBatch alive post nextID m ps) = Inr (map node ps)"
  using callBatch_any_order [of alive ps post nextID m h js replies node] assms by blast

definition demo_reply :: "int \<Rightarrow> json \<Rightarrow> json" where
  "demo_reply i v = JObj [(''jsonrpc'', JStr ''2.0''), (''id'', JInt i), (''result'', v)]"

theorem callBatch_by_id_witness:
  "snd (callBatch (\<lambda>n. True) (\<lambda>n reqs. Replied 200 [] (Text (Some (JArr [demo_reply 9 (JStr ''b''), demo_reply 8 (JStr ''a'')]))))
     7 ''eth_getBlockByNumber'' [[JStr ''a''], [JStr ''b'']]) = Inr [JStr ''a'', JStr ''b'']"
proof -
  let ?js = "[demo_reply 9 (JStr ''b''), demo_reply 8 (JStr ''a'')]"
  have reqs: "snd (requests 7 ''eth_getBlockByNumber'' [[JStr ''a''], [JStr ''b'']]) =
      [\<lparr>RQ_ID = 8, RQ_Method = ''eth_getBlockByNumber'', RQ_Params = [JStr ''a'']\<rparr>,
       \<lparr>RQ_ID = 9, RQ_Method = ''eth_getBlockByNumber'', RQ_Params = [JStr ''b'']\<rparr>]"
    by (simp add: request_def)
  let ?rs = "[\<lparr>RS_ID = 9, RS_Result = Some (JStr ''b''), RS_Error = None\<rparr>, \<lparr>RS_ID = 8, RS_Result = Some (JStr ''a''), RS_Error = None\<rparr>]"
  have "those (map to_response ?js) = Some ?rs" by code_simp
  moreover have "mset ?rs = mset (map (reply_to hd) (snd (requests 7 ''eth_getBlockByNumber'' [[JStr ''a''], [JStr ''b'']])))"
    unfolding reqs by (simp add: reply_to_def add_mset_commute)
  ultimately show ?thesis
    using callBatch_by_id [of "\<lambda>n. True" "[[JStr ''a''], [JStr ''b'']]" "\<lambda>n reqs. Replied 200 [] (Text (Some (JArr ?js)))" 7
        "''eth_getBlockByNumber''" "[]" ?js ?rs hd] by simp
qed

text \<open>
  C36. The form in which two endpoints' answers are compared loses nothing: headers with one canonical form are equal,
  and so are pages of logs.
\<close>

theorem canonical_faithful:
  assumes "in_i64 (B_Timestamp a)" "in_i64 (B_Timestamp b)" "\<forall>l \<in> set as \<union> set bs. log_fits l"
  shows "(canonical a = canonical b \<longleftrightarrow> a = b) \<and> (canonicalLogs as = canonicalLogs bs \<longleftrightarrow> as = bs)"
  using canonical_inject [of a b] canonicalLogs_inject [of as bs] assms by auto

theorem canonical_faithful_witness:
  "canonicalLogs [] \<noteq> canonicalLogs [\<lparr>EL_Address = 1, EL_Topics = [2, 3], EL_Data = [4], EL_BlockNumber = 5, EL_BlockHash = 6, EL_LogIndex = 7\<rparr>]"
  using canonical_faithful [of "\<lparr>B_Number = 1, B_Hash = 2, B_ParentHash = 3, B_Timestamp = 4\<rparr>"
      "\<lparr>B_Number = 1, B_Hash = 2, B_ParentHash = 3, B_Timestamp = 4\<rparr>" "[]"
      "[\<lparr>EL_Address = 1, EL_Topics = [2, 3], EL_Data = [4], EL_BlockNumber = 5, EL_BlockHash = 6, EL_LogIndex = 7\<rparr>]"]
  by (simp add: in_i64_def log_fits_def)

end
