(* ===== verification/Crc.thy ===== *)
theory Crc
  imports Prelude
begin

text \<open>
  CRC32C as Go's \<open>hash/crc32\<close> computes it with \<open>MakeTable(Castagnoli)\<close>: a table of 256 entries, each
  the reflected polynomial applied bit by bit, and one lookup for each byte. The Cache
  (\<open>cache/cache.go\<close>) stores it beside each record and in its header.

  The fact that the Cache rests on: damage confined to four consecutive bytes always changes
  the checksum (\<open>Checksum_burst\<close>).
\<close>

unbundle bit_operations_syntax

type_synonym uint32 = "32 word"

definition castagnoli :: uint32 where
  "castagnoli = 0x82f63b78"

definition crc_bit :: "uint32 \<Rightarrow> uint32" where
  "crc_bit c = (if bit c 0 then drop_bit 1 c XOR castagnoli else drop_bit 1 c)"

definition crc_table :: "uint32 \<Rightarrow> uint32" where
  "crc_table i = (crc_bit ^^ 8) i"

definition crc_step :: "uint32 \<Rightarrow> byte \<Rightarrow> uint32" where
  "crc_step c b = crc_table (take_bit 8 c XOR ucast b) XOR drop_bit 8 c"

definition Checksum :: "byte list \<Rightarrow> uint32" where
  "Checksum data = NOT (foldl crc_step (NOT 0) data)"

section \<open>The step is linear and loses nothing\<close>

lemma crc_bit_xor: "crc_bit (x XOR y) = crc_bit x XOR crc_bit y"
  by (rule bit_word_eqI) (auto simp: crc_bit_def bit_simps)

lemma crc_bits_xor: "(crc_bit ^^ n) (x XOR y) = (crc_bit ^^ n) x XOR (crc_bit ^^ n) y"
  by (induction n) (simp_all add: crc_bit_xor)

lemma crc_bits_high: "take_bit n x = 0 \<Longrightarrow> (crc_bit ^^ n) x = drop_bit n x"
proof (induction n arbitrary: x)
  case (Suc n)
  have low: "\<not> bit x i" if "i < Suc n" for i
    using Suc.prems that by (metis bit_0_eq bit_take_bit_iff bot_apply bot_bool_def)
  then have "crc_bit x = drop_bit 1 x" by (simp add: crc_bit_def)
  moreover have "take_bit n (drop_bit 1 x) = 0"
    by (rule bit_word_eqI) (use low in \<open>auto simp: bit_simps\<close>)
  ultimately have "(crc_bit ^^ n) (crc_bit x) = drop_bit n (drop_bit 1 x)"
    using Suc.IH by simp
  then show ?case by (simp add: funpow_swap1 add.commute)
qed simp

lemma take_drop_xor: "(x :: uint32) = take_bit 8 x XOR (push_bit 8 (drop_bit 8 x))"
  by (rule bit_word_eqI) (auto simp: bit_simps)

lemma crc_step_bits: "crc_step c b = (crc_bit ^^ 8) (c XOR ucast b)"
proof -
  let ?hi = "push_bit 8 (drop_bit 8 c)"
  have "take_bit 8 ?hi = 0" by (rule bit_word_eqI) (auto simp: bit_simps)
  then have hi: "(crc_bit ^^ 8) ?hi = drop_bit 8 ?hi" by (rule crc_bits_high)
  have "drop_bit 8 ?hi = drop_bit 8 c"
    by (rule bit_word_eqI) (auto simp: bit_simps dest: bit_imp_le_length)
  moreover have "c XOR ucast b = (take_bit 8 c XOR ucast b) XOR ?hi"
    by (rule bit_word_eqI) (auto simp: bit_simps)
  ultimately show ?thesis
    by (simp add: crc_step_def crc_table_def crc_bits_xor hi)
qed

lemma xor_cancel: "(x :: 'a::len word) XOR z = y XOR z \<longleftrightarrow> x = y"
proof
  assume "x XOR z = y XOR z"
  then have "(x XOR z) XOR z = (y XOR z) XOR z" by (rule arg_cong [where f = "\<lambda>u. u XOR z"])
  then show "x = y" by (simp only: xor.assoc xor_self_eq xor.right_neutral)
qed simp

lemma crc_bit_inject: "crc_bit x = crc_bit y \<longleftrightarrow> x = y"
proof
  assume eq: "crc_bit x = crc_bit y"
  have top: "bit (crc_bit z) 31 \<longleftrightarrow> bit z 0" for z
    by (auto simp: crc_bit_def castagnoli_def bit_simps dest: bit_imp_le_length)
  then have low: "bit x 0 \<longleftrightarrow> bit y 0" using eq by metis
  then have "drop_bit 1 x = drop_bit 1 y"
    using eq by (auto simp: crc_bit_def xor_cancel split: if_splits)
  then have "bit x (Suc i) \<longleftrightarrow> bit y (Suc i)" for i
    by (metis bit_drop_bit_eq comp_apply plus_1_eq_Suc)
  with low show "x = y"
    by (metis bit_eqI not0_implies_Suc)
qed simp

lemma crc_bits_inject: "(crc_bit ^^ n) x = (crc_bit ^^ n) y \<longleftrightarrow> x = y"
  by (induction n) (simp_all add: crc_bit_inject)

lemma crc_step_inject: "crc_step c b = crc_step c' b \<longleftrightarrow> c = c'"
  by (simp add: crc_step_bits crc_bits_inject xor_cancel)

lemma foldl_crc_inject: "foldl crc_step c bs = foldl crc_step c' bs \<longleftrightarrow> c = c'"
  by (induction bs arbitrary: c c') (simp_all add: crc_step_inject)

section \<open>Bursts\<close>

text \<open>Up to four bytes as the word that the register sees, the first byte lowest.\<close>

primrec le_word :: "byte list \<Rightarrow> uint32" where
  "le_word [] = 0"
| "le_word (b # bs) = ucast b XOR push_bit 8 (le_word bs)"

lemma le_word_high: "8 * length bs \<le> n \<Longrightarrow> \<not> bit (le_word bs) n"
proof (induction bs arbitrary: n)
  case (Cons b bs)
  then show ?case by (auto simp: bit_simps dest: bit_imp_le_length)
qed simp

lemma drop_push_le_word: "length bs \<le> 3 \<Longrightarrow> drop_bit 8 (push_bit 8 (le_word bs)) = le_word bs"
proof (rule bit_word_eqI)
  fix n assume len: "length bs \<le> 3" and n: "n < LENGTH(32)"
  show "bit (drop_bit 8 (push_bit 8 (le_word bs))) n \<longleftrightarrow> bit (le_word bs) n"
    using le_word_high [of bs n] len n by (cases "8 * length bs \<le> n") (auto simp: bit_simps)
qed

lemma foldl_crc_word:
  "length bs \<le> 4 \<Longrightarrow> foldl crc_step c bs = (crc_bit ^^ (8 * length bs)) (c XOR le_word bs)"
proof (induction bs arbitrary: c)
  case (Cons b bs)
  have "take_bit 8 (push_bit 8 (le_word bs)) = 0" by (rule bit_word_eqI) (auto simp: bit_simps)
  then have "(crc_bit ^^ 8) (push_bit 8 (le_word bs)) = drop_bit 8 (push_bit 8 (le_word bs))"
    by (rule crc_bits_high)
  with Cons.prems drop_push_le_word [of bs]
  have le: "le_word bs = (crc_bit ^^ 8) (push_bit 8 (le_word bs))" by simp
  have "foldl crc_step c (b # bs) = (crc_bit ^^ (8 * length bs)) (crc_step c b XOR le_word bs)"
    using Cons by simp
  also have "crc_step c b XOR le_word bs = (crc_bit ^^ 8) (c XOR le_word (b # bs))"
    by (subst le) (simp add: crc_step_bits crc_bits_xor xor.assoc)
  finally show ?case using funpow_add [of "8 * length bs" 8 crc_bit] by (simp add: add.commute)
qed simp

lemma le_word_inject: "length as \<le> 4 \<Longrightarrow> length as = length bs \<Longrightarrow> le_word as = le_word bs \<Longrightarrow> as = bs"
proof (induction as arbitrary: bs)
  case (Cons a as)
  then obtain b bs' where bs: "bs = b # bs'" by (cases bs) auto
  let ?x = "le_word (a # as)" and ?y = "le_word (b # bs')"
  have low: "bit (le_word (c # cs)) n \<longleftrightarrow> bit c n" if "n < 8" for c cs n
    using that by (auto simp: bit_simps)
  have "a = b"
    by (rule bit_word_eqI) (use Cons.prems(3) low [of _ a as] low [of _ b bs'] in \<open>simp add: bs\<close>)
  have tail: "drop_bit 8 (le_word (c # cs)) = le_word cs" if "length cs \<le> 3" for c cs
  proof -
    have "drop_bit 8 (ucast c :: uint32) = 0"
      by (rule bit_word_eqI) (auto simp: bit_simps dest: bit_imp_le_length)
    then show ?thesis using drop_push_le_word [OF that] by (simp add: drop_bit_xor)
  qed
  have "length as \<le> 3" "length bs' \<le> 3" using Cons.prems(1,2) by (simp_all add: bs)
  then have "le_word as = drop_bit 8 ?x" "le_word bs' = drop_bit 8 ?y" by (simp_all only: tail)
  with Cons.prems(3) have "le_word as = le_word bs'" by (simp only: bs)
  with \<open>a = b\<close> show ?case using Cons.IH [of bs'] Cons.prems(1,2) by (simp add: bs)
qed simp

lemma Checksum_burst:
  assumes "length x = length y" "length x \<le> 4" "x \<noteq> y"
  shows "Checksum (p @ x @ s) \<noteq> Checksum (p @ y @ s)"
proof
  assume "Checksum (p @ x @ s) = Checksum (p @ y @ s)"
  then have "foldl crc_step (foldl crc_step (NOT 0) p) x = foldl crc_step (foldl crc_step (NOT 0) p) y"
    by (simp add: Checksum_def foldl_crc_inject)
  then have "foldl crc_step (NOT 0) p XOR le_word x = foldl crc_step (NOT 0) p XOR le_word y"
    using assms(1,2) by (simp add: foldl_crc_word crc_bits_inject)
  then have "le_word x = le_word y" by (simp only: xor.commute [of "foldl _ _ _"] xor_cancel)
  with le_word_inject [OF assms(2,1)] assms(3) show False by simp
qed

end
