(* ===== verification/Cache.thy ===== *)
theory Cache
  imports Crc Wire
begin

text \<open>
  Package \<open>cache\<close>, the transfer log (\<open>cache/cache.go\<close>, and \<open>Truncate\<close>, \<open>recordAt\<close> and the searches of
  \<open>cache/sync.go\<close>): the record layout, the header, opening with verification and repair, appending,
  truncating and reading back.

  The file is its bytes. A \<open>bufio.Writer\<close> of \<open>bufferSize\<close> bytes sits in front of it, and what it holds
  back is the field \<open>buffer\<close>. The calls of the operating system (stat, read, write, truncate,
  fsync, flock) are taken to succeed; where the code meets a file that is shorter than it should be, or a
  record that does not verify, the error is modelled. \<open>holds o c rs\<close> says that the Cache \<open>c\<close>
  represents the list of records \<open>rs\<close>; every operation is shown to act on that list as it
  promises.
\<close>

section \<open>Records\<close>

record cacheRecord =
  Rec_BlockNumber :: uint64
  Rec_BlockHash :: hash
  Rec_Timestamp :: int64
  Rec_From :: address
  Rec_To :: address
  Rec_Value :: bigint

definition zero_record :: cacheRecord where
  "zero_record =
     \<lparr>Rec_BlockNumber = 0, Rec_BlockHash = 0, Rec_Timestamp = 0, Rec_From = 0, Rec_To = 0, Rec_Value = None\<rparr>"

definition FromTransfer :: "chainTransfer \<Rightarrow> cacheRecord" where
  "FromTransfer t =
     \<lparr>Rec_BlockNumber = S_BlockNumber t, Rec_BlockHash = S_BlockHash t, Rec_Timestamp = S_Timestamp t,
      Rec_From = CT_From t, Rec_To = CT_To t, Rec_Value = CT_Value t\<rparr>"

definition Equal :: "cacheRecord \<Rightarrow> cacheRecord \<Rightarrow> bool" where
  "Equal r o' \<longleftrightarrow>
     Rec_BlockNumber r = Rec_BlockNumber o' \<and> Rec_BlockHash r = Rec_BlockHash o' \<and>
     Rec_Timestamp r = Rec_Timestamp o' \<and> Rec_From r = Rec_From o' \<and> Rec_To r = Rec_To o' \<and>
     Rec_Value r \<noteq> None \<and> Rec_Value o' \<noteq> None \<and> Rec_Value r = Rec_Value o'"

datatype record_error = ValueNil | ValueNegative | ValueTooWide

definition payloadSize :: nat where "payloadSize = 120"
definition stride :: nat where "stride = payloadSize + 4"
definition headerSize :: nat where "headerSize = 8 + 4 + 8 + 20 + 8 + 4"
definition checkpointRecords :: nat where "checkpointRecords = 10000"
definition bufferSize :: nat where "bufferSize = 2 ^ 20"
definition formatVersion :: nat where "formatVersion = 1"
definition magic :: "byte list" where "magic = ascii ''NUTZCACH''"

definition payload :: "cacheRecord \<Rightarrow> byte list" where
  "payload r =
     be_bytes 8 (unat (Rec_BlockNumber r)) @ hash_bytes (Rec_BlockHash r) @
     be_bytes 8 (nat (Rec_Timestamp r mod 2 ^ 64)) @ addr_bytes (Rec_From r) @ addr_bytes (Rec_To r) @
     be_bytes 32 (nat (the (Rec_Value r)))"

definition crc_bytes :: "byte list \<Rightarrow> byte list" where
  "crc_bytes bs = be_bytes 4 (unat (Checksum bs))"

definition encode_record :: "cacheRecord \<Rightarrow> record_error + byte list" where
  "encode_record r =
     (case Rec_Value r of
        None \<Rightarrow> Inl ValueNil
      | Some v \<Rightarrow>
          if v < 0 then Inl ValueNegative
          else if bit_len (nat v) > 256 then Inl ValueTooWide
          else Inr (payload r @ crc_bytes (payload r)))"

definition field_at :: "byte list \<Rightarrow> nat \<Rightarrow> nat \<Rightarrow> byte list" where
  "field_at buf a b = take (b - a) (drop a buf)"

definition decode_record :: "byte list \<Rightarrow> cacheRecord option" where
  "decode_record buf =
     (if unat (Checksum (take payloadSize buf)) \<noteq> be_nat (field_at buf payloadSize stride) then None
      else Some \<lparr>Rec_BlockNumber = of_nat (be_nat (field_at buf 0 8)),
                 Rec_BlockHash = bytes_hash (field_at buf 8 40),
                 Rec_Timestamp = i64 (int (be_nat (field_at buf 40 48))),
                 Rec_From = bytes_addr (field_at buf 48 68),
                 Rec_To = bytes_addr (field_at buf 68 88),
                 Rec_Value = Some (int (be_nat (field_at buf 88 120)))\<rparr>)"

section \<open>The open Cache\<close>

record options =
  O_ChainID :: uint64
  O_Token :: address
  O_Start :: uint64
  O_Fresh :: bool

datatype repair_reason =
    PartialHeader nat
  | PartialRecord nat
  | FailsChecksum
  | BeforeStart uint64 uint64
  | BehindPrevious uint64 uint64

record repair_note =
  Re_Reason :: repair_reason
  Re_At :: nat
  Re_Kept :: nat
  Re_LastGoodBlock :: uint64
  Re_Dropped :: nat

record cache =
  disk :: "byte list"
  buffer :: "byte list"
  c_count :: nat
  c_last :: cacheRecord
  c_start :: uint64
  pending :: nat
  c_repaired :: "repair_note option"

datatype cache_error =
    Locked
  | NotACache
  | HeaderDamaged
  | MismatchVersion nat
  | MismatchChain uint64 uint64
  | MismatchToken address address
  | MismatchStart uint64 uint64
  | ReadFailed nat
  | ChecksumFailed nat
  | BehindBlock nat uint64 uint64
  | BadRecord nat uint64 record_error

definition offsetOf :: "nat \<Rightarrow> nat" where
  "offsetOf i = headerSize + i * stride"

text \<open>\<open>bufio.Writer.Write\<close> and \<open>Flush\<close>: a long write fills the buffer, flushes it, and goes straight to the file.\<close>

definition bufio_write :: "cache \<Rightarrow> byte list \<Rightarrow> cache" where
  "bufio_write c p =
     (let room = bufferSize - length (buffer c)
      in if length p \<le> room then c\<lparr>buffer := buffer c @ p\<rparr>
         else if buffer c = [] then c\<lparr>disk := disk c @ p\<rparr>
         else
           let rest = drop room p; flushed = disk c @ buffer c @ take room p
           in if length rest \<le> bufferSize then c\<lparr>disk := flushed, buffer := rest\<rparr>
              else c\<lparr>disk := flushed @ rest, buffer := []\<rparr>)"

definition flush :: "cache \<Rightarrow> cache" where
  "flush c = c\<lparr>disk := disk c @ buffer c, buffer := []\<rparr>"

definition checkpoint :: "cache \<Rightarrow> cache" where
  "checkpoint c = (flush c)\<lparr>pending := 0\<rparr>"

definition recordAt :: "cache \<Rightarrow> nat \<Rightarrow> cache_error + cacheRecord" where
  "recordAt c i =
     (let buf = take stride (drop (offsetOf i) (disk c))
      in if length buf < stride then Inl (ReadFailed i)
         else case decode_record buf of None \<Rightarrow> Inl (ChecksumFailed i) | Some r \<Rightarrow> Inr r)"

section \<open>Opening\<close>

definition header_fields :: "options \<Rightarrow> byte list" where
  "header_fields opts =
     magic @ be_bytes 4 formatVersion @ be_bytes 8 (unat (O_ChainID opts)) @ addr_bytes (O_Token opts) @
     be_bytes 8 (unat (O_Start opts))"

definition header :: "options \<Rightarrow> byte list" where
  "header opts = header_fields opts @ crc_bytes (header_fields opts)"

definition writeHeader :: "cache \<Rightarrow> options \<Rightarrow> cache" where
  "writeHeader c opts = c\<lparr>disk := disk c @ header opts\<rparr>"

definition checkHeader :: "cache \<Rightarrow> options \<Rightarrow> cache_error option" where
  "checkHeader c opts =
     (let buf = take headerSize (disk c)
      in if field_at buf 0 8 \<noteq> magic then Some NotACache
         else if unat (Checksum (take 48 buf)) \<noteq> be_nat (field_at buf 48 52) then Some HeaderDamaged
         else if be_nat (field_at buf 8 12) \<noteq> formatVersion then Some (MismatchVersion (be_nat (field_at buf 8 12)))
         else if of_nat (be_nat (field_at buf 12 20)) \<noteq> O_ChainID opts
           then Some (MismatchChain (of_nat (be_nat (field_at buf 12 20))) (O_ChainID opts))
         else if bytes_addr (field_at buf 20 40) \<noteq> O_Token opts
           then Some (MismatchToken (bytes_addr (field_at buf 20 40)) (O_Token opts))
         else if of_nat (be_nat (field_at buf 40 48)) \<noteq> O_Start opts
           then Some (MismatchStart (of_nat (be_nat (field_at buf 40 48))) (O_Start opts))
         else None)"

definition repair :: "cache \<Rightarrow> repair_reason \<Rightarrow> nat \<Rightarrow> nat \<Rightarrow> uint64 \<Rightarrow> cache_error + cache" where
  "repair c reason sz keep lastGoodBlock =
     (let complete = (sz - headerSize) div stride;
          cut = c\<lparr>disk := take (offsetOf keep) (disk c),
                  c_repaired := Some \<lparr>Re_Reason = reason, Re_At = c_count c, Re_Kept = keep,
                                      Re_LastGoodBlock = lastGoodBlock, Re_Dropped = complete - keep\<rparr>,
                  c_count := keep\<rparr>
      in if keep = 0 then Inr (cut\<lparr>c_last := zero_record\<rparr>)
         else case recordAt cut (keep - 1) of Inl e \<Rightarrow> Inl e | Inr r \<Rightarrow> Inr (cut\<lparr>c_last := r\<rparr>))"

text \<open>\<open>rest\<close> is what the reader has not delivered yet.\<close>

function scan :: "cache \<Rightarrow> nat \<Rightarrow> byte list \<Rightarrow> nat \<Rightarrow> uint64 \<Rightarrow> cache_error + cache" where
  "scan c sz rest blockStart beforeBlock =
     (if rest = [] then Inr c
      else if length rest < stride then repair c (PartialRecord (length rest)) sz blockStart beforeBlock
      else case decode_record (take stride rest) of
             None \<Rightarrow> repair c FailsChecksum sz blockStart beforeBlock
           | Some r \<Rightarrow>
               if Rec_BlockNumber r < c_start c
               then repair c (BeforeStart (Rec_BlockNumber r) (c_start c)) sz blockStart beforeBlock
               else if c_count c > 0 \<and> Rec_BlockNumber r < Rec_BlockNumber (c_last c)
               then repair c (BehindPrevious (Rec_BlockNumber r) (Rec_BlockNumber (c_last c))) sz blockStart beforeBlock
               else
                 let (blockStart', beforeBlock') =
                       (if c_count c > 0 \<and> Rec_BlockNumber r \<noteq> Rec_BlockNumber (c_last c)
                        then (c_count c, Rec_BlockNumber (c_last c)) else (blockStart, beforeBlock))
                 in scan (c\<lparr>c_count := c_count c + 1, c_last := r\<rparr>) sz (drop stride rest) blockStart' beforeBlock')"
  by pat_completeness auto
termination
  by (relation "measure (\<lambda>(c, sz, rest, bs, bb). length rest)") (auto simp: stride_def payloadSize_def)

declare scan.simps [simp del]

definition load :: "cache \<Rightarrow> options \<Rightarrow> cache_error + cache" where
  "load c opts =
     (let sz = length (disk c)
      in if sz = 0 then Inr (writeHeader c opts)
         else if sz < headerSize
         then Inr ((writeHeader (c\<lparr>disk := []\<rparr>) opts)
                     \<lparr>c_repaired := Some \<lparr>Re_Reason = PartialHeader sz, Re_At = 0, Re_Kept = 0,
                                         Re_LastGoodBlock = 0, Re_Dropped = 0\<rparr>\<rparr>)
         else case checkHeader c opts of
                Some e \<Rightarrow> Inl e
              | None \<Rightarrow> scan c sz (drop headerSize (disk c)) 0 0)"

text \<open>
  The file's bytes are empty when there is none yet; \<open>held\<close> says that another process has the lock. An Open that
  fails leaves the file as \<open>os.OpenFile\<close> made it, which is the first component of the error: the flag
  \<open>O_TRUNC\<close> of a fresh run takes effect before the lock is asked for.
\<close>

definition Open :: "bool \<Rightarrow> byte list \<Rightarrow> options \<Rightarrow> (byte list \<times> cache_error) + cache" where
  "Open held file opts =
     (let content = (if O_Fresh opts then [] else file)
      in if held then Inl (content, Locked)
         else map_sum (Pair content) id
                (load \<lparr>disk = content, buffer = [], c_count = 0, c_last = zero_record, c_start = O_Start opts,
                       pending = 0, c_repaired = None\<rparr> opts))"

definition Close :: "cache \<Rightarrow> byte list" where
  "Close c = disk (checkpoint c)"

section \<open>Appending, truncating, reading\<close>

definition c_Len :: "cache \<Rightarrow> nat" where
  "c_Len c = c_count c"

definition Last :: "cache \<Rightarrow> cacheRecord \<times> bool" where
  "Last c = (c_last c, c_count c > 0)"

fun encode_batch :: "nat \<Rightarrow> uint64 \<Rightarrow> cacheRecord list \<Rightarrow> cache_error + byte list" where
  "encode_batch i fl [] = Inr []"
| "encode_batch i fl (r # rs) =
     (if Rec_BlockNumber r < fl then Inl (BehindBlock i (Rec_BlockNumber r) fl)
      else case encode_record r of
             Inl e \<Rightarrow> Inl (BadRecord i (Rec_BlockNumber r) e)
           | Inr bs \<Rightarrow>
               (case encode_batch (Suc i) (Rec_BlockNumber r) rs of
                  Inl e \<Rightarrow> Inl e
                | Inr rest \<Rightarrow> Inr (bs @ rest)))"

definition Append :: "cache \<Rightarrow> cacheRecord list \<Rightarrow> cache_error + cache" where
  "Append c records =
     (case encode_batch 0 (if c_count c > 0 then Rec_BlockNumber (c_last c) else c_start c) records of
        Inl e \<Rightarrow> Inl e
      | Inr bytes \<Rightarrow>
          if records = [] then Inr c
          else
            let c' = (bufio_write c bytes)\<lparr>c_count := c_count c + length records, c_last := last records,
                                           pending := pending c + length records\<rparr>
            in Inr (if pending c' \<ge> checkpointRecords then checkpoint c' else c'))"

text \<open>
  \<open>firstWhere\<close> hands \<open>sort.Search\<close> a predicate that can fail: once it has failed it answers true, and
  the failure is returned instead of the index.
\<close>

function first_where_loop :: "(nat \<Rightarrow> 'e + bool) \<Rightarrow> nat \<Rightarrow> nat \<Rightarrow> 'e option \<Rightarrow> 'e + nat" where
  "first_where_loop p i j failed =
     (if i < j
      then (let h = (i + j) div 2
            in case failed of
                 Some e \<Rightarrow> first_where_loop p i h failed
               | None \<Rightarrow>
                   (case p h of
                      Inl e \<Rightarrow> first_where_loop p i h (Some e)
                    | Inr ok \<Rightarrow> if ok then first_where_loop p i h None else first_where_loop p (h + 1) j None))
      else case failed of Some e \<Rightarrow> Inl e | None \<Rightarrow> Inr i)"
  by pat_completeness auto
termination
  by (relation "measure (\<lambda>(p, i, j, f). j - i)") auto

declare first_where_loop.simps [simp del]

definition firstWhere :: "nat \<Rightarrow> (nat \<Rightarrow> 'e + bool) \<Rightarrow> 'e + nat" where
  "firstWhere n p = first_where_loop p 0 n None"

definition firstAtOrAbove :: "cache \<Rightarrow> uint64 \<Rightarrow> cache_error + nat" where
  "firstAtOrAbove c blk =
     firstWhere (c_count c) (\<lambda>i. map_sum id (\<lambda>r. Rec_BlockNumber r \<ge> blk) (recordAt c i))"

definition Truncate :: "cache \<Rightarrow> uint64 \<Rightarrow> cache \<times> (cache_error + nat)" where
  "Truncate c0 blk =
     (let c = flush c0
      in case firstAtOrAbove c blk of
           Inl e \<Rightarrow> (c, Inl e)
         | Inr keep \<Rightarrow>
             let dropped = c_count c - keep
             in if dropped = 0 then (c, Inr 0)
                else
                  let cut = c\<lparr>disk := take (offsetOf keep) (disk c), c_count := keep, pending := 0\<rparr>
                  in if keep > 0
                     then case recordAt cut (keep - 1) of
                            Inl e \<Rightarrow> (cut, Inl e)
                          | Inr r \<Rightarrow> (cut\<lparr>c_last := r\<rparr>, Inr dropped)
                     else (cut\<lparr>c_last := zero_record\<rparr>, Inr dropped))"

datatype 'e each_error = EachRead nat nat | EachChecksum nat uint64 | EachStopped 'e

text \<open>\<open>n\<close> records are left to read from \<open>bytes\<close>; \<open>fn\<close> acts on a state of its caller.\<close>

fun each_loop ::
  "nat \<Rightarrow> nat \<Rightarrow> nat \<Rightarrow> byte list \<Rightarrow> uint64 \<Rightarrow> (cacheRecord \<Rightarrow> 's \<Rightarrow> 'e + 's) \<Rightarrow> 's \<Rightarrow> 'e each_error + 's" where
  "each_loop i tot 0 bytes prev fn s = Inr s"
| "each_loop i tot (Suc n) bytes prev fn s =
     (if length bytes < stride then Inl (EachRead i tot)
      else case decode_record (take stride bytes) of
             None \<Rightarrow> Inl (EachChecksum i prev)
           | Some r \<Rightarrow>
               (case fn r s of
                  Inl e \<Rightarrow> Inl (EachStopped e)
                | Inr s' \<Rightarrow> each_loop (Suc i) tot n (drop stride bytes) (Rec_BlockNumber r) fn s'))"

definition Each :: "cache \<Rightarrow> (cacheRecord \<Rightarrow> 's \<Rightarrow> 'e + 's) \<Rightarrow> 's \<Rightarrow> cache \<times> ('e each_error + 's)" where
  "Each c0 fn s =
     (let c = flush c0
      in (c, each_loop 0 (c_count c) (c_count c)
               (take (c_count c * stride) (drop headerSize (disk c))) 0 fn s))"

section \<open>The record codec\<close>

definition record_ok :: "cacheRecord \<Rightarrow> bool" where
  "record_ok r \<longleftrightarrow> in_i64 (Rec_Timestamp r) \<and> amount_ok (Rec_Value r)"

definition record_bytes :: "cacheRecord \<Rightarrow> byte list" where
  "record_bytes r = payload r @ crc_bytes (payload r)"

lemmas layout = stride_def payloadSize_def headerSize_def

lemma length_payload [simp]: "length (payload r) = 120"
  by (simp add: payload_def)

lemma length_crc_bytes [simp]: "length (crc_bytes bs) = 4"
  by (simp add: crc_bytes_def)

lemma length_record_bytes [simp]: "length (record_bytes r) = stride"
  by (simp add: record_bytes_def layout)

lemma be_nat_crc_bytes [simp]: "be_nat (crc_bytes bs) = unat (Checksum bs)"
  using unsigned_less [where 'a = nat, of "Checksum bs"] by (simp add: crc_bytes_def be_nat_be_bytes_id)

lemma encode_record_Inr: "encode_record r = Inr bs \<longleftrightarrow> amount_ok (Rec_Value r) \<and> bs = record_bytes r"
proof (cases "Rec_Value r")
  case (Some v)
  have "bit_len (nat v) \<le> 256 \<longleftrightarrow> v < 2 ^ 256" if "0 \<le> v"
    using that unfolding bit_len_le by (simp add: nat_less_iff)
  then show ?thesis by (auto simp: Some encode_record_def amount_ok_def record_bytes_def)
qed (simp add: encode_record_def amount_ok_def)

lemma i64_mod: "i64 (x mod 2 ^ 64) = i64 x"
  by (simp add: i64_def mod_add_left_eq)

lemma i64_back: "0 \<le> x \<Longrightarrow> x < 2 ^ 64 \<Longrightarrow> i64 x mod 2 ^ 64 = x"
  by (simp add: i64_def mod_diff_left_eq)

lemma length_field_at: "a \<le> b \<Longrightarrow> b \<le> length x \<Longrightarrow> length (field_at x a b) = b - a"
  by (simp add: field_at_def)

lemma field_at_split: "a \<le> b \<Longrightarrow> b \<le> c \<Longrightarrow> field_at x a c = field_at x a b @ field_at x b c"
  using take_add [of "b - a" "c - b" "drop a x"] by (simp add: field_at_def)

lemma unat_of_nat_64: "n < 2 ^ 64 \<Longrightarrow> unat (of_nat n :: uint64) = n"
  by (simp add: unat_of_nat)

lemma decode_record_bytes: "record_ok r \<Longrightarrow> decode_record (record_bytes r) = Some r"
proof -
  assume ok: "record_ok r"
  let ?b = "record_bytes r"
  have crc: "take payloadSize ?b = payload r" "field_at ?b payloadSize stride = crc_bytes (payload r)"
    by (simp_all add: record_bytes_def layout field_at_def)
  have fields: "field_at ?b 0 8 = be_bytes 8 (unat (Rec_BlockNumber r))" "field_at ?b 8 40 = hash_bytes (Rec_BlockHash r)"
    "field_at ?b 40 48 = be_bytes 8 (nat (Rec_Timestamp r mod 2 ^ 64))" "field_at ?b 48 68 = addr_bytes (Rec_From r)"
    "field_at ?b 68 88 = addr_bytes (Rec_To r)" "field_at ?b 88 120 = be_bytes 32 (nat (the (Rec_Value r)))"
    by (simp_all add: record_bytes_def payload_def field_at_def)
  have bn: "unat (Rec_BlockNumber r) < 256 ^ 8" using unsigned_less [where 'a = nat, of "Rec_BlockNumber r"] by simp
  have "nat (Rec_Timestamp r mod 2 ^ 64) < 256 ^ 8" by (simp add: nat_less_iff)
  then have ts: "i64 (int (be_nat (be_bytes 8 (nat (Rec_Timestamp r mod 2 ^ 64))))) = Rec_Timestamp r"
    using ok i64_mod [of "Rec_Timestamp r"] by (simp add: be_nat_be_bytes_id record_ok_def i64_id)
  obtain v where v: "Rec_Value r = Some v" "0 \<le> v" "v < 2 ^ 256"
    using ok by (auto simp: record_ok_def amount_ok_def split: option.splits)
  then have "nat v < 256 ^ 32" by (simp add: nat_less_iff)
  with v have "Some (int (be_nat (be_bytes 32 (nat (the (Rec_Value r)))))) = Rec_Value r"
    by (simp add: be_nat_be_bytes_id)
  then show ?thesis
    by (simp only: decode_record_def crc fields be_nat_crc_bytes ts be_nat_be_bytes_id [OF bn]) simp
qed

lemma decode_record_exact:
  assumes len: "length b = stride" and dec: "decode_record b = Some r"
  shows "record_ok r \<and> b = record_bytes r"
proof -
  let ?f = "field_at b"
  have l: "length b = 124" using len by (simp add: layout)
  have crc: "unat (Checksum (take 120 b)) = be_nat (?f 120 124)"
    and r: "r = \<lparr>Rec_BlockNumber = of_nat (be_nat (?f 0 8)), Rec_BlockHash = bytes_hash (?f 8 40),
      Rec_Timestamp = i64 (int (be_nat (?f 40 48))), Rec_From = bytes_addr (?f 48 68),
      Rec_To = bytes_addr (?f 68 88), Rec_Value = Some (int (be_nat (?f 88 120)))\<rparr>"
    using dec by (auto simp: decode_record_def layout split: if_splits)
  have small: "be_nat (?f 0 8) < 2 ^ 64" "be_nat (?f 40 48) < 2 ^ 64" "be_nat (?f 88 120) < 2 ^ 256"
    using be_nat_less [of "?f 0 8"] be_nat_less [of "?f 40 48"] be_nat_less [of "?f 88 120"] l
    by (simp_all add: length_field_at)
  have ts: "nat (Rec_Timestamp r mod 2 ^ 64) = be_nat (?f 40 48)"
    using small(2) i64_back [of "int (be_nat (?f 40 48))"] by (simp add: r)
  have "payload r = ?f 0 8 @ ?f 8 40 @ ?f 40 48 @ ?f 48 68 @ ?f 68 88 @ ?f 88 120"
    unfolding payload_def ts
    using l by (simp add: r unat_of_nat_64 [OF small(1)] be_bytes_be_nat hash_bytes_hash addr_bytes_addr length_field_at)
  also have "\<dots> = ?f 0 120"
    using field_at_split [of 0 8 120 b] field_at_split [of 8 40 120 b] field_at_split [of 40 48 120 b]
      field_at_split [of 48 68 120 b] field_at_split [of 68 88 120 b] by simp
  finally have p: "payload r = take 120 b" by (simp add: field_at_def)
  have "crc_bytes (take 120 b) = ?f 120 124"
    using l by (simp add: crc_bytes_def crc be_bytes_be_nat length_field_at)
  then have "record_bytes r = b" using l by (simp add: record_bytes_def p field_at_def)
  moreover have "int (be_nat (?f 88 120)) < 2 ^ 256" using small(3) by (simp add: of_nat_less_iff [symmetric] del: of_nat_less_iff)
  ultimately show ?thesis by (simp add: record_ok_def r amount_ok_def)
qed

section \<open>Fixed-stride files\<close>

text \<open>
  What a log of fixed-stride records rests on: every record has the same length, and exactly the
  encodings of admissible records decode. Everything the Cache does by offset arithmetic follows.
\<close>

definition encs :: "('r \<Rightarrow> byte list) \<Rightarrow> 'r list \<Rightarrow> byte list" where
  "encs f rs = concat (map f rs)"

lemma encs_simps [simp]: "encs f [] = []" "encs f (r # rs) = f r @ encs f rs" "encs f (rs @ qs) = encs f rs @ encs f qs"
  by (simp_all add: encs_def)

locale stride_codec =
  fixes width :: nat and enc :: "'r \<Rightarrow> byte list" and dcd :: "byte list \<Rightarrow> 'r option" and ok :: "'r \<Rightarrow> bool"
  assumes width_pos: "0 < width"
    and width_enc: "length (enc r) = width"
    and decodes: "ok r \<Longrightarrow> dcd (enc r) = Some r"
    and exact: "length b = width \<Longrightarrow> dcd b = Some r \<Longrightarrow> ok r \<and> b = enc r"
begin

lemma length_encs [simp]: "length (encs enc rs) = length rs * width"
  by (induction rs) (simp_all add: width_enc)

lemma take_encs: "n \<le> length rs \<Longrightarrow> take (n * width) (encs enc rs) = encs enc (take n rs)"
proof (induction rs arbitrary: n)
  case (Cons r rs)
  then show ?case by (cases n) (simp_all add: width_enc)
qed simp

lemma drop_encs: "n \<le> length rs \<Longrightarrow> drop (n * width) (encs enc rs) = encs enc (drop n rs)"
proof (induction rs arbitrary: n)
  case (Cons r rs)
  then show ?case by (cases n) (simp_all add: width_enc)
qed simp

lemma chunk_encs: "i < length rs \<Longrightarrow> take width (drop (i * width) (encs enc rs)) = enc (rs ! i)"
  by (simp add: drop_encs width_enc flip: Cons_nth_drop_Suc)

end

interpretation rec: stride_codec stride record_bytes decode_record record_ok
  by unfold_locales (simp_all add: decode_record_bytes decode_record_exact layout length_record_bytes [unfolded layout])

section \<open>What a Cache holds\<close>

definition log_ok :: "uint64 \<Rightarrow> cacheRecord list \<Rightarrow> bool" where
  "log_ok start rs \<longleftrightarrow>
     (\<forall>r \<in> set rs. record_ok r \<and> start \<le> Rec_BlockNumber r) \<and> sorted (map Rec_BlockNumber rs)"

definition holds :: "options \<Rightarrow> cache \<Rightarrow> cacheRecord list \<Rightarrow> bool" where
  "holds opts c rs \<longleftrightarrow>
     disk c @ buffer c = header opts @ encs record_bytes rs \<and> headerSize \<le> length (disk c) \<and>
     c_count c = length rs \<and> c_last c = last (zero_record # rs) \<and> c_start c = O_Start opts \<and>
     log_ok (O_Start opts) rs"

lemma length_header [simp]: "length (header opts) = headerSize"
  by (simp add: header_def header_fields_def magic_def ascii_def headerSize_def)

lemma holds_flush: "holds opts c rs \<Longrightarrow> holds opts (flush c) rs" "buffer (flush c) = []"
  by (auto simp: holds_def flush_def)

lemma holds_checkpoint: "holds opts c rs \<Longrightarrow> holds opts (checkpoint c) rs"
  by (auto simp: holds_def checkpoint_def flush_def)

lemma bufio_write_bytes:
  "disk (bufio_write c p) @ buffer (bufio_write c p) = disk c @ buffer c @ p"
  "length (disk c) \<le> length (disk (bufio_write c p))"
  "c_start (bufio_write c p) = c_start c"
  by (auto simp: bufio_write_def Let_def)

lemma recordAt_holds:
  assumes "disk c = header opts @ encs record_bytes rs @ rest" "i < length rs" "\<forall>r \<in> set rs. record_ok r"
  shows "recordAt c i = Inr (rs ! i)"
proof -
  have "drop (offsetOf i) (disk c) = drop (i * stride) (encs record_bytes rs @ rest)"
    by (simp add: assms(1) offsetOf_def)
  also have "take stride \<dots> = record_bytes (rs ! i)"
  proof -
    have "i * stride + stride \<le> length rs * stride"
      using assms(2) by (metis Suc_leI add.commute mult_Suc mult_le_mono1)
    then show ?thesis using rec.chunk_encs [OF assms(2)] by (simp add: take_append drop_append)
  qed
  finally show ?thesis
    using assms(2,3) by (simp add: recordAt_def Let_def decode_record_bytes)
qed

lemma log_ok_append:
  "log_ok start (rs @ qs) \<longleftrightarrow> log_ok start rs \<and> log_ok start qs \<and>
     (\<forall>r \<in> set rs. \<forall>q \<in> set qs. Rec_BlockNumber r \<le> Rec_BlockNumber q)"
  by (auto simp: log_ok_def sorted_append)

lemma log_ok_last: "log_ok start rs \<Longrightarrow> r \<in> set rs \<Longrightarrow> Rec_BlockNumber r \<le> Rec_BlockNumber (last rs)"
proof (induction rs rule: rev_induct)
  case (snoc x xs)
  then show ?case by (auto simp: log_ok_def sorted_append)
qed simp

lemma log_ok_floor:
  "log_ok start rs \<Longrightarrow> log_ok start (rs @ qs) \<longleftrightarrow>
   (\<forall>q \<in> set qs. record_ok q \<and> (if rs = [] then start else Rec_BlockNumber (last rs)) \<le> Rec_BlockNumber q) \<and>
   sorted (map Rec_BlockNumber qs)"
proof -
  assume ok: "log_ok start rs"
  have start: "start \<le> Rec_BlockNumber (last rs)" if "rs \<noteq> []" using ok that by (simp add: log_ok_def)
  show ?thesis
    using log_ok_last [OF ok] ok unfolding log_ok_append
    by (cases "rs = []") (auto simp: log_ok_def intro: order_trans [OF start] order_trans)
qed

section \<open>Appending\<close>

text \<open>A batch that can follow block \<open>fl\<close>.\<close>

definition batch_ok :: "uint64 \<Rightarrow> cacheRecord list \<Rightarrow> bool" where
  "batch_ok fl rs \<longleftrightarrow>
     (\<forall>r \<in> set rs. amount_ok (Rec_Value r) \<and> fl \<le> Rec_BlockNumber r) \<and> sorted (map Rec_BlockNumber rs)"

lemma encode_batch_Inr:
  "encode_batch i fl rs = Inr bs \<longleftrightarrow> batch_ok fl rs \<and> bs = encs record_bytes rs"
proof (induction rs arbitrary: i fl bs)
  case (Cons r rs)
  have b: "batch_ok fl (r # rs) \<longleftrightarrow>
      fl \<le> Rec_BlockNumber r \<and> amount_ok (Rec_Value r) \<and> batch_ok (Rec_BlockNumber r) rs"
    by (auto simp: batch_ok_def)
  show ?case
  proof (cases "Rec_BlockNumber r < fl")
    case True
    then show ?thesis by (auto simp: b)
  next
    case False
    show ?thesis
    proof (cases "encode_record r")
      case (Inl e)
      then have "\<not> amount_ok (Rec_Value r)" using encode_record_Inr [of r] by auto
      with Inl False show ?thesis by (simp add: b)
    next
      case (Inr x)
      then have "amount_ok (Rec_Value r)" "x = record_bytes r" by (simp_all add: encode_record_Inr)
      note x = this and IH = Cons.IH [of "Suc i" "Rec_BlockNumber r"]
      show ?thesis
      proof (cases "encode_batch (Suc i) (Rec_BlockNumber r) rs")
        case (Inl e)
        then have "\<not> batch_ok (Rec_BlockNumber r) rs" using IH [of "encs record_bytes rs"] by simp
        with Inl Inr False show ?thesis using \<open>encode_record r = Inr x\<close> by (simp add: b)
      next
        case (Inr y)
        then have "batch_ok (Rec_BlockNumber r) rs \<and> y = encs record_bytes rs" using IH [of y] by simp
        with Inr x False show ?thesis using \<open>encode_record r = Inr x\<close> by (auto simp: b)
      qed
    qed
  qed
qed (auto simp: batch_ok_def)

lemma Append_holds:
  assumes "holds opts c rs" "\<forall>q \<in> set qs. in_i64 (Rec_Timestamp q)"
  shows "(\<exists>c'. Append c qs = Inr c' \<and> holds opts c' (rs @ qs)) \<or>
    ((\<exists>e. Append c qs = Inl e) \<and> \<not> log_ok (O_Start opts) (rs @ qs))"
proof -
  define fl where "fl = (if c_count c > 0 then Rec_BlockNumber (c_last c) else c_start c)"
  have fl: "fl = (if rs = [] then O_Start opts else Rec_BlockNumber (last rs))"
    using assms(1) by (auto simp: holds_def fl_def)
  have ok: "log_ok (O_Start opts) (rs @ qs) \<longleftrightarrow> batch_ok fl qs"
    using assms log_ok_floor [of "O_Start opts" rs qs] unfolding fl by (auto simp: holds_def batch_ok_def record_ok_def)
  show ?thesis
  proof (cases "encode_batch 0 fl qs")
    case (Inl e)
    then show ?thesis using encode_batch_Inr [of 0 fl qs "encs record_bytes qs"] ok by (simp add: Append_def flip: fl_def)
  next
    case (Inr bytes)
    then have b: "batch_ok fl qs" "bytes = encs record_bytes qs" by (simp_all add: encode_batch_Inr)
    show ?thesis
    proof (cases "qs = []")
      case True
      with Inr assms(1) show ?thesis by (simp add: Append_def flip: fl_def)
    next
      case False
      define c' where "c' = (bufio_write c bytes)\<lparr>c_count := c_count c + length qs, c_last := last qs,
        pending := pending c + length qs\<rparr>"
      have "holds opts c' (rs @ qs)"
        using assms(1) ok b False bufio_write_bytes [of c bytes] by (simp add: holds_def c'_def)
      then show ?thesis
        using Inr False holds_checkpoint [of opts c'] by (simp add: Append_def Let_def flip: c'_def fl_def)
    qed
  qed
qed

section \<open>Searching and truncating\<close>

lemma first_where_total:
  "\<forall>k < n. p k = Inr (f k) \<Longrightarrow> j \<le> n \<Longrightarrow> first_where_loop p i j None = Inr (go_search_loop f i j)"
proof (induction "j - i" arbitrary: i j rule: less_induct)
  case less
  show ?case
  proof (cases "i < j")
    case False
    then show ?thesis by (simp add: first_where_loop.simps [of p i j] go_search_loop.simps [of f i j])
  next
    case True
    let ?h = "(i + j) div 2"
    have h: "p ?h = Inr (f ?h)" using less.prems True by simp
    have "first_where_loop p i ?h None = Inr (go_search_loop f i ?h)"
      "first_where_loop p (?h + 1) j None = Inr (go_search_loop f (?h + 1) j)"
      by (rule less.hyps; use less.prems True in simp)+
    with h True show ?thesis
      by (simp add: first_where_loop.simps [of p i j] go_search_loop.simps [of f i j] Let_def)
  qed
qed

lemma firstWhere_total: "\<forall>k < n. p k = Inr (f k) \<Longrightarrow> firstWhere n p = Inr (go_search n f)"
  by (simp add: firstWhere_def go_search_def first_where_total)

lemma search_sorted:
  fixes xs :: "'a::linorder list"
  assumes "sorted xs"
  shows "go_search (length xs) (\<lambda>i. x \<le> xs ! i) = length (takeWhile (\<lambda>y. y < x) xs)"
proof -
  have fun_eq: "(\<lambda>i. x \<le> xs ! i) = (\<lambda>h. \<not> xs ! h < x)" by (simp add: fun_eq_iff not_less)
  note m = monotone_search_sorted [OF assms, of x]
  let ?g = "go_search (length xs) (\<lambda>h. \<not> xs ! h < x)"
  have "takeWhile (\<lambda>y. y < x) xs = take ?g xs"
    by (rule takeWhile_eq_take_P_nth)
      (use monotone_search.search_before [OF m] monotone_search.search_at [OF m] in auto)
  then show ?thesis using monotone_search.search_le [OF m] by (simp add: fun_eq)
qed

lemma firstAtOrAbove_holds:
  assumes "holds opts c rs" "buffer c = []"
  shows "firstAtOrAbove c blk = Inr (length (takeWhile (\<lambda>r. Rec_BlockNumber r < blk) rs))"
proof -
  have c: "disk c = header opts @ encs record_bytes rs @ []" "c_count c = length rs" "\<forall>r \<in> set rs. record_ok r"
    and sorted: "sorted (map Rec_BlockNumber rs)"
    using assms by (auto simp: holds_def log_ok_def)
  have "firstAtOrAbove c blk = Inr (go_search (length rs) (\<lambda>i. blk \<le> map Rec_BlockNumber rs ! i))"
    unfolding firstAtOrAbove_def c(2)
    by (rule firstWhere_total) (use recordAt_holds [OF c(1) _ c(3)] in simp)
  with search_sorted [OF sorted, of blk] show ?thesis by (simp add: takeWhile_map comp_def)
qed

lemma takeWhile_prefix: "takeWhile P rs = take (length (takeWhile P rs)) rs"
  by (metis takeWhile_eq_take)

lemma holds_cut:
  assumes ok: "log_ok (O_Start opts) rs" and disk: "disk c = header opts @ encs record_bytes rs @ rest"
    and c: "buffer c = []" "c_start c = O_Start opts" "c_count c = keep" and keep: "keep \<le> length rs"
  shows "keep = 0 \<Longrightarrow> holds opts (c\<lparr>disk := take (offsetOf keep) (disk c), c_last := zero_record\<rparr>) (take keep rs)"
    "keep > 0 \<Longrightarrow> recordAt (c\<lparr>disk := take (offsetOf keep) (disk c)\<rparr>) (keep - 1) = Inr (last (take keep rs))"
    "keep > 0 \<Longrightarrow> holds opts (c\<lparr>disk := take (offsetOf keep) (disk c), c_last := last (take keep rs)\<rparr>) (take keep rs)"
proof -
  have taken: "take (offsetOf keep) (disk c) = header opts @ encs record_bytes (take keep rs)"
  proof -
    have "keep * stride \<le> length rs * stride" using keep by simp
    then show ?thesis using rec.take_encs [OF keep] by (simp add: disk offsetOf_def)
  qed
  have log: "log_ok (O_Start opts) (take keep rs)"
    using ok append_take_drop_id [of keep rs] log_ok_append by metis
  show "holds opts (c\<lparr>disk := take (offsetOf keep) (disk c), c_last := zero_record\<rparr>) (take keep rs)" if "keep = 0"
    unfolding taken using c log keep that by (auto simp: holds_def)
  show "recordAt (c\<lparr>disk := take (offsetOf keep) (disk c)\<rparr>) (keep - 1) = Inr (last (take keep rs))" if "keep > 0"
  proof -
    have "recordAt (c\<lparr>disk := take (offsetOf keep) (disk c)\<rparr>) (keep - 1) = Inr (take keep rs ! (keep - 1))"
      by (rule recordAt_holds [where opts = opts and rest = "[]"])
        (use taken keep that log in \<open>auto simp: log_ok_def\<close>)
    moreover have "take keep rs \<noteq> []" using keep that by auto
    ultimately show ?thesis using keep that by (simp add: last_conv_nth)
  qed
  show "holds opts (c\<lparr>disk := take (offsetOf keep) (disk c), c_last := last (take keep rs)\<rparr>) (take keep rs)" if "keep > 0"
  proof -
    have "take keep rs \<noteq> []" using keep that by auto
    then show ?thesis using c log keep by (simp add: holds_def taken)
  qed
qed

lemma Truncate_holds:
  fixes blk :: uint64
  assumes "holds opts c rs"
  defines "ks \<equiv> takeWhile (\<lambda>r. Rec_BlockNumber r < blk) rs"
  shows "\<exists>c'. Truncate c blk = (c', Inr (length rs - length ks)) \<and> holds opts c' ks"
proof -
  let ?c = "flush c"
  note fl = holds_flush(1) [OF assms(1)] holds_flush(2) [of c]
  have disk: "disk ?c = header opts @ encs record_bytes rs @ []" "c_count ?c = length rs" "c_start ?c = O_Start opts"
    and ok: "log_ok (O_Start opts) rs"
    using fl by (auto simp: holds_def)
  have ks: "ks = take (length ks) rs" "length ks \<le> length rs"
    unfolding ks_def using takeWhile_prefix length_takeWhile_le by auto
  note at = firstAtOrAbove_holds [OF fl(1,2), of blk, folded ks_def]
  show ?thesis
  proof (cases "length ks = length rs")
    case True
    with ks have "ks = rs" by simp
    with at fl disk(2) show ?thesis by (simp add: Truncate_def Let_def)
  next
    case False
    let ?cut = "?c\<lparr>c_count := length ks, pending := 0\<rparr>"
    have cut: "disk ?cut = header opts @ encs record_bytes rs @ []" "buffer ?cut = []" "c_start ?cut = O_Start opts"
      "c_count ?cut = length ks"
      using disk fl by simp_all
    have eq: "?c\<lparr>disk := take (offsetOf (length ks)) (disk ?c), c_count := length ks, pending := 0\<rparr> =
        ?cut\<lparr>disk := take (offsetOf (length ks)) (disk ?cut)\<rparr>" by simp
    note res = holds_cut [OF ok cut ks(2), folded ks(1)]
    show ?thesis
      using False ks(2) at res by (auto simp: Truncate_def Let_def disk(2) eq)
  qed
qed

section \<open>Reading\<close>

fun each_spec :: "(cacheRecord \<Rightarrow> 's \<Rightarrow> 'e + 's) \<Rightarrow> cacheRecord list \<Rightarrow> 's \<Rightarrow> 'e each_error + 's" where
  "each_spec fn [] s = Inr s"
| "each_spec fn (r # rs) s = (case fn r s of Inl e \<Rightarrow> Inl (EachStopped e) | Inr s' \<Rightarrow> each_spec fn rs s')"

lemma each_loop_encs:
  "\<forall>r \<in> set rs. record_ok r \<Longrightarrow>
   each_loop i tot (length rs) (encs record_bytes rs) prev fn s = each_spec fn rs s"
proof (induction rs arbitrary: i prev s)
  case (Cons r rs)
  then show ?case by (simp add: decode_record_bytes split: sum.split)
qed simp

lemma Each_holds: "holds opts c rs \<Longrightarrow> Each c fn s = (flush c, each_spec fn rs s)"
proof -
  assume "holds opts c rs"
  then have "disk (flush c) = header opts @ encs record_bytes rs" "c_count (flush c) = length rs"
    "\<forall>r \<in> set rs. record_ok r"
    using holds_flush(1) [of opts c rs] holds_flush(2) [of c] by (auto simp: holds_def log_ok_def)
  then show ?thesis by (simp add: Each_def Let_def each_loop_encs)
qed

section \<open>Opening\<close>

text \<open>The records that verify, in order, from the start of the bytes on.\<close>

function good_prefix :: "uint64 \<Rightarrow> byte list \<Rightarrow> cacheRecord list" where
  "good_prefix fl bytes =
     (if length bytes < stride then []
      else case decode_record (take stride bytes) of
             None \<Rightarrow> []
           | Some r \<Rightarrow> if Rec_BlockNumber r < fl then [] else r # good_prefix (Rec_BlockNumber r) (drop stride bytes))"
  by pat_completeness auto
termination
  by (relation "measure (\<lambda>(fl, bytes). length bytes)") (auto simp: layout)

declare good_prefix.simps [simp del]

text \<open>The records of all blocks but the last.\<close>

definition whole_blocks :: "cacheRecord list \<Rightarrow> cacheRecord list" where
  "whole_blocks rs = takeWhile (\<lambda>r. Rec_BlockNumber r < Rec_BlockNumber (last rs)) rs"

definition kept :: "uint64 \<Rightarrow> byte list \<Rightarrow> cacheRecord list" where
  "kept start bytes =
     (let g = good_prefix start bytes in if length bytes = length g * stride then g else whole_blocks g)"

lemma whole_blocks_snoc:
  assumes "log_ok start (rs @ [r])"
  shows "whole_blocks (rs @ [r]) =
    (if rs \<noteq> [] \<and> Rec_BlockNumber r \<noteq> Rec_BlockNumber (last rs) then rs else whole_blocks rs)"
proof (cases "rs \<noteq> [] \<and> Rec_BlockNumber r \<noteq> Rec_BlockNumber (last rs)")
  case True
  have rs: "log_ok start rs" and le: "\<forall>x \<in> set rs. Rec_BlockNumber x \<le> Rec_BlockNumber r"
    using assms by (simp_all add: log_ok_append)
  have "Rec_BlockNumber (last rs) < Rec_BlockNumber r" using le True by (metis last_in_set order_le_less)
  then have "\<forall>x \<in> set rs. Rec_BlockNumber x < Rec_BlockNumber r"
    using log_ok_last [OF rs] by (meson order_le_less_trans)
  then show ?thesis using True by (simp add: whole_blocks_def)
next
  case False
  then consider "rs = []" | "rs \<noteq> []" "Rec_BlockNumber r = Rec_BlockNumber (last rs)" by blast
  then show ?thesis
  proof cases
    case 2
    then have "takeWhile (\<lambda>x. Rec_BlockNumber x < Rec_BlockNumber r) (rs @ [r]) = takeWhile (\<lambda>x. Rec_BlockNumber x < Rec_BlockNumber r) rs"
      by (intro takeWhile_append1 [of "last rs"]) simp_all
    with 2 show ?thesis by (simp add: whole_blocks_def)
  qed (simp add: whole_blocks_def)
qed

lemma repair_holds:
  assumes "log_ok (O_Start opts) rs" "disk c = header opts @ encs record_bytes rs @ rest"
    "buffer c = []" "c_start c = O_Start opts"
  shows "\<exists>c'. repair c reason sz (length (whole_blocks rs)) lgb = Inr c' \<and> holds opts c' (whole_blocks rs) \<and>
    (\<exists>n. c_repaired c' = Some n)"
proof -
  let ?k = "length (whole_blocks rs)"
  let ?n = "\<lparr>Re_Reason = reason, Re_At = c_count c, Re_Kept = ?k, Re_LastGoodBlock = lgb,
             Re_Dropped = (sz - headerSize) div stride - ?k\<rparr>"
  let ?c = "c\<lparr>c_repaired := Some ?n, c_count := ?k\<rparr>"
  have ks: "whole_blocks rs = take ?k rs" "?k \<le> length rs"
    unfolding whole_blocks_def using takeWhile_prefix length_takeWhile_le by auto
  have eq: "c\<lparr>disk := take (offsetOf ?k) (disk c), c_repaired := Some ?n, c_count := ?k\<rparr> =
      ?c\<lparr>disk := take (offsetOf ?k) (disk ?c)\<rparr>" by simp
  have c: "disk ?c = header opts @ encs record_bytes rs @ rest" "buffer ?c = []" "c_start ?c = O_Start opts"
    "c_count ?c = ?k"
    using assms by simp_all
  note res = holds_cut [OF assms(1) c ks(2), folded ks(1)]
  show ?thesis
    unfolding repair_def Let_def eq using res by (cases "?k = 0") simp_all
qed

lemma scan_holds:
  assumes "log_ok (O_Start opts) rs" "disk c = header opts @ encs record_bytes rs @ rest" "buffer c = []"
    "c_start c = O_Start opts" "c_count c = length rs" "c_last c = last (zero_record # rs)"
    "bs = length (whole_blocks rs)"
    "g = good_prefix (if rs = [] then O_Start opts else Rec_BlockNumber (last rs)) rest"
  shows "\<exists>c'. scan c sz rest bs bb = Inr c' \<and>
    holds opts c' (if length rest = length g * stride then rs @ g else whole_blocks (rs @ g)) \<and>
    (length rest = length g * stride \<longrightarrow> c_repaired c' = c_repaired c) \<and>
    (length rest \<noteq> length g * stride \<longrightarrow> (\<exists>n. c_repaired c' = Some n))"
  using assms
proof (induction c sz rest bs bb arbitrary: rs g rule: scan.induct)
  case (1 c sz rest bs bb)
  let ?fl = "if rs = [] then O_Start opts else Rec_BlockNumber (last rs)"
  note g = "1.prems"(8)
  have bad: ?case if "scan c sz rest bs bb = repair c reason sz bs bb" "g = []" "rest \<noteq> []" for reason
    using repair_holds [OF "1.prems"(1-4), of reason sz bb] that by (simp add: "1.prems"(7))
  show ?case
  proof (cases "length rest < stride")
    case True
    show ?thesis
    proof (cases "rest = []")
      case rest: True
      with True have "g = []" "scan c sz rest bs bb = Inr c"
        by (simp_all add: g good_prefix.simps [of ?fl] scan.simps [of c])
      with "1.prems" rest show ?thesis by (simp add: holds_def)
    next
      case False
      show ?thesis by (rule bad) (use True False in \<open>simp_all add: g good_prefix.simps [of ?fl] scan.simps [of c]\<close>)
    qed
  next
    case long: False
    then have rest: "rest \<noteq> []" by (auto simp: layout)
    show ?thesis
    proof (cases "decode_record (take stride rest)")
      case None
      show ?thesis
        by (rule bad) (use long rest None in \<open>simp_all add: g good_prefix.simps [of ?fl] scan.simps [of c]\<close>)
    next
      case (Some r)
      have r: "record_ok r" "take stride rest = record_bytes r"
        using decode_record_exact [OF _ Some] long by (simp_all add: min_def)
      have start: "O_Start opts \<le> Rec_BlockNumber (last rs)" if "rs \<noteq> []"
        using "1.prems"(1) that by (simp add: log_ok_def)
      show ?thesis
      proof (cases "Rec_BlockNumber r < ?fl")
        case True
        have g0: "g = []" using True long Some by (simp add: g good_prefix.simps [of ?fl])
        show ?thesis
        proof (cases "Rec_BlockNumber r < O_Start opts")
          case before: True
          show ?thesis
            by (rule bad) (use long rest Some before g0 "1.prems"(4) in \<open>simp_all add: scan.simps [of c]\<close>)
        next
          case False
          with True have "rs \<noteq> []" "Rec_BlockNumber r < Rec_BlockNumber (last rs)" by (auto split: if_splits)
          then show ?thesis
            by (intro bad) (use long rest Some False g0 "1.prems"(4-6) in \<open>simp_all add: scan.simps [of c]\<close>)
        qed
      next
        case False
        have ok: "log_ok (O_Start opts) (rs @ [r])"
          using log_ok_floor [OF "1.prems"(1), of "[r]"] r(1) False by simp
        have ge: "\<not> Rec_BlockNumber r < O_Start opts"
          using False start by (cases "rs = []") (auto simp: not_less intro: order_trans)
        have order: "\<not> (c_count c > 0 \<and> Rec_BlockNumber r < Rec_BlockNumber (c_last c))"
          using False "1.prems"(5,6) by (auto split: if_splits)
        define bs' where "bs' = (if c_count c > 0 \<and> Rec_BlockNumber r \<noteq> Rec_BlockNumber (c_last c) then c_count c else bs)"
        define bb' where "bb' = (if c_count c > 0 \<and> Rec_BlockNumber r \<noteq> Rec_BlockNumber (c_last c) then Rec_BlockNumber (c_last c) else bb)"
        let ?c = "c\<lparr>c_count := c_count c + 1, c_last := r\<rparr>"
        let ?g = "good_prefix (Rec_BlockNumber r) (drop stride rest)"
        have eq: "scan c sz rest bs bb = scan ?c sz (drop stride rest) bs' bb'"
          using long rest Some ge order "1.prems"(4)
          by (subst scan.simps) (auto simp: bs'_def bb'_def)
        have gr: "g = r # ?g" using long Some False by (simp add: g good_prefix.simps [of ?fl rest])
        have split: "rest = record_bytes r @ drop stride rest" using r(2) append_take_drop_id [of stride rest] by simp
        have "\<exists>c'. scan ?c sz (drop stride rest) bs' bb' = Inr c' \<and>
          holds opts c' (if length (drop stride rest) = length ?g * stride then (rs @ [r]) @ ?g else whole_blocks ((rs @ [r]) @ ?g)) \<and>
          (length (drop stride rest) = length ?g * stride \<longrightarrow> c_repaired c' = c_repaired ?c) \<and>
          (length (drop stride rest) \<noteq> length ?g * stride \<longrightarrow> (\<exists>n. c_repaired c' = Some n))"
        proof (rule "1.IH" [OF rest long Some])
          show "disk ?c = header opts @ encs record_bytes (rs @ [r]) @ drop stride rest"
            using "1.prems"(2) split by simp
          show "bs' = length (whole_blocks (rs @ [r]))"
            using whole_blocks_snoc [OF ok] "1.prems"(5-7) by (auto simp: bs'_def)
        qed (use ok ge order "1.prems"(3-6) in \<open>auto simp: bs'_def bb'_def\<close>)
        moreover have "length (drop stride rest) = length ?g * stride \<longleftrightarrow> length rest = length g * stride"
          using long by (auto simp: gr)
        ultimately show ?thesis
          by (cases "length rest = length g * stride") (simp_all add: eq gr)
      qed
    qed
  qed
qed

lemma good_prefix_bytes:
  "length (good_prefix fl bytes) * stride \<le> length bytes \<and>
   take (length (good_prefix fl bytes) * stride) bytes = encs record_bytes (good_prefix fl bytes)"
proof (induction fl bytes rule: good_prefix.induct)
  case (1 fl bytes)
  show ?case
  proof (cases "length bytes < stride")
    case True
    then show ?thesis by (simp add: good_prefix.simps [of fl bytes])
  next
    case long: False
    show ?thesis
    proof (cases "decode_record (take stride bytes)")
      case None
      then show ?thesis by (simp add: good_prefix.simps [of fl bytes])
    next
      case (Some r)
      show ?thesis
      proof (cases "Rec_BlockNumber r < fl")
        case True
        then show ?thesis using Some by (simp add: good_prefix.simps [of fl bytes])
      next
        case False
        let ?g = "good_prefix (Rec_BlockNumber r) (drop stride bytes)"
        have g: "good_prefix fl bytes = r # ?g" using long Some False by (simp add: good_prefix.simps [of fl bytes])
        have r: "take stride bytes = record_bytes r"
          using decode_record_exact [OF _ Some] long by (simp add: min_def)
        have IH: "length ?g * stride \<le> length (drop stride bytes)" "take (length ?g * stride) (drop stride bytes) = encs record_bytes ?g"
          using "1" [OF long Some False] by simp_all
        have "take (stride + length ?g * stride) bytes = record_bytes r @ encs record_bytes ?g"
          using IH(2) by (simp add: take_add r)
        with IH(1) long show ?thesis by (simp add: g)
      qed
    qed
  qed
qed

lemma good_prefix_encs:
  "\<forall>r \<in> set rs. record_ok r \<and> fl \<le> Rec_BlockNumber r \<Longrightarrow> sorted (map Rec_BlockNumber rs) \<Longrightarrow>
   good_prefix fl (encs record_bytes rs @ tail) = rs @ good_prefix (if rs = [] then fl else Rec_BlockNumber (last rs)) tail"
proof (induction rs arbitrary: fl)
  case (Cons r rs)
  have "good_prefix fl (encs record_bytes (r # rs) @ tail) = r # good_prefix (Rec_BlockNumber r) (encs record_bytes rs @ tail)"
    using Cons.prems(1) by (subst good_prefix.simps) (auto simp: decode_record_bytes)
  with Cons show ?case by simp
qed simp

lemma kept_encs: "log_ok start rs \<Longrightarrow> kept start (encs record_bytes rs) = rs"
proof -
  assume "log_ok start rs"
  then have "good_prefix start (encs record_bytes rs @ []) = rs @ good_prefix (if rs = [] then start else Rec_BlockNumber (last rs)) []"
    by (intro good_prefix_encs) (auto simp: log_ok_def)
  then have "good_prefix start (encs record_bytes rs) = rs"
    by (simp add: good_prefix.simps [of _ "[]"] layout)
  then show ?thesis by (simp add: kept_def Let_def)
qed

lemma whole_blocks_prefix: "\<exists>n. whole_blocks rs = take n rs"
  unfolding whole_blocks_def using takeWhile_prefix by blast

lemma kept_undamaged: "length bytes = length (good_prefix start bytes) * stride \<longleftrightarrow> bytes = encs record_bytes (kept start bytes)"
proof
  assume len: "length bytes = length (good_prefix start bytes) * stride"
  then show "bytes = encs record_bytes (kept start bytes)"
    using good_prefix_bytes [of start bytes] by (simp add: kept_def)
next
  let ?g = "good_prefix start bytes"
  assume eq: "bytes = encs record_bytes (kept start bytes)"
  then have len: "length bytes = length (kept start bytes) * stride" by (metis rec.length_encs)
  have "length (kept start bytes) \<le> length ?g"
    by (auto simp: kept_def Let_def whole_blocks_def length_takeWhile_le)
  then have "length bytes \<le> length ?g * stride" by (simp add: len)
  with good_prefix_bytes [of start bytes] show "length bytes = length ?g * stride" by simp
qed

lemma header_not_Nil [simp]: "header opts \<noteq> []"
proof
  assume "header opts = []"
  then have "length (header opts) = 0" by simp
  then show False unfolding length_header by (simp add: headerSize_def)
qed

lemma header_fields_at:
  "field_at (header opts @ rest) 0 8 = magic" "take 48 (header opts @ rest) = header_fields opts"
  "field_at (header opts @ rest) 48 52 = crc_bytes (header_fields opts)"
  "field_at (header opts @ rest) 8 12 = be_bytes 4 formatVersion"
  "field_at (header opts @ rest) 12 20 = be_bytes 8 (unat (O_ChainID opts))"
  "field_at (header opts @ rest) 20 40 = addr_bytes (O_Token opts)"
  "field_at (header opts @ rest) 40 48 = be_bytes 8 (unat (O_Start opts))"
  by (simp_all add: header_def header_fields_def magic_def ascii_def field_at_def)

lemma checkHeader_None:
  assumes "headerSize \<le> length (disk c)"
  shows "checkHeader c opts = None \<longleftrightarrow> take headerSize (disk c) = header opts"
proof -
  define b where "b = take headerSize (disk c)"
  let ?f = "field_at b"
  have l: "length b = 52" using assms by (simp add: headerSize_def b_def)
  show ?thesis unfolding b_def [symmetric]
  proof
    assume "checkHeader c opts = None"
    then have f: "?f 0 8 = magic" "unat (Checksum (take 48 b)) = be_nat (?f 48 52)" "be_nat (?f 8 12) = formatVersion"
      "of_nat (be_nat (?f 12 20)) = O_ChainID opts" "bytes_addr (?f 20 40) = O_Token opts"
      "of_nat (be_nat (?f 40 48)) = O_Start opts"
      by (auto simp: checkHeader_def Let_def simp flip: b_def split: if_splits)
    have u: "be_bytes 8 (unat (of_nat (be_nat (?f a z)) :: uint64)) = ?f a z" if "z = a + 8" "z \<le> 52" for a z
    proof -
      have "length (?f a z) = 8" using that l by (simp add: length_field_at)
      moreover from this have "be_nat (?f a z) < 2 ^ 64" using be_nat_less [of "?f a z"] by simp
      ultimately show ?thesis by (simp add: unat_of_nat_64 be_bytes_be_nat)
    qed
    have "header_fields opts = ?f 0 8 @ ?f 8 12 @ ?f 12 20 @ ?f 20 40 @ ?f 40 48"
      using l u [of 20 12] u [of 48 40] unfolding header_fields_def f(1,3-6) [symmetric]
      by (simp add: be_bytes_be_nat addr_bytes_addr length_field_at)
    also have "\<dots> = ?f 0 48"
      using field_at_split [of 0 8 48 b] field_at_split [of 8 12 48 b] field_at_split [of 12 20 48 b]
        field_at_split [of 20 40 48 b] by simp
    finally have hf: "header_fields opts = take 48 b" by (simp add: field_at_def)
    have "crc_bytes (take 48 b) = ?f 48 52"
      using l by (simp add: crc_bytes_def f(2) be_bytes_be_nat length_field_at)
    then have "header opts = take 48 b @ drop 48 b" using l by (simp add: header_def hf field_at_def)
    then show "b = header opts" by simp
  next
    assume eq: "b = header opts"
    have small: "unat (O_ChainID opts) < 256 ^ 8" "unat (O_Start opts) < 256 ^ 8"
      using unsigned_less [where 'a = nat, of "O_ChainID opts"] unsigned_less [where 'a = nat, of "O_Start opts"] by simp_all
    show "checkHeader c opts = None"
      using header_fields_at [of opts "[]"] small
      by (simp add: checkHeader_def Let_def eq be_nat_be_bytes_id formatVersion_def flip: b_def)
  qed
qed

lemma Open_holds:
  assumes "\<not> O_Fresh opts"
  shows "\<exists>c. Open False (header opts @ rest) opts = Inr c \<and> holds opts c (kept (O_Start opts) rest) \<and>
    (c_repaired c = None \<longleftrightarrow> rest = encs record_bytes (kept (O_Start opts) rest))"
proof -
  let ?c = "\<lparr>disk = header opts @ rest, buffer = [], c_count = 0, c_last = zero_record, c_start = O_Start opts,
             pending = 0, c_repaired = None\<rparr>"
  let ?g = "good_prefix (O_Start opts) rest"
  have "Open False (header opts @ rest) opts =
      map_sum (Pair (header opts @ rest)) id (scan ?c (length (header opts @ rest)) rest 0 0)"
    using assms checkHeader_None [of ?c opts]
    by (simp add: Open_def load_def Let_def headerSize_def)
  moreover have "\<exists>c. scan ?c (length (header opts @ rest)) rest 0 0 = Inr c \<and>
      holds opts c (if length rest = length ?g * stride then [] @ ?g else whole_blocks ([] @ ?g)) \<and>
      (length rest = length ?g * stride \<longrightarrow> c_repaired c = c_repaired ?c) \<and>
      (length rest \<noteq> length ?g * stride \<longrightarrow> (\<exists>n. c_repaired c = Some n))"
    by (rule scan_holds) (simp_all add: log_ok_def whole_blocks_def)
  ultimately obtain c where "Open False (header opts @ rest) opts = Inr c" "holds opts c (kept (O_Start opts) rest)"
    "length rest = length ?g * stride \<longleftrightarrow> c_repaired c = None"
    by (auto simp: kept_def Let_def split: if_splits)
  then show ?thesis
    using kept_undamaged [of rest "O_Start opts"] by auto
qed

lemma Open_new: "\<exists>c. Open False [] opts = Inr c \<and> holds opts c [] \<and> c_repaired c = None"
  by (simp add: Open_def load_def Let_def writeHeader_def holds_def log_ok_def)

lemma decode_burst:
  assumes "record_bytes r = p @ x @ s" "length x = length y" "length x \<le> 4" "x \<noteq> y"
    and "length p + length x \<le> payloadSize \<or> payloadSize \<le> length p"
  shows "decode_record (p @ y @ s) = None"
proof -
  have len: "length p + length x + length s = 124"
    using arg_cong [OF assms(1), of length] by (simp add: layout)
  have crc: "payload r = take 120 (p @ x @ s)" "crc_bytes (payload r) = drop 120 (p @ x @ s)"
    using assms(1) by (simp_all add: record_bytes_def flip: assms(1))
  have "unat (Checksum (take 120 (p @ y @ s))) \<noteq> be_nat (drop 120 (p @ y @ s))"
  proof (cases "length p + length x \<le> 120")
    case True
    let ?s = "take (120 - (length p + length x)) s"
    have tx: "take 120 (p @ x @ s) = p @ x @ ?s" and ty: "take 120 (p @ y @ s) = p @ y @ ?s"
      and dr: "drop 120 (p @ y @ s) = drop 120 (p @ x @ s)"
      using True assms(2) by simp_all
    have "Checksum (p @ x @ ?s) \<noteq> Checksum (p @ y @ ?s)" by (rule Checksum_burst [OF assms(2-4)])
    then have "Checksum (take 120 (p @ y @ s)) \<noteq> Checksum (payload r)"
      unfolding crc(1) tx ty by (rule not_sym)
    moreover have "be_nat (drop 120 (p @ y @ s)) = unat (Checksum (payload r))"
      unfolding dr crc(2) [symmetric] by simp
    ultimately have "unat (Checksum (take 120 (p @ y @ s))) \<noteq> be_nat (drop 120 (p @ y @ s))"
      by (simp only: word_unat_eq_iff not_False_eq_True)
    then show ?thesis .
  next
    case False
    then have p: "120 \<le> length p" using assms(5) by (simp add: layout)
    then have same: "take 120 (p @ y @ s) = payload r" using crc by simp
    have "drop 120 (p @ y @ s) \<noteq> drop 120 (p @ x @ s)" using p assms(2,4) by simp
    then have "be_nat (drop 120 (p @ y @ s)) \<noteq> be_nat (crc_bytes (payload r))"
      using be_nat_inject [of "drop 120 (p @ y @ s)" "crc_bytes (payload r)"] crc(2) assms(2) len by auto
    then show ?thesis unfolding same be_nat_crc_bytes by (rule not_sym)
  qed
  moreover have "field_at (p @ y @ s) payloadSize stride = drop 120 (p @ y @ s)"
    using len assms(2) by (simp add: field_at_def layout)
  ultimately show ?thesis by (simp add: decode_record_def payloadSize_def)
qed

lemma header_inject:
  "header o1 = header o2 \<longleftrightarrow> O_ChainID o1 = O_ChainID o2 \<and> O_Token o1 = O_Token o2 \<and> O_Start o1 = O_Start o2"
proof
  assume eq: "header o1 = header o2"
  have u: "be_bytes 8 (unat a) = be_bytes 8 (unat b) \<Longrightarrow> a = b" for a b :: uint64
    using be_bytes_inject [of 8 "unat a" "unat b"] unsigned_less [where 'a = nat, of a] unsigned_less [where 'a = nat, of b]
    by (simp add: word_unat_eq_iff)
  from eq have "header_fields o1 = header_fields o2"
    using header_fields_at(2) [of o1 "[]"] header_fields_at(2) [of o2 "[]"] by simp
  then show "O_ChainID o1 = O_ChainID o2 \<and> O_Token o1 = O_Token o2 \<and> O_Start o1 = O_Start o2"
    by (auto simp: header_fields_def dest: u)
qed (simp add: header_def header_fields_def)

lemma fresh_truncates_before_locking: "O_Fresh opts \<Longrightarrow> Open True file opts = Inl ([], Locked)"
  by (simp add: Open_def)

section \<open>Properties\<close>

definition demo_options :: options where
  "demo_options = \<lparr>O_ChainID = 4663, O_Token = 7, O_Start = 100, O_Fresh = False\<rparr>"

definition demo_record :: "uint64 \<Rightarrow> cacheRecord" where
  "demo_record n =
     \<lparr>Rec_BlockNumber = n, Rec_BlockHash = 5, Rec_Timestamp = 3600000, Rec_From = 1, Rec_To = 2, Rec_Value = Some 9\<rparr>"

lemma demo_record_ok [simp]: "record_ok (demo_record n)" "in_i64 (Rec_Timestamp (demo_record n))"
  by (simp_all add: record_ok_def demo_record_def in_i64_def amount_ok_def)

text \<open>
  C31. A Cache behaves as the list of records it holds. \<open>Append\<close> adds a whole batch or, when the batch
  would run backwards or has a value that is not a uint256, refuses it; \<open>Truncate\<close> drops exactly
  the records from a block on and says how many; \<open>Each\<close> runs over the records in order.
\<close>

theorem Cache_refines_log:
  assumes "holds opts c rs" "\<forall>q \<in> set qs. in_i64 (Rec_Timestamp q)"
  shows "((\<exists>c'. Append c qs = Inr c' \<and> holds opts c' (rs @ qs)) \<or>
      (\<exists>e. Append c qs = Inl e) \<and> \<not> log_ok (O_Start opts) (rs @ qs)) \<and>
    (\<exists>c'. Truncate c blk = (c', Inr (length (dropWhile (\<lambda>r. Rec_BlockNumber r < blk) rs))) \<and>
       holds opts c' (takeWhile (\<lambda>r. Rec_BlockNumber r < blk) rs)) \<and>
    Each c fn s = (flush c, each_spec fn rs s)"
proof -
  have "length rs - length (takeWhile (\<lambda>r. Rec_BlockNumber r < blk) rs) = length (dropWhile (\<lambda>r. Rec_BlockNumber r < blk) rs)"
    by (metis add_diff_cancel_left' length_append takeWhile_dropWhile_id)
  with Append_holds [OF assms] Truncate_holds [OF assms(1), of blk] Each_holds [OF assms(1), of fn s]
  show ?thesis by auto
qed

theorem Cache_refines_log_witness:
  "\<exists>c. holds demo_options c [] \<and>
    (\<exists>c'. Append c [demo_record 100, demo_record 100] = Inr c' \<and> holds demo_options c' [demo_record 100, demo_record 100])"
proof -
  obtain c where c: "holds demo_options c []" using Open_new [of demo_options] by blast
  have "log_ok (O_Start demo_options) [demo_record 100, demo_record 100]"
    by (simp add: log_ok_def) (simp add: demo_options_def demo_record_def)
  with c Cache_refines_log [OF c, of "[demo_record 100, demo_record 100]" 0 "\<lambda>r s. Inr s :: unit + unit" "()"]
  show ?thesis by auto
qed

text \<open>
  C33. Opening a file with this run's header always succeeds, whatever follows the header. What is held
  is the longest run of records that verify and go forward, cut back to whole blocks when
  anything comes after it; a repair is reported exactly when the file was not, to the last
  byte, the records held.
\<close>

theorem Open_repairs:
  assumes "\<not> O_Fresh opts"
  shows "\<exists>c. Open False (header opts @ rest) opts = Inr c \<and> holds opts c (kept (O_Start opts) rest) \<and>
    (c_repaired c = None \<longleftrightarrow> rest = encs record_bytes (kept (O_Start opts) rest))"
  by (rule Open_holds [OF assms])

theorem Open_repairs_witness:
  "\<exists>c. Open False (header demo_options @ [0]) demo_options = Inr c \<and> holds demo_options c [] \<and> c_repaired c \<noteq> None"
proof -
  have "good_prefix (O_Start demo_options) [0] = []" by (simp add: good_prefix.simps [of _ "[0]"] layout)
  then have "kept (O_Start demo_options) [0] = []" by (simp add: kept_def whole_blocks_def)
  with Open_repairs [of demo_options "[0]"] show ?thesis by (auto simp: demo_options_def)
qed

text \<open>
  What a Cache held when it was closed is what it holds when it is opened again, with nothing
  repaired.
\<close>

theorem Open_after_Close:
  assumes "holds opts c rs" "\<not> O_Fresh opts"
  shows "\<exists>c'. Open False (Close c) opts = Inr c' \<and> holds opts c' rs \<and> c_repaired c' = None"
proof -
  have closed: "Close c = header opts @ encs record_bytes rs" and ok: "log_ok (O_Start opts) rs"
    using assms(1) by (auto simp: holds_def Close_def checkpoint_def flush_def)
  show ?thesis using Open_holds [OF assms(2), of "encs record_bytes rs"] kept_encs [OF ok] by (simp add: closed)
qed

theorem Open_after_Close_witness:
  "\<exists>c c'. Open False [] demo_options = Inr c \<and> Open False (Close c) demo_options = Inr c' \<and> holds demo_options c' []"
proof -
  obtain c where c: "Open False [] demo_options = Inr c" "holds demo_options c []"
    using Open_new [of demo_options] by blast
  with Open_after_Close [OF c(2)] show ?thesis by (auto simp: demo_options_def)
qed

text \<open>
  C34. A damaged record is never read back. When up to four consecutive bytes of a record's payload, or
  of its checksum, are changed, opening the file drops that record and everything after it, and
  the records of the block before it, and keeps whole blocks of undamaged records only.
\<close>

theorem Open_drops_damage:
  assumes "log_ok (O_Start opts) rs" "\<not> O_Fresh opts"
    and "record_bytes r = p @ x @ s" "length x = length y" "length x \<le> 4" "x \<noteq> y"
    and "length p + length x \<le> payloadSize \<or> payloadSize \<le> length p"
  shows "\<exists>c. Open False (header opts @ encs record_bytes rs @ (p @ y @ s) @ tail) opts = Inr c \<and>
    holds opts c (whole_blocks rs) \<and> c_repaired c \<noteq> None"
proof -
  let ?rest = "encs record_bytes rs @ (p @ y @ s) @ tail"
  let ?fl = "if rs = [] then O_Start opts else Rec_BlockNumber (last rs)"
  have len: "length (p @ y @ s) = stride" using arg_cong [OF assms(3), of length] assms(4) by simp
  have "good_prefix ?fl ((p @ y @ s) @ tail) = []"
    using len decode_burst [OF assms(3-7)] by (subst good_prefix.simps) (simp del: append_assoc)
  then have g: "good_prefix (O_Start opts) ?rest = rs"
    using good_prefix_encs [of rs "O_Start opts" "(p @ y @ s) @ tail"] assms(1) by (simp add: log_ok_def)
  have "length ?rest = length rs * stride + (length (p @ y @ s) + length tail)" by simp
  then have "length ?rest \<noteq> length rs * stride" unfolding len by (simp only: layout)
  with g have "kept (O_Start opts) ?rest = whole_blocks rs"
    "\<not> ?rest = encs record_bytes (kept (O_Start opts) ?rest)"
    using kept_undamaged [of ?rest "O_Start opts"] by (auto simp: kept_def Let_def)
  with Open_holds [OF assms(2), of ?rest] show ?thesis by auto
qed

theorem Open_drops_damage_witness:
  "\<exists>c. Open False (header demo_options @ encs record_bytes [demo_record 100] @
        (hd (record_bytes (demo_record 101)) + 1) # tl (record_bytes (demo_record 101))) demo_options = Inr c \<and>
    holds demo_options c (whole_blocks [demo_record 100]) \<and> c_repaired c \<noteq> None"
proof -
  let ?b = "record_bytes (demo_record 101)"
  have "length ?b = 124" by (simp add: layout)
  then have b: "?b = [] @ [hd ?b] @ tl ?b" by (cases ?b) simp_all
  have log: "log_ok (O_Start demo_options) [demo_record 100]"
    by (simp add: log_ok_def) (simp add: demo_options_def demo_record_def)
  have "\<not> O_Fresh demo_options" by (simp add: demo_options_def)
  from Open_drops_damage [OF log this b, of "[hd ?b + 1]" "[]"] show ?thesis by (simp add: payloadSize_def)
qed

text \<open>
  A file that is long enough to have a header opens only when the header names this run's chain,
  token and start block, and the headers of two runs are the same only when all three are.
\<close>

theorem Open_refuses_other_history:
  assumes "Open held file opts = Inr c" "\<not> O_Fresh opts" "headerSize \<le> length file"
  shows "\<not> held \<and> take headerSize file = header opts \<and>
    (\<forall>o'. header opts = header o' \<longleftrightarrow>
       O_ChainID opts = O_ChainID o' \<and> O_Token opts = O_Token o' \<and> O_Start opts = O_Start o')"
proof -
  let ?c = "\<lparr>disk = file, buffer = [], c_count = 0, c_last = zero_record, c_start = O_Start opts,
             pending = 0, c_repaired = None\<rparr>"
  have "\<not> held" "checkHeader ?c opts = None"
    using assms by (auto simp: Open_def load_def Let_def headerSize_def split: if_splits option.splits)
  with checkHeader_None [of ?c opts] assms(3) header_inject show ?thesis by simp
qed

theorem Open_refuses_other_history_witness:
  "\<exists>c. Open False (header demo_options) demo_options = Inr c \<and> take headerSize (header demo_options) = header demo_options"
proof -
  obtain c where c: "Open False (header demo_options @ []) demo_options = Inr c"
    using Open_holds [of demo_options "[]"] by (auto simp: demo_options_def)
  with Open_refuses_other_history [OF c] show ?thesis by (auto simp: demo_options_def)
qed

end
