(* ===== verification/Sync.thy ===== *)
theory Sync
  imports Cache
begin

text \<open>
  Package \<open>cache\<close>, advancing the log (\<open>cache/sync.go\<close>): \<open>verify\<close>, which checks the newest held record against
  the chain and drops a forked tail, and \<open>Sync\<close>, which reads the blocks after the newest held record
  up to the tip, a chunk at a time.

  The two methods of \<open>Source\<close> are the parameters \<open>transfers\<close> and \<open>blockByNumber\<close>; a call that fails is
  \<open>Inl\<close>. Within one Sync they answer for one state of the chain. What is required of them
  is the locale \<open>branch_source\<close>. The chain itself is specified as a \<open>branch\<close>, a hash and a list of records for
  every block number; a hash that two branches share at one height commits both to everything
  below it (\<open>commits\<close>).
\<close>

section \<open>Sync\<close>

definition defaultChunk :: uint64 where
  "defaultChunk = 10000"

record reorg_note =
  Rg_Block :: uint64
  Rg_Dropped :: nat

record synced =
  Sy_Reorg :: "reorg_note option"
  Sy_Appended :: nat

datatype 'e sync_error =
    NoTipHash
  | SyncCache cache_error
  | VerifyingBlock uint64 'e
  | SyncingBlocks uint64 uint64 'e

definition stillOnChain :: "(uint64 \<Rightarrow> 'e + block) \<Rightarrow> cache \<Rightarrow> nat \<Rightarrow> 'e sync_error + bool" where
  "stillOnChain blockByNumber c i =
     (case recordAt c i of
        Inl e \<Rightarrow> Inl (SyncCache e)
      | Inr r \<Rightarrow>
          (case blockByNumber (Rec_BlockNumber r) of
             Inl e \<Rightarrow> Inl (VerifyingBlock (Rec_BlockNumber r) e)
           | Inr b \<Rightarrow> Inr (B_Hash b = Rec_BlockHash r)))"

definition verify ::
  "(uint64 \<Rightarrow> 'e + block) \<Rightarrow> cache \<Rightarrow> uint64 \<Rightarrow> cache \<times> ('e sync_error + reorg_note option)" where
  "verify blockByNumber c0 tipNumber =
     (if c_count c0 = 0 then (c0, Inr None)
      else
        let c = flush c0
        in case firstAtOrAbove c (tipNumber + 1) of
             Inl e \<Rightarrow> (c, Inl (SyncCache e))
           | Inr n \<Rightarrow>
               if n = 0 then (c, Inr None)
               else case stillOnChain blockByNumber c (n - 1) of
                      Inl e \<Rightarrow> (c, Inl e)
                    | Inr True \<Rightarrow> (c, Inr None)
                    | Inr False \<Rightarrow>
                        (case firstWhere n (\<lambda>i. map_sum id Not (stillOnChain blockByNumber c i)) of
                           Inl e \<Rightarrow> (c, Inl e)
                         | Inr fork \<Rightarrow>
                             (case recordAt c fork of
                                Inl e \<Rightarrow> (c, Inl (SyncCache e))
                              | Inr r \<Rightarrow>
                                  (case Truncate c (Rec_BlockNumber r) of
                                     (c', Inl e) \<Rightarrow> (c', Inl (SyncCache e))
                                   | (c', Inr dropped) \<Rightarrow>
                                       (c', Inr (Some \<lparr>Rg_Block = Rec_BlockNumber r, Rg_Dropped = dropped\<rparr>))))))"

text \<open>The chunk an option asks for, and the last block of the read that begins at \<open>start\<close>.\<close>

definition chunk_of :: "uint64 \<Rightarrow> uint64" where
  "chunk_of n = (if n = 0 then defaultChunk else n)"

definition chunk_stop :: "uint64 \<Rightarrow> uint64 \<Rightarrow> uint64 \<Rightarrow> uint64" where
  "chunk_stop chunk start tipNumber = (if tipNumber - start \<ge> chunk then start + chunk - 1 else tipNumber)"

lemma chunk_of_pos: "0 < chunk_of n"
  by (simp add: chunk_of_def defaultChunk_def word_gt_0)

lemma chunk_stop_bounds:
  assumes "0 < chunk" "start \<le> tip"
  shows "start \<le> chunk_stop chunk start tip" "chunk_stop chunk start tip \<le> tip"
proof -
  have "unat (tip - start) = unat tip - unat start" using assms(2) by (simp add: unat_sub)
  moreover have "unat (start + chunk - 1) = unat start + unat chunk - 1" if "chunk \<le> tip - start"
  proof -
    have "0 < unat chunk" using assms(1) by (simp add: unat_gt_0 word_gt_0)
    moreover have "unat start + unat chunk \<le> unat tip"
      using that assms(2) by (simp add: word_le_nat_alt unat_sub)
    moreover have "unat tip < 2 ^ 64" using unsigned_less [where 'a = nat, of tip] by simp
    ultimately have "unat (start + chunk) = unat start + unat chunk" by (simp add: unat_word_ariths)
    moreover from this have "start + chunk \<noteq> 0" using \<open>0 < unat chunk\<close> by (metis add_gr_0 less_irrefl unat_0)
    ultimately show ?thesis using unat_minus_one [of "start + chunk"] by metis
  qed
  ultimately show "start \<le> chunk_stop chunk start tip" "chunk_stop chunk start tip \<le> tip"
    using assms by (auto simp: chunk_stop_def word_le_nat_alt word_less_nat_alt)
qed

lemma word_succ_nat: "(n :: uint64) < m \<Longrightarrow> unat (n + 1) = unat n + 1"
  using unsigned_less [where 'a = nat, of m] by (simp add: word_less_nat_alt unat_word_ariths)

text \<open>
  The loop of \<open>Sync\<close>; \<open>progress\<close> collects the blocks handed to the \<open>Progress\<close> callback. The chunk is positive
  whatever the options say, which is why it ends.
\<close>

function sync_loop ::
  "(uint64 \<Rightarrow> uint64 \<Rightarrow> 'e + chainTransfer list) \<Rightarrow> uint64 \<Rightarrow> uint64 \<Rightarrow> uint64 \<Rightarrow> cache \<Rightarrow> nat \<Rightarrow> uint64 list \<Rightarrow>
   cache \<times> nat \<times> uint64 list \<times> 'e sync_error option" where
  "sync_loop transfers opt tip start c appended progress =
     (if start \<le> tip
      then
        let stop = chunk_stop (chunk_of opt) start tip
        in case transfers start stop of
             Inl e \<Rightarrow> (c, appended, progress, Some (SyncingBlocks start stop e))
           | Inr ts \<Rightarrow>
               (case Append c (map FromTransfer ts) of
                  Inl e \<Rightarrow> (c, appended, progress, Some (SyncCache e))
                | Inr c' \<Rightarrow>
                    if stop = tip then (c', appended + length ts, progress @ [stop], None)
                    else sync_loop transfers opt tip (stop + 1) c' (appended + length ts) (progress @ [stop]))
      else (c, appended, progress, None))"
  by pat_completeness auto
termination
proof (relation "measure (\<lambda>(tr, opt, tip, start, c, a, p). unat tip - unat start)", goal_cases)
  case (2 tr opt tip start c a p stop ts c')
  then have "start \<le> stop" "stop < tip"
    using chunk_stop_bounds [OF chunk_of_pos, of start tip opt] by auto
  then show ?case using word_succ_nat [of stop tip] by (simp add: word_le_nat_alt word_less_nat_alt)
qed simp

declare sync_loop.simps [simp del]

definition Sync ::
  "(uint64 \<Rightarrow> uint64 \<Rightarrow> 'e + chainTransfer list) \<Rightarrow> (uint64 \<Rightarrow> 'e + block) \<Rightarrow> cache \<Rightarrow> block \<Rightarrow> uint64 \<Rightarrow>
   cache \<times> synced \<times> uint64 list \<times> 'e sync_error option" where
  "Sync transfers blockByNumber c0 tip opt =
     (if B_Hash tip = 0 then (c0, \<lparr>Sy_Reorg = None, Sy_Appended = 0\<rparr>, [], Some NoTipHash)
      else
        case verify blockByNumber c0 (B_Number tip) of
          (c, Inl e) \<Rightarrow> (c, \<lparr>Sy_Reorg = None, Sy_Appended = 0\<rparr>, [], Some e)
        | (c, Inr reorg) \<Rightarrow>
            (case Last c of
               (newest, True) \<Rightarrow>
                 if Rec_BlockNumber newest \<ge> B_Number tip
                 then (c, \<lparr>Sy_Reorg = reorg, Sy_Appended = 0\<rparr>, [], None)
                 else
                   let (c', n, progress, err) =
                     sync_loop transfers opt (B_Number tip) (Rec_BlockNumber newest + 1) c 0 []
                   in (c', \<lparr>Sy_Reorg = reorg, Sy_Appended = n\<rparr>, progress, err)
             | (newest, False) \<Rightarrow>
                 let (c', n, progress, err) = sync_loop transfers opt (B_Number tip) (c_start c) c 0 []
                 in (c', \<lparr>Sy_Reorg = reorg, Sy_Appended = n\<rparr>, progress, err)))"

section \<open>The chain a source answers for\<close>

record branch =
  bhash :: "nat \<Rightarrow> hash"
  brecords :: "nat \<Rightarrow> cacheRecord list"

text \<open>The records of the blocks from \<open>a\<close> up to, not including, \<open>b\<close>.\<close>

definition branch_log :: "branch \<Rightarrow> nat \<Rightarrow> nat \<Rightarrow> cacheRecord list" where
  "branch_log br a b = concat (map (brecords br) [a..<b])"

definition branch_ok :: "branch \<Rightarrow> bool" where
  "branch_ok br \<longleftrightarrow>
     (\<forall>n. \<forall>r \<in> set (brecords br n). unat (Rec_BlockNumber r) = n \<and> Rec_BlockHash r = bhash br n \<and> record_ok r)"

definition commits :: "branch \<Rightarrow> branch \<Rightarrow> bool" where
  "commits br br' \<longleftrightarrow>
     (\<forall>n. bhash br n = bhash br' n \<longrightarrow>
        (\<forall>k \<le> n. bhash br k = bhash br' k \<and> brecords br k = brecords br' k))"

lemma branch_log_empty [simp]: "b \<le> a \<Longrightarrow> branch_log br a b = []"
  by (simp add: branch_log_def)

lemma branch_log_split: "a \<le> b \<Longrightarrow> b \<le> c \<Longrightarrow> branch_log br a c = branch_log br a b @ branch_log br b c"
  using upt_add_eq_append [of a b "c - b"] by (simp add: branch_log_def flip: map_append concat_append)

lemma branch_log_one: "branch_log br b (Suc b) = brecords br b"
  by (simp add: branch_log_def)

lemma in_branch_log: "r \<in> set (branch_log br a b) \<longleftrightarrow> (\<exists>n. a \<le> n \<and> n < b \<and> r \<in> set (brecords br n))"
  by (auto simp: branch_log_def)

lemma branch_log_record:
  assumes "branch_ok br" "r \<in> set (branch_log br a b)"
  shows "record_ok r" "a \<le> unat (Rec_BlockNumber r)" "unat (Rec_BlockNumber r) < b"
    "Rec_BlockHash r = bhash br (unat (Rec_BlockNumber r))"
  using assms by (auto simp: in_branch_log branch_ok_def)

lemma branch_log_sorted:
  assumes "branch_ok br"
  shows "sorted (map Rec_BlockNumber (branch_log br a b))"
proof (induction b)
  case (Suc b)
  have one: "sorted (map Rec_BlockNumber (brecords br b))"
  proof -
    have "unat (Rec_BlockNumber (brecords br b ! i)) = b" if "i < length (brecords br b)" for i
      using assms nth_mem [OF that] by (auto simp: branch_ok_def)
    then show ?thesis by (simp add: sorted_iff_nth_mono word_le_nat_alt)
  qed
  show ?case
  proof (cases "a \<le> b")
    case True
    have "Rec_BlockNumber r \<le> Rec_BlockNumber q"
      if "r \<in> set (branch_log br a b)" "q \<in> set (brecords br b)" for r q
      using branch_log_record(3) [OF assms that(1)] assms that(2) by (auto simp: branch_ok_def word_le_nat_alt)
    then show ?thesis
      using Suc one by (simp add: branch_log_split [of a b "Suc b", OF True] branch_log_one sorted_append)
  qed simp
qed simp

lemma branch_log_ok: "branch_ok br \<Longrightarrow> log_ok s (branch_log br (unat s) b)"
  using branch_log_sorted branch_log_record(1,2) by (auto simp: log_ok_def word_le_nat_alt)

lemma branch_log_takeWhile:
  assumes "branch_ok br"
  shows "takeWhile (\<lambda>r. Rec_BlockNumber r < blk) (branch_log br a b) = branch_log br a (min b (unat blk))"
proof (cases "a \<le> unat blk \<and> unat blk \<le> b")
  case True
  note split = branch_log_split [of a "unat blk" b br]
  have low: "\<forall>r \<in> set (branch_log br a (unat blk)). Rec_BlockNumber r < blk"
    using branch_log_record(3) [OF assms] by (simp add: word_less_nat_alt)
  have "takeWhile (\<lambda>r. Rec_BlockNumber r < blk) (branch_log br (unat blk) b) = []"
  proof (cases "branch_log br (unat blk) b")
    case (Cons r rs)
    then show ?thesis using branch_log_record(2) [OF assms, of r "unat blk" b] by (simp add: word_less_nat_alt)
  qed simp
  then show ?thesis using True split low by (simp add: takeWhile_append2 min_absorb2)
next
  case False
  then consider "unat blk < a" | "b < unat blk" "a \<le> unat blk" by linarith
  then show ?thesis
  proof cases
    case 1
    have "takeWhile (\<lambda>r. Rec_BlockNumber r < blk) (branch_log br a b) = []"
    proof (cases "branch_log br a b")
      case (Cons r rs)
      then show ?thesis using 1 branch_log_record(2) [OF assms, of r a b] by (simp add: word_less_nat_alt)
    qed simp
    then show ?thesis using 1 by simp
  next
    case 2
    then show ?thesis
      using branch_log_record(3) [OF assms, of _ a b]
      by (force simp: takeWhile_eq_all_conv word_less_nat_alt min_absorb1)
  qed
qed

text \<open>A log reaches the block of its last record: nothing of the branch is missing up to there.\<close>

lemma branch_log_to_last:
  assumes "branch_ok br" "branch_log br a b \<noteq> []"
  shows "branch_log br a b = branch_log br a (Suc (unat (Rec_BlockNumber (last (branch_log br a b)))))"
proof -
  let ?l = "last (branch_log br a b)"
  let ?n = "unat (Rec_BlockNumber ?l)"
  have "?l \<in> set (branch_log br a b)" using assms(2) by simp
  then have n: "?n < b" "a \<le> ?n" using branch_log_record [OF assms(1)] by auto
  then have split: "branch_log br a b = branch_log br a (Suc ?n) @ branch_log br (Suc ?n) b"
    by (intro branch_log_split) simp_all
  have "branch_log br (Suc ?n) b = []"
  proof (rule ccontr)
    assume ne: "branch_log br (Suc ?n) b \<noteq> []"
    then have "?l = last (branch_log br (Suc ?n) b)" by (subst split) simp
    then have "?l \<in> set (branch_log br (Suc ?n) b)" using last_in_set [OF ne] by metis
    then show False using branch_log_record(2) [OF assms(1)] by fastforce
  qed
  then show ?thesis using split by simp
qed

lemma commits_log:
  assumes "commits br br'" "bhash br n = bhash br' n" "b \<le> Suc n"
  shows "branch_log br a b = branch_log br' a b"
proof -
  have "map (brecords br) [a..<b] = map (brecords br') [a..<b]"
    using assms unfolding commits_def by (intro map_cong) auto
  then show ?thesis by (simp only: branch_log_def)
qed

section \<open>What a Sync does to the log\<close>

definition never_fails :: "(uint64 \<Rightarrow> uint64 \<Rightarrow> 'e + chainTransfer list) \<Rightarrow> (uint64 \<Rightarrow> 'e + block) \<Rightarrow> uint64 \<Rightarrow> bool" where
  "never_fails transfers blockByNumber tip \<longleftrightarrow>
     (\<forall>a b. a \<le> b \<and> b \<le> tip \<longrightarrow> (\<exists>ts. transfers a b = Inr ts)) \<and> (\<forall>n \<le> tip. \<exists>b. blockByNumber n = Inr b)"

lemma Append_chunk:
  assumes "holds opts c (pre @ branch_log br s a)" "branch_ok br" "s \<le> a" "a \<le> b"
    and "log_ok (O_Start opts) (pre @ branch_log br s b)"
  shows "\<exists>c'. Append c (branch_log br a b) = Inr c' \<and> holds opts c' (pre @ branch_log br s b)"
proof -
  have split: "branch_log br s a @ branch_log br a b = branch_log br s b"
    using branch_log_split [OF assms(3,4), of br] by simp
  have "\<forall>q \<in> set (branch_log br a b). in_i64 (Rec_Timestamp q)"
    using branch_log_record(1) [OF assms(2)] by (auto simp: record_ok_def)
  with Append_holds [OF assms(1), of "branch_log br a b"] assms(5) show ?thesis by (simp add: split)
qed

text \<open>
  The contract of a \<open>Source\<close> that answers for the branch \<open>br\<close>: \<open>Transfers\<close> returns every Transfer of the inclusive
  range in block order, \<open>BlockByNumber\<close> the header with the branch's hash. Either may fail.
\<close>

locale branch_source =
  fixes transfers :: "uint64 \<Rightarrow> uint64 \<Rightarrow> 'e + chainTransfer list" and bbn :: "uint64 \<Rightarrow> 'e + block" and br :: branch
  assumes branch: "branch_ok br"
    and whole_range: "a \<le> b \<Longrightarrow> transfers a b = Inr ts \<Longrightarrow> map FromTransfer ts = branch_log br (unat a) (Suc (unat b))"
    and own_hash: "bbn n = Inr blk \<Longrightarrow> B_Hash blk = bhash br (unat n)"
begin

text \<open>
  With the branch held from a block \<open>s\<close> up to \<open>start\<close>, after whatever else, the loop extends it to the tip, or to some block short of it on a
  failure.
\<close>

lemma sync_loop_extends:
  assumes "holds opts c (pre @ branch_log br s (unat start))" "s \<le> unat start" "start \<le> tip" "\<And>k. log_ok (O_Start opts) (pre @ branch_log br s k)"
  shows "\<exists>c' p' k err. sync_loop transfers opt tip start c n p =
      (c', n + length (branch_log br (unat start) k), p', err) \<and>
    unat start \<le> k \<and> k \<le> Suc (unat tip) \<and> holds opts c' (pre @ branch_log br s k) \<and>
    (err = None \<longrightarrow> k = Suc (unat tip)) \<and> (never_fails transfers bbn tip \<longrightarrow> err = None)"
  using assms(1-3)
proof (induction "unat tip - unat start" arbitrary: start c n p rule: less_induct)
  case less
  define stop where "stop = chunk_stop (chunk_of opt) start tip"
  have stop: "start \<le> stop" "stop \<le> tip"
    unfolding stop_def by (rule chunk_stop_bounds [OF chunk_of_pos less.prems(3)])+
  note s = sync_loop.simps [of transfers opt tip start c n p, folded stop_def]
  show ?case
  proof (cases "transfers start stop")
    case (Inl e)
    then have "\<not> never_fails transfers bbn tip" unfolding never_fails_def using stop by (metis Inl_Inr_False)
    with Inl less.prems show ?thesis by (intro exI [of _ c] exI [of _ p] exI [of _ "unat start"]) (auto simp: s word_le_nat_alt)
  next
    case (Inr ts)
    let ?q = "branch_log br (unat start) (Suc (unat stop))"
    have ts: "map FromTransfer ts = ?q" using whole_range [OF stop(1) Inr] .
    then have len: "length ts = length ?q" by (metis length_map)
    obtain c' where c': "Append c ?q = Inr c'" "holds opts c' (pre @ branch_log br s (Suc (unat stop)))"
      using Append_chunk [OF less.prems(1) branch less.prems(2), of "Suc (unat stop)"] assms(4) stop(1)
      by (auto simp: word_le_nat_alt)
    show ?thesis
    proof (cases "stop = tip")
      case True
      with c' Inr ts len stop less.prems show ?thesis
        by (intro exI [of _ c'] exI [of _ "p @ [stop]"] exI [of _ "Suc (unat tip)"])
          (auto simp: s word_le_nat_alt)
    next
      case False
      then have lt: "stop < tip" using stop by simp
      note next_nat = word_succ_nat [OF lt]
      have "unat tip - unat (stop + 1) < unat tip - unat start" "s \<le> unat (stop + 1)" "stop + 1 \<le> tip"
        using stop lt next_nat less.prems by (auto simp: word_le_nat_alt word_less_nat_alt)
      note IH = less.hyps [OF this(1) _ this(2,3), of c' "n + length ts" "p @ [stop]"]
      obtain c2 p2 k err where r: "sync_loop transfers opt tip (stop + 1) c' (n + length ts) (p @ [stop]) =
          (c2, n + length ts + length (branch_log br (unat (stop + 1)) k), p2, err)"
        "unat (stop + 1) \<le> k" "k \<le> Suc (unat tip)" "holds opts c2 (pre @ branch_log br s k)"
        "err = None \<longrightarrow> k = Suc (unat tip)" "never_fails transfers bbn tip \<longrightarrow> err = None"
        using IH c'(2) unfolding next_nat by auto
      have "length ts + length (branch_log br (unat (stop + 1)) k) = length (branch_log br (unat start) k)"
        using branch_log_split [of "unat start" "unat (stop + 1)" k br] r(2) stop(1) next_nat
        by (simp add: len word_le_nat_alt)
      with r have "sync_loop transfers opt tip start c n p = (c2, n + length (branch_log br (unat start) k), p2, err)"
        using Inr False less.prems(3) c'(1) ts by (simp add: s)
      moreover have "unat start \<le> k" using r(2) next_nat stop(1) by (simp add: word_le_nat_alt)
      ultimately show ?thesis using r(3-6) by blast
    qed
  qed
qed

lemma sync_loop_advances:
  assumes "holds opts c (branch_log br (unat (O_Start opts)) (unat start))" "O_Start opts \<le> start" "start \<le> tip"
  shows "\<exists>c' p' k err. sync_loop transfers opt tip start c n p =
      (c', n + length (branch_log br (unat start) k), p', err) \<and>
    unat start \<le> k \<and> k \<le> Suc (unat tip) \<and> holds opts c' (branch_log br (unat (O_Start opts)) k) \<and>
    (err = None \<longrightarrow> k = Suc (unat tip)) \<and> (never_fails transfers bbn tip \<longrightarrow> err = None)"
  using sync_loop_extends [of opts c "[]" "unat (O_Start opts)" start tip opt n p] assms branch_log_ok [OF branch]
  by (simp add: word_le_nat_alt)

end

lemma first_where_failed: "first_where_loop p i j (Some e) = Inl e"
proof (induction "j - i" arbitrary: j rule: less_induct)
  case less
  show ?case
    using less.hyps [of "(i + j) div 2"] by (simp add: first_where_loop.simps [of p i j] Let_def)
qed

lemma first_where_Inr:
  "\<forall>k < n. \<forall>x. p k = Inr x \<longrightarrow> x = f k \<Longrightarrow> j \<le> n \<Longrightarrow> first_where_loop p i j None = Inr r \<Longrightarrow>
   r = go_search_loop f i j"
proof (induction "j - i" arbitrary: i j rule: less_induct)
  case less
  show ?case
  proof (cases "i < j")
    case False
    with less.prems show ?thesis by (simp add: first_where_loop.simps [of p i j] go_search_loop.simps [of f r j])
  next
    case True
    let ?h = "(i + j) div 2"
    have loop: "first_where_loop p i j None = (case p ?h of Inl e \<Rightarrow> Inl e
        | Inr b \<Rightarrow> if b then first_where_loop p i ?h None else first_where_loop p (?h + 1) j None)"
      using True by (simp add: first_where_loop.simps [of p i j] Let_def first_where_failed split: sum.split)
    obtain b where b: "p ?h = Inr b" using less.prems(3) by (cases "p ?h") (simp_all add: loop)
    then have "b = f ?h" using less.prems(1,2) True by simp
    moreover have "r = go_search_loop f i ?h" if "b"
      by (rule less.hyps) (use less.prems True b that in \<open>simp_all add: loop\<close>)
    moreover have "r = go_search_loop f (?h + 1) j" if "\<not> b"
      by (rule less.hyps) (use less.prems True b that in \<open>simp_all add: loop\<close>)
    ultimately show ?thesis using True by (simp add: go_search_loop.simps [of f i j] Let_def)
  qed
qed

lemma firstWhere_Inr: "firstWhere n p = Inr r \<Longrightarrow> \<forall>k < n. \<forall>x. p k = Inr x \<longrightarrow> x = f k \<Longrightarrow> r = go_search n f"
  using first_where_Inr [of n p f n 0 r] by (simp add: firstWhere_def go_search_def)

text \<open>Held records that are all of the chain: everything the branch has up to the newest of them.\<close>

definition on_branch :: "branch \<Rightarrow> options \<Rightarrow> cacheRecord list \<Rightarrow> bool" where
  "on_branch br opts rs \<longleftrightarrow>
     rs = [] \<or> rs = branch_log br (unat (O_Start opts)) (Suc (unat (Rec_BlockNumber (last rs))))"

lemma on_branch_commits:
  assumes "commits old br" "branch_ok old" "rs = branch_log old (unat (O_Start opts)) m"
    and "rs \<noteq> [] \<longrightarrow> bhash old (unat (Rec_BlockNumber (last rs))) = bhash br (unat (Rec_BlockNumber (last rs)))"
  shows "on_branch br opts rs"
  using commits_log [OF assms(1), of "unat (Rec_BlockNumber (last rs))" "Suc (unat (Rec_BlockNumber (last rs)))" "unat (O_Start opts)"]
    branch_log_to_last [OF assms(2), of "unat (O_Start opts)" m] assms(3,4)
  by (auto simp: on_branch_def)

text \<open>
  Whether record \<open>i\<close> of the old branch has left the chain: false up to the fork and true from there.
\<close>

definition gone :: "branch \<Rightarrow> cacheRecord list \<Rightarrow> nat \<Rightarrow> bool" where
  "gone br rs i \<longleftrightarrow> bhash br (unat (Rec_BlockNumber (rs ! i))) \<noteq> Rec_BlockHash (rs ! i)"

lemma gone_monotone:
  assumes "commits old br" "branch_ok old" "rs = branch_log old a m"
  shows "monotone_search (length rs) (gone br rs)"
proof
  fix i j
  assume ij: "i \<le> j" "j < length rs" "gone br rs i"
  have "sorted (map Rec_BlockNumber rs)" using branch_log_sorted [OF assms(2)] assms(3) by simp
  then have le: "unat (Rec_BlockNumber (rs ! i)) \<le> unat (Rec_BlockNumber (rs ! j))"
    using ij by (simp add: sorted_iff_nth_mono word_le_nat_alt)
  have "Rec_BlockHash (rs ! k) = bhash old (unat (Rec_BlockNumber (rs ! k)))" if "k < length rs" for k
    using branch_log_record(4) [OF assms(2)] nth_mem [OF that] assms(3) by simp
  then show "gone br rs j"
    using ij le assms(1) unfolding gone_def commits_def by (metis le_less_trans)
qed

context branch_source
begin

lemma stillOnChain_holds:
  assumes "holds opts c rs" "buffer c = []" "i < length rs"
  shows "stillOnChain bbn c i =
    (case bbn (Rec_BlockNumber (rs ! i)) of
       Inl e \<Rightarrow> Inl (VerifyingBlock (Rec_BlockNumber (rs ! i)) e) | Inr b \<Rightarrow> Inr (\<not> gone br rs i))"
proof -
  have "disk c = header opts @ encs record_bytes rs @ []" "\<forall>r \<in> set rs. record_ok r"
    using assms(1,2) by (auto simp: holds_def log_ok_def)
  from recordAt_holds [OF this(1) assms(3) this(2)] own_hash
  show ?thesis by (auto simp: stillOnChain_def gone_def split: sum.split)
qed

end

text \<open>The outcome of \<open>verify\<close> over the held records \<open>rs\<close>: what the Cache holds afterwards, by what is reported.\<close>

definition verified :: "branch \<Rightarrow> options \<Rightarrow> cacheRecord list \<Rightarrow> cache \<Rightarrow> 'e sync_error + reorg_note option \<Rightarrow> bool" where
  "verified br opts rs c' res \<longleftrightarrow>
     (case res of
        Inl e \<Rightarrow> holds opts c' rs
      | Inr None \<Rightarrow> holds opts c' rs \<and> on_branch br opts rs
      | Inr (Some rg) \<Rightarrow>
          (let ks = takeWhile (\<lambda>r. Rec_BlockNumber r < Rg_Block rg) rs
           in holds opts c' ks \<and> on_branch br opts ks \<and> Rg_Dropped rg = length rs - length ks \<and>
              (\<exists>i < length rs. gone br rs i \<and> Rec_BlockNumber (rs ! i) = Rg_Block rg \<and> (\<forall>k < i. \<not> gone br rs k))))"

lemma branch_hash_held:
  "branch_ok old \<Longrightarrow> rs = branch_log old a m \<Longrightarrow> k < length rs \<Longrightarrow>
   bhash old (unat (Rec_BlockNumber (rs ! k))) = Rec_BlockHash (rs ! k)"
  using branch_log_record(4) [of old "rs ! k" a m] nth_mem [of k rs] by simp

lemma all_at_or_below:
  assumes "\<forall>r \<in> set rs. Rec_BlockNumber r \<le> tip" "(tip :: uint64) \<noteq> - 1"
  shows "takeWhile (\<lambda>r. Rec_BlockNumber r < tip + 1) rs = rs"
proof -
  have "tip < - 1" using assms(2) by (metis word_order.extremum order.not_eq_order_implies_strict)
  then have "r < tip + 1 \<longleftrightarrow> r \<le> tip" for r
    using word_succ_nat [of tip "- 1"] by (auto simp: word_le_nat_alt word_less_nat_alt)
  then show ?thesis using assms(1) by simp
qed

text \<open>Cutting at the block of the first record that is gone leaves records of the new branch only.\<close>

lemma fork_cut:
  assumes old: "rs = branch_log old (unat (O_Start opts)) m" "branch_ok old" "commits old br"
    and i: "i < length rs" "\<forall>k < i. \<not> gone br rs k"
  shows "on_branch br opts (takeWhile (\<lambda>r. Rec_BlockNumber r < Rec_BlockNumber (rs ! i)) rs)"
proof -
  let ?ks = "takeWhile (\<lambda>r. Rec_BlockNumber r < Rec_BlockNumber (rs ! i)) rs"
  have "length ?ks \<le> i"
    using i(1) by (metis less_irrefl not_le_imp_less nth_mem set_takeWhileD takeWhile_nth)
  have "bhash old (unat (Rec_BlockNumber (last ?ks))) = bhash br (unat (Rec_BlockNumber (last ?ks)))" if "?ks \<noteq> []"
  proof -
    let ?j = "length ?ks - 1"
    have j: "?j < length ?ks" "?j < i" using length_greater_0_conv [THEN iffD2, OF that] \<open>length ?ks \<le> i\<close> by linarith+
    have "last ?ks = rs ! ?j" using that j(1) by (simp add: last_conv_nth takeWhile_nth)
    moreover have "\<not> gone br rs ?j" "?j < length rs" using i j(2) by auto
    ultimately show ?thesis using branch_hash_held [OF old(2,1), of ?j] by (simp add: gone_def)
  qed
  then show ?thesis
    using on_branch_commits [OF old(3,2), of ?ks opts "min m (unat (Rec_BlockNumber (rs ! i)))"]
      branch_log_takeWhile [OF old(2)] old(1) by simp
qed

text \<open>The search for the fork block, on a flushed Cache whose newest record is gone.\<close>

context branch_source
begin

lemma fork_search:
  assumes fl: "holds opts c rs" "buffer c = []"
    and mono: "monotone_search (length rs) (gone br rs)" and newest: "rs \<noteq> []" "gone br rs (length rs - 1)"
    and below: "\<forall>r \<in> set rs. Rec_BlockNumber r \<le> tip"
  shows "case firstWhere (length rs) (\<lambda>i. map_sum id Not (stillOnChain bbn c i)) of
      Inl e \<Rightarrow> \<not> never_fails transfers bbn tip
    | Inr i \<Rightarrow> i < length rs \<and> gone br rs i \<and> (\<forall>k < i. \<not> gone br rs k)"
proof -
  let ?p = "\<lambda>i. map_sum id Not (stillOnChain bbn c i)" and ?n = "length rs"
  have p: "?p k = (case bbn (Rec_BlockNumber (rs ! k)) of
      Inl e \<Rightarrow> Inl (VerifyingBlock (Rec_BlockNumber (rs ! k)) e) | Inr b \<Rightarrow> Inr (gone br rs k))" if "k < ?n" for k
    using stillOnChain_holds [OF fl that] by (simp split: sum.split)
  show ?thesis
  proof (cases "firstWhere ?n ?p")
    case (Inl e)
    have "\<not> never_fails transfers bbn tip"
    proof
      assume "never_fails transfers bbn tip"
      then have "\<forall>k < ?n. ?p k = Inr (gone br rs k)" unfolding never_fails_def using p below by (metis nth_mem sum.case(2))
      from firstWhere_total [OF this] Inl show False by simp
    qed
    with Inl show ?thesis by simp
  next
    case (Inr i)
    then have i: "i = go_search ?n (gone br rs)"
      by (rule firstWhere_Inr) (use p in \<open>auto split: sum.splits\<close>)
    have "i < ?n"
      using monotone_search.search_iff [OF mono, of "?n - 1"] newest unfolding i by (cases rs) auto
    then show ?thesis
      using Inr monotone_search.search_at [OF mono] monotone_search.search_before [OF mono] unfolding i by auto
  qed
qed

end

lemma verify_holds:
  assumes h: "holds opts c rs" and old: "rs = branch_log old (unat (O_Start opts)) m" "branch_ok old" "commits old br"
    and src: "branch_source transfers bbn br" and tip: "\<forall>r \<in> set rs. Rec_BlockNumber r \<le> tip" "tip \<noteq> - 1"
  shows "\<exists>c' res. verify bbn c tip = (c', res) \<and> verified br opts rs c' res \<and>
    (never_fails transfers bbn tip \<longrightarrow> (\<exists>reorg. res = Inr reorg))"
proof (cases "rs = []")
  case True
  with h show ?thesis by (auto simp: verify_def holds_def on_branch_def verified_def)
next
  case False
  let ?c = "flush c" and ?n = "length rs"
  note fl = holds_flush(1) [OF h] holds_flush(2) [of c]
  have count: "c_count c = ?n" using h by (simp add: holds_def)
  have n: "firstAtOrAbove ?c (tip + 1) = Inr ?n"
    using firstAtOrAbove_holds [OF fl(1,2), of "tip + 1"] all_at_or_below [OF tip] by simp
  have newest: "?n - 1 < ?n" "last rs = rs ! (?n - 1)" using False by (simp_all add: last_conv_nth)
  note v = verify_def [of bbn c tip, unfolded Let_def n count]
  show ?thesis
  proof (cases "bbn (Rec_BlockNumber (rs ! (?n - 1)))")
    case (Inl e)
    then have "\<not> never_fails transfers bbn tip"
      unfolding never_fails_def using tip(1) newest(1) by (metis Inl_Inr_False nth_mem)
    with Inl show ?thesis
      using branch_source.stillOnChain_holds [OF src fl(1,2) newest(1)] fl False by (simp add: v verified_def)
  next
    case (Inr b)
    note here = branch_source.stillOnChain_holds [OF src fl(1,2) newest(1), unfolded Inr, simplified]
    show ?thesis
    proof (cases "gone br rs (?n - 1)")
      case False
      then have "on_branch br opts rs"
        using on_branch_commits [OF old(3,2,1)] branch_hash_held [OF old(2,1) newest(1)] newest(2) by (simp add: gone_def)
      then show ?thesis using here False fl \<open>rs \<noteq> []\<close> by (simp add: v verified_def)
    next
      case True
      note search = branch_source.fork_search [OF src fl(1,2) gone_monotone [OF old(3,2,1)] False True tip(1)]
      show ?thesis
      proof (cases "firstWhere ?n (\<lambda>i. map_sum id Not (stillOnChain bbn ?c i))")
        case (Inl e)
        with search fl here True \<open>rs \<noteq> []\<close> show ?thesis by (simp add: v verified_def)
      next
        case (Inr i)
        then have i: "i < ?n" "gone br rs i" "\<forall>k < i. \<not> gone br rs k" using search by auto
        have at: "recordAt ?c i = Inr (rs ! i)"
          using recordAt_holds [of ?c opts rs "[]" i] fl i(1) by (auto simp: holds_def log_ok_def)
        show ?thesis
          using Truncate_holds [OF fl(1), of "Rec_BlockNumber (rs ! i)"] fork_cut [OF old i(1,3)] here True Inr at i \<open>rs \<noteq> []\<close>
          by (auto simp: v verified_def Let_def)
      qed
    qed
  qed
qed

lemma Last_holds: "holds opts c rs \<Longrightarrow> Last c = (last (zero_record # rs), rs \<noteq> [])"
  by (auto simp: Last_def holds_def)

text \<open>From records that are all of the branch, the reading half of a Sync reaches the tip.\<close>

definition resume :: "options \<Rightarrow> cacheRecord list \<Rightarrow> uint64" where
  "resume opts rs = (if rs = [] then O_Start opts else Rec_BlockNumber (last rs) + 1)"

lemma Sync_after_verify:
  assumes "B_Hash tip \<noteq> 0" "verify bbn c0 (B_Number tip) = (c, Inr reorg)" "holds opts c rs"
  shows "Sync transfers bbn c0 tip opt =
    (if rs \<noteq> [] \<and> B_Number tip \<le> Rec_BlockNumber (last rs)
     then (c, \<lparr>Sy_Reorg = reorg, Sy_Appended = 0\<rparr>, [], None)
     else let (c', n, progress, err) = sync_loop transfers opt (B_Number tip) (resume opts rs) c 0 []
          in (c', \<lparr>Sy_Reorg = reorg, Sy_Appended = n\<rparr>, progress, err))"
  using assms Last_holds [OF assms(3)] by (auto simp: Sync_def holds_def resume_def split: prod.split)

lemma resume_on_branch:
  assumes "on_branch br opts rs" "log_ok (O_Start opts) rs" "rs \<noteq> [] \<longrightarrow> Rec_BlockNumber (last rs) < tip"
  shows "rs = branch_log br (unat (O_Start opts)) (unat (resume opts rs))" "O_Start opts \<le> resume opts rs"
proof -
  show "rs = branch_log br (unat (O_Start opts)) (unat (resume opts rs))"
    using assms word_succ_nat [of "Rec_BlockNumber (last rs)" tip] by (auto simp: on_branch_def resume_def)
  have "O_Start opts \<le> Rec_BlockNumber (last rs)" if "rs \<noteq> []"
    using that assms(2) by (simp add: log_ok_def)
  then show "O_Start opts \<le> resume opts rs"
    using assms(3) word_succ_nat [of "Rec_BlockNumber (last rs)" tip] by (auto simp: resume_def word_le_nat_alt)
qed

lemma Sync_reads:
  assumes src: "branch_source transfers bbn br" and tip: "B_Hash tip \<noteq> 0"
    and v: "verify bbn c0 (B_Number tip) = (c, Inr reorg)" and h: "holds opts c rs" and on: "on_branch br opts rs"
    and below: "\<forall>r \<in> set rs. Rec_BlockNumber r \<le> B_Number tip"
  shows "\<exists>c' sy p err k. Sync transfers bbn c0 tip opt = (c', sy, p, err) \<and> Sy_Reorg sy = reorg \<and>
    holds opts c' (branch_log br (unat (O_Start opts)) k) \<and>
    (err = None \<longrightarrow> k = Suc (unat (B_Number tip))) \<and> (never_fails transfers bbn (B_Number tip) \<longrightarrow> err = None)"
proof -
  have ok: "log_ok (O_Start opts) rs" using h by (simp add: holds_def)
  note sync = Sync_after_verify [OF tip v h, of transfers opt]
  show ?thesis
  proof (cases "rs \<noteq> [] \<and> B_Number tip \<le> Rec_BlockNumber (last rs)")
    case True
    then have "Rec_BlockNumber (last rs) = B_Number tip" using below by (simp add: order.antisym)
    then have "rs = branch_log br (unat (O_Start opts)) (Suc (unat (B_Number tip)))"
      using True on by (auto simp: on_branch_def)
    with True sync h show ?thesis by auto
  next
    case False
    then have less: "rs \<noteq> [] \<longrightarrow> Rec_BlockNumber (last rs) < B_Number tip" by auto
    define start where "start = resume opts rs"
    note from_here = resume_on_branch [OF on ok less, folded start_def]
    show ?thesis
    proof (cases "start \<le> B_Number tip")
      case True
      obtain c' p' k err where "sync_loop transfers opt (B_Number tip) start c 0 [] =
          (c', 0 + length (branch_log br (unat start) k), p', err)"
        "holds opts c' (branch_log br (unat (O_Start opts)) k)"
        "err = None \<longrightarrow> k = Suc (unat (B_Number tip))" "never_fails transfers bbn (B_Number tip) \<longrightarrow> err = None"
        using branch_source.sync_loop_advances [OF src h [unfolded from_here(1)] from_here(2) True, of opt 0 "[]"] by blast
      with sync False show ?thesis by (auto simp: start_def)
    next
      case over: False
      have empty: "rs = []"
      proof (rule ccontr)
        assume "rs \<noteq> []"
        then show False
          using over less word_succ_nat [of "Rec_BlockNumber (last rs)" "B_Number tip"]
          by (simp add: start_def resume_def word_le_nat_alt word_less_nat_alt)
      qed
      have "rs = branch_log br (unat (O_Start opts)) (Suc (unat (B_Number tip)))"
        using over empty by (simp add: start_def resume_def word_le_nat_alt)
      moreover have "Sync transfers bbn c0 tip opt = (c, \<lparr>Sy_Reorg = reorg, Sy_Appended = 0\<rparr>, [], None)"
        using sync False over by (simp add: start_def sync_loop.simps [of transfers opt "B_Number tip" "resume opts rs"])
      ultimately show ?thesis using h by auto
    qed
  qed
qed

lemma on_branch_not_gone:
  assumes "on_branch br opts rs" "branch_ok br" "i < length rs"
  shows "\<not> gone br rs i"
proof -
  have "rs = branch_log br (unat (O_Start opts)) (Suc (unat (Rec_BlockNumber (last rs))))"
    using assms(1,3) by (auto simp: on_branch_def)
  with branch_log_record(4) [OF assms(2), of "rs ! i"] assms(3) show ?thesis
    unfolding gone_def by (metis nth_mem)
qed

lemma held_log: "log_ok (O_Start opts) rs \<Longrightarrow> \<not> O_Fresh opts \<Longrightarrow>
  \<exists>c. Open False (header opts @ encs record_bytes rs) opts = Inr c \<and> holds opts c rs \<and> c_repaired c = None"
  using Open_holds [of opts "encs record_bytes rs"] kept_encs [of "O_Start opts" rs] by simp

lemma verify_stands:
  assumes h: "holds opts c rs" and ks: "takeWhile (\<lambda>r. Rec_BlockNumber r < tip + 1) rs = ks @ [r]"
    and r: "bbn (Rec_BlockNumber r) = Inr b" "B_Hash b = Rec_BlockHash r"
  shows "verify bbn c tip = (flush c, Inr None)"
proof -
  note fl = holds_flush(1) [OF h] holds_flush(2) [of c]
  have n: "firstAtOrAbove (flush c) (tip + 1) = Inr (Suc (length ks))"
    using firstAtOrAbove_holds [OF fl, of "tip + 1"] ks by simp
  obtain qs where rs: "rs = ks @ r # qs"
    using takeWhile_dropWhile_id [of "\<lambda>r. Rec_BlockNumber r < tip + 1" rs] ks by (metis append_Cons append_Nil append_assoc)
  then have "recordAt (flush c) (length ks) = Inr r"
    using recordAt_holds [of "flush c" opts rs "[]" "length ks"] fl by (auto simp: holds_def log_ok_def)
  then have "stillOnChain bbn (flush c) (length ks) = Inr True" using r by (simp add: stillOnChain_def)
  then show ?thesis using n h rs by (simp add: verify_def Let_def holds_def)
qed

section \<open>A source for examples\<close>

definition toTransfer :: "cacheRecord \<Rightarrow> chainTransfer" where
  "toTransfer r =
     \<lparr>S_BlockNumber = Rec_BlockNumber r, S_BlockHash = Rec_BlockHash r, S_LogIndex = 0, S_Timestamp = Rec_Timestamp r,
      CT_From = Rec_From r, CT_To = Rec_To r, CT_Value = Rec_Value r\<rparr>"

definition serve_transfers :: "branch \<Rightarrow> uint64 \<Rightarrow> uint64 \<Rightarrow> unit + chainTransfer list" where
  "serve_transfers br a b = Inr (map toTransfer (branch_log br (unat a) (Suc (unat b))))"

definition serve_blocks :: "branch \<Rightarrow> uint64 \<Rightarrow> unit + block" where
  "serve_blocks br n = Inr \<lparr>B_Number = n, B_Hash = bhash br (unat n), B_ParentHash = 0, B_Timestamp = 0\<rparr>"

definition demo_branch :: "hash \<Rightarrow> nat list \<Rightarrow> branch" where
  "demo_branch h ns =
     (let hs = \<lambda>n. if n < 105 then 1 else h
      in \<lparr>bhash = hs, brecords = \<lambda>n. replicate (count_list ns n) ((demo_record (of_nat n))\<lparr>Rec_BlockHash := hs n\<rparr>)\<rparr>)"

lemma From_toTransfer [simp]: "FromTransfer (toTransfer r) = r"
  by (simp add: FromTransfer_def toTransfer_def)

lemma demo_source: "branch_ok br \<Longrightarrow> branch_source (serve_transfers br) (serve_blocks br) br \<and> never_fails (serve_transfers br) (serve_blocks br) tip"
  by (auto simp: branch_source_def never_fails_def serve_transfers_def serve_blocks_def comp_def)

lemma demo_branch_ok: "\<forall>n \<in> set ns. n < 2 ^ 64 \<Longrightarrow> branch_ok (demo_branch h ns)"
proof -
  assume ns: "\<forall>n \<in> set ns. n < 2 ^ 64"
  have "unat (of_nat n :: uint64) = n" if "count_list ns n \<noteq> 0" for n
  proof -
    have "n \<in> set ns" using that count_list_0_iff by metis
    then show ?thesis using ns by (simp add: unat_of_nat)
  qed
  moreover have "record_ok ((demo_record n)\<lparr>Rec_BlockHash := x\<rparr>)" for n x
    by (simp add: record_ok_def demo_record_def in_i64_def amount_ok_def)
  ultimately show ?thesis
    by (auto simp: branch_ok_def demo_branch_def Let_def) (auto simp: demo_record_def)
qed

lemma demo_commits: "h \<noteq> h' \<Longrightarrow> (\<forall>n < 105. count_list ns n = count_list ns' n) \<Longrightarrow> commits (demo_branch h ns) (demo_branch h' ns')"
  by (auto simp: commits_def demo_branch_def Let_def split: if_splits)

lemma demo_bhash [simp]: "bhash (demo_branch h ns) n = (if n < 105 then 1 else h)"
  by (simp add: demo_branch_def)

lemma demo_options_simps [simp]: "O_Start demo_options = 100" "\<not> O_Fresh demo_options"
  by (simp_all add: demo_options_def)

lemma demo_held: "branch_ok br \<Longrightarrow> \<exists>c. holds demo_options c (branch_log br 100 m)"
  using held_log [OF branch_log_ok, of br demo_options m] by auto

lemma demo_below: "branch_ok br \<Longrightarrow> \<forall>r \<in> set (branch_log br a (Suc (unat tip))). Rec_BlockNumber r \<le> tip"
  using branch_log_record(3) [of br _ a "Suc (unat tip)"] by (fastforce simp: word_le_nat_alt)

lemma Sync_holds:
  assumes "holds opts c rs" "rs = branch_log old (unat (O_Start opts)) m" "branch_ok old" "commits old br"
    and "branch_source transfers bbn br" "\<forall>r \<in> set rs. Rec_BlockNumber r \<le> B_Number tip" "B_Number tip \<noteq> - 1" "B_Hash tip \<noteq> 0"
  shows "\<exists>c' sy p err. Sync transfers bbn c tip opt = (c', sy, p, err) \<and>
    (err = None \<longrightarrow> holds opts c' (branch_log br (unat (O_Start opts)) (Suc (unat (B_Number tip)))) \<and>
       (Sy_Reorg sy = None \<longleftrightarrow> on_branch br opts rs)) \<and>
    (err \<noteq> None \<longrightarrow> (\<exists>b \<in> {old, br}. \<exists>k. holds opts c' (branch_log b (unat (O_Start opts)) k))) \<and>
    (never_fails transfers bbn (B_Number tip) \<longrightarrow> err = None)"
proof -
  have ok: "branch_ok br" using assms(5) by (simp add: branch_source_def)
  obtain cv res where v: "verify bbn c (B_Number tip) = (cv, res)" "verified br opts rs cv res"
    "never_fails transfers bbn (B_Number tip) \<longrightarrow> (\<exists>reorg. res = Inr reorg)"
    using verify_holds [OF assms(1-7)] by blast
  show ?thesis
  proof (cases res)
    case (Inl e)
    then have "Sync transfers bbn c tip opt = (cv, \<lparr>Sy_Reorg = None, Sy_Appended = 0\<rparr>, [], Some e)"
      using v(1) assms(8) by (simp add: Sync_def)
    moreover have "holds opts cv (branch_log old (unat (O_Start opts)) m)" using v(2) Inl assms(2) by (simp add: verified_def)
    ultimately show ?thesis using v(3) Inl by auto
  next
    case (Inr reorg)
    define ks where "ks = (case reorg of None \<Rightarrow> rs | Some rg \<Rightarrow> takeWhile (\<lambda>r. Rec_BlockNumber r < Rg_Block rg) rs)"
    have ks: "holds opts cv ks" "on_branch br opts ks" "reorg = None \<longleftrightarrow> on_branch br opts rs"
      using v(2) on_branch_not_gone [of br opts rs, OF _ ok] unfolding Inr ks_def
      by (cases reorg; auto simp: verified_def Let_def)+
    have "\<forall>r \<in> set ks. Rec_BlockNumber r \<le> B_Number tip"
      using assms(6) by (auto simp: ks_def split: option.splits dest: set_takeWhileD)
    from Sync_reads [OF assms(5,8) v(1) [unfolded Inr] ks(1,2) this, of opt]
    obtain c' sy p err k where s: "Sync transfers bbn c tip opt = (c', sy, p, err)" "Sy_Reorg sy = reorg"
      "holds opts c' (branch_log br (unat (O_Start opts)) k)" "err = None \<longrightarrow> k = Suc (unat (B_Number tip))"
      "never_fails transfers bbn (B_Number tip) \<longrightarrow> err = None" by blast
    show ?thesis by (intro exI conjI, rule s(1)) (use s ks(3) in auto)
  qed
qed

section \<open>Properties\<close>

text \<open>
  C7. A Sync brings the Cache to the tip. When the Cache holds an earlier state of the chain, nothing of it
  past the tip, a Sync that returns without an error leaves it holding exactly the chain's records from
  the start block to the tip, whatever the chunk and wherever the chain forked; it reports a
  Reorg exactly when what it held was no longer the chain's. A Sync that fails leaves whole
  blocks of one of the two branches from the start block on, and it fails only when the source does.
\<close>

theorem Sync_exact:
  assumes "holds opts c rs" "rs = branch_log old (unat (O_Start opts)) m" "branch_ok old" "commits old br"
    and "branch_source transfers bbn br" "\<forall>r \<in> set rs. Rec_BlockNumber r \<le> B_Number tip" "B_Number tip \<noteq> - 1" "B_Hash tip \<noteq> 0"
  shows "\<exists>c' sy p err. Sync transfers bbn c tip opt = (c', sy, p, err) \<and>
    (err = None \<longrightarrow> holds opts c' (branch_log br (unat (O_Start opts)) (Suc (unat (B_Number tip)))) \<and>
       (Sy_Reorg sy = None \<longleftrightarrow> on_branch br opts rs)) \<and>
    (err \<noteq> None \<longrightarrow> (\<exists>b \<in> {old, br}. \<exists>k. holds opts c' (branch_log b (unat (O_Start opts)) k))) \<and>
    (never_fails transfers bbn (B_Number tip) \<longrightarrow> err = None)"
  by (rule Sync_holds [OF assms])

theorem Sync_exact_witness:
  "\<exists>c c' sy p. Sync (serve_transfers (demo_branch 3 [100, 105])) (serve_blocks (demo_branch 3 [100, 105])) c
      \<lparr>B_Number = 110, B_Hash = 3, B_ParentHash = 0, B_Timestamp = 0\<rparr> 4 = (c', sy, p, None) \<and>
    holds demo_options c' (branch_log (demo_branch 3 [100, 105]) 100 111)"
proof -
  let ?old = "demo_branch 2 [100, 110]" and ?br = "demo_branch 3 [100, 105]"
  let ?rs = "branch_log ?old 100 (Suc (unat (110 :: uint64)))"
  have ok: "branch_ok ?old" "branch_ok ?br" by (simp_all add: demo_branch_ok)
  have commits: "commits ?old ?br" by (rule demo_commits) simp_all
  obtain c where c: "holds demo_options c ?rs" using demo_held [OF ok(1)] by blast
  note src = demo_source [OF ok(2)]
  show ?thesis
    using Sync_exact [OF c _ ok(1) commits src [THEN conjunct1], of "Suc (unat (110 :: uint64))"
        "\<lparr>B_Number = 110, B_Hash = 3, B_ParentHash = 0, B_Timestamp = 0\<rparr>" 4]
      demo_below [OF ok(1), of 100 110] src by auto
qed

text \<open>
  C32. The fork block. When \<open>verify\<close> reports a Reorg, its block is that of the first held record whose block
  the chain no longer has, exactly the records from that block on are dropped, and what is left is
  all the chain has up to the newest record kept.
\<close>

theorem verify_finds_fork:
  assumes "holds opts c rs" "rs = branch_log old (unat (O_Start opts)) m" "branch_ok old" "commits old br"
    and "branch_source transfers bbn br" "\<forall>r \<in> set rs. Rec_BlockNumber r \<le> tip" "tip \<noteq> - 1"
    and "verify bbn c tip = (c', Inr (Some rg))"
  shows "\<exists>i < length rs. Rg_Block rg = Rec_BlockNumber (rs ! i) \<and>
      bhash br (unat (Rec_BlockNumber (rs ! i))) \<noteq> Rec_BlockHash (rs ! i) \<and>
      (\<forall>k < i. bhash br (unat (Rec_BlockNumber (rs ! k))) = Rec_BlockHash (rs ! k)) \<and>
      holds opts c' (takeWhile (\<lambda>r. Rec_BlockNumber r < Rg_Block rg) rs) \<and>
      Rg_Dropped rg = length (dropWhile (\<lambda>r. Rec_BlockNumber r < Rg_Block rg) rs) \<and>
      on_branch br opts (takeWhile (\<lambda>r. Rec_BlockNumber r < Rg_Block rg) rs)"
proof -
  have "length (dropWhile P rs) = length rs - length (takeWhile P rs)" for P
    by (metis add_diff_cancel_left' length_append takeWhile_dropWhile_id)
  then show ?thesis
    using verify_holds [OF assms(1-7)] assms(8) by (auto simp: verified_def Let_def gone_def)
qed

theorem verify_finds_fork_witness:
  "\<exists>c c' rg. verify (serve_blocks (demo_branch 3 [100, 105])) c 110 = (c', Inr (Some rg)) \<and> Rg_Block rg = 110 \<and> Rg_Dropped rg = 1"
proof -
  let ?old = "demo_branch 2 [100, 110]" and ?br = "demo_branch 3 [100, 105]"
  let ?rs = "branch_log ?old 100 (Suc (unat (110 :: uint64)))"
  have ok: "branch_ok ?old" "branch_ok ?br" by (simp_all add: demo_branch_ok)
  have commits: "commits ?old ?br" by (rule demo_commits) simp_all
  obtain c where c: "holds demo_options c ?rs" using demo_held [OF ok(1)] by blast
  note src = demo_source [OF ok(2), THEN conjunct1]
  have "map (\<lambda>r. (Rec_BlockNumber r, Rec_BlockHash r)) ?rs = [(100, 1), (110, 2)]" by code_simp
  then obtain r q where rs: "?rs = [r, q]" "Rec_BlockNumber r = 100" "Rec_BlockNumber q = 110" "Rec_BlockHash q = 2"
    and one: "Rec_BlockHash r = 1" by (auto simp: map_eq_Cons_conv)
  have gone: "gone ?br ?rs 1" unfolding gone_def rs(1) by (simp add: rs(3,4))
  have h: "?rs = branch_log ?old (unat (O_Start demo_options)) (Suc (unat (110 :: uint64)))" by simp
  note below = demo_below [OF ok(1), of 100 110]
  obtain c' rg where v: "verify (serve_blocks ?br) c 110 = (c', Inr (Some rg))"
    using verify_holds [OF c h ok(1) commits src below] demo_source [OF ok(2)] gone
      on_branch_not_gone [OF _ ok(2), of demo_options ?rs 1] unfolding rs(1)
    by (auto simp: verified_def split: option.splits)
  obtain i where i: "i < length [r, q]" "Rg_Block rg = Rec_BlockNumber ([r, q] ! i)"
      "bhash ?br (unat (Rec_BlockNumber ([r, q] ! i))) \<noteq> Rec_BlockHash ([r, q] ! i)"
      "Rg_Dropped rg = length (dropWhile (\<lambda>r. Rec_BlockNumber r < Rg_Block rg) [r, q])"
    using verify_finds_fork [OF c h ok(1) commits src below _ v] unfolding rs(1) by auto
  have "i \<noteq> 0" using i(3) rs(2) one by (cases i) simp_all
  with i(1) have "i = 1" by simp
  with i v rs(2,3) show ?thesis by auto
qed

text \<open>
  C39. Half a block is never completed. Take a file that ends on a record boundary inside a block \<open>n\<close>: it holds the records \<open>rs\<close> of
  the chain up to there and lacks the rest \<open>qs\<close> of the block. It opens with nothing to repair. As long as the chain keeps what is held, a
  Sync succeeds, reports no Reorg, and adds exactly the blocks after the newest one held; so after it, and after any that follows, the Cache has the
  chain to the tip without \<open>qs\<close>. (A Reorg at or below the block would drop the half and read it again.)
\<close>

theorem half_block_never_completed:
  assumes "branch_source transfers bbn br" "never_fails transfers bbn (B_Number tip)" "B_Hash tip \<noteq> 0" "B_Number tip \<noteq> - 1" "\<not> O_Fresh opts"
    and "branch_log br (unat (O_Start opts)) (Suc n) = rs @ qs" "rs \<noteq> []" "unat (Rec_BlockNumber (last rs)) = n"
    and "holds opts c (rs @ branch_log br (Suc n) a)" "n \<le> unat (B_Number tip)" "a \<le> Suc (unat (B_Number tip))"
  shows "(\<exists>c0. Open False (header opts @ encs record_bytes rs) opts = Inr c0 \<and> c_repaired c0 = None \<and> holds opts c0 rs) \<and>
    branch_log br (unat (O_Start opts)) (Suc (unat (B_Number tip))) = rs @ qs @ branch_log br (Suc n) (Suc (unat (B_Number tip))) \<and>
    (\<exists>c' sy p. Sync transfers bbn c tip opt = (c', sy, p, None) \<and> Sy_Reorg sy = None \<and>
       holds opts c' (rs @ branch_log br (Suc n) (Suc (unat (B_Number tip)))))"
proof -
  let ?s = "unat (O_Start opts)" and ?T = "unat (B_Number tip)"
  have ok: "branch_ok br" using assms(1) by (simp add: branch_source_def)
  have rs: "?s \<le> unat (Rec_BlockNumber r) \<and> unat (Rec_BlockNumber r) \<le> n \<and> Rec_BlockHash r = bhash br (unat (Rec_BlockNumber r))" if "r \<in> set rs" for r
    using branch_log_record [OF ok, of r ?s "Suc n"] that assms(6) by simp
  have start: "?s \<le> n" using rs [of "last rs"] assms(7,8) by simp
  have rest: "Suc n \<le> unat (Rec_BlockNumber r) \<and> unat (Rec_BlockNumber r) < k \<and> Rec_BlockHash r = bhash br (unat (Rec_BlockNumber r))"
    if "r \<in> set (branch_log br (Suc n) k)" for r k
    using branch_log_record [OF ok that] by simp
  have logs: "log_ok (O_Start opts) rs" using branch_log_ok [OF ok, of "O_Start opts" "Suc n"] assms(6) by (simp add: log_ok_append)
  have whole: "log_ok (O_Start opts) (rs @ branch_log br (Suc n) k)" for k
    using logs rs rest [of _ k] start branch_log_record(1) [OF ok, of _ "Suc n" k] branch_log_sorted [OF ok, of "Suc n" k]
    unfolding log_ok_append by (fastforce simp: log_ok_def word_le_nat_alt)
  define held where "held = rs @ branch_log br (Suc n) a"
  define b where "b = Rec_BlockNumber (last held)"
  have ne: "held \<noteq> []" using assms(7) by (simp add: held_def)
  have upto: "held = rs @ branch_log br (Suc n) (Suc (unat b))"
    using branch_log_to_last [OF ok, of "Suc n" a] assms(8) by (cases "branch_log br (Suc n) a = []") (simp_all add: held_def b_def)
  have newest: "n \<le> unat b" "Rec_BlockHash (last held) = bhash br (unat b)" "b \<le> B_Number tip"
    using rs [of "last held"] rest [of "last held" a] last_in_set [OF ne] assms(8,10,11)
    by (auto simp: held_def b_def last_append word_le_nat_alt split: if_splits)
  have below: "\<forall>r \<in> set held. Rec_BlockNumber r \<le> B_Number tip"
    using rs rest [of _ a] assms(10,11) by (fastforce simp: held_def word_le_nat_alt)
  obtain blk where blk: "bbn b = Inr blk" using assms(2) newest(3) unfolding never_fails_def by blast
  have "B_Hash blk = Rec_BlockHash (last held)" using branch_source.own_hash [OF assms(1) blk] newest(2) by simp
  then have v: "verify bbn c (B_Number tip) = (flush c, Inr None)"
    using verify_stands [OF assms(9) [folded held_def], of "B_Number tip" "butlast held" "last held" bbn blk] all_at_or_below [OF below assms(4)] ne blk
    by (simp add: b_def)
  note fl = holds_flush(1) [OF assms(9) [folded held_def]]
  have ext: "holds opts (flush c) (rs @ branch_log br (Suc n) (Suc (unat b)))" using fl unfolding upto [symmetric] .
  note after = Sync_after_verify [OF assms(3) v fl, of transfers opt, folded b_def]
  have sync: "\<exists>c' sy p. Sync transfers bbn c tip opt = (c', sy, p, None) \<and> Sy_Reorg sy = None \<and> holds opts c' (rs @ branch_log br (Suc n) (Suc ?T))"
  proof (cases "B_Number tip \<le> b")
    case True
    then have "b = B_Number tip" using newest(3) by simp
    then show ?thesis using after ne ext by simp
  next
    case False
    then have lt: "b < B_Number tip" by simp
    note next_nat = word_succ_nat [OF lt]
    have "b + 1 \<le> B_Number tip" using lt next_nat by (simp add: word_le_nat_alt word_less_nat_alt)
    with branch_source.sync_loop_extends [OF assms(1), of opts "flush c" rs "Suc n" "b + 1" "B_Number tip" opt 0 "[]"] ext newest(1) next_nat whole assms(2)
    obtain c' p where "sync_loop transfers opt (B_Number tip) (b + 1) (flush c) 0 [] = (c', 0 + length (branch_log br (unat (b + 1)) (Suc ?T)), p, None)"
      "holds opts c' (rs @ branch_log br (Suc n) (Suc ?T))" by auto
    then show ?thesis using after ne False by (simp add: resume_def flip: b_def)
  qed
  have "branch_log br ?s (Suc ?T) = rs @ qs @ branch_log br (Suc n) (Suc ?T)"
    using branch_log_split [of ?s "Suc n" "Suc ?T" br] start assms(6,10) by simp
  with sync held_log [OF logs assms(5)] show ?thesis by blast
qed

theorem half_block_never_completed_witness:
  "\<exists>c c' sy p. Open False (take (headerSize + stride) (header demo_options @ encs record_bytes (branch_log (demo_branch 2 [100, 100]) 100 101))) demo_options = Inr c \<and>
     c_repaired c = None \<and>
     Sync (serve_transfers (demo_branch 2 [100, 100])) (serve_blocks (demo_branch 2 [100, 100])) c
       \<lparr>B_Number = 104, B_Hash = 1, B_ParentHash = 0, B_Timestamp = 0\<rparr> 0 = (c', sy, p, None) \<and>
     length (branch_log (demo_branch 2 [100, 100]) 100 105) = 2 \<and> c_Len c' = 1"
proof -
  let ?br = "demo_branch 2 [100, 100]"
  let ?tip = "\<lparr>B_Number = 104, B_Hash = 1, B_ParentHash = 0, B_Timestamp = 0\<rparr> :: block"
  have ok: "branch_ok ?br" by (simp add: demo_branch_ok)
  have "map Rec_BlockNumber (branch_log ?br 100 101) = [100, 100]" by code_simp
  then obtain r q where rs: "branch_log ?br 100 101 = [r] @ [q]" "Rec_BlockNumber r = 100" by (auto simp: map_eq_Cons_conv)
  have rest: "branch_log ?br 101 105 = []" by code_simp
  have "record_ok r" using branch_log_record(1) [OF ok, of r 100 101] by (simp add: rs(1))
  then have "log_ok (O_Start demo_options) [r]" by (simp add: log_ok_def rs(2))
  then obtain c where c: "Open False (header demo_options @ encs record_bytes [r]) demo_options = Inr c"
    "holds demo_options c [r]" "c_repaired c = None"
    using held_log [of demo_options "[r]"] by auto
  have bytes: "take (headerSize + stride) (header demo_options @ encs record_bytes (branch_log ?br 100 101)) =
      header demo_options @ encs record_bytes [r]"
    by (simp add: rs(1))
  have h: "holds demo_options c ([r] @ branch_log ?br (Suc 100) 101)" using c(2) by simp
  note main = half_block_never_completed [OF demo_source [OF ok, THEN conjunct1] demo_source [OF ok, THEN conjunct2], of ?tip demo_options 100 "[r]" "[q]" c 101 0]
  then obtain c' sy p where "Sync (serve_transfers ?br) (serve_blocks ?br) c ?tip 0 = (c', sy, p, None)"
    "holds demo_options c' ([r] @ branch_log ?br (Suc 100) (Suc (unat (104 :: uint64))))" "branch_log ?br 100 105 = [r] @ [q] @ branch_log ?br 101 105"
    using h rs by auto
  moreover have "c_Len c' = 1" using calculation(2) rest by (simp add: holds_def c_Len_def)
  ultimately show ?thesis unfolding bytes using c(1,3) rest by auto
qed

text \<open>
  C40. A reorg below the newest held block is missed. When the Cache holds records past the tip and the newest one at or below the tip still
  stands, a Sync succeeds, reads nothing and reports no Reorg. So what the chain has by now after that record and up to the tip is not held: of the
  records at or below the tip the Cache keeps the ones it had, and lacks exactly those blocks. (If that record is gone, the Sync cuts and reads again.)
\<close>

theorem reorg_below_cache_missed:
  assumes "branch_source transfers bbn br" "never_fails transfers bbn (B_Number tip)" "B_Hash tip \<noteq> 0" "B_Number tip \<noteq> - 1"
    and "holds opts c rs" "rs = branch_log old (unat (O_Start opts)) m" "branch_ok old" "commits old br"
    and "takeWhile (\<lambda>r. Rec_BlockNumber r \<le> B_Number tip) rs = ks @ [r]" "bhash br (unat (Rec_BlockNumber r)) = Rec_BlockHash r"
    and "B_Number tip < Rec_BlockNumber (last rs)"
  shows "\<exists>c'. Sync transfers bbn c tip opt = (c', \<lparr>Sy_Reorg = None, Sy_Appended = 0\<rparr>, [], None) \<and> holds opts c' rs \<and>
    branch_log br (unat (O_Start opts)) (Suc (unat (B_Number tip))) =
      takeWhile (\<lambda>r. Rec_BlockNumber r \<le> B_Number tip) rs @ branch_log br (Suc (unat (Rec_BlockNumber r))) (Suc (unat (B_Number tip)))"
proof -
  let ?s = "unat (O_Start opts)" and ?T = "unat (B_Number tip)" and ?b = "unat (Rec_BlockNumber r)"
  have "B_Number tip < - 1" using assms(4) by (metis word_order.extremum order.not_eq_order_implies_strict)
  note T1 = word_succ_nat [OF this]
  have le: "x \<le> B_Number tip \<longleftrightarrow> x < B_Number tip + 1" for x
    using T1 by (simp add: word_le_nat_alt word_less_nat_alt) linarith
  have low: "takeWhile (\<lambda>r. Rec_BlockNumber r < B_Number tip + 1) rs = ks @ [r]" using assms(9) by (simp add: le)
  then have log: "ks @ [r] = branch_log old ?s (min m (Suc ?T))"
    using branch_log_takeWhile [OF assms(7), of "B_Number tip + 1" ?s m] assms(6) T1 by simp
  then have r: "r \<in> set (branch_log old ?s (min m (Suc ?T)))" by (metis in_set_conv_decomp)
  note rec = branch_log_record [OF assms(7) r]
  have bT: "?b \<le> ?T" "?s \<le> ?b" using rec(2,3) by simp_all
  have "last (branch_log old ?s (min m (Suc ?T))) = r" using log by (metis last_snoc)
  then have "ks @ [r] = branch_log old ?s (Suc ?b)" using branch_log_to_last [OF assms(7), of ?s "min m (Suc ?T)"] log r by force
  also have "\<dots> = branch_log br ?s (Suc ?b)" by (rule commits_log [OF assms(8), of ?b]) (use rec(4) assms(10) in simp_all)
  finally have chain: "branch_log br ?s (Suc ?T) = (ks @ [r]) @ branch_log br (Suc ?b) (Suc ?T)"
    using branch_log_split [of ?s "Suc ?b" "Suc ?T" br] bT by simp
  obtain blk where blk: "bbn (Rec_BlockNumber r) = Inr blk"
    using assms(2) bT(1) unfolding never_fails_def by (metis word_le_nat_alt)
  have "B_Hash blk = Rec_BlockHash r" using branch_source.own_hash [OF assms(1) blk] assms(10) by simp
  then have v: "verify bbn c (B_Number tip) = (flush c, Inr None)" by (intro verify_stands [where bbn = bbn and b = blk, OF assms(5) low] blk)
  have "rs \<noteq> []" using assms(9) by auto
  then have "Sync transfers bbn c tip opt = (flush c, \<lparr>Sy_Reorg = None, Sy_Appended = 0\<rparr>, [], None)"
    using Sync_after_verify [OF assms(3) v holds_flush(1) [OF assms(5)], of transfers opt] less_imp_le [OF assms(11)] by simp
  then show ?thesis using holds_flush(1) [OF assms(5)] chain by (simp add: assms(9))
qed

theorem reorg_below_cache_missed_witness:
  "\<exists>c c' p. holds demo_options c (branch_log (demo_branch 2 [100, 110]) 100 111) \<and>
     Sync (serve_transfers (demo_branch 3 [100, 105])) (serve_blocks (demo_branch 3 [100, 105])) c
       \<lparr>B_Number = 107, B_Hash = 3, B_ParentHash = 0, B_Timestamp = 0\<rparr> 0 =
       (c', \<lparr>Sy_Reorg = None, Sy_Appended = 0\<rparr>, p, None) \<and>
     holds demo_options c' (branch_log (demo_branch 2 [100, 110]) 100 111) \<and>
     length (filter (\<lambda>r. Rec_BlockNumber r \<le> 107) (branch_log (demo_branch 2 [100, 110]) 100 111)) = 1 \<and>
     length (branch_log (demo_branch 3 [100, 105]) 100 108) = 2"
proof -
  let ?old = "demo_branch 2 [100, 110]" and ?br = "demo_branch 3 [100, 105]"
  let ?tip = "\<lparr>B_Number = 107, B_Hash = 3, B_ParentHash = 0, B_Timestamp = 0\<rparr> :: block"
  have ok: "branch_ok ?old" "branch_ok ?br" by (simp_all add: demo_branch_ok)
  have commits: "commits ?old ?br" by (rule demo_commits) simp_all
  have len: "length (branch_log ?br 100 108) = 2" by code_simp
  obtain c where c: "holds demo_options c (branch_log ?old 100 111)" using demo_held [OF ok(1)] by blast
  have "map (\<lambda>r. (Rec_BlockNumber r, Rec_BlockHash r)) (branch_log ?old 100 111) = [(100, 1), (110, 2)]" by code_simp
  then obtain r q where rs: "branch_log ?old 100 111 = [r, q]" "Rec_BlockNumber r = 100" "Rec_BlockHash r = 1" "Rec_BlockNumber q = 110"
    by (auto simp: map_eq_Cons_conv)
  have "takeWhile (\<lambda>r. Rec_BlockNumber r \<le> B_Number ?tip) (branch_log ?old 100 111) = [] @ [r]" by (simp add: rs)
  note main = reorg_below_cache_missed [OF demo_source [OF ok(2), THEN conjunct1] demo_source [OF ok(2), THEN conjunct2] _ _ c _ ok(1) commits this,
      of 111 0]
  have "\<exists>c'. Sync (serve_transfers ?br) (serve_blocks ?br) c ?tip 0 = (c', \<lparr>Sy_Reorg = None, Sy_Appended = 0\<rparr>, [], None) \<and>
      holds demo_options c' (branch_log ?old 100 111)"
    using main by (simp add: rs(2-4)) (auto simp: rs)
  then obtain c' where "Sync (serve_transfers ?br) (serve_blocks ?br) c ?tip 0 = (c', \<lparr>Sy_Reorg = None, Sy_Appended = 0\<rparr>, [], None)"
    "holds demo_options c' (branch_log ?old 100 111)" by blast
  with c len show ?thesis by (intro exI [of _ c] exI [of _ c'] exI [of _ "[]"]) (simp add: rs(1,2,4))
qed

end
