(* ===== verification/Reader.thy ===== *)
theory Reader
  imports Rpc Sync
begin

text \<open>
  The chain reader (\<open>chain/reader.go\<close>): every read is put to all endpoints and answered only when they agree. Modelled are
  the reads of one endpoint (headers, batches of headers, logs, calls), the cross-check, the paging of
  log queries with its halving, the stamping of events with block times, the tip and the end block of
  an Epoch.

  An endpoint is what its calls return: \<open>E_ask\<close> is \<open>call\<close> and \<open>E_askBatch\<close> is \<open>callBatch\<close> of \<open>Rpc\<close>. Goroutines are
  represented by the order in which they finish, a parameter for every question (\<open>R_order\<close>): it decides
  which of several failures is reported, and nothing else. Header batches run in index order. The
  flag \<open>noBatch\<close> of an endpoint, which concurrent batches share, is a parameter as well: \<open>E_noBatch\<close> says
  whether it was set when a batch was asked for. The context, the pace and the HTTP client are
  left out.
\<close>

section \<open>Endpoints\<close>

datatype read_error =
    ReadRpc rpc_error
  | ReadJson
  | ReadHex hex_error
  | ReadWire wire_error
  | ReadOtherBlock uint64 uint64
  | ReadOtherAddress address address
  | ReadOtherTopic uint64 uint64
  | ReadOutside uint64

record endpoint =
  E_label :: string
  E_ask :: "string \<Rightarrow> json list \<Rightarrow> rpc_error + json"
  E_askBatch :: "string \<Rightarrow> json list list \<Rightarrow> batch_error + json list"
  E_noBatch :: "uint64 list \<Rightarrow> bool"

definition read_block :: "json \<Rightarrow> read_error + block" where
  "read_block raw = (case to_wireBlock raw of None \<Rightarrow> Inl ReadJson | Some w \<Rightarrow> with_error ReadWire (decode_block w))"

definition blockByTag :: "endpoint \<Rightarrow> string \<Rightarrow> read_error + block" where
  "blockByTag e tag =
     and_then (with_error ReadRpc (E_ask e ''eth_getBlockByNumber'' [JStr tag, JBool False])) read_block"

definition isBlock :: "uint64 \<Rightarrow> block \<Rightarrow> read_error + block" where
  "isBlock asked b = (if B_Number b \<noteq> asked then Inl (ReadOtherBlock asked (B_Number b)) else Inr b)"

definition batchBlocks :: "endpoint \<Rightarrow> uint64 list \<Rightarrow> (rpc_error + read_error) + block list" where
  "batchBlocks e numbers =
     (case E_askBatch e ''eth_getBlockByNumber'' (map (\<lambda>n. [JStr (quantity n), JBool False]) numbers) of
        Inl (BatchRefused err) \<Rightarrow> Inl (Inl err)
      | Inl (BatchFailed err) \<Rightarrow> Inl (Inr (ReadRpc err))
      | Inr results \<Rightarrow>
          with_error Inr (traverse (\<lambda>(n, raw). and_then (read_block raw) (isBlock n)) (zip numbers results)))"

definition singleBlocks :: "endpoint \<Rightarrow> uint64 list \<Rightarrow> read_error + block list" where
  "singleBlocks e numbers = traverse (\<lambda>n. and_then (blockByTag e (quantity n)) (isBlock n)) numbers"

definition blocksByNumber :: "endpoint \<Rightarrow> uint64 list \<Rightarrow> read_error + block list" where
  "blocksByNumber e numbers =
     (if E_noBatch e numbers then singleBlocks e numbers
      else case batchBlocks e numbers of
             Inr blocks \<Rightarrow> Inr blocks
           | Inl (Inr err) \<Rightarrow> Inl err
           | Inl (Inl refused) \<Rightarrow> singleBlocks e numbers)"

definition canonicalBlocks :: "block list \<Rightarrow> byte list" where
  "canonicalBlocks blocks = concat (map canonical blocks)"

definition filtered :: "address \<Rightarrow> hash \<Rightarrow> uint64 \<Rightarrow> uint64 \<Rightarrow> eventLog \<Rightarrow> read_error + eventLog" where
  "filtered address topic0 from to l =
     (if EL_Address l \<noteq> address then Inl (ReadOtherAddress (EL_Address l) address)
      else if EL_Topics l = [] \<or> hd (EL_Topics l) \<noteq> topic0 then Inl (ReadOtherTopic (EL_BlockNumber l) (EL_LogIndex l))
      else if EL_BlockNumber l < from \<or> EL_BlockNumber l > to then Inl (ReadOutside (EL_BlockNumber l))
      else Inr l)"

definition log_filter :: "address \<Rightarrow> hash \<Rightarrow> uint64 \<Rightarrow> uint64 \<Rightarrow> json" where
  "log_filter address topic0 from to =
     JObj [(''address'', JStr (Address_String address)), (''fromBlock'', JStr (quantity from)),
           (''toBlock'', JStr (quantity to)), (''topics'', JArr [JStr (Hash_String topic0)])]"

text \<open>Each entry is decoded and checked before the next is looked at.\<close>

definition getLogs :: "endpoint \<Rightarrow> address \<Rightarrow> hash \<Rightarrow> uint64 \<Rightarrow> uint64 \<Rightarrow> read_error + eventLog list" where
  "getLogs e address topic0 from to =
     and_then (with_error ReadRpc (E_ask e ''eth_getLogs'' [log_filter address topic0 from to])) (\<lambda>raw.
       (case to_list to_wireLog raw of
          None \<Rightarrow> Inl ReadJson
        | Some ws \<Rightarrow>
            and_then (traverse (\<lambda>w. and_then (with_error ReadWire (decode_log w)) (filtered address topic0 from to)) ws)
              (\<lambda>out. Inr (sortLogs out))))"

definition ethCall :: "endpoint \<Rightarrow> address \<Rightarrow> byte list \<Rightarrow> uint64 \<Rightarrow> read_error + byte list" where
  "ethCall e to data at_block =
     and_then (with_error ReadRpc (E_ask e ''eth_call''
       [JObj [(''data'', JStr (hexBytes data)), (''to'', JStr (Address_String to))], JStr (quantity at_block)])) (\<lambda>raw.
       (case to_string raw [] of None \<Rightarrow> Inl ReadJson | Some s \<Rightarrow> with_error ReadHex (parseHexBytes s)))"

section \<open>The cross-check\<close>

datatype finality = Latest | Safe | Finalized

definition ParseFinality :: "string \<Rightarrow> finality option" where
  "ParseFinality s =
     (if s = ''latest'' then Some Latest else if s = ''safe'' then Some Safe
      else if s = ''finalized'' then Some Finalized else None)"

definition finality_tag :: "finality \<Rightarrow> string" where
  "finality_tag f = (case f of Latest \<Rightarrow> ''latest'' | Safe \<Rightarrow> ''safe'' | Finalized \<Rightarrow> ''finalized'')"

record tip =
  T_Block :: block
  T_Finality :: finality
  T_Lag :: uint64

datatype question =
    AskChainID
  | AskHead finality
  | AskBlock uint64
  | AskBlocks uint64 uint64
  | AskLogs uint64 uint64
  | AskLedger kind uint64 uint64
  | AskExcluded uint64
  | AskLaunched address uint64

datatype chain_error =
    EndpointFailed string question read_error
  | Disagreement question string string
  | NoEndpoint
  | RunsBackwards uint64 uint64
  | NoFactory
  | BadEvent event_error
  | BadReturn call_error
  | EpochNotClosed uint64 tip
  | EpochPredates uint64 int64 int64

record reader =
  R_endpoints :: "endpoint list"
  R_token :: address
  R_distributor :: address
  R_factory :: address
  R_order :: "question \<Rightarrow> nat list"

text \<open>The first of the answers, in the order they arrive, that is a failure; else all of them.\<close>

definition eachEndpoint :: "nat list \<Rightarrow> ('e + 'a) list \<Rightarrow> (nat \<times> 'e) + 'a list" where
  "eachEndpoint order answers =
     (case List.find (\<lambda>i. i < length answers \<and> isl (answers ! i)) (order @ [0..<length answers]) of
        Some i \<Rightarrow> Inl (i, projl (answers ! i))
      | None \<Rightarrow> Inr (map projr answers))"

definition crossCheck ::
  "reader \<Rightarrow> question \<Rightarrow> (endpoint \<Rightarrow> read_error + 'a) \<Rightarrow> ('a \<Rightarrow> byte list) \<Rightarrow> chain_error + 'a" where
  "crossCheck r what read canon =
     (case R_endpoints r of
        [] \<Rightarrow> Inl NoEndpoint
      | [e] \<Rightarrow> with_error (EndpointFailed (E_label e) what) (read e)
      | es \<Rightarrow>
          (case eachEndpoint (R_order r what) (map read es) of
             Inl (i, err) \<Rightarrow> Inl (EndpointFailed (E_label (es ! i)) what err)
           | Inr answers \<Rightarrow>
               (case List.find (\<lambda>i. canon (hd answers) \<noteq> canon (answers ! i)) [1..<length answers] of
                  Some i \<Rightarrow> Inl (Disagreement what (E_label (hd es)) (E_label (es ! i)))
                | None \<Rightarrow> Inr (hd answers))))"

definition ChainID :: "reader \<Rightarrow> chain_error + uint64" where
  "ChainID r =
     crossCheck r AskChainID
       (\<lambda>e. and_then (with_error ReadRpc (E_ask e ''eth_chainId'' [])) (\<lambda>raw.
              (case to_string raw [] of None \<Rightarrow> Inl ReadJson | Some s \<Rightarrow> with_error ReadHex (parseQuantity s))))
       (\<lambda>n. appendUint64 [] (unat n))"

definition BlockByNumber :: "reader \<Rightarrow> uint64 \<Rightarrow> chain_error + block" where
  "BlockByNumber r number = crossCheck r (AskBlock number) (\<lambda>e. blockByTag e (quantity number)) canonical"

definition MinFunc :: "block list \<Rightarrow> block" where
  "MinFunc bs = foldl (\<lambda>m b. if B_Number b < B_Number m then b else m) (hd bs) (tl bs)"

definition MaxFunc :: "block list \<Rightarrow> block" where
  "MaxFunc bs = foldl (\<lambda>m b. if B_Number b > B_Number m then b else m) (hd bs) (tl bs)"

definition Head :: "reader \<Rightarrow> finality \<Rightarrow> chain_error + tip" where
  "Head r level =
     (if R_endpoints r = [] then Inl NoEndpoint
      else
        case eachEndpoint (R_order r (AskHead level)) (map (\<lambda>e. blockByTag e (finality_tag level)) (R_endpoints r)) of
          Inl (i, err) \<Rightarrow> Inl (EndpointFailed (E_label (R_endpoints r ! i)) (AskHead level) err)
        | Inr tips \<Rightarrow>
            let lowest = MinFunc tips
            in if length (R_endpoints r) = 1 then Inr \<lparr>T_Block = lowest, T_Finality = level, T_Lag = 0\<rparr>
               else and_then (BlockByNumber r (B_Number lowest)) (\<lambda>agreed.
                      Inr \<lparr>T_Block = agreed, T_Finality = level,
                           T_Lag = B_Number (MaxFunc tips) - B_Number lowest\<rparr>))"

section \<open>Headers and logs\<close>

definition HeaderBatch :: nat where "HeaderBatch = 20"

function batches_of :: "'a list \<Rightarrow> 'a list list" where
  "batches_of xs = (if xs = [] then [] else take HeaderBatch xs # batches_of (drop HeaderBatch xs))"
  by pat_completeness auto
termination
  by (relation "measure length") (auto simp: HeaderBatch_def)

declare batches_of.simps [simp del]

definition stamps_of :: "block list \<Rightarrow> (uint64 \<rightharpoonup> int64) \<Rightarrow> uint64 \<rightharpoonup> int64" where
  "stamps_of headers out = foldl (\<lambda>m h. m(B_Number h \<mapsto> B_Timestamp h)) out headers"

fun header_batches :: "reader \<Rightarrow> uint64 list list \<Rightarrow> (uint64 \<rightharpoonup> int64) \<Rightarrow> chain_error + (uint64 \<rightharpoonup> int64)" where
  "header_batches r [] out = Inr out"
| "header_batches r (numbers # rest) out =
     and_then (crossCheck r (AskBlocks (hd numbers) (last numbers)) (\<lambda>e. blocksByNumber e numbers) canonicalBlocks)
       (\<lambda>headers. header_batches r rest (stamps_of headers out))"

definition Timestamps :: "reader \<Rightarrow> uint64 list \<Rightarrow> chain_error + (uint64 \<rightharpoonup> int64)" where
  "Timestamps r blocks = header_batches r (batches_of (remdups_adj (sort blocks))) Map.empty"

definition stamp :: "reader \<Rightarrow> 'a site_scheme list \<Rightarrow> chain_error + 'a site_scheme list" where
  "stamp r events =
     and_then (Timestamps r (map S_BlockNumber events)) (\<lambda>stamps.
       Inr (map (\<lambda>e. e\<lparr>S_Timestamp := (case stamps (S_BlockNumber e) of None \<Rightarrow> 0 | Some t \<Rightarrow> t)\<rparr>) events))"

definition MaxLogRange :: uint64 where "MaxLogRange = 2000"
definition SparseLogRange :: uint64 where "SparseLogRange = 1000000"

fun Contains :: "string \<Rightarrow> string \<Rightarrow> bool" where
  "Contains [] pat = (pat = [])"
| "Contains (c # s) pat = (take (length pat) (c # s) = pat \<or> Contains s pat)"

definition tooBigPhrases :: "string list" where
  "tooBigPhrases =
     [''exceeds limit'', ''limit exceeded'', ''more than'', ''too many'', ''size exceeded'', ''timeout exceeded'',
      ''too wide'', ''too large'', ''range is too'']"

definition tooBig :: "chain_error \<Rightarrow> bool" where
  "tooBig err =
     (case err of
        EndpointFailed _ _ (ReadRpc (RpcObject _ e)) \<Rightarrow> list_ex (Contains (lower (E_Message e))) tooBigPhrases
      | _ \<Rightarrow> False)"

text \<open>
  The loop of \<open>logs\<close>. Its first line is the check that stands before the loop; afterwards \<open>start\<close> never passes \<open>to\<close>. A
  span of 0, which the two callers never pass and halving never reaches, is given the error of an
  empty range.
\<close>

function logs_loop ::
  "reader \<Rightarrow> address \<Rightarrow> hash \<Rightarrow> uint64 \<Rightarrow> uint64 \<Rightarrow> uint64 \<Rightarrow> eventLog list \<Rightarrow> chain_error + eventLog list" where
  "logs_loop r address topic0 to start span out =
     (if start > to \<or> span = 0 then Inl (RunsBackwards start to)
      else
        let stop = chunk_stop span start to
        in case crossCheck r (AskLogs start stop) (\<lambda>e. getLogs e address topic0 start stop) canonicalLogs of
             Inl err \<Rightarrow>
               if span > 1 \<and> tooBig err then logs_loop r address topic0 to start (span div 2) out else Inl err
           | Inr page \<Rightarrow>
               if stop = to then Inr (out @ page)
               else logs_loop r address topic0 to (stop + 1) span (out @ page))"
  by pat_completeness auto
termination
proof (relation "measures [\<lambda>(r, a, t, to, start, span, out). unat to - unat start, \<lambda>(r, a, t, to, start, span, out). unat span]",
    goal_cases)
  case (2 r a t to start span out stop err)
  then have "unat (span div 2) < unat span" by (simp add: unat_div word_less_nat_alt)
  then show ?case by simp
next
  case (3 r a t to start span out stop page)
  then have "0 < span" "start \<le> to" by (auto simp: word_gt_0)
  with 3 have "start \<le> stop" "stop < to" using chunk_stop_bounds [of span start to] by auto
  then show ?case using word_succ_nat [of stop to] by (simp add: word_le_nat_alt word_less_nat_alt)
qed simp

declare logs_loop.simps [simp del]

definition logs :: "reader \<Rightarrow> address \<Rightarrow> hash \<Rightarrow> uint64 \<Rightarrow> uint64 \<Rightarrow> uint64 \<Rightarrow> chain_error + eventLog list" where
  "logs r address topic0 from to span = logs_loop r address topic0 to from span []"

definition Transfers :: "keccak \<Rightarrow> reader \<Rightarrow> uint64 \<Rightarrow> uint64 \<Rightarrow> chain_error + chainTransfer list" where
  "Transfers k r from to =
     and_then (logs r (R_token r) (topicTransfer k) from to MaxLogRange) (\<lambda>ls.
     and_then (with_error BadEvent (traverse (decodeTransfer k) ls)) (stamp r))"

definition Exclusions :: "keccak \<Rightarrow> reader \<Rightarrow> uint64 \<Rightarrow> uint64 \<Rightarrow> chain_error + chainExclusion list" where
  "Exclusions k r from to =
     and_then (logs r (R_distributor r) (topicExcludedAppended k) from to SparseLogRange) (\<lambda>ls.
     and_then (with_error BadEvent (traverse (decodeExcludedAppended k) ls)) (stamp r))"

definition Roots :: "keccak \<Rightarrow> reader \<Rightarrow> uint64 \<Rightarrow> uint64 \<Rightarrow> chain_error + rootPosted list" where
  "Roots k r from to =
     and_then (logs r (R_distributor r) (topicRootPosted k) from to SparseLogRange) (\<lambda>ls.
     and_then (with_error BadEvent (traverse (decodeRootPosted k) ls)) (stamp r))"

section \<open>Calls\<close>

definition callAt :: "reader \<Rightarrow> address \<Rightarrow> question \<Rightarrow> byte list \<Rightarrow> uint64 \<Rightarrow> chain_error + byte list" where
  "callAt r to what data at_block = crossCheck r what (\<lambda>e. ethCall e to data at_block) (\<lambda>b. b)"

definition LedgerAt :: "keccak \<Rightarrow> reader \<Rightarrow> kind \<Rightarrow> uint64 \<Rightarrow> uint64 \<Rightarrow> chain_error + chainLedger" where
  "LedgerAt k r kd i at_block =
     and_then (callAt r (R_distributor r) (AskLedger kd i at_block) (encodeLedgerCall k kd i) at_block)
       (\<lambda>data. with_error BadReturn (decodeLedger data))"

definition Excluded :: "keccak \<Rightarrow> reader \<Rightarrow> uint64 \<Rightarrow> chain_error + address list" where
  "Excluded k r at_block =
     and_then (callAt r (R_distributor r) (AskExcluded at_block) (selectorExcluded k) at_block)
       (\<lambda>data. with_error BadReturn (decodeAddressArray data))"

definition LaunchCurveAt :: "keccak \<Rightarrow> reader \<Rightarrow> uint64 \<Rightarrow> chain_error + address" where
  "LaunchCurveAt k r at_block =
     (if R_factory r = 0 then Inl NoFactory
      else and_then (callAt r (R_factory r) (AskLaunched (R_token r) at_block) (encodeGetLaunchedToken k (R_token r)) at_block)
             (\<lambda>data. with_error BadReturn (decodeLaunchedToken data)))"

section \<open>The end block of an Epoch\<close>

lemma mid_between:
  assumes "lo \<le> hi" "hi - lo > (1 :: uint64)"
  shows "lo < lo + (hi - lo) div 2" "lo + (hi - lo) div 2 < hi"
proof -
  have d: "unat (hi - lo) = unat hi - unat lo" using assms(1) by (simp add: unat_sub word_le_nat_alt)
  have big: "1 < unat hi - unat lo" using assms(2) by (simp add: word_less_nat_alt d)
  have "unat (lo + (hi - lo) div 2) = unat lo + (unat hi - unat lo) div 2"
  proof -
    have "unat lo + (unat hi - unat lo) div 2 < 2 ^ 64"
      using unsigned_less [where 'a = nat, of hi] big by (simp add: less_mult_imp_div_less)
    then show ?thesis by (simp add: unat_word_ariths unat_div d)
  qed
  with big show "lo < lo + (hi - lo) div 2" "lo + (hi - lo) div 2 < hi" by (simp_all add: word_less_nat_alt)
qed

text \<open>\<open>lo\<close> is before the boundary and \<open>hi\<close> at or after it; \<open>lo\<close> starts at 0, so it never passes \<open>hi\<close>.\<close>

function end_search :: "(uint64 \<Rightarrow> 'e + block) \<Rightarrow> int64 \<Rightarrow> uint64 \<Rightarrow> uint64 \<Rightarrow> (uint64 \<rightharpoonup> block) \<Rightarrow> 'e + block" where
  "end_search blk end_time lo hi probed =
     (if lo \<le> hi \<and> hi - lo > 1 then
        let mid = lo + (hi - lo) div 2
        in and_then (blk mid) (\<lambda>b.
             if B_Timestamp b < end_time then end_search blk end_time mid hi (probed(mid \<mapsto> b))
             else end_search blk end_time lo mid (probed(mid \<mapsto> b)))
      else Inr (case probed lo of
                  Some b \<Rightarrow> b
                | None \<Rightarrow> \<lparr>B_Number = 0, B_Hash = 0, B_ParentHash = 0, B_Timestamp = 0\<rparr>))"
  by pat_completeness auto
termination
proof (relation "measure (\<lambda>(blk, t, lo, hi, p). unat hi - unat lo)", goal_cases)
  case (2 blk t lo hi p mid b)
  then show ?case using mid_between [of lo hi] by (simp add: word_less_nat_alt)
next
  case (3 blk t lo hi p mid b)
  then show ?case using mid_between [of lo hi] by (simp add: word_less_nat_alt)
qed simp

declare end_search.simps [simp del]

definition EndBlock :: "reader \<Rightarrow> uint64 \<Rightarrow> tip \<Rightarrow> chain_error + block" where
  "EndBlock r epochID tp =
     (let end_time = End (WindowOf epochID)
      in if B_Timestamp (T_Block tp) < end_time then Inl (EpochNotClosed epochID tp)
         else and_then (BlockByNumber r 0) (\<lambda>genesis.
                if B_Timestamp genesis \<ge> end_time then Inl (EpochPredates epochID end_time (B_Timestamp genesis))
                else end_search (BlockByNumber r) end_time 0 (B_Number (T_Block tp)) [0 \<mapsto> genesis]))"

section \<open>Agreement\<close>

lemma eachEndpoint_Inr: "eachEndpoint order answers = Inr xs \<longleftrightarrow> answers = map Inr xs"
proof
  assume "eachEndpoint order answers = Inr xs"
  then have none: "List.find (\<lambda>i. i < length answers \<and> isl (answers ! i)) (order @ [0..<length answers]) = None"
    and xs: "xs = map projr answers"
    by (auto simp: eachEndpoint_def split: option.splits)
  from none have "\<forall>i < length answers. \<not> isl (answers ! i)" by (auto simp: find_None_iff)
  then show "answers = map Inr xs" by (auto simp: xs list_eq_iff_nth_eq)
next
  assume a: "answers = map Inr xs"
  then have "List.find (\<lambda>i. i < length answers \<and> isl (answers ! i)) (order @ [0..<length answers]) = None"
    by (auto simp: find_None_iff)
  then show "eachEndpoint order answers = Inr xs" by (simp add: eachEndpoint_def a comp_def)
qed

lemma eachEndpoint_Inl:
  "eachEndpoint order answers = Inl (i, e) \<Longrightarrow> i < length answers \<and> answers ! i = Inl e"
  by (auto simp: eachEndpoint_def isl_def find_Some_iff split: option.splits)

text \<open>An answer is returned exactly when every endpoint gave one and all have one canonical form.\<close>

lemma crossCheck_Inr:
  "crossCheck r q read canon = Inr x \<longleftrightarrow>
     R_endpoints r \<noteq> [] \<and> read (hd (R_endpoints r)) = Inr x \<and>
     (\<forall>e \<in> set (R_endpoints r). \<exists>y. read e = Inr y \<and> canon y = canon x)"
proof (cases "R_endpoints r" rule: remdups_adj.cases)
  case 1
  then show ?thesis by (simp add: crossCheck_def)
next
  case (2 e)
  then show ?thesis by (auto simp: crossCheck_def)
next
  case (3 e1 e2 es)
  let ?es = "e1 # e2 # es"
  have "crossCheck r q read canon = Inr x \<longleftrightarrow>
      (\<exists>ys. map read ?es = map Inr ys \<and> hd ys = x \<and> (\<forall>i \<in> {1..<length ys}. canon (hd ys) = canon (ys ! i)))"
    (is "_ \<longleftrightarrow> (\<exists>ys. ?P ys)")
  proof (cases "eachEndpoint (R_order r q) (map read ?es)")
    case (Inl p)
    obtain i err where p: "p = (i, err)" by (cases p)
    have "\<not> ?P ys" for ys using eachEndpoint_Inl [of _ _ i err] Inl unfolding p by (metis Inl_Inr_False length_map nth_map)
    with Inl p show ?thesis by (simp add: crossCheck_def 3)
  next
    case (Inr ys)
    then have ys: "map read ?es = map Inr ys" by (simp only: eachEndpoint_Inr)
    then have "?P zs \<longleftrightarrow> zs = ys \<and> ?P ys" for zs by (metis inj_Inr map_injective)
    moreover have "crossCheck r q read canon = Inr x \<longleftrightarrow>
        List.find (\<lambda>i. canon (hd ys) \<noteq> canon (ys ! i)) [1..<length ys] = None \<and> hd ys = x"
      using Inr by (simp add: crossCheck_def 3 split: option.split)
    then have "crossCheck r q read canon = Inr x \<longleftrightarrow> ?P ys"
      using ys unfolding find_None_iff set_upt by blast
    ultimately show ?thesis by blast
  qed
  also have "\<dots> \<longleftrightarrow> read e1 = Inr x \<and> (\<forall>e \<in> set ?es. \<exists>y. read e = Inr y \<and> canon y = canon x)"
  proof
    assume "\<exists>ys. ?P ys"
    then obtain ys where ys: "map read ?es = map Inr ys" "hd ys = x" "\<forall>i \<in> {1..<length ys}. canon (hd ys) = canon (ys ! i)" by blast
    have len: "length ys = length ?es" using ys(1) by (metis length_map)
    have nth: "read (?es ! i) = Inr (ys ! i)" if "i < length ?es" for i using ys(1) len that by (metis nth_map)
    have x: "x = ys ! 0" using ys(2) len by (cases ys) auto
    have "\<exists>y. read (?es ! i) = Inr y \<and> canon y = canon x" if "i < length ?es" for i
    proof (cases "i = 0")
      case False
      then have "canon (hd ys) = canon (ys ! i)" using ys(3) len that by simp
      then show ?thesis using nth [OF that] ys(2) by metis
    qed (use nth [of 0] x in simp)
    then show "read e1 = Inr x \<and> (\<forall>e \<in> set ?es. \<exists>y. read e = Inr y \<and> canon y = canon x)"
      using nth [of 0] x by (metis in_set_conv_nth length_greater_0_conv list.discI nth_Cons_0)
  next
    assume a: "read e1 = Inr x \<and> (\<forall>e \<in> set ?es. \<exists>y. read e = Inr y \<and> canon y = canon x)"
    define ys where "ys = map (\<lambda>e. projr (read e)) ?es"
    have "map read ?es = map Inr ys" using a by (auto simp: ys_def)
    moreover have "canon (ys ! i) = canon x" if "i < length ys" for i
    proof -
      have "?es ! i \<in> set ?es" using that unfolding ys_def length_map by (rule nth_mem)
      then obtain y where "read (?es ! i) = Inr y" "canon y = canon x" using a by blast
      then show ?thesis using that by (simp add: ys_def del: nth_Cons_0 list.map)
    qed
    moreover have "hd ys = x" using a by (simp add: ys_def)
    ultimately show "\<exists>ys. ?P ys" by (intro exI [of _ ys]) simp
  qed
  finally show ?thesis by (simp add: 3)
qed

lemma crossCheck_agrees:
  "crossCheck r q read canon = Inr x \<Longrightarrow> e \<in> set (R_endpoints r) \<Longrightarrow> \<exists>y. read e = Inr y \<and> canon y = canon x"
  unfolding crossCheck_Inr by blast

lemma crossCheck_first: "crossCheck r q read canon = Inr x \<Longrightarrow> \<exists>e \<in> set (R_endpoints r). read e = Inr x"
  unfolding crossCheck_Inr by (metis list.set_sel(1))

section \<open>What an endpoint returns\<close>

lemma list_all2_in_right: "list_all2 P xs ys \<Longrightarrow> y \<in> set ys \<Longrightarrow> \<exists>x \<in> set xs. P x y"
  by (induction rule: list_all2_induct) auto

lemma decode_block_time: "decode_block w = Inr b \<Longrightarrow> 0 \<le> B_Timestamp b \<and> in_i64 (B_Timestamp b)"
proof -
  assume "decode_block w = Inr b"
  then obtain s :: uint64 where s: "\<not> unat s > 2 ^ 63 - 1" "B_Timestamp b = uint s"
    by (auto simp: decode_block_def and_then_Inr split: if_splits)
  have "unat s < 2 ^ 63" using s(1) by simp
  then have "int (unat s) < int (2 ^ 63)" by (simp only: of_nat_less_iff)
  then have "uint s < 2 ^ 63" by (simp only: uint_nat [symmetric] of_nat_power of_nat_numeral)
  moreover have "0 \<le> uint s" by simp
  ultimately show ?thesis unfolding in_i64_def s(2) by linarith
qed

lemma read_block_time: "read_block raw = Inr b \<Longrightarrow> in_i64 (B_Timestamp b)"
  using decode_block_time by (auto simp: read_block_def split: option.splits)

lemma blockByTag_time: "blockByTag e t = Inr b \<Longrightarrow> in_i64 (B_Timestamp b)"
  using read_block_time by (auto simp: blockByTag_def and_then_Inr)

lemma isBlock_Inr [simp]: "isBlock n b = Inr b' \<longleftrightarrow> B_Number b = n \<and> b' = b"
  by (auto simp: isBlock_def)

lemma blocksByNumber_Inr:
  assumes "blocksByNumber e ns = Inr bs"
  shows "batchBlocks e ns = Inr bs \<or> singleBlocks e ns = Inr bs"
  using assms by (auto simp: blocksByNumber_def split: if_splits sum.splits)

lemma singleBlocks_Inr:
  "singleBlocks e ns = Inr bs \<longleftrightarrow> list_all2 (\<lambda>n b. blockByTag e (quantity n) = Inr b \<and> B_Number b = n) ns bs"
  by (simp add: singleBlocks_def traverse_Inr and_then_Inr conj_commute cong: conj_cong)

lemma batchBlocks_numbers:
  assumes "batchBlocks e ns = Inr bs"
  shows "\<exists>raws. list_all2 (\<lambda>(n, raw) b. read_block raw = Inr b \<and> B_Number b = n) (zip ns raws) bs"
  using assms
  by (auto simp: batchBlocks_def traverse_Inr and_then_Inr split_def conj_commute cong: conj_cong split: sum.splits batch_error.splits)

lemma blocksByNumber_times:
  assumes "blocksByNumber e ns = Inr bs" "b \<in> set bs"
  shows "in_i64 (B_Timestamp b)"
  using blocksByNumber_Inr [OF assms(1)]
proof
  assume "batchBlocks e ns = Inr bs"
  then obtain raws where "list_all2 (\<lambda>(n, raw) b. read_block raw = Inr b \<and> B_Number b = n) (zip ns raws) bs"
    using batchBlocks_numbers by blast
  from list_all2_in_right [OF this assms(2)] show ?thesis using read_block_time by auto
next
  assume "singleBlocks e ns = Inr bs"
  from list_all2_in_right [OF this [unfolded singleBlocks_Inr] assms(2)] show ?thesis using blockByTag_time by auto
qed

lemma length_canonical [simp]: "length (canonical b) = 80"
  by (simp add: canonical_def appendUint64_def)

lemma canonicalBlocks_inject:
  "canonicalBlocks as = canonicalBlocks bs \<Longrightarrow> \<forall>b \<in> set as \<union> set bs. in_i64 (B_Timestamp b) \<Longrightarrow> as = bs"
proof (induction as arbitrary: bs)
  case Nil
  then show ?case
  proof (cases bs)
    case (Cons b cs)
    with Nil.prems(1) have "canonical b = []" by (simp add: canonicalBlocks_def)
    from arg_cong [OF this, of length] show ?thesis by simp
  qed simp
next
  case (Cons a as)
  show ?case
  proof (cases bs)
    case Nil
    with Cons.prems(1) have "canonical a = []" by (simp add: canonicalBlocks_def)
    from arg_cong [OF this, of length] show ?thesis by simp
  next
    case (Cons b cs)
    with Cons.prems(1) have "canonical a = canonical b" "canonicalBlocks as = canonicalBlocks cs"
      by (simp_all add: canonicalBlocks_def append_eq_append_conv)
    then show ?thesis using Cons.IH [of cs] Cons.prems(2) canonical_inject [of a b] Cons by simp
  qed
qed

section \<open>The chain an endpoint answers for\<close>

record chain_state =
  H_block :: "uint64 \<Rightarrow> block"
  H_logs :: "eventLog list"
  H_call :: "address \<Rightarrow> byte list \<Rightarrow> uint64 \<Rightarrow> byte list"

definition selected :: "address \<Rightarrow> hash \<Rightarrow> uint64 \<Rightarrow> uint64 \<Rightarrow> eventLog \<Rightarrow> bool" where
  "selected address topic0 from to l \<longleftrightarrow>
     EL_Address l = address \<and> EL_Topics l \<noteq> [] \<and> hd (EL_Topics l) = topic0 \<and> from \<le> EL_BlockNumber l \<and> EL_BlockNumber l \<le> to"

text \<open>
  An endpoint that says only what is so, whenever it answers: headers, single or in batches, every log a
  filter selects in block order, and what a call returns.
\<close>

locale honest_endpoint =
  fixes e :: endpoint and ch :: chain_state
  assumes honest_block: "blockByTag e (quantity n) = Inr b \<Longrightarrow> b = H_block ch n"
    and honest_batch: "length ns \<le> HeaderBatch \<Longrightarrow> batchBlocks e ns = Inr bs \<Longrightarrow> bs = map (H_block ch) ns"
    and honest_logs: "getLogs e address topic0 from to = Inr ls \<Longrightarrow> ls = filter (selected address topic0 from to) (H_logs ch)"
    and honest_call: "ethCall e dest data n = Inr out \<Longrightarrow> out = H_call ch dest data n"
    and ordered: "sorted (map log_key (H_logs ch))"
begin

lemma honest_single: "singleBlocks e ns = Inr bs \<Longrightarrow> bs = map (H_block ch) ns"
  unfolding singleBlocks_Inr by (induction ns arbitrary: bs) (auto simp: list_all2_Cons1 dest: honest_block)

lemma honest_blocks: "length ns \<le> HeaderBatch \<Longrightarrow> blocksByNumber e ns = Inr bs \<Longrightarrow> bs = map (H_block ch) ns"
  using blocksByNumber_Inr honest_batch honest_single by blast

lemma ordered_blocks: "sorted (map EL_BlockNumber (H_logs ch))"
proof -
  have "EL_BlockNumber a \<le> EL_BlockNumber b" if "log_key a \<le> log_key b" for a b
    using that log_key_less [of b a] by (meson leD linorder_not_le)
  then show ?thesis using ordered unfolding sorted_map by (metis (mono_tags, lifting) sorted_wrt_mono_rel)
qed

end

text \<open>A Reader one of whose endpoints is honest. Nothing is asked of the others but that a log they return fits in memory.\<close>

locale honest_reader = honest_endpoint +
  fixes r :: reader
  assumes member: "e \<in> set (R_endpoints r)"
    and fits: "e' \<in> set (R_endpoints r) \<Longrightarrow> getLogs e' address topic0 from to = Inr ls \<Longrightarrow> l \<in> set ls \<Longrightarrow> log_fits l"
begin

lemma BlockByNumber_true: "BlockByNumber r n = Inr b \<Longrightarrow> b = H_block ch n"
proof -
  assume a: "BlockByNumber r n = Inr b"
  obtain y where y: "blockByTag e (quantity n) = Inr y" "canonical y = canonical b"
    using crossCheck_agrees [OF a [unfolded BlockByNumber_def] member] by auto
  obtain e' where "blockByTag e' (quantity n) = Inr b"
    using crossCheck_first [OF a [unfolded BlockByNumber_def]] by auto
  then have "y = b" using canonical_inject [OF y(2)] blockByTag_time y(1) by blast
  then show ?thesis using honest_block y(1) by simp
qed

lemma headers_true:
  assumes "crossCheck r q (\<lambda>e. blocksByNumber e ns) canonicalBlocks = Inr bs" "length ns \<le> HeaderBatch"
  shows "bs = map (H_block ch) ns"
proof -
  obtain ys where y: "blocksByNumber e ns = Inr ys" "canonicalBlocks ys = canonicalBlocks bs"
    using crossCheck_agrees [OF assms(1) member] by auto
  obtain e' where "blocksByNumber e' ns = Inr bs" using crossCheck_first [OF assms(1)] by auto
  then have "ys = bs" using canonicalBlocks_inject [OF y(2)] blocksByNumber_times y(1) by blast
  then show ?thesis using honest_blocks [OF assms(2)] y(1) by simp
qed

lemma page_true:
  assumes "crossCheck r q (\<lambda>e. getLogs e address topic0 from to) canonicalLogs = Inr ls"
  shows "ls = filter (selected address topic0 from to) (H_logs ch)"
proof -
  obtain ys where y: "getLogs e address topic0 from to = Inr ys" "canonicalLogs ys = canonicalLogs ls"
    using crossCheck_agrees [OF assms member] by auto
  obtain e' where "e' \<in> set (R_endpoints r)" "getLogs e' address topic0 from to = Inr ls"
    using crossCheck_first [OF assms] by auto
  then have "ys = ls" using canonicalLogs_inject [OF y(2)] fits member y(1) by blast
  then show ?thesis using honest_logs y(1) by simp
qed

lemma callAt_true: "callAt r dest q data n = Inr out \<Longrightarrow> out = H_call ch dest data n"
  using crossCheck_agrees [of r q "\<lambda>e. ethCall e dest data n" "\<lambda>b. b", OF _ member] honest_call
  by (fastforce simp: callAt_def)

end

section \<open>Pages, stamps and events\<close>

lemma list_all2_zip_right: "list_all2 (\<lambda>(a, b) c. f c = a \<and> P b c) (zip as bs) cs \<Longrightarrow> length as \<le> length bs \<Longrightarrow> map f cs = as"
proof (induction as arbitrary: bs cs)
  case (Cons a as)
  then show ?case by (cases bs) (auto simp: list_all2_Cons1)
qed simp

lemma blocksByNumber_numbers:
  assumes "blocksByNumber e ns = Inr bs" "length bs = length ns"
  shows "map B_Number bs = ns"
  using blocksByNumber_Inr [OF assms(1)]
proof
  assume "batchBlocks e ns = Inr bs"
  then obtain raws where r: "list_all2 (\<lambda>(n, raw) b. read_block raw = Inr b \<and> B_Number b = n) (zip ns raws) bs"
    using batchBlocks_numbers by blast
  then have "length ns \<le> length raws" using list_all2_lengthD [OF r] assms(2) by simp
  then show ?thesis
    using list_all2_zip_right [of B_Number "\<lambda>raw b. read_block raw = Inr b" ns raws bs] r by (simp add: conj_commute)
next
  assume "singleBlocks e ns = Inr bs"
  then show ?thesis
    by (auto simp: singleBlocks_Inr list_all2_conv_all_nth list_eq_iff_nth_eq)
qed

lemma filter_cut:
  fixes f :: "'a \<Rightarrow> uint64"
  assumes "sorted (map f xs)" "b < c" "a \<le> b"
  shows "filter (\<lambda>x. P x \<and> a \<le> f x \<and> f x \<le> b) xs @ filter (\<lambda>x. P x \<and> b + 1 \<le> f x \<and> f x \<le> c) xs =
    filter (\<lambda>x. P x \<and> a \<le> f x \<and> f x \<le> c) xs"
proof -
  have succ: "b + 1 \<le> y \<longleftrightarrow> b < y" for y
    using word_succ_nat [OF assms(2)] by (auto simp: word_le_nat_alt word_less_nat_alt)
  show ?thesis
    using assms(1)
  proof (induction xs)
    case (Cons x xs)
    note IH = Cons.IH [OF sorted_wrt.simps(2) [THEN iffD1, THEN conjunct2]]
    show ?case
    proof (cases "f x \<le> b")
      case True
      then show ?thesis using Cons assms(2) by (auto simp: succ)
    next
      case False
      then have none: "\<forall>y \<in> set xs. \<not> f y \<le> b" using Cons.prems by auto
      then have "filter (\<lambda>x. P x \<and> a \<le> f x \<and> f x \<le> b) xs = []" by (simp add: filter_empty_conv)
      then show ?thesis using Cons False assms(3) by (auto simp: succ)
    qed
  qed simp
qed

lemma selected_alt:
  "selected address topic0 a b = (\<lambda>l. (EL_Address l = address \<and> EL_Topics l \<noteq> [] \<and> hd (EL_Topics l) = topic0) \<and>
     a \<le> EL_BlockNumber l \<and> EL_BlockNumber l \<le> b)"
  by (auto simp: selected_def fun_eq_iff)

context honest_endpoint
begin

lemma selected_cut:
  assumes "b < c" "a \<le> b"
  shows "filter (selected address topic0 a b) (H_logs ch) @ filter (selected address topic0 (b + 1) c) (H_logs ch) =
    filter (selected address topic0 a c) (H_logs ch)"
  unfolding selected_alt by (rule filter_cut [OF ordered_blocks assms])

end

lemma stamps_of_other: "n \<notin> B_Number ` set bs \<Longrightarrow> stamps_of bs out n = out n"
  unfolding stamps_of_def by (induction bs arbitrary: out) auto

lemma stamps_of_here: "b \<in> set bs \<Longrightarrow> inj_on B_Number (set bs) \<Longrightarrow> stamps_of bs out (B_Number b) = Some (B_Timestamp b)"
  unfolding stamps_of_def
proof (induction bs arbitrary: out rule: rev_induct)
  case (snoc c bs)
  then show ?case by (cases "B_Number b = B_Number c") (auto simp: inj_on_def)
qed simp

lemma batches_of_small: "ns \<in> set (batches_of xs) \<Longrightarrow> length ns \<le> HeaderBatch"
proof (induction xs rule: batches_of.induct)
  case (1 xs)
  then show ?case
    by (cases "xs = []") (auto simp: batches_of.simps [of xs] batches_of.simps [of "[]"])
qed

lemma concat_batches_of: "concat (batches_of xs) = xs"
proof (induction xs rule: batches_of.induct)
  case (1 xs)
  then show ?case by (cases "xs = []") (simp_all add: batches_of.simps [of xs] batches_of.simps [of "[]"])
qed

lemma logs_loop_step:
  assumes "start \<le> to" "0 < span" "stop = chunk_stop span start to"
  shows "logs_loop r address topic0 to start span out =
    (case crossCheck r (AskLogs start stop) (\<lambda>e. getLogs e address topic0 start stop) canonicalLogs of
       Inl err \<Rightarrow> if span > 1 \<and> tooBig err then logs_loop r address topic0 to start (span div 2) out else Inl err
     | Inr page \<Rightarrow> if stop = to then Inr (out @ page) else logs_loop r address topic0 to (stop + 1) span (out @ page))"
  unfolding assms(3) using assms(1,2) by (subst logs_loop.simps) (simp add: Let_def leD word_gt_0)

context honest_reader
begin

lemma logs_loop_true:
  "logs_loop r address topic0 to start span out = Inr ls \<Longrightarrow>
   ls = out @ filter (selected address topic0 start to) (H_logs ch)"
proof (induction "(unat to - unat start, unat span)" arbitrary: start span out
    rule: wf_induct_rule [OF wf_lex_prod [OF wf_less_than wf_less_than]])
  case 1
  define stop where "stop = chunk_stop span start to"
  let ?page = "crossCheck r (AskLogs start stop) (\<lambda>e. getLogs e address topic0 start stop) canonicalLogs"
  have ok: "start \<le> to" "0 < span"
    using 1(2) by (auto simp: logs_loop.simps [of r address topic0 to start] word_gt_0 split: if_splits)
  note loop = 1(2) [unfolded logs_loop_step [OF ok stop_def, of r address topic0 out]]
  have stop: "start \<le> stop" "stop \<le> to" unfolding stop_def by (rule chunk_stop_bounds [OF ok(2,1)])+
  show ?case
  proof (cases ?page)
    case (Inl err)
    then have "span > 1" "logs_loop r address topic0 to start (span div 2) out = Inr ls"
      using loop by (auto split: if_splits)
    moreover from this(1) have "unat (span div 2) < unat span" by (simp add: unat_div word_less_nat_alt)
    ultimately show ?thesis using 1(1) [of start "span div 2" out] by simp
  next
    case (Inr page)
    then have page: "page = filter (selected address topic0 start stop) (H_logs ch)" by (rule page_true)
    show ?thesis
    proof (cases "stop = to")
      case True
      then show ?thesis using loop Inr page by simp
    next
      case False
      then have lt: "stop < to" using stop by simp
      have "logs_loop r address topic0 to (stop + 1) span (out @ page) = Inr ls"
        using loop Inr False by simp
      moreover have "unat to - unat (stop + 1) < unat to - unat start"
        using word_succ_nat [OF lt] stop(1) lt by (simp add: word_le_nat_alt word_less_nat_alt)
      ultimately have "ls = (out @ page) @ filter (selected address topic0 (stop + 1) to) (H_logs ch)"
        using 1(1) [of "stop + 1" span "out @ page"] by simp
      then show ?thesis using page selected_cut [OF lt stop(1), of address topic0] by simp
    qed
  qed
qed

lemma logs_true: "logs r address topic0 from to span = Inr ls \<Longrightarrow> ls = filter (selected address topic0 from to) (H_logs ch)"
  using logs_loop_true [of address topic0 to "from" span "[]"] by (simp add: logs_def)

lemma header_batches_true:
  assumes "header_batches r bss out = Inr stamps" "\<forall>ns \<in> set bss. length ns \<le> HeaderBatch"
  shows "\<forall>n \<in> set (concat bss). stamps n = Some (B_Timestamp (H_block ch n))" "\<forall>n. n \<notin> set (concat bss) \<longrightarrow> stamps n = out n"
proof -
  have "(\<forall>n \<in> set (concat bss). stamps n = Some (B_Timestamp (H_block ch n))) \<and> (\<forall>n. n \<notin> set (concat bss) \<longrightarrow> stamps n = out n)"
    using assms
  proof (induction bss arbitrary: out)
    case (Cons ns bss)
    obtain bs where bs: "crossCheck r (AskBlocks (hd ns) (last ns)) (\<lambda>e. blocksByNumber e ns) canonicalBlocks = Inr bs"
      "header_batches r bss (stamps_of bs out) = Inr stamps"
      using Cons.prems(1) by (auto simp: and_then_Inr)
    have m: "bs = map (H_block ch) ns" by (rule headers_true [OF bs(1)]) (use Cons.prems(2) in simp)
    obtain e' where "blocksByNumber e' ns = Inr bs" using crossCheck_first [OF bs(1)] by auto
    from blocksByNumber_numbers [OF this] m have num: "B_Number (H_block ch n) = n" if "n \<in> set ns" for n
      using that by (auto simp: m map_eq_conv [of _ _ id, simplified])
    then have inj: "inj_on B_Number (set bs)" by (auto simp: m inj_on_def)
    have here: "stamps_of bs out n = Some (B_Timestamp (H_block ch n))" if "n \<in> set ns" for n
      using stamps_of_here [of "H_block ch n" bs out, OF _ inj] num [OF that] that by (simp add: m)
    have other: "stamps_of bs out n = out n" if "n \<notin> set ns" for n
      by (rule stamps_of_other) (use num that in \<open>auto simp: m\<close>)
    have "\<forall>ns \<in> set bss. length ns \<le> HeaderBatch" using Cons.prems(2) by simp
    from Cons.IH [OF bs(2) this] here other show ?case by (metis Un_iff concat.simps(2) set_append)
  qed simp
  then show "\<forall>n \<in> set (concat bss). stamps n = Some (B_Timestamp (H_block ch n))" "\<forall>n. n \<notin> set (concat bss) \<longrightarrow> stamps n = out n"
    by blast+
qed

end

definition stamped :: "(eventLog \<Rightarrow> event_error + 'a site_scheme) \<Rightarrow> chain_state \<Rightarrow> eventLog \<Rightarrow> 'a site_scheme" where
  "stamped dcd ch l = (projr (dcd l))\<lparr>S_Timestamp := B_Timestamp (H_block ch (EL_BlockNumber l))\<rparr>"

context honest_reader
begin

lemma Timestamps_true: "Timestamps r ns = Inr stamps \<Longrightarrow> n \<in> set ns \<Longrightarrow> stamps n = Some (B_Timestamp (H_block ch n))"
  using header_batches_true(1) [of "batches_of (remdups_adj (sort ns))" Map.empty stamps]
  by (simp add: Timestamps_def concat_batches_of batches_of_small)

lemma stamp_true:
  "stamp r events = Inr out \<Longrightarrow> out = map (\<lambda>e. e\<lparr>S_Timestamp := B_Timestamp (H_block ch (S_BlockNumber e))\<rparr>) events"
  using Timestamps_true by (fastforce simp: stamp_def and_then_Inr)

lemma events_true:
  assumes "and_then (logs r address topic0 from to span) (\<lambda>ls. and_then (with_error BadEvent (traverse dcd ls)) (stamp r)) = Inr out"
    and "\<And>l t. dcd l = Inr t \<Longrightarrow> S_BlockNumber t = EL_BlockNumber l"
  shows "out = map (stamped dcd ch) (filter (selected address topic0 from to) (H_logs ch))"
    "\<forall>l \<in> set (filter (selected address topic0 from to) (H_logs ch)). \<exists>t. dcd l = Inr t"
proof -
  let ?ls = "filter (selected address topic0 from to) (H_logs ch)"
  obtain ts where ts: "traverse dcd ?ls = Inr ts" "stamp r ts = Inr out"
    using assms(1) logs_true by (auto simp: and_then_Inr)
  have each: "dcd (?ls ! i) = Inr (ts ! i)" if "i < length ?ls" for i by (rule traverse_nth [OF ts(1) that])
  then show "\<forall>l \<in> set ?ls. \<exists>t. dcd l = Inr t" by (metis in_set_conv_nth)
  show "out = map (stamped dcd ch) ?ls"
  proof (rule nth_equalityI)
    show "length out = length (map (stamped dcd ch) ?ls)"
      using stamp_true [OF ts(2)] traverse_length [OF ts(1)] by simp
    fix i
    assume "i < length out"
    then have i: "i < length ?ls" "i < length ts" using stamp_true [OF ts(2)] traverse_length [OF ts(1)] by simp_all
    then show "out ! i = map (stamped dcd ch) ?ls ! i"
      using stamp_true [OF ts(2)] each [OF i(1)] assms(2) [OF each [OF i(1)]] by (simp add: stamped_def)
  qed
qed

end

lemma decodeTransfer_site: "decodeTransfer k l = Inr t \<Longrightarrow> S_BlockNumber t = EL_BlockNumber l \<and> S_BlockHash t = EL_BlockHash l"
  by (auto simp: decodeTransfer_def site_of_def site.defs chainTransfer.defs split: option.splits sum.splits)

lemma decodeTransfer_value: "decodeTransfer k l = Inr t \<Longrightarrow> amount_ok (CT_Value t)"
proof -
  assume a: "decodeTransfer k l = Inr t"
  then have "length (EL_Data l) = 32" "CT_Value t = wordUint256 (EL_Data l)"
    by (auto simp: decodeTransfer_def check_def site.defs chainTransfer.defs split: option.splits sum.splits if_splits)
  moreover have "int (be_nat (EL_Data l)) < 2 ^ 256" if "length (EL_Data l) = 32"
  proof -
    have "be_nat (EL_Data l) < 2 ^ 256" using be_nat_less [of "EL_Data l"] that by simp
    then have "int (be_nat (EL_Data l)) < int (2 ^ 256)" by (simp only: of_nat_less_iff)
    then show ?thesis by (simp only: of_nat_power of_nat_numeral)
  qed
  ultimately show ?thesis by (simp add: wordUint256_def amount_ok_def)
qed

lemma decodeExcludedAppended_site: "decodeExcludedAppended k l = Inr t \<Longrightarrow> S_BlockNumber t = EL_BlockNumber l"
  by (auto simp: decodeExcludedAppended_def site_of_def site.defs chainExclusion.defs split: option.splits sum.splits)

lemma decodeRootPosted_site: "decodeRootPosted k l = Inr t \<Longrightarrow> S_BlockNumber t = EL_BlockNumber l"
  by (auto simp: decodeRootPosted_def site_of_def site.defs rootPosted.defs split: option.splits sum.splits if_splits)

context honest_reader
begin

lemma Transfers_true:
  assumes "Transfers k r from to = Inr ts"
  shows "ts = map (stamped (decodeTransfer k) ch) (filter (selected (R_token r) (topicTransfer k) from to) (H_logs ch))"
  using events_true(1) [OF assms [unfolded Transfers_def]] decodeTransfer_site by blast

lemma Exclusions_true:
  assumes "Exclusions k r from to = Inr ts"
  shows "ts = map (stamped (decodeExcludedAppended k) ch)
    (filter (selected (R_distributor r) (topicExcludedAppended k) from to) (H_logs ch))"
  using events_true(1) [OF assms [unfolded Exclusions_def]] decodeExcludedAppended_site by blast

lemma Roots_true:
  assumes "Roots k r from to = Inr ts"
  shows "ts = map (stamped (decodeRootPosted k) ch) (filter (selected (R_distributor r) (topicRootPosted k) from to) (H_logs ch))"
  using events_true(1) [OF assms [unfolded Roots_def]] decodeRootPosted_site by blast

end

section \<open>The Reader as a Source\<close>

text \<open>The branch of the Cache's specification that a chain is, and what a chain with a sane token satisfies.\<close>

definition transfer_logs :: "keccak \<Rightarrow> address \<Rightarrow> chain_state \<Rightarrow> eventLog list" where
  "transfer_logs k token ch =
     filter (\<lambda>l. EL_Address l = token \<and> EL_Topics l \<noteq> [] \<and> hd (EL_Topics l) = topicTransfer k) (H_logs ch)"

definition branch_of :: "keccak \<Rightarrow> address \<Rightarrow> chain_state \<Rightarrow> branch" where
  "branch_of k token ch =
     \<lparr>bhash = \<lambda>n. B_Hash (H_block ch (of_nat n)),
      brecords = \<lambda>n. map (\<lambda>l. FromTransfer (stamped (decodeTransfer k) ch l))
        (filter (\<lambda>l. unat (EL_BlockNumber l) = n) (transfer_logs k token ch))\<rparr>"

definition chain_ok :: "keccak \<Rightarrow> address \<Rightarrow> chain_state \<Rightarrow> bool" where
  "chain_ok k token ch \<longleftrightarrow>
     (\<forall>l \<in> set (transfer_logs k token ch).
        in_i64 (B_Timestamp (H_block ch (EL_BlockNumber l))) \<and>
        EL_BlockHash l = B_Hash (H_block ch (EL_BlockNumber l)) \<and> (\<exists>t. decodeTransfer k l = Inr t))"

lemma concat_by_block:
  fixes f :: "'a \<Rightarrow> nat"
  assumes "sorted (map f xs)"
  shows "concat (map (\<lambda>n. filter (\<lambda>x. f x = n) xs) [a..<b]) = filter (\<lambda>x. a \<le> f x \<and> f x < b) xs"
proof (induction b)
  case (Suc b)
  show ?case
  proof (cases "a \<le> b")
    case True
    have "filter (\<lambda>x. a \<le> f x \<and> f x < b) xs @ filter (\<lambda>x. f x = b) xs = filter (\<lambda>x. a \<le> f x \<and> f x < Suc b) xs"
      using assms
    proof (induction xs)
      case (Cons x xs)
      then show ?case
      proof (cases "f x < b")
        case False
        then have "\<forall>y \<in> set xs. \<not> f y < b" using Cons.prems by auto
        then have "filter (\<lambda>x. a \<le> f x \<and> f x < b) xs = []" by (simp add: filter_empty_conv)
        then show ?thesis using Cons False True by auto
      qed auto
    qed simp
    with Suc True show ?thesis by simp
  qed (auto intro: filter_False [symmetric])
qed (auto intro: filter_False [symmetric])

context honest_endpoint
begin

lemma branch_of_log:
  "branch_log (branch_of k token ch) a b =
     map (\<lambda>l. FromTransfer (stamped (decodeTransfer k) ch l))
       (filter (\<lambda>l. a \<le> unat (EL_BlockNumber l) \<and> unat (EL_BlockNumber l) < b) (transfer_logs k token ch))"
proof -
  have "sorted (map (\<lambda>l. unat (EL_BlockNumber l)) (transfer_logs k token ch))"
    using ordered_blocks unfolding transfer_logs_def sorted_map
    by (metis (mono_tags, lifting) sorted_wrt_filter sorted_wrt_mono_rel word_le_nat_alt)
  from concat_by_block [OF this, of a b, symmetric] show ?thesis
    by (simp add: branch_log_def branch_of_def map_concat comp_def)
qed

lemma branch_of_ok:
  assumes "chain_ok k token ch"
  shows "branch_ok (branch_of k token ch)"
  unfolding branch_ok_def
proof (intro allI ballI)
  fix n rc
  assume "rc \<in> set (brecords (branch_of k token ch) n)"
  then obtain l where l: "l \<in> set (transfer_logs k token ch)" "unat (EL_BlockNumber l) = n"
    "rc = FromTransfer (stamped (decodeTransfer k) ch l)"
    by (auto simp: branch_of_def)
  then obtain t where t: "decodeTransfer k l = Inr t" "EL_BlockHash l = B_Hash (H_block ch (EL_BlockNumber l))"
    using assms by (auto simp: chain_ok_def)
  have "in_i64 (B_Timestamp (H_block ch (EL_BlockNumber l)))" using assms l(1) by (simp add: chain_ok_def)
  then show "unat (Rec_BlockNumber rc) = n \<and> Rec_BlockHash rc = bhash (branch_of k token ch) n \<and> record_ok rc"
    using l t decodeTransfer_site [OF t(1)] decodeTransfer_value [OF t(1)]
    by (auto simp: FromTransfer_def stamped_def record_ok_def branch_of_def)
qed

end

context honest_reader
begin

lemma Reader_source:
  assumes "chain_ok k (R_token r) ch"
  shows "branch_source (Transfers k r) (BlockByNumber r) (branch_of k (R_token r) ch)"
proof -
  have "map FromTransfer ts = branch_log (branch_of k (R_token r) ch) (unat a) (Suc (unat b))"
    if "Transfers k r a b = Inr ts" for a b ts
    unfolding branch_of_log
    by (simp add: Transfers_true [OF that] transfer_logs_def selected_alt word_le_nat_alt less_Suc_eq_le conj_ac comp_def)
  moreover have "B_Hash b = bhash (branch_of k (R_token r) ch) (unat n)" if "BlockByNumber r n = Inr b" for n b
    using BlockByNumber_true [OF that] by (simp add: branch_of_def)
  ultimately show ?thesis using branch_of_ok [OF assms] by (simp add: branch_source_def)
qed

end

text \<open>A Reader over a chain whose transfers can be cached is a \<open>Source\<close> for the branch that chain makes.\<close>

locale caching_reader = honest_reader +
  fixes k :: keccak
  assumes cacheable: "chain_ok k (R_token r) ch"

sublocale caching_reader \<subseteq> source: branch_source "Transfers k r" "BlockByNumber r" "branch_of k (R_token r) ch"
  by (rule Reader_source [OF cacheable])

section \<open>The end block\<close>

lemma end_search_last:
  assumes "lo < hi" "\<And>n b. blk n = Inr b \<Longrightarrow> b = g n" "probed lo = Some (g lo)"
    and "B_Timestamp (g lo) < t" "t \<le> B_Timestamp (g hi)" "end_search blk t lo hi probed = Inr b"
  shows "\<exists>n. lo \<le> n \<and> n < hi \<and> b = g n \<and> B_Timestamp (g n) < t \<and> t \<le> B_Timestamp (g (n + 1))"
  using assms(1,3-6)
proof (induction "unat hi - unat lo" arbitrary: lo hi probed rule: less_induct)
  case less
  show ?case
  proof (cases "hi - lo > 1")
    case True
    let ?mid = "lo + (hi - lo) div 2"
    have m: "lo < ?mid" "?mid < hi" using mid_between [OF _ True] less.prems(1) by simp_all
    obtain bm where bm: "blk ?mid = Inr bm"
      "(if B_Timestamp bm < t then end_search blk t ?mid hi (probed(?mid \<mapsto> bm))
        else end_search blk t lo ?mid (probed(?mid \<mapsto> bm))) = Inr b"
      using less.prems(5) True less_imp_le [OF less.prems(1)]
      by (auto simp: end_search.simps [of blk t lo hi] Let_def and_then_Inr)
    have eq: "bm = g ?mid" by (rule assms(2) [OF bm(1)])
    show ?thesis
    proof (cases "B_Timestamp bm < t")
      case early: True
      have "\<exists>n. ?mid \<le> n \<and> n < hi \<and> b = g n \<and> B_Timestamp (g n) < t \<and> t \<le> B_Timestamp (g (n + 1))" (is "\<exists>n. ?P n")
        by (rule less.hyps [of hi ?mid "probed(?mid \<mapsto> bm)"])
          (use m less.prems early bm eq in \<open>auto simp: word_less_nat_alt\<close>)
      then obtain n where n: "?P n" by blast
      then have "lo \<le> n" using m(1) by (meson less_imp_le order_trans)
      with n show ?thesis by blast
    next
      case late: False
      have "\<exists>n. lo \<le> n \<and> n < ?mid \<and> b = g n \<and> B_Timestamp (g n) < t \<and> t \<le> B_Timestamp (g (n + 1))" (is "\<exists>n. ?P n")
        by (rule less.hyps [of ?mid lo "probed(?mid \<mapsto> bm)"])
          (use m less.prems late bm eq in \<open>auto simp: word_less_nat_alt\<close>)
      then obtain n where n: "?P n" by blast
      then have "n < hi" using m(2) by (meson less_trans)
      with n show ?thesis by blast
    qed
  next
    case False
    have "hi = lo + 1"
    proof -
      have "unat (hi - lo) = unat hi - unat lo" by (rule unat_sub [OF less_imp_le [OF less.prems(1)]])
      then have "unat hi \<le> unat lo + 1" using False by (simp add: word_less_nat_alt)
      then show ?thesis using word_succ_nat [OF less.prems(1)] less.prems(1) by (simp add: word_unat_eq_iff word_less_nat_alt)
    qed
    moreover have "b = g lo" using less.prems False by (simp add: end_search.simps [of blk t lo hi])
    ultimately show ?thesis using less.prems by (intro exI [of _ lo]) auto
  qed
qed

lemma end_search_total:
  assumes "lo < hi" "\<And>n. lo < n \<Longrightarrow> n < hi \<Longrightarrow> \<exists>b. blk n = Inr b"
  shows "\<exists>b. end_search blk t lo hi probed = Inr b"
  using assms
proof (induction "unat hi - unat lo" arbitrary: lo hi probed rule: less_induct)
  case less
  show ?case
  proof (cases "hi - lo > 1")
    case True
    let ?mid = "lo + (hi - lo) div 2"
    have m: "lo < ?mid" "?mid < hi" using mid_between [OF _ True] less.prems(1) by simp_all
    obtain bm where bm: "blk ?mid = Inr bm" using less.prems(2) m by blast
    have "\<exists>b. end_search blk t ?mid hi (probed(?mid \<mapsto> bm)) = Inr b"
      by (rule less.hyps) (use m less.prems in \<open>auto simp: word_less_nat_alt\<close>)
    moreover have "\<exists>b. end_search blk t lo ?mid (probed(?mid \<mapsto> bm)) = Inr b"
      by (rule less.hyps) (use m less.prems in \<open>auto simp: word_less_nat_alt\<close>)
    ultimately show ?thesis
      using bm True less_imp_le [OF less.prems(1)] by (simp add: end_search.simps [of blk t lo hi] Let_def)
  qed (simp add: end_search.simps [of blk t lo hi])
qed

definition times_ascend :: "chain_state \<Rightarrow> uint64 \<Rightarrow> bool" where
  "times_ascend ch tip_number \<longleftrightarrow>
     (\<forall>m n. m \<le> n \<and> n \<le> tip_number \<longrightarrow> B_Timestamp (H_block ch m) \<le> B_Timestamp (H_block ch n))"

lemma last_before_unique:
  assumes "times_ascend ch N" "n < N" "B_Timestamp (H_block ch n) < t" "t \<le> B_Timestamp (H_block ch (n + 1))" "m \<le> N"
  shows "B_Timestamp (H_block ch m) < t \<longleftrightarrow> m \<le> n"
proof -
  have succ: "unat (n + 1) = unat n + 1" by (rule word_succ_nat [OF assms(2)])
  show ?thesis
  proof (cases "m \<le> n")
    case True
    then have "B_Timestamp (H_block ch m) \<le> B_Timestamp (H_block ch n)"
      using assms(1,2) by (simp add: times_ascend_def)
    with True assms(3) show ?thesis by simp
  next
    case False
    then have "n + 1 \<le> m" using succ by (simp add: word_le_nat_alt)
    then have "B_Timestamp (H_block ch (n + 1)) \<le> B_Timestamp (H_block ch m)"
      using assms(1,5) by (simp add: times_ascend_def)
    with False assms(4) show ?thesis by simp
  qed
qed

context honest_reader
begin

lemma EndBlock_last:
  assumes "EndBlock r epochID tp = Inr b" "T_Block tp = H_block ch N" "B_Number (T_Block tp) = N" "times_ascend ch N"
  shows "\<exists>n < N. b = H_block ch n \<and> (\<forall>m \<le> N. B_Timestamp (H_block ch m) < End (WindowOf epochID) \<longleftrightarrow> m \<le> n)"
proof -
  let ?t = "End (WindowOf epochID)"
  obtain genesis where g: "BlockByNumber r 0 = Inr genesis" "B_Timestamp genesis < ?t" "?t \<le> B_Timestamp (H_block ch N)"
    "end_search (BlockByNumber r) ?t 0 N [0 \<mapsto> genesis] = Inr b"
    using assms(1-3) by (auto simp: EndBlock_def Let_def and_then_Inr not_less not_le split: if_splits)
  have gen: "genesis = H_block ch 0" by (rule BlockByNumber_true [OF g(1)])
  then have "N \<noteq> 0" using g(2,3) by auto
  then have "0 < N" by (simp add: word_gt_0)
  have "[0 \<mapsto> genesis] 0 = Some (H_block ch 0)" "B_Timestamp (H_block ch 0) < ?t" using g(2) gen by simp_all
  from end_search_last [where blk = "BlockByNumber r" and g = "H_block ch", OF \<open>0 < N\<close> _ this g(3,4)] BlockByNumber_true
  obtain n where n: "n < N" "b = H_block ch n" "B_Timestamp (H_block ch n) < ?t" "?t \<le> B_Timestamp (H_block ch (n + 1))"
    by blast
  then show ?thesis using last_before_unique [OF assms(4) n(1,3,4)] by blast
qed

lemma EndBlock_found:
  assumes "B_Timestamp (H_block ch 0) < End (WindowOf epochID)" "End (WindowOf epochID) \<le> B_Timestamp (T_Block tp)"
    and "\<And>n. n \<le> N \<Longrightarrow> \<exists>b. BlockByNumber r n = Inr b" "T_Block tp = H_block ch N" "B_Number (T_Block tp) = N"
  shows "\<exists>b. EndBlock r epochID tp = Inr b"
proof -
  obtain genesis where g: "BlockByNumber r 0 = Inr genesis" using assms(3) [of 0] by auto
  have gen: "genesis = H_block ch 0" by (rule BlockByNumber_true [OF g])
  have "N \<noteq> 0" using assms(1,2,4) by auto
  then have "0 < N" by (simp add: word_gt_0)
  have "\<exists>b. BlockByNumber r n = Inr b" if "n < N" for n by (rule assms(3)) (use that in simp)
  from end_search_total [OF \<open>0 < N\<close> this] show ?thesis
    using assms g gen by (simp add: EndBlock_def Let_def)
qed

end

section \<open>The tip\<close>

lemma MinFunc_least:
  assumes "bs \<noteq> []"
  shows "MinFunc bs \<in> set bs \<and> (\<forall>b \<in> set bs. B_Number (MinFunc bs) \<le> B_Number b)"
proof -
  have "foldl (\<lambda>m b. if B_Number b < B_Number m then b else m) a xs \<in> insert a (set xs) \<and>
      (\<forall>b \<in> insert a (set xs). B_Number (foldl (\<lambda>m b. if B_Number b < B_Number m then b else m) a xs) \<le> B_Number b)" for a :: block and xs
  proof (induction xs arbitrary: a)
    case (Cons x xs)
    show ?case using Cons.IH [of "if B_Number x < B_Number a then x else a"] by (auto split: if_splits)
  qed simp
  from this [of "hd bs" "tl bs"] assms show ?thesis by (cases bs) (simp_all add: MinFunc_def)
qed

lemma MaxFunc_greatest:
  assumes "bs \<noteq> []"
  shows "MaxFunc bs \<in> set bs \<and> (\<forall>b \<in> set bs. B_Number b \<le> B_Number (MaxFunc bs))"
proof -
  have "foldl (\<lambda>m b. if B_Number b > B_Number m then b else m) a xs \<in> insert a (set xs) \<and>
      (\<forall>b \<in> insert a (set xs). B_Number b \<le> B_Number (foldl (\<lambda>m b. if B_Number b > B_Number m then b else m) a xs))" for a :: block and xs
  proof (induction xs arbitrary: a)
    case (Cons x xs)
    show ?case using Cons.IH [of "if B_Number x > B_Number a then x else a"] by (auto split: if_splits)
  qed simp
  from this [of "hd bs" "tl bs"] assms show ?thesis by (cases bs) (simp_all add: MaxFunc_def)
qed

lemma Head_lowest:
  assumes "Head r level = Inr tp" "1 < length (R_endpoints r)"
  shows "\<exists>tips. map (\<lambda>e. blockByTag e (finality_tag level)) (R_endpoints r) = map Inr tips \<and>
    BlockByNumber r (B_Number (MinFunc tips)) = Inr (T_Block tp) \<and>
    (\<forall>b \<in> set tips. B_Number (MinFunc tips) \<le> B_Number b) \<and>
    unat (T_Lag tp) = unat (B_Number (MaxFunc tips)) - unat (B_Number (MinFunc tips)) \<and> T_Finality tp = level"
proof -
  obtain tips where t: "eachEndpoint (R_order r (AskHead level)) (map (\<lambda>e. blockByTag e (finality_tag level)) (R_endpoints r)) = Inr tips"
    "BlockByNumber r (B_Number (MinFunc tips)) = Inr (T_Block tp)" "T_Finality tp = level"
    "T_Lag tp = B_Number (MaxFunc tips) - B_Number (MinFunc tips)"
    using assms by (auto simp: Head_def Let_def and_then_Inr split: sum.splits if_splits)
  have all: "map (\<lambda>e. blockByTag e (finality_tag level)) (R_endpoints r) = map Inr tips"
    using t(1) by (simp only: eachEndpoint_Inr)
  then have ne: "tips \<noteq> []" using assms(2) by (metis length_map list.size(3) not_less_zero)
  have "B_Number (MinFunc tips) \<le> B_Number (MaxFunc tips)"
    using MinFunc_least [OF ne] MaxFunc_greatest [OF ne] by blast
  then show ?thesis using t(2-4) all MinFunc_least [OF ne] by (auto simp: unat_sub word_le_nat_alt)
qed

section \<open>Narrowing\<close>

definition page :: "reader \<Rightarrow> address \<Rightarrow> hash \<Rightarrow> uint64 \<Rightarrow> uint64 \<Rightarrow> chain_error + eventLog list" where
  "page r address topic0 from to = crossCheck r (AskLogs from to) (\<lambda>e. getLogs e address topic0 from to) canonicalLogs"

text \<open>A range of blocks is answered, or refused as too big when it is more than one block.\<close>

definition narrowable :: "reader \<Rightarrow> address \<Rightarrow> hash \<Rightarrow> bool" where
  "narrowable r address topic0 \<longleftrightarrow>
     (\<forall>a b. a \<le> b \<longrightarrow>
        (case page r address topic0 a b of Inr ls \<Rightarrow> True | Inl err \<Rightarrow> a < b \<and> tooBig err))"

lemma chunk_stop_one: "start \<le> to \<Longrightarrow> chunk_stop 1 start to = start"
  by (auto simp: chunk_stop_def word_le_nat_alt unat_sub word_unat_eq_iff)

lemma logs_loop_total:
  assumes "narrowable r address topic0" "start \<le> to" "0 < span"
  shows "\<exists>ls. logs_loop r address topic0 to start span out = Inr ls"
  using assms(2,3)
proof (induction "(unat to - unat start, unat span)" arbitrary: start span out
    rule: wf_induct_rule [OF wf_lex_prod [OF wf_less_than wf_less_than]])
  case 1
  define stop where "stop = chunk_stop span start to"
  have stop: "start \<le> stop" "stop \<le> to" unfolding stop_def by (rule chunk_stop_bounds [OF 1(3,2)])+
  note step = logs_loop_step [OF 1(2,3) stop_def, of r address topic0 out, folded page_def]
  show ?case
  proof (cases "page r address topic0 start stop")
    case (Inl err)
    then have wide: "start < stop" "tooBig err"
      using assms(1) stop(1) unfolding narrowable_def by (metis (no_types, lifting) sum.case(1))+
    have "span > 1"
    proof (rule ccontr)
      assume "\<not> span > 1"
      then have "span = 1" using 1(3) by (simp add: word_less_nat_alt word_unat_eq_iff)
      then show False using wide(1) chunk_stop_one [OF 1(2)] by (simp add: stop_def)
    qed
    moreover from this have "unat (span div 2) < unat span" "0 < span div 2"
      by (simp_all add: unat_div word_less_nat_alt)
    ultimately show ?thesis using step Inl wide(2) 1(1) [of start "span div 2" out] 1(2) by simp
  next
    case (Inr ls)
    show ?thesis
    proof (cases "stop = to")
      case False
      then have lt: "stop < to" using stop(2) by simp
      have "unat to - unat (stop + 1) < unat to - unat start" "stop + 1 \<le> to"
        using word_succ_nat [OF lt] stop(1) lt by (simp_all add: word_le_nat_alt word_less_nat_alt)
      then show ?thesis using step Inr False 1(1) [of "stop + 1" span "out @ ls"] 1(3) by simp
    qed (use step Inr in simp)
  qed
qed

section \<open>Properties\<close>

text \<open>
  The cross-check. A read returns an answer exactly when every endpoint gave one and all of them have the same
  canonical form; then it is the first endpoint's. One endpoint that fails or differs fails the
  read, whatever the order in which the answers arrive.
\<close>

theorem crossCheck_unanimous:
  "crossCheck r q read canon = Inr x \<longleftrightarrow>
     R_endpoints r \<noteq> [] \<and> read (hd (R_endpoints r)) = Inr x \<and>
     (\<forall>e \<in> set (R_endpoints r). \<exists>y. read e = Inr y \<and> canon y = canon x)"
  by (rule crossCheck_Inr)

theorem crossCheck_unanimous_witness:
  "crossCheck \<lparr>R_endpoints = [\<lparr>E_label = ''a'', E_ask = \<lambda>m ps. Inl (NoAnswer m), E_askBatch = \<lambda>m ps. Inr [], E_noBatch = \<lambda>ns. False\<rparr>,
       \<lparr>E_label = ''b'', E_ask = \<lambda>m ps. Inl (NoAnswer m), E_askBatch = \<lambda>m ps. Inr [], E_noBatch = \<lambda>ns. True\<rparr>],
     R_token = 1, R_distributor = 2, R_factory = 3, R_order = \<lambda>q. []\<rparr> (AskBlock 5) (\<lambda>e. Inr (length (E_label e))) (\<lambda>n. [of_nat n]) = Inr 1"
  unfolding crossCheck_unanimous by simp

text \<open>
  C35. Log queries narrow until they are answered. When every range of blocks is either answered or refused as too big,
  and a single block never refused, \<open>logs\<close> returns, from any starting span, however far it has
  to halve.
\<close>

theorem logs_narrow:
  assumes "narrowable r address topic0" "from \<le> to" "0 < span"
  shows "\<exists>ls. logs r address topic0 from to span = Inr ls"
  using logs_loop_total [OF assms] by (simp add: logs_def)

definition block_by_block :: endpoint where
  "block_by_block =
     \<lparr>E_label = ''endpoint 1 (localhost)'',
      E_ask = \<lambda>m ps.
        (case ps of
           [JObj [a, (f, JStr x), (t, JStr y), ts]] \<Rightarrow>
             if x = y then Inr (JArr [])
             else Inl (RpcObject m \<lparr>E_Code = -32000, E_Message = ''query returned more than 10000 results''\<rparr>)
         | _ \<Rightarrow> Inl (NoAnswer m)),
      E_askBatch = \<lambda>m ps. Inl (BatchRefused (NoAnswer m)), E_noBatch = \<lambda>ns. True\<rparr>"

definition slow_reader :: reader where
  "slow_reader = \<lparr>R_endpoints = [block_by_block], R_token = 1, R_distributor = 2, R_factory = 3, R_order = \<lambda>q. []\<rparr>"

theorem logs_narrow_witness: "\<exists>ls. logs slow_reader 1 5 0 100000 MaxLogRange = Inr ls"
proof (rule logs_narrow)
  have big: "tooBig (EndpointFailed l q (ReadRpc (RpcObject m \<lparr>E_Code = -32000, E_Message = ''query returned more than 10000 results''\<rparr>)))"
    for l q m
    by (simp add: tooBig_def) code_simp
  have "quantity a = quantity b \<longleftrightarrow> a = b" for a b
    using quantity_codec.enc_inject [of a b] by simp
  then have "page slow_reader 1 5 a b =
      (if a = b then Inr [] else Inl (EndpointFailed (E_label block_by_block) (AskLogs a b)
        (ReadRpc (RpcObject ''eth_getLogs'' \<lparr>E_Code = -32000, E_Message = ''query returned more than 10000 results''\<rparr>))))" for a b
    by (simp add: page_def crossCheck_def slow_reader_def getLogs_def block_by_block_def log_filter_def to_list_def sortLogs_def)
  then show "narrowable slow_reader 1 5"
    using big by (simp add: narrowable_def order.strict_iff_order)
qed (simp_all add: MaxLogRange_def)

end
