(* ===== verification/Book.thy ===== *)
theory Book
  imports Actions Reader Alloc
begin

text \<open>
  The Deployment a run is pinned to (\<open>epoch/deployment.go\<close>), the state of an Engine (\<open>epoch/engine.go\<close>), and its reads of the
  Distributor's book and of the RootPosted stream (\<open>epoch/roots.go\<close>): the memo of \<open>ledger()\<close> reads, the standing Root of
  an Epoch, the search backwards from the tip, the standing Roots of a range.

  The file of the Cache is part of the Engine's state (\<open>G_file\<close>). Whether another process holds its
  lock at each of the two times it is opened is given (\<open>G_held\<close>). Progress lines are left out.
\<close>

section \<open>The Deployment\<close>

record deployment =
  D_ChainID :: uint64
  D_Token :: address
  D_Distributor :: address
  D_DevWallet :: address
  D_PonsFactory :: address
  D_TokenBlock :: uint64
  D_DistributorBlock :: uint64

definition ponsFactory4663 :: address where
  "ponsFactory4663 =
     bytes_addr [0x7e, 0xd5, 0x98, 0xbc, 0xef, 0x8b, 0xd9, 0xed, 0xd8, 0xc9,
                 0x7a, 0x19, 0x5c, 0x6d, 0x13, 0xf4, 0x08, 0x01, 0xec, 0x7e]"

definition Pinned :: deployment where
  "Pinned =
     \<lparr>D_ChainID = 4663, D_Token = 0, D_Distributor = 0, D_DevWallet = 0, D_PonsFactory = ponsFactory4663,
      D_TokenBlock = 0, D_DistributorBlock = 0\<rparr>"

section \<open>The Engine\<close>

datatype engine_error =
    NoReader
  | NotPinned
  | OtherContracts address address address address
  | OtherFactory address address
  | NoCacheDirectory
  | ChainFailed chain_error
  | CacheFailed cache_error
  | SyncFailed "chain_error sync_error"
  | EachFailed "unit each_error"
  | ReplayFailed twab_error
  | AllocateFailed alloc_error
  | RootAboveTip uint64 finality uint64 uint64
  | RootDiffers uint64 hash uint64 uint64 hash
  | RootNotLogged uint64 hash uint64 uint64
  | NoRootPosted finality
  | Predates uint64 uint64
  | NilAmount

definition deployment_Check :: "deployment \<Rightarrow> engine_error option" where
  "deployment_Check d =
     (if D_ChainID d = 0 \<or> D_Token d = 0 \<or> D_Distributor d = 0 \<or> D_DevWallet d = 0 \<or> D_PonsFactory d = 0
      then Some NotPinned else None)"

record engine_options =
  G_SyncChunk :: int64
  G_Fresh :: bool

record engine_synced =
  GS_Dir :: string
  GS_Records :: nat
  GS_Through :: uint64
  GS_Appended :: nat
  GS_Reorg :: "reorg_note option"
  GS_Repaired :: "repair_note option"

record engine =
  G_reader :: reader
  G_tip :: tip
  G_cacheDir :: string
  G_dep :: deployment
  G_opts :: engine_options
  G_ledgers :: "uint64 \<rightharpoonup> chainLedger"
  G_synced :: "engine_synced option"
  G_loaded :: bool
  G_history :: "transfer list"
  G_exclusions :: "chainExclusion list"
  G_replayables :: "exclusion list"
  G_ledger :: "ledger option"
  G_floor :: uint64
  G_first :: "uint64 option"
  G_file :: "byte list"
  G_held :: "nat \<Rightarrow> bool"

type_synonym 'a engine_action = "(engine, engine_error, 'a) action"

definition tipNumber :: "engine \<Rightarrow> uint64" where
  "tipNumber e = B_Number (T_Block (G_tip e))"

section \<open>The book\<close>

definition book_ledger :: "keccak \<Rightarrow> uint64 \<Rightarrow> chainLedger engine_action" where
  "book_ledger k i e =
     (case G_ledgers e i of
        Some l \<Rightarrow> (e, Inr l)
      | None \<Rightarrow>
          (case LedgerAt k (G_reader e) KindEpoch i (tipNumber e) of
             Inl err \<Rightarrow> (e, Inl (ChainFailed err))
           | Inr l \<Rightarrow> (e\<lparr>G_ledgers := (G_ledgers e)(i \<mapsto> l)\<rparr>, Inr l)))"

text \<open>\<open>big.Int.Add\<close> of a nil amount panics.\<close>

definition add_amounts :: "amounts \<Rightarrow> amounts \<Rightarrow> engine_error + amounts" where
  "add_amounts a b =
     (if \<exists>t \<in> set tokens. a t = None \<or> b t = None then Inl NilAmount
      else Inr (\<lambda>t. Some (the (a t) + the (b t))))"

definition addFunding :: "keccak \<Rightarrow> amounts \<Rightarrow> uint64 \<Rightarrow> amounts engine_action" where
  "addFunding k carry i = follow (book_ledger k i) (\<lambda>l. reads (\<lambda>e. add_amounts carry (L_Funded l)))"

definition stands :: "keccak \<Rightarrow> rootPosted \<Rightarrow> bool engine_action" where
  "stands k posted = follow (book_ledger k (RP_ID posted)) (\<lambda>l. return_with (HasRoot l \<and> L_Root l = RP_Root posted))"

definition engine_Roots :: "keccak \<Rightarrow> uint64 \<Rightarrow> uint64 \<Rightarrow> rootPosted list engine_action" where
  "engine_Roots k from to = reads (\<lambda>e. with_error ChainFailed (Roots k (G_reader e) from to))"

definition standingRoot :: "keccak \<Rightarrow> uint64 \<Rightarrow> uint64 \<Rightarrow> uint64 \<Rightarrow> rootPosted option engine_action" where
  "standingRoot k i from to =
     follow (book_ledger k i) (\<lambda>l.
       if \<not> HasRoot l then return_with None
       else if from > to then (\<lambda>e. fail_with (RootAboveTip i (T_Finality (G_tip e)) to (from - 1)) e)
       else follow (engine_Roots k from to) (\<lambda>roots.
              case List.find (\<lambda>p. RP_Kind p = KindEpoch \<and> RP_ID p = i) (rev roots) of
                None \<Rightarrow> fail_with (RootNotLogged i (L_Root l) from to)
              | Some p \<Rightarrow>
                  if RP_Root p \<noteq> L_Root l then fail_with (RootDiffers i (L_Root l) from to (RP_Root p))
                  else return_with (Some p)))"

section \<open>The search backwards\<close>

text \<open>
  What a caller wants of a log may change a value of its own as the search goes (\<open>bound\<close> of \<open>previousRoot\<close>): it is
  handed from one log to the next.
\<close>

type_synonym 'b want = "'b \<Rightarrow> rootPosted \<Rightarrow> ('b \<times> bool) engine_action"

fun want_loop :: "'b want \<Rightarrow> rootPosted list \<Rightarrow> 'b \<Rightarrow> ('b \<times> rootPosted option) engine_action" where
  "want_loop want [] b = return_with (b, None)"
| "want_loop want (p # ps) b =
     follow (want b p) (\<lambda>(b', ok). if ok then return_with (b', Some p) else want_loop want ps b')"

definition searchSpan :: uint64 where "searchSpan = 40000"

definition page_start :: "uint64 \<Rightarrow> uint64 \<Rightarrow> uint64 \<Rightarrow> uint64" where
  "page_start fl hi span = (if hi - fl > span then hi - span else fl)"

lemma page_start_bounds:
  assumes "fl \<le> hi"
  shows "fl \<le> page_start fl hi span" "page_start fl hi span \<le> hi"
proof -
  have "unat (hi - fl) = unat hi - unat fl" using assms by (rule unat_sub)
  moreover have "unat (hi - span) = unat hi - unat span" if "span < hi - fl"
    using that calculation by (intro unat_sub) (simp add: word_le_nat_alt word_less_nat_alt)
  ultimately show "fl \<le> page_start fl hi span" "page_start fl hi span \<le> hi"
    using assms by (auto simp: page_start_def word_le_nat_alt word_less_nat_alt)
qed

lemma word_pred_nat: "(fl :: uint64) < lo \<Longrightarrow> unat (lo - 1) = unat lo - 1"
  by (rule unat_minus_one) (auto simp: word_less_nat_alt)

function search_pages :: "keccak \<Rightarrow> 'b want \<Rightarrow> uint64 \<Rightarrow> uint64 \<Rightarrow> uint64 \<Rightarrow> 'b \<Rightarrow> rootPosted option engine_action" where
  "search_pages k want fl hi span b e =
     (if hi < fl then (e, Inr None)
      else
        let lo = page_start fl hi span
        in follow (engine_Roots k lo hi) (\<lambda>roots.
             follow (want_loop want (rev roots) b) (\<lambda>(b', found) e'.
               case found of
                 Some p \<Rightarrow> (e', Inr (Some p))
               | None \<Rightarrow>
                   if lo = fl then (e', Inr None)
                   else search_pages k want fl (lo - 1) (if span \<le> (2 ^ 64 - 1) div 2 then span * 2 else span) b' e')) e)"
  by pat_completeness auto
termination
proof (relation "measure (\<lambda>(k, want, fl, hi, span, b, e). unat hi)", goal_cases)
  case (2 k want fl hi span b e lo s1 roots s2 p b' found)
  then have "fl \<le> lo" "lo \<le> hi" "fl \<noteq> lo" using page_start_bounds [of fl hi span] by auto
  then have "fl < lo" by simp
  from word_pred_nat [OF this] this \<open>lo \<le> hi\<close> show ?case by (simp add: word_le_nat_alt word_less_nat_alt)
qed simp

declare search_pages.simps [simp del]

definition searchBack :: "keccak \<Rightarrow> 'b want \<Rightarrow> 'b \<Rightarrow> rootPosted option engine_action" where
  "searchBack k want b e = search_pages k want (D_DistributorBlock (G_dep e)) (tipNumber e) searchSpan b e"

definition previous_want :: "keccak \<Rightarrow> uint64 want" where
  "previous_want k bound posted =
     (if RP_Kind posted \<noteq> KindEpoch \<or> RP_ID posted \<ge> bound then return_with (bound, False)
      else follow (stands k posted) (\<lambda>ok. return_with (if ok then (bound, True) else (RP_ID posted, False))))"

definition previousRoot :: "keccak \<Rightarrow> uint64 \<Rightarrow> rootPosted option engine_action" where
  "previousRoot k target = searchBack k (previous_want k) target"

definition latest_want :: "keccak \<Rightarrow> unit want" where
  "latest_want k b posted =
     (if RP_Kind posted \<noteq> KindEpoch then return_with (b, False)
      else follow (stands k posted) (\<lambda>ok. return_with (b, ok)))"

definition engine_Latest :: "keccak \<Rightarrow> uint64 engine_action" where
  "engine_Latest k =
     follow (searchBack k (latest_want k) ()) (\<lambda>found e.
       case found of
         None \<Rightarrow> (e, Inl (NoRootPosted (T_Finality (G_tip e))))
       | Some posted \<Rightarrow> (e, Inr (RP_ID posted)))"

section \<open>The standing Roots of a range\<close>

fun standing_loop ::
  "keccak \<Rightarrow> uint64 \<Rightarrow> uint64 \<Rightarrow> rootPosted list \<Rightarrow> (uint64 \<rightharpoonup> rootPosted) \<Rightarrow> (uint64 \<rightharpoonup> rootPosted) engine_action" where
  "standing_loop k first final [] out = return_with out"
| "standing_loop k first final (p # ps) out =
     (if RP_Kind p \<noteq> KindEpoch \<or> RP_ID p < first \<or> RP_ID p \<ge> final then standing_loop k first final ps out
      else follow (stands k p) (\<lambda>ok.
             standing_loop k first final ps (if ok then out(RP_ID p \<mapsto> p) else out(RP_ID p := None))))"

definition standingRoots :: "keccak \<Rightarrow> uint64 \<Rightarrow> uint64 \<Rightarrow> (uint64 \<rightharpoonup> rootPosted) engine_action" where
  "standingRoots k first final e =
     follow (engine_Roots k (D_DistributorBlock (G_dep e)) (tipNumber e)) (\<lambda>roots.
       standing_loop k first final roots Map.empty) e"

definition deployEpoch :: "uint64 engine_action" where
  "deployEpoch e =
     (case G_first e of
        Some first \<Rightarrow> (e, Inr first)
      | None \<Rightarrow>
          (case BlockByNumber (G_reader e) (D_DistributorBlock (G_dep e)) of
             Inl err \<Rightarrow> (e, Inl (ChainFailed err))
           | Inr deployed \<Rightarrow>
               let first = word_of_int (quo (B_Timestamp deployed) EpochSeconds)
               in (e\<lparr>G_first := Some first\<rparr>, Inr first)))"

end
