(* ===== verification/Engine.thy ===== *)
theory Engine
  imports Book
begin

text \<open>
  The Engine (\<open>epoch/engine.go\<close>): it brings the Cache to the tip, replays the history it holds, derives the Carry an Epoch should
  have been posted with, and rebuilds the Epoch's Allocations and Root.
\<close>

section \<open>Construction\<close>

definition DefaultSyncChunk :: int64 where "DefaultSyncChunk = 2000"

definition engine_New ::
  "reader option \<Rightarrow> tip \<Rightarrow> string \<Rightarrow> deployment \<Rightarrow> engine_options \<Rightarrow> byte list \<Rightarrow> (nat \<Rightarrow> bool) \<Rightarrow> engine_error + engine" where
  "engine_New reader tp cacheDir dep opts stored held =
     (case reader of
        None \<Rightarrow> Inl NoReader
      | Some r \<Rightarrow>
          (case deployment_Check dep of
             Some err \<Rightarrow> Inl err
           | None \<Rightarrow>
               if R_token r \<noteq> D_Token dep \<or> R_distributor r \<noteq> D_Distributor dep
               then Inl (OtherContracts (R_token r) (R_distributor r) (D_Token dep) (D_Distributor dep))
               else if R_factory r \<noteq> D_PonsFactory dep then Inl (OtherFactory (R_factory r) (D_PonsFactory dep))
               else if cacheDir = [] then Inl NoCacheDirectory
               else Inr \<lparr>G_reader = r, G_tip = tp, G_cacheDir = cacheDir, G_dep = dep,
                         G_opts = (if G_SyncChunk opts \<le> 0 then opts\<lparr>G_SyncChunk := DefaultSyncChunk\<rparr> else opts),
                         G_ledgers = Map.empty, G_synced = None, G_loaded = False, G_history = [], G_exclusions = [],
                         G_replayables = [], G_ledger = None, G_floor = 0, G_first = None,
                         G_file = stored, G_held = held\<rparr>))"

section \<open>The history\<close>

definition toReplayable :: "cacheRecord \<Rightarrow> transfer" where
  "toReplayable r = \<lparr>T_Timestamp = Rec_Timestamp r, T_From = Rec_From r, T_To = Rec_To r, T_Value = Rec_Value r\<rparr>"

definition cache_options :: "deployment \<Rightarrow> bool \<Rightarrow> options" where
  "cache_options dep fresh =
     \<lparr>O_ChainID = D_ChainID dep, O_Token = D_Token dep, O_Start = D_TokenBlock dep, O_Fresh = fresh\<rparr>"

text \<open>The report is filled in as the operation goes, and is returned on a failure as well.\<close>

definition engine_sync ::
  "keccak \<Rightarrow> engine_synced \<Rightarrow> engine \<Rightarrow> engine \<times> engine_synced \<times> (engine_error + transfer list)" where
  "engine_sync k st0 e =
     (case Open (G_held e 0) (G_file e) (cache_options (G_dep e) (G_Fresh (G_opts e))) of
        Inl (content, err) \<Rightarrow> (e\<lparr>G_file := content\<rparr>, st0, Inl (CacheFailed err))
      | Inr c \<Rightarrow>
          let st = st0\<lparr>GS_Repaired := c_repaired c\<rparr>
          in case Sync (Transfers k (G_reader e)) (BlockByNumber (G_reader e)) c (T_Block (G_tip e))
                    (word_of_int (G_SyncChunk (G_opts e))) of
               (c', sy, progress, err) \<Rightarrow>
                 let st = st\<lparr>GS_Reorg := Sy_Reorg sy, GS_Appended := Sy_Appended sy\<rparr>;
                     e' = e\<lparr>G_file := Close c'\<rparr>
                 in (case err of
                       Some e1 \<Rightarrow> (e', st, Inl (SyncFailed e1))
                     | None \<Rightarrow>
                         let st = st\<lparr>GS_Records := c_Len c',
                                     GS_Through := (case Last c' of (newest, held) \<Rightarrow> if held then Rec_BlockNumber newest else GS_Through st)\<rparr>
                         in (case Open (G_held e' 1) (G_file e') (cache_options (G_dep e') False) of
                               Inl (content, e2) \<Rightarrow> (e'\<lparr>G_file := content\<rparr>, st, Inl (CacheFailed e2))
                             | Inr c2 \<Rightarrow>
                                 (case Each c2 (\<lambda>r history. Inr (history @ [toReplayable r])) [] of
                                    (c3, Inl e3) \<Rightarrow> (e'\<lparr>G_file := Close c3\<rparr>, st, Inl (EachFailed e3))
                                  | (c3, Inr history) \<Rightarrow> (e'\<lparr>G_file := Close c3\<rparr>, st, Inr history)))))"

definition engine_Sync :: "keccak \<Rightarrow> engine \<Rightarrow> engine \<times> engine_synced \<times> engine_error option" where
  "engine_Sync k e =
     (case G_synced e of
        Some st \<Rightarrow> (e, st, None)
      | None \<Rightarrow>
          (case engine_sync k \<lparr>GS_Dir = G_cacheDir e, GS_Records = 0, GS_Through = 0, GS_Appended = 0, GS_Reorg = None, GS_Repaired = None\<rparr> e of
             (e', st, Inl err) \<Rightarrow> (e', st, Some err)
           | (e', st, Inr history) \<Rightarrow> (e'\<lparr>G_synced := Some st, G_history := history\<rparr>, st, None)))"

definition replayable_exclusion :: "chainExclusion \<Rightarrow> exclusion" where
  "replayable_exclusion x = \<lparr>X_Timestamp = S_Timestamp x, X_Account = CE_Account x\<rparr>"

definition curve_exclusion :: "deployment \<Rightarrow> address \<Rightarrow> chainExclusion" where
  "curve_exclusion dep curve =
     \<lparr>S_BlockNumber = D_TokenBlock dep, S_BlockHash = 0, S_LogIndex = 0, S_Timestamp = 0, CE_Account = curve\<rparr>"

definition engine_load :: "keccak \<Rightarrow> unit engine_action" where
  "engine_load k e0 =
     (if G_loaded e0 then (e0, Inr ())
      else
        case engine_Sync k e0 of
          (e, st, Some err) \<Rightarrow> (e, Inl err)
        | (e, st, None) \<Rightarrow>
            (case Exclusions k (G_reader e) (D_DistributorBlock (G_dep e)) (tipNumber e) of
               Inl err \<Rightarrow> (e, Inl (ChainFailed err))
             | Inr logged \<Rightarrow>
                 (case LaunchCurveAt k (G_reader e) (tipNumber e) of
                    Inl err \<Rightarrow> (e, Inl (ChainFailed err))
                  | Inr curve \<Rightarrow>
                      let stream = logged @ [curve_exclusion (G_dep e) curve]
                      in (e\<lparr>G_exclusions := stream, G_replayables := map replayable_exclusion stream, G_loaded := True\<rparr>, Inr ()))))"

definition engine_holders :: "uint64 \<Rightarrow> holder list engine_action" where
  "engine_holders i e =
     (let l = (case G_ledger e of
                 None \<Rightarrow> NewLedger (G_history e) (G_replayables e)
               | Some l \<Rightarrow> if i < G_floor e then NewLedger (G_history e) (G_replayables e) else l)
      in case Advance l i of
           (l', Inl err) \<Rightarrow> (e\<lparr>G_ledger := Some l'\<rparr>, Inl (ReplayFailed err))
         | (l', Inr hs) \<Rightarrow> (e\<lparr>G_ledger := Some l', G_floor := i + 1\<rparr>, Inr hs))"

section \<open>One Epoch\<close>

record epoch_row =
  ER_Account :: address
  ER_Amounts :: amounts
  ER_TWAB :: int
  ER_MultBps :: int64
  ER_Weight :: int
  ER_LeafIndex :: nat

record epoch_result =
  E_EpochID :: uint64
  E_Window :: window
  E_Finality :: finality
  E_EndBlock :: "block option"
  E_Skipped :: bool
  E_Funded :: amounts
  E_CarryIn :: amounts
  E_ExpectedCarryIn :: amounts
  E_CarryFrom :: string
  E_Posted :: "rootPosted option"
  E_Totals :: amounts
  E_CarryOut :: amounts
  E_TotalWeight :: int
  E_Excluded :: "address list"
  E_HasRoot :: bool
  E_Root :: hash
  E_Tree :: "tree option"
  E_Allocations :: "epoch_row list"

definition zeroAmounts :: amounts where
  "zeroAmounts = (\<lambda>t. Some 0)"

definition carrySource :: "string \<Rightarrow> nat \<Rightarrow> string" where
  "carrySource source skipped =
     (if skipped = 0 then source
      else if skipped = 1 then source @ '' + the funding of 1 skipped Epoch''
      else source @ '' + the funding of '' @ dec skipped @ '' skipped Epochs'')"

definition epoch_params :: "deployment \<Rightarrow> uint64 \<Rightarrow> amounts \<Rightarrow> amounts \<Rightarrow> params" where
  "epoch_params dep i funded carryIn =
     \<lparr>P_EpochID = i, P_Transfers = [], P_Exclusions = [], P_DevWallet = D_DevWallet dep, P_Funded = funded, P_CarryIn = carryIn\<rparr>"

definition epoch_rows :: "result \<Rightarrow> epoch_row list" where
  "epoch_rows computed =
     map (\<lambda>(i, a). \<lparr>ER_Account = A_Account a, ER_Amounts = (\<lambda>t. Some (A_Amounts a t)), ER_TWAB = A_TWAB a, ER_MultBps = A_MultBps a,
                      ER_Weight = A_Weight a,
                      ER_LeafIndex = (case R_Tree computed of None \<Rightarrow> 0 | Some t \<Rightarrow> TreeIndex t i)\<rparr>)
       (enumerate 0 (R_Allocations computed))"

definition epoch_result_of ::
  "finality \<Rightarrow> chainExclusion list \<Rightarrow> uint64 \<Rightarrow> chainLedger \<Rightarrow> rootPosted option \<Rightarrow> amounts \<Rightarrow> amounts \<Rightarrow> string \<Rightarrow> result \<Rightarrow> epoch_result" where
  "epoch_result_of level exclusions i l posted carryIn expected from computed =
     \<lparr>E_EpochID = i, E_Window = WindowOf i, E_Finality = level, E_EndBlock = None, E_Skipped = L_Skipped l, E_Funded = L_Funded l,
      E_CarryIn = carryIn, E_ExpectedCarryIn = expected, E_CarryFrom = from, E_Posted = posted,
      E_Totals = (\<lambda>t. Some (R_Totals computed t)), E_CarryOut = (\<lambda>t. Some (R_CarryOut computed t)),
      E_TotalWeight = R_TotalWeight computed, E_Excluded = chain_ExcludedAsOf i exclusions,
      E_HasRoot = R_HasRoot computed, E_Root = R_Root computed, E_Tree = R_Tree computed, E_Allocations = epoch_rows computed\<rparr>"

definition engine_compute ::
  "keccak \<Rightarrow> uint64 \<Rightarrow> rootPosted option \<Rightarrow> amounts \<Rightarrow> string \<Rightarrow> epoch_result engine_action" where
  "engine_compute k i posted expected from =
     follow (book_ledger k i) (\<lambda>l.
       let carryIn = (case posted of None \<Rightarrow> expected | Some p \<Rightarrow> RP_CarryIn p)
       in follow (engine_holders i) (\<lambda>hs.
            reads (\<lambda>e.
              and_then (with_error AllocateFailed (Allocate k (epoch_params (G_dep e) i (L_Funded l) carryIn) hs)) (\<lambda>computed.
                Inr (epoch_result_of (T_Finality (G_tip e)) (G_exclusions e) i l posted carryIn expected from computed)))))"

section \<open>The Carry\<close>

function carry_loop :: "keccak \<Rightarrow> uint64 \<Rightarrow> uint64 \<Rightarrow> amounts \<Rightarrow> nat \<Rightarrow> (amounts \<times> nat) engine_action" where
  "carry_loop k i to carry skipped e =
     (if i < to then follow (addFunding k carry i) (\<lambda>carry' e'. carry_loop k (i + 1) to carry' (skipped + 1) e') e
      else (e, Inr (carry, skipped)))"
  by pat_completeness auto
termination
proof (relation "measure (\<lambda>(k, i, to, c, n, e). unat to - unat i)", goal_cases)
  case (2 k i to carry skipped e t carry')
  then show ?case using word_succ_nat [of i to] by (simp add: word_less_nat_alt)
qed simp

declare carry_loop.simps [simp del]

definition carryOver :: "keccak \<Rightarrow> amounts \<Rightarrow> uint64 \<Rightarrow> uint64 \<Rightarrow> string \<Rightarrow> (amounts \<times> string) engine_action" where
  "carryOver k carry from to source =
     follow (carry_loop k from to carry 0) (\<lambda>(carry', skipped). return_with (carry', carrySource source skipped))"

definition expectedCarry :: "keccak \<Rightarrow> uint64 \<Rightarrow> (amounts \<times> string) engine_action" where
  "expectedCarry k target =
     follow (previousRoot k target) (\<lambda>found.
       case found of
         None \<Rightarrow>
           follow deployEpoch (\<lambda>first.
             if target < first then fail_with (Predates target first)
             else carryOver k zeroAmounts first target ''nothing before deploy'')
       | Some previous \<Rightarrow>
           follow (engine_compute k (RP_ID previous) (Some previous) (RP_CarryIn previous) ''its own posted carryIn'') (\<lambda>result.
             carryOver k (E_CarryOut result) (RP_ID previous + 1) target (''carryOut of epoch '' @ dec (unat (RP_ID previous)))))"

section \<open>Compute and Walk\<close>

definition end_block :: "uint64 \<Rightarrow> block engine_action" where
  "end_block i = reads (\<lambda>e. with_error ChainFailed (EndBlock (G_reader e) i (G_tip e)))"

definition engine_Compute :: "keccak \<Rightarrow> uint64 \<Rightarrow> epoch_result engine_action" where
  "engine_Compute k i =
     follow (end_block i) (\<lambda>endBlock.
     follow (engine_load k) (\<lambda>_.
     follow (expectedCarry k i) (\<lambda>(expected, from).
     follow (\<lambda>e. standingRoot k i (B_Number endBlock + 1) (tipNumber e) e) (\<lambda>posted.
     follow (engine_compute k i posted expected from) (\<lambda>result.
       return_with (result\<lparr>E_EndBlock := Some endBlock\<rparr>))))))"

record walk_state =
  K_carry :: amounts
  K_from :: string
  K_skipped :: nat
  K_out :: "epoch_result list"

function walk_loop :: "keccak \<Rightarrow> (uint64 \<rightharpoonup> rootPosted) \<Rightarrow> uint64 \<Rightarrow> uint64 \<Rightarrow> walk_state \<Rightarrow> walk_state engine_action" where
  "walk_loop k standing i target w e =
     (if i < target then
        (case standing i of
           None \<Rightarrow>
             follow (addFunding k (K_carry w) i) (\<lambda>carry e'.
               walk_loop k standing (i + 1) target (w\<lparr>K_carry := carry, K_skipped := K_skipped w + 1\<rparr>) e') e
         | Some posted \<Rightarrow>
             follow (engine_compute k i (Some posted) (K_carry w) (carrySource (K_from w) (K_skipped w))) (\<lambda>link e'.
               walk_loop k standing (i + 1) target
                 \<lparr>K_carry = E_CarryOut link, K_from = ''carryOut of epoch '' @ dec (unat i), K_skipped = 0,
                  K_out = K_out w @ [link]\<rparr> e') e)
      else (e, Inr w))"
  by pat_completeness auto
termination
proof (relation "measure (\<lambda>(k, st, i, target, w, e). unat target - unat i)", goal_cases)
  case (2 k st i target w e t carry)
  then show ?case using word_succ_nat [of i target] by (simp add: word_less_nat_alt)
next
  case (3 k st i target w e p t link)
  then show ?case using word_succ_nat [of i target] by (simp add: word_less_nat_alt)
qed simp

declare walk_loop.simps [simp del]

definition Walk :: "keccak \<Rightarrow> uint64 \<Rightarrow> epoch_result list engine_action" where
  "Walk k target =
     follow (end_block target) (\<lambda>endBlock.
     follow (engine_load k) (\<lambda>_.
     follow deployEpoch (\<lambda>first.
       if target < first then fail_with (Predates target first)
       else
         follow (standingRoots k first target) (\<lambda>standing.
         follow (walk_loop k standing first target
                   \<lparr>K_carry = zeroAmounts, K_from = ''nothing before deploy'', K_skipped = 0, K_out = []\<rparr>) (\<lambda>w.
         follow (\<lambda>e. standingRoot k target (B_Number endBlock + 1) (tipNumber e) e) (\<lambda>posted.
         follow (engine_compute k target posted (K_carry w) (carrySource (K_from w) (K_skipped w))) (\<lambda>result.
           return_with (K_out w @ [result\<lparr>E_EndBlock := Some endBlock\<rparr>]))))))))"

section \<open>What a run never changes\<close>

text \<open>
  \<open>same_run k g e\<close>: \<open>e\<close> is the Engine \<open>g\<close> after some reads. The memos hold what the chain answers, and the ledger has replayed the
  loaded history up to its floor.
\<close>

definition ledger_at :: "keccak \<Rightarrow> engine \<Rightarrow> uint64 \<Rightarrow> engine_error + chainLedger" where
  "ledger_at k g i = with_error ChainFailed (LedgerAt k (G_reader g) KindEpoch i (tipNumber g))"

definition deploy_epoch :: "engine \<Rightarrow> engine_error + uint64" where
  "deploy_epoch g =
     and_then (with_error ChainFailed (BlockByNumber (G_reader g) (D_DistributorBlock (G_dep g)))) (\<lambda>b.
       Inr (word_of_int (quo (B_Timestamp b) EpochSeconds)))"

definition same_run :: "keccak \<Rightarrow> engine \<Rightarrow> engine \<Rightarrow> bool" where
  "same_run k g e \<longleftrightarrow>
     G_reader e = G_reader g \<and> G_tip e = G_tip g \<and> G_dep e = G_dep g \<and> G_loaded e = G_loaded g \<and> G_history e = G_history g \<and>
     G_exclusions e = G_exclusions g \<and> G_replayables e = G_replayables g \<and>
     (\<forall>i l. G_ledgers e i = Some l \<longrightarrow> ledger_at k g i = Inr l) \<and>
     (\<forall>first. G_first e = Some first \<longrightarrow> deploy_epoch g = Inr first) \<and>
     (\<forall>l. G_ledger e = Some l \<longrightarrow> ledger_ok (G_history g) (G_replayables g) l \<and> l_floor l = G_floor e)"

lemma same_runD:
  assumes "same_run k g e"
  shows "G_reader e = G_reader g" "G_tip e = G_tip g" "G_dep e = G_dep g" "G_loaded e = G_loaded g" "G_history e = G_history g"
    "G_exclusions e = G_exclusions g" "G_replayables e = G_replayables g" "tipNumber e = tipNumber g"
    "G_ledgers e i = Some l \<Longrightarrow> ledger_at k g i = Inr l" "G_first e = Some first \<Longrightarrow> deploy_epoch g = Inr first"
    "G_ledger e = Some x \<Longrightarrow> ledger_ok (G_history g) (G_replayables g) x \<and> l_floor x = G_floor e"
  using assms by (auto simp: same_run_def tipNumber_def)

lemma book_ledger_acts: "acts (same_run k g) (book_ledger k i) (ledger_at k g i)"
  unfolding acts_def
proof (intro allI impI)
  fix e
  assume e: "same_run k g e"
  show "same_run k g (fst (book_ledger k i e)) \<and> snd (book_ledger k i e) = ledger_at k g i"
  proof (cases "G_ledgers e i")
    case (Some l)
    then show ?thesis using e same_runD(9) [OF e Some] by (simp add: book_ledger_def)
  next
    case None
    have "with_error ChainFailed (LedgerAt k (G_reader e) KindEpoch i (tipNumber e)) = ledger_at k g i"
      using same_runD(1,8) [OF e] by (simp add: ledger_at_def)
    then show ?thesis
      using None e by (cases "LedgerAt k (G_reader e) KindEpoch i (tipNumber e)") (auto simp: book_ledger_def same_run_def)
  qed
qed

lemma deployEpoch_acts: "acts (same_run k g) deployEpoch (deploy_epoch g)"
  unfolding acts_def
proof (intro allI impI)
  fix e
  assume e: "same_run k g e"
  show "same_run k g (fst (deployEpoch e)) \<and> snd (deployEpoch e) = deploy_epoch g"
  proof (cases "G_first e")
    case (Some first)
    then show ?thesis using e same_runD(10) [OF e Some] by (simp add: deployEpoch_def)
  next
    case None
    let ?b = "BlockByNumber (G_reader e) (D_DistributorBlock (G_dep e))"
    have d: "deploy_epoch g = and_then (with_error ChainFailed ?b) (\<lambda>b. Inr (word_of_int (quo (B_Timestamp b) EpochSeconds)))"
      using same_runD(1,3) [OF e] by (simp add: deploy_epoch_def)
    show ?thesis
      using None e d by (cases ?b) (auto simp: deployEpoch_def Let_def same_run_def)
  qed
qed

lemma acts_same_reads: "(\<And>e. same_run k g e \<Longrightarrow> f e = f g) \<Longrightarrow> acts (same_run k g) (reads f) (f g)"
  by (rule acts_reads)

section \<open>The book\<close>

definition stands_at :: "keccak \<Rightarrow> engine \<Rightarrow> rootPosted \<Rightarrow> engine_error + bool" where
  "stands_at k g p = and_then (ledger_at k g (RP_ID p)) (\<lambda>l. Inr (HasRoot l \<and> L_Root l = RP_Root p))"

lemma stands_acts: "acts (same_run k g) (stands k p) (stands_at k g p)"
  unfolding stands_def stands_at_def by (intro acts_follow book_ledger_acts acts_return)

definition funded_at :: "keccak \<Rightarrow> engine \<Rightarrow> amounts \<Rightarrow> uint64 \<Rightarrow> engine_error + amounts" where
  "funded_at k g carry i = and_then (ledger_at k g i) (\<lambda>l. add_amounts carry (L_Funded l))"

lemma addFunding_acts: "acts (same_run k g) (addFunding k carry i) (funded_at k g carry i)"
  unfolding addFunding_def funded_at_def by (intro acts_follow book_ledger_acts acts_reads) simp

definition roots_between :: "keccak \<Rightarrow> engine \<Rightarrow> uint64 \<Rightarrow> uint64 \<Rightarrow> engine_error + rootPosted list" where
  "roots_between k g from to = with_error ChainFailed (Roots k (G_reader g) from to)"

lemma engine_Roots_acts: "acts (same_run k g) (engine_Roots k from to) (roots_between k g from to)"
  unfolding engine_Roots_def roots_between_def by (intro acts_reads) (simp add: same_runD)

definition standing_root_at :: "keccak \<Rightarrow> engine \<Rightarrow> uint64 \<Rightarrow> uint64 \<Rightarrow> uint64 \<Rightarrow> engine_error + rootPosted option" where
  "standing_root_at k g i from to =
     and_then (ledger_at k g i) (\<lambda>l.
       if \<not> HasRoot l then Inr None
       else if from > to then Inl (RootAboveTip i (T_Finality (G_tip g)) to (from - 1))
       else and_then (roots_between k g from to) (\<lambda>roots.
              case List.find (\<lambda>p. RP_Kind p = KindEpoch \<and> RP_ID p = i) (rev roots) of
                None \<Rightarrow> Inl (RootNotLogged i (L_Root l) from to)
              | Some p \<Rightarrow> if RP_Root p \<noteq> L_Root l then Inl (RootDiffers i (L_Root l) from to (RP_Root p)) else Inr (Some p)))"

lemma standingRoot_acts: "acts (same_run k g) (standingRoot k i from to) (standing_root_at k g i from to)"
  unfolding standingRoot_def standing_root_at_def
proof (intro acts_follow book_ledger_acts acts_if acts_return engine_Roots_acts)
  fix l
  show "acts (same_run k g) (\<lambda>e. fail_with (RootAboveTip i (T_Finality (G_tip e)) to (from - 1)) e)
      (Inl (RootAboveTip i (T_Finality (G_tip g)) to (from - 1)))"
    by (simp add: acts_def same_runD)
next
  fix l roots
  show "acts (same_run k g)
      (case List.find (\<lambda>p. RP_Kind p = KindEpoch \<and> RP_ID p = i) (rev roots) of
         None \<Rightarrow> fail_with (RootNotLogged i (L_Root l) from to)
       | Some p \<Rightarrow> if RP_Root p \<noteq> L_Root l then fail_with (RootDiffers i (L_Root l) from to (RP_Root p)) else return_with (Some p))
      (case List.find (\<lambda>p. RP_Kind p = KindEpoch \<and> RP_ID p = i) (rev roots) of
         None \<Rightarrow> Inl (RootNotLogged i (L_Root l) from to)
       | Some p \<Rightarrow> if RP_Root p \<noteq> L_Root l then Inl (RootDiffers i (L_Root l) from to (RP_Root p)) else Inr (Some p))"
    by (auto split: option.split)
qed

section \<open>The search backwards\<close>

text \<open>What the search does on a list of logs, newest first, when the state does not matter.\<close>

fun pick :: "('b \<Rightarrow> rootPosted \<Rightarrow> engine_error + ('b \<times> bool)) \<Rightarrow> rootPosted list \<Rightarrow> 'b \<Rightarrow> engine_error + ('b \<times> rootPosted option)" where
  "pick w [] b = Inr (b, None)"
| "pick w (p # ps) b = and_then (w b p) (\<lambda>(b', ok). if ok then Inr (b', Some p) else pick w ps b')"

lemma want_loop_acts:
  assumes "\<And>b p. acts I (want b p) (w b p)"
  shows "acts I (want_loop want ps b) (pick w ps b)"
proof (induction ps arbitrary: b)
  case Nil
  then show ?case by (simp add: acts_def)
next
  case (Cons p ps)
  then show ?case by (auto intro!: acts_follow assms split: prod.split)
qed

lemma pick_append:
  "pick w (ps @ qs) b = and_then (pick w ps b) (\<lambda>(b', found). case found of Some p \<Rightarrow> Inr (b', Some p) | None \<Rightarrow> pick w qs b')"
proof (induction ps arbitrary: b)
  case (Cons p ps)
  show ?case
  proof (cases "w b p")
    case (Inr r)
    then show ?thesis using Cons by (cases r) simp
  qed simp
qed simp

definition posted_stream :: "keccak \<Rightarrow> chain_state \<Rightarrow> address \<Rightarrow> uint64 \<Rightarrow> uint64 \<Rightarrow> rootPosted list" where
  "posted_stream k ch distributor from to =
     map (stamped (decodeRootPosted k) ch) (filter (selected distributor (topicRootPosted k) from to) (H_logs ch))"


context honest_endpoint
begin

lemma posted_stream_cut:
  assumes "fl < lo" "lo \<le> hi"
  shows "posted_stream k ch d fl hi = posted_stream k ch d fl (lo - 1) @ posted_stream k ch d lo hi"
proof -
  have p: "unat (lo - 1) = unat lo - 1" by (rule word_pred_nat [OF assms(1)])
  have "lo - 1 < hi" "fl \<le> lo - 1" "lo - 1 + 1 = lo"
    using assms p by (simp_all add: word_le_nat_alt word_less_nat_alt)
  with selected_cut [of "lo - 1" hi fl d "topicRootPosted k"] show ?thesis
    unfolding posted_stream_def map_append [symmetric] by simp
qed

end

text \<open>
  The pages of \<open>searchBack\<close> make up the whole stream: what it returns is what the search of all logs from the floor to
  the tip returns, and it returns that whenever the pages can be read.
\<close>

definition readable_roots :: "keccak \<Rightarrow> engine \<Rightarrow> bool" where
  "readable_roots k g \<longleftrightarrow> (\<forall>lo hi. lo \<le> hi \<and> hi \<le> tipNumber g \<longrightarrow> (\<exists>ps. Roots k (G_reader g) lo hi = Inr ps))"

context honest_reader
begin

lemma search_pages_acts:
  assumes g: "G_reader g = r" and w: "\<And>b p. acts (same_run k g) (want b p) (w b p)"
  shows "\<exists>v. acts (same_run k g) (search_pages k want fl hi span b) v \<and>
    (\<forall>found. v = Inr found \<longrightarrow> (\<exists>b'. pick w (rev (posted_stream k ch (R_distributor r) fl hi)) b = Inr (b', found))) \<and>
    (readable_roots k g \<and> hi \<le> tipNumber g \<longrightarrow>
       v = and_then (pick w (rev (posted_stream k ch (R_distributor r) fl hi)) b) (\<lambda>(b', found). Inr found))"
proof (induction "unat hi" arbitrary: hi span b rule: less_induct)
  case less
  let ?s = "posted_stream k ch (R_distributor r)"
  show ?case
  proof (cases "hi < fl")
    case True
    have "filter (selected (R_distributor r) (topicRootPosted k) fl hi) (H_logs ch) = []"
      using True by (auto simp: filter_empty_conv selected_def)
    then have "?s fl hi = []" by (simp add: posted_stream_def)
    with True show ?thesis by (intro exI [of _ "Inr None"]) (simp add: acts_def search_pages.simps)
  next
    case False
    define lo where "lo = page_start fl hi span"
    define span' where "span' = (if span \<le> (2 ^ 64 - 1) div 2 then span * 2 else span)"
    have lo: "fl \<le> lo" "lo \<le> hi" using page_start_bounds [of fl hi span] False by (simp_all add: lo_def)
    define k1 where "k1 = (\<lambda>(b', found). (case found of Some p \<Rightarrow> return_with (Some p)
         | None \<Rightarrow> if lo = fl then return_with None else search_pages k want fl (lo - 1) span' b'))"
    have eq: "search_pages k want fl hi span b = follow (engine_Roots k lo hi) (\<lambda>roots. follow (want_loop want (rev roots) b) k1)"
      by (rule ext, subst search_pages.simps)
        (use False in \<open>auto simp: k1_def lo_def [symmetric] span'_def Let_def split_def fun_eq_iff
           intro!: follow_cong split: option.split\<close>)
    have "\<exists>v. acts (same_run k g) (search_pages k want fl (lo - 1) span' b') v \<and>
        (\<forall>found. v = Inr found \<longrightarrow> (\<exists>b''. pick w (rev (?s fl (lo - 1))) b' = Inr (b'', found))) \<and>
        (readable_roots k g \<and> hi \<le> tipNumber g \<longrightarrow> v = and_then (pick w (rev (?s fl (lo - 1))) b') (\<lambda>(b'', found). Inr found))"
      if "lo \<noteq> fl" for b'
    proof -
      have lt: "fl < lo" using that lo(1) by auto
      have "unat fl < unat lo" using lt by (simp only: word_less_nat_alt)
      then have "unat (lo - 1) < unat hi" "lo - 1 \<le> hi"
        using lo(2) unfolding word_le_nat_alt word_pred_nat [OF lt] by linarith+
      then show ?thesis using less.hyps [of "lo - 1" span' b'] by (meson order_trans)
    qed
    then obtain V where V: "\<And>b'. lo \<noteq> fl \<Longrightarrow> acts (same_run k g) (search_pages k want fl (lo - 1) span' b') (V b') \<and>
        (\<forall>found. V b' = Inr found \<longrightarrow> (\<exists>b''. pick w (rev (?s fl (lo - 1))) b' = Inr (b'', found))) \<and>
        (readable_roots k g \<and> hi \<le> tipNumber g \<longrightarrow> V b' = and_then (pick w (rev (?s fl (lo - 1))) b') (\<lambda>(b'', found). Inr found))"
      by metis
    define k2 where "k2 = (\<lambda>(b', found). (case found of Some p \<Rightarrow> Inr (Some p) | None \<Rightarrow> if lo = fl then Inr None else V b'))"
    define v where "v = and_then (roots_between k g lo hi) (\<lambda>roots. and_then (pick w (rev roots) b) k2)"
    have "acts (same_run k g) (k1 x) (k2 x)" for x
      using V by (cases x) (auto simp: k1_def k2_def acts_return split: option.split)
    then have "acts (same_run k g) (search_pages k want fl hi span b) v"
      unfolding eq v_def by (intro acts_follow engine_Roots_acts want_loop_acts w)
    moreover have page: "roots = ?s lo hi" if "roots_between k g lo hi = Inr roots" for roots
      using Roots_true [of k lo hi roots] that by (simp add: roots_between_def g posted_stream_def)
    have cut: "rev (?s fl hi) = rev (?s lo hi) @ (if lo = fl then [] else rev (?s fl (lo - 1)))"
      using posted_stream_cut [of fl lo hi k "R_distributor r"] lo by auto
    have whole: "pick w (rev (?s fl hi)) b = and_then (pick w (rev (?s lo hi)) b) (\<lambda>(b', found).
        case found of Some p \<Rightarrow> Inr (b', Some p) | None \<Rightarrow> if lo = fl then Inr (b', None) else pick w (rev (?s fl (lo - 1))) b')"
      unfolding cut pick_append by (rule and_then_cong [OF refl]) (auto split: option.split)
    have "\<exists>b'. pick w (rev (?s fl hi)) b = Inr (b', found)" if v: "v = Inr found" for found
    proof -
      obtain roots x where x: "roots_between k g lo hi = Inr roots" "pick w (rev roots) b = Inr x" "k2 x = Inr found"
        using v by (auto simp: v_def and_then_Inr)
      obtain b' f where "x = (b', f)" by (cases x)
      with x V page [OF x(1)] whole show ?thesis by (auto simp: k2_def split: option.splits if_splits)
    qed
    moreover have "v = and_then (pick w (rev (?s fl hi)) b) (\<lambda>(b', found). Inr found)" if rd: "readable_roots k g" "hi \<le> tipNumber g"
    proof -
      obtain roots where "roots_between k g lo hi = Inr roots"
        using rd(1) [unfolded readable_roots_def, rule_format, of lo hi] lo(2) rd(2) by (auto simp: roots_between_def)
      with page have "v = and_then (pick w (rev (?s lo hi)) b) k2" by (simp add: v_def)
      also have "\<dots> = and_then (pick w (rev (?s fl hi)) b) (\<lambda>(b', found). Inr found)"
      proof (cases "pick w (rev (?s lo hi)) b")
        case (Inr x)
        then show ?thesis using V rd unfolding whole by (cases x) (auto simp: k2_def split: option.split)
      qed (simp add: whole)
      finally show ?thesis .
    qed
    ultimately show ?thesis by blast
  qed
qed

end

definition previous_at :: "keccak \<Rightarrow> engine \<Rightarrow> uint64 \<Rightarrow> rootPosted \<Rightarrow> engine_error + (uint64 \<times> bool)" where
  "previous_at k g bound p =
     (if RP_Kind p \<noteq> KindEpoch \<or> RP_ID p \<ge> bound then Inr (bound, False)
      else and_then (stands_at k g p) (\<lambda>ok. Inr (if ok then (bound, True) else (RP_ID p, False))))"

definition latest_at :: "keccak \<Rightarrow> engine \<Rightarrow> unit \<Rightarrow> rootPosted \<Rightarrow> engine_error + (unit \<times> bool)" where
  "latest_at k g b p = (if RP_Kind p \<noteq> KindEpoch then Inr (b, False) else and_then (stands_at k g p) (\<lambda>ok. Inr (b, ok)))"

lemma want_acts:
  "acts (same_run k g) (previous_want k bound p) (previous_at k g bound p)"
  "acts (same_run k g) (latest_want k b p) (latest_at k g b p)"
  unfolding previous_want_def previous_at_def latest_want_def latest_at_def
  by (intro acts_if acts_return acts_follow stands_acts)+

definition standing_epoch :: "keccak \<Rightarrow> engine \<Rightarrow> rootPosted \<Rightarrow> bool" where
  "standing_epoch k g p \<longleftrightarrow> RP_Kind p = KindEpoch \<and> stands_at k g p = Inr True"

text \<open>
  How the Distributor posts, newest log first: no Root is posted at or below a standing Root, but for that Root posted
  again. Only the newest Root can be voided, and Epochs are posted in order.
\<close>

definition posted_in_order :: "keccak \<Rightarrow> engine \<Rightarrow> rootPosted list \<Rightarrow> bool" where
  "posted_in_order k g ps \<longleftrightarrow>
     sorted_wrt (\<lambda>p q. RP_Kind p = KindEpoch \<and> standing_epoch k g q \<and> RP_ID p \<le> RP_ID q \<longrightarrow>
       RP_ID p = RP_ID q \<and> standing_epoch k g p) ps"

lemma posted_in_order_Cons:
  "posted_in_order k g (p # ps) \<longleftrightarrow>
     (\<forall>q \<in> set ps. RP_Kind p = KindEpoch \<and> standing_epoch k g q \<and> RP_ID p \<le> RP_ID q \<longrightarrow> RP_ID p = RP_ID q \<and> standing_epoch k g p) \<and>
     posted_in_order k g ps"
  by (simp add: posted_in_order_def)

lemma pick_previous:
  assumes "pick (previous_at k g) ps bound = Inr (b', found)" "posted_in_order k g ps"
  shows "(\<forall>p. found = Some p \<longrightarrow> p \<in> set ps \<and> standing_epoch k g p \<and> RP_ID p < bound) \<and>
    (\<forall>q \<in> set ps. standing_epoch k g q \<and> RP_ID q < bound \<longrightarrow> (\<exists>p. found = Some p \<and> RP_ID q \<le> RP_ID p))"
  using assms
proof (induction ps arbitrary: bound)
  case (Cons p ps)
  note order = Cons.prems(2) [unfolded posted_in_order_Cons]
  show ?case
  proof (cases "RP_Kind p \<noteq> KindEpoch \<or> RP_ID p \<ge> bound")
    case True
    then have "pick (previous_at k g) ps bound = Inr (b', found)" using Cons.prems(1) by (simp add: previous_at_def [of k g bound p])
    from Cons.IH [OF this] order True show ?thesis by (auto simp: standing_epoch_def)
  next
    case False
    then obtain ok where ok: "stands_at k g p = Inr ok"
      using Cons.prems(1) by (cases "stands_at k g p") (auto simp: previous_at_def [of k g bound p])
    show ?thesis
    proof (cases ok)
      case True
      then have f: "found = Some p" using Cons.prems(1) False ok by (simp add: previous_at_def [of k g bound p])
      have "RP_ID q \<le> RP_ID p" if "q \<in> set ps" "standing_epoch k g q" for q
        using order that False by (metis linorder_le_cases order.refl)
      with f False ok True show ?thesis by (auto simp: standing_epoch_def)
    next
      case no: False
      then have rest: "pick (previous_at k g) ps (RP_ID p) = Inr (b', found)"
        using Cons.prems(1) False ok by (simp add: previous_at_def [of k g bound p])
      have "\<not> standing_epoch k g p" using no ok by (simp add: standing_epoch_def)
      then have "RP_ID q < RP_ID p" if "q \<in> set ps" "standing_epoch k g q" for q
        using order that False by (meson not_le_imp_less)
      with Cons.IH [OF rest] order False \<open>\<not> standing_epoch k g p\<close> show ?thesis by (auto intro: less_trans)
    qed
  qed
qed simp

lemma pick_latest:
  assumes "pick (latest_at k g) ps b = Inr (b', found)" "posted_in_order k g ps"
  shows "(\<forall>p. found = Some p \<longrightarrow> p \<in> set ps \<and> standing_epoch k g p) \<and>
    (\<forall>q \<in> set ps. standing_epoch k g q \<longrightarrow> (\<exists>p. found = Some p \<and> RP_ID q \<le> RP_ID p))"
  using assms
proof (induction ps)
  case (Cons p ps)
  note order = Cons.prems(2) [unfolded posted_in_order_Cons]
  show ?case
  proof (cases "RP_Kind p = KindEpoch")
    case True
    then obtain ok where ok: "stands_at k g p = Inr ok"
      using Cons.prems(1) by (cases "stands_at k g p") (auto simp: latest_at_def [of k g "()" p])
    show ?thesis
    proof (cases ok)
      case here: True
      then have f: "found = Some p" using Cons.prems(1) True ok by (simp add: latest_at_def [of k g "()" p])
      have "RP_ID q \<le> RP_ID p" if "q \<in> set ps" "standing_epoch k g q" for q
        using order that True by (metis linorder_le_cases order.refl)
      with f True ok here show ?thesis by (auto simp: standing_epoch_def)
    next
      case False
      then have "pick (latest_at k g) ps b = Inr (b', found)" using Cons.prems(1) True ok by (simp add: latest_at_def [of k g "()" p])
      from Cons.IH [OF this] order False ok show ?thesis by (auto simp: standing_epoch_def)
    qed
  next
    case False
    then have "pick (latest_at k g) ps b = Inr (b', found)" using Cons.prems(1) by (simp add: latest_at_def [of k g "()" p])
    from Cons.IH [OF this] order False show ?thesis by (auto simp: standing_epoch_def)
  qed
qed simp

definition engine_stream :: "keccak \<Rightarrow> chain_state \<Rightarrow> engine \<Rightarrow> rootPosted list" where
  "engine_stream k ch g = posted_stream k ch (R_distributor (G_reader g)) (D_DistributorBlock (G_dep g)) (tipNumber g)"

context honest_reader
begin

lemma searchBack_acts:
  assumes g: "G_reader g = r" and w: "\<And>b p. acts (same_run k g) (want b p) (w b p)"
  shows "\<exists>v. acts (same_run k g) (searchBack k want b) v \<and>
    (\<forall>found. v = Inr found \<longrightarrow> (\<exists>b'. pick w (rev (engine_stream k ch g)) b = Inr (b', found))) \<and>
    (readable_roots k g \<longrightarrow> v = and_then (pick w (rev (engine_stream k ch g)) b) (\<lambda>(b', found). Inr found))"
proof -
  let ?fl = "D_DistributorBlock (G_dep g)" and ?tip = "tipNumber g"
  have es: "engine_stream k ch g = posted_stream k ch (R_distributor r) ?fl ?tip" by (simp add: engine_stream_def g)
  from search_pages_acts [where want = want and w = w and fl = ?fl and hi = ?tip and span = searchSpan and b = b, OF g w]
  obtain v where v: "acts (same_run k g) (search_pages k want ?fl ?tip searchSpan b) v"
    "\<forall>found. v = Inr found \<longrightarrow> (\<exists>b'. pick w (rev (posted_stream k ch (R_distributor r) ?fl ?tip)) b = Inr (b', found))"
    "readable_roots k g \<and> ?tip \<le> ?tip \<longrightarrow>
       v = and_then (pick w (rev (posted_stream k ch (R_distributor r) ?fl ?tip)) b) (\<lambda>(b', found). Inr found)"
    by (elim exE conjE) (rule that)
  have same: "searchBack k want b e = search_pages k want ?fl ?tip searchSpan b e" if "same_run k g e" for e
    using same_runD(3,8) [OF that] by (simp add: searchBack_def)
  have "acts (same_run k g) (searchBack k want b) v"
    using v(1) unfolding acts_def by (simp add: same)
  with v(2,3) show ?thesis unfolding es by auto
qed

lemma previousRoot_acts:
  assumes "G_reader g = r"
  shows "\<exists>v. acts (same_run k g) (previousRoot k target) v \<and>
    (\<forall>found. v = Inr found \<longrightarrow> (\<exists>b'. pick (previous_at k g) (rev (engine_stream k ch g)) target = Inr (b', found))) \<and>
    (readable_roots k g \<longrightarrow> v = and_then (pick (previous_at k g) (rev (engine_stream k ch g)) target) (\<lambda>(b', found). Inr found))"
  using searchBack_acts [where want = "previous_want k" and w = "previous_at k g" and b = target, OF assms want_acts(1)] unfolding previousRoot_def by blast

lemma Latest_acts:
  assumes "G_reader g = r"
  shows "\<exists>v. acts (same_run k g) (engine_Latest k) (and_then v (\<lambda>found. case found of
      None \<Rightarrow> Inl (NoRootPosted (T_Finality (G_tip g))) | Some p \<Rightarrow> Inr (RP_ID p))) \<and>
    (\<forall>found. v = Inr found \<longrightarrow> (\<exists>b'. pick (latest_at k g) (rev (engine_stream k ch g)) () = Inr (b', found))) \<and>
    (readable_roots k g \<longrightarrow> v = and_then (pick (latest_at k g) (rev (engine_stream k ch g)) ()) (\<lambda>(b', found). Inr found))"
proof -
  obtain v where v: "acts (same_run k g) (searchBack k (latest_want k) ()) v"
    "\<forall>found. v = Inr found \<longrightarrow> (\<exists>b'. pick (latest_at k g) (rev (engine_stream k ch g)) () = Inr (b', found))"
    "readable_roots k g \<longrightarrow> v = and_then (pick (latest_at k g) (rev (engine_stream k ch g)) ()) (\<lambda>(b', found). Inr found)"
    using searchBack_acts [where want = "latest_want k" and w = "latest_at k g" and b = "()", OF assms want_acts(2)] by blast
  have "acts (same_run k g) (engine_Latest k) (and_then v (\<lambda>found. case found of
      None \<Rightarrow> Inl (NoRootPosted (T_Finality (G_tip g))) | Some p \<Rightarrow> Inr (RP_ID p)))"
    unfolding engine_Latest_def
    by (intro acts_follow v(1)) (auto simp: acts_def same_runD split: option.split)
  with v(2,3) show ?thesis by blast
qed

end

section \<open>Holders and Allocations\<close>

definition sound_history :: "transfer list \<Rightarrow> bool" where
  "sound_history trs \<longleftrightarrow> times_ok trs \<and> (\<forall>i. epoch_ok i \<longrightarrow> history_ok (End (WindowOf i)) trs)"

lemma engine_holders_acts:
  assumes "sound_history (G_history g)" "epoch_ok i"
  shows "acts (same_run k g) (engine_holders i) (with_error ReplayFailed (Replay i (G_history g) (G_replayables g)))"
  unfolding acts_def
proof (intro allI impI)
  fix e
  assume e: "same_run k g e"
  define l where "l = (case G_ledger e of
      None \<Rightarrow> NewLedger (G_history e) (G_replayables e)
    | Some l \<Rightarrow> if i < G_floor e then NewLedger (G_history e) (G_replayables e) else l)"
  have l: "ledger_ok (G_history g) (G_replayables g) l" "l_floor l \<le> i"
    using same_runD(5,7) [OF e] same_runD(11) [OF e] ledger_ok_New
    by (auto simp: l_def NewLedger_def split: option.split)
  have sound: "times_ok (G_history g)" "history_ok (End (WindowOf i)) (G_history g)"
    using assms by (auto simp: sound_history_def)
  note res = Advance_result [OF l(1) assms(2) l(2) sound(1)] and ok = Advance_ok [OF l(1) assms(2) l(2) sound]
  obtain hs where hs: "Replay i (G_history g) (G_replayables g) = Inr hs"
    using Replay_iff [OF assms(2) sound(1), of "G_replayables g"] sound(2) by auto
  then have adv: "Advance l i = (fst (Advance l i), Inr hs)" using res by (simp add: prod_eq_iff)
  obtain l' where l': "Advance l i = (l', Inr hs)" using adv by blast
  then have "engine_holders i e = (e\<lparr>G_ledger := Some (fst (Advance l i)), G_floor := i + 1\<rparr>, Inr hs)"
    unfolding engine_holders_def l_def [symmetric] Let_def by simp
  then show "same_run k g (fst (engine_holders i e)) \<and>
      snd (engine_holders i e) = with_error ReplayFailed (Replay i (G_history g) (G_replayables g))"
    using e ok hs by (auto simp: same_run_def)
qed

text \<open>The rules look at the Epoch, the Dev wallet, the funding and the Carry only.\<close>

lemma Allocate_epoch_params:
  "Allocate k \<lparr>P_EpochID = i, P_Transfers = trs, P_Exclusions = xs, P_DevWallet = d, P_Funded = f, P_CarryIn = c\<rparr> hs =
   Allocate k \<lparr>P_EpochID = i, P_Transfers = [], P_Exclusions = [], P_DevWallet = d, P_Funded = f, P_CarryIn = c\<rparr> hs"
proof -
  let ?p = "\<lparr>P_EpochID = i, P_Transfers = trs, P_Exclusions = xs, P_DevWallet = d, P_Funded = f, P_CarryIn = c\<rparr>"
  let ?q = "\<lparr>P_EpochID = i, P_Transfers = [], P_Exclusions = [], P_DevWallet = d, P_Funded = f, P_CarryIn = c\<rparr>"
  have "base_loop ?p n ts b = base_loop ?q n ts b" for n ts b
    by (induction ts arbitrary: n b) (simp_all split: sum.split)
  then have b: "base ?p = base ?q" by (simp add: base_def)
  have "weigh_loop ?p w hs rows tot = weigh_loop ?q w hs rows tot" for w rows tot
    by (induction hs arbitrary: rows tot) (simp_all add: Let_def)
  then have w: "weigh ?p hs 0 = weigh ?q hs 0" by (simp add: weigh_def)
  show ?thesis unfolding Allocate_def b w params.select_convs ..
qed

definition rules_params :: "engine \<Rightarrow> uint64 \<Rightarrow> amounts \<Rightarrow> amounts \<Rightarrow> params" where
  "rules_params g i funded carryIn =
     \<lparr>P_EpochID = i, P_Transfers = G_history g, P_Exclusions = G_replayables g, P_DevWallet = D_DevWallet (G_dep g),
      P_Funded = funded, P_CarryIn = carryIn\<rparr>"

definition posted_carry :: "rootPosted option \<Rightarrow> amounts \<Rightarrow> amounts" where
  "posted_carry posted expected = (case posted of None \<Rightarrow> expected | Some p \<Rightarrow> RP_CarryIn p)"

text \<open>What an Epoch comes to: the rules of \<open>internal/alloc\<close> over the whole history, with nothing kept from an earlier Epoch.\<close>

definition rebuilt :: "keccak \<Rightarrow> engine \<Rightarrow> uint64 \<Rightarrow> rootPosted option \<Rightarrow> amounts \<Rightarrow> string \<Rightarrow> engine_error + epoch_result" where
  "rebuilt k g i posted expected from =
     and_then (ledger_at k g i) (\<lambda>l.
     and_then (with_error AllocateFailed (Compute k (rules_params g i (L_Funded l) (posted_carry posted expected)))) (\<lambda>computed.
       Inr (epoch_result_of (T_Finality (G_tip g)) (G_exclusions g) i l posted (posted_carry posted expected) expected from computed)))"

lemma engine_compute_acts:
  assumes "sound_history (G_history g)" "epoch_ok i"
  shows "acts (same_run k g) (engine_compute k i posted expected from) (rebuilt k g i posted expected from)"
proof -
  obtain hs where hs: "Replay i (G_history g) (G_replayables g) = Inr hs"
    using Replay_iff [of i "G_history g" "G_replayables g"] assms by (auto simp: sound_history_def)
  have holders: "acts (same_run k g) (engine_holders i) (Inr hs)" using engine_holders_acts [OF assms] hs by simp
  define carryIn where "carryIn = posted_carry posted expected"
  have inner: "acts (same_run k g)
      (follow (engine_holders i) (\<lambda>hs. reads (\<lambda>e.
         and_then (with_error AllocateFailed (Allocate k (epoch_params (G_dep e) i (L_Funded l) carryIn) hs)) (\<lambda>computed.
           Inr (epoch_result_of (T_Finality (G_tip e)) (G_exclusions e) i l posted carryIn expected from computed)))))
      (and_then (Inr hs) (\<lambda>hs.
         and_then (with_error AllocateFailed (Allocate k (epoch_params (G_dep g) i (L_Funded l) carryIn) hs)) (\<lambda>computed.
           Inr (epoch_result_of (T_Finality (G_tip g)) (G_exclusions g) i l posted carryIn expected from computed))))" for l
    by (rule acts_follow [OF holders], rule acts_reads, frule same_runD(2), frule same_runD(3), drule same_runD(6)) simp
  have rules: "Compute k (rules_params g i f c) = Allocate k (epoch_params (G_dep g) i f c) hs" for f c
    by (simp add: Compute_def rules_params_def hs epoch_params_def) (rule Allocate_epoch_params)
  show ?thesis
    unfolding engine_compute_def rebuilt_def posted_carry_def [symmetric] carryIn_def [symmetric] Let_def rules
    by (rule acts_follow [OF book_ledger_acts]) (rule inner [unfolded and_then_simps])
qed

lemma Allocate_balance: "Allocate k p hs = Inr r \<Longrightarrow> R_Totals r t + R_CarryOut r t = the (P_Funded p t) + the (P_CarryIn p t)"
  by (auto simp: Allocate_def Let_def base_Inr base_of_def split: sum.splits prod.splits if_splits)

section \<open>Loading\<close>

lemma header_Fresh: "header (cache_options dep b) = header (cache_options dep c)"
  by (simp add: header_def header_fields_def cache_options_def)

lemma holds_Fresh: "holds (cache_options dep b) x rs \<longleftrightarrow> holds (cache_options dep c) x rs"
  using header_Fresh [of dep b c] by (simp add: holds_def) (simp add: cache_options_def)

lemma each_spec_collects: "each_spec (\<lambda>r hist. Inr (hist @ [f r])) rs s = Inr (s @ map f rs)"
  by (induction rs arbitrary: s) simp_all

lemma Close_holds: "holds opts c rs \<Longrightarrow> Close c = header opts @ encs record_bytes rs"
  by (simp add: Close_def checkpoint_def flush_def holds_def)

text \<open>From a Cache that holds what a source says, the history is read back whole.\<close>

lemma reread:
  assumes "holds (cache_options dep b) c rs"
  shows "\<exists>c2. Open False (Close c) (cache_options dep False) = Inr c2 \<and> holds (cache_options dep False) c2 rs \<and>
    Each c2 (\<lambda>r hist. Inr (hist @ [toReplayable r])) [] = (flush c2, Inr (map toReplayable rs))"
proof -
  have h: "holds (cache_options dep False) c rs" using assms holds_Fresh by blast
  then have "log_ok (O_Start (cache_options dep False)) rs" "\<not> O_Fresh (cache_options dep False)"
    by (simp_all add: holds_def cache_options_def)
  from held_log [OF this] obtain c2 where c2: "Open False (Close c) (cache_options dep False) = Inr c2" "holds (cache_options dep False) c2 rs"
    unfolding Close_holds [OF h] by blast
  then show ?thesis by (auto simp: Each_holds [OF c2(2)] each_spec_collects)
qed

definition fresh_engine :: "engine \<Rightarrow> bool" where
  "fresh_engine g \<longleftrightarrow> \<not> G_loaded g \<and> G_synced g = None \<and> \<not> G_held g 1"

definition chain_history :: "keccak \<Rightarrow> chain_state \<Rightarrow> address \<Rightarrow> uint64 \<Rightarrow> uint64 \<Rightarrow> cacheRecord list" where
  "chain_history k ch token from to =
     map (\<lambda>l. FromTransfer (stamped (decodeTransfer k) ch l)) (filter (selected token (topicTransfer k) from to) (H_logs ch))"

text \<open>
  \<open>g'\<close> is \<open>g\<close> with everything of the chain \<open>ch\<close> a Compute needs: the token's transfers from its creation block to the tip, the
  Exclusions from the Distributor's deploy block on, and the bonding curve as one more, in every Epoch.
\<close>

definition loaded_from :: "keccak \<Rightarrow> chain_state \<Rightarrow> engine \<Rightarrow> engine \<Rightarrow> bool" where
  "loaded_from k ch g g' \<longleftrightarrow>
     (\<exists>xs curve. Exclusions k (G_reader g) (D_DistributorBlock (G_dep g)) (tipNumber g) = Inr xs \<and>
        LaunchCurveAt k (G_reader g) (tipNumber g) = Inr curve \<and>
        G_history g' = map toReplayable (chain_history k ch (R_token (G_reader g)) (D_TokenBlock (G_dep g)) (tipNumber g)) \<and>
        G_exclusions g' = xs @ [curve_exclusion (G_dep g) curve] \<and>
        G_replayables g' = map replayable_exclusion (xs @ [curve_exclusion (G_dep g) curve])) \<and>
     G_loaded g' \<and> G_reader g' = G_reader g \<and> G_tip g' = G_tip g \<and> G_dep g' = G_dep g \<and>
     G_ledgers g' = G_ledgers g \<and> G_ledger g' = G_ledger g \<and> G_first g' = G_first g"

context honest_reader
begin

lemma Sync_history:
  assumes "chain_ok k (R_token r) ch"
    and "holds opts c (branch_log old (unat (O_Start opts)) m)" "branch_ok old" "commits old (branch_of k (R_token r) ch)"
    and "\<forall>rc \<in> set (branch_log old (unat (O_Start opts)) m). Rec_BlockNumber rc \<le> B_Number tip" "B_Number tip \<noteq> - 1" "B_Hash tip \<noteq> 0"
  shows "\<exists>c' sy p err. Sync (Transfers k r) (BlockByNumber r) c tip opt = (c', sy, p, err) \<and>
    (err = None \<longrightarrow> holds opts c' (chain_history k ch (R_token r) (O_Start opts) (B_Number tip))) \<and>
    (never_fails (Transfers k r) (BlockByNumber r) (B_Number tip) \<longrightarrow> err = None)"
proof -
  have "branch_log (branch_of k (R_token r) ch) (unat (O_Start opts)) (Suc (unat (B_Number tip))) =
      chain_history k ch (R_token r) (O_Start opts) (B_Number tip)"
    unfolding branch_of_log chain_history_def
    by (simp add: transfer_logs_def selected_alt word_le_nat_alt less_Suc_eq_le conj_ac)
  then show ?thesis
    using Sync_holds [OF assms(2) refl assms(3,4) Reader_source [OF assms(1)] assms(5-7), of opt] by metis
qed

lemma load_true:
  assumes g: "G_reader g = r" "fresh_engine g" "D_Token (G_dep g) = R_token r"
    and chain: "chain_ok k (R_token r) ch"
    and opened: "Open (G_held g 0) (G_file g) (cache_options (G_dep g) (G_Fresh (G_opts g))) = Inr c"
      "holds (cache_options (G_dep g) False) c (branch_log old (unat (D_TokenBlock (G_dep g))) m)" "branch_ok old" "commits old (branch_of k (R_token r) ch)"
      "\<forall>rc \<in> set (branch_log old (unat (D_TokenBlock (G_dep g))) m). Rec_BlockNumber rc \<le> tipNumber g"
    and tip: "tipNumber g \<noteq> - 1" "B_Hash (T_Block (G_tip g)) \<noteq> 0"
  shows "snd (engine_load k g) = Inr () \<longrightarrow>
      loaded_from k ch g (fst (engine_load k g))"
    "never_fails (Transfers k r) (BlockByNumber r) (tipNumber g) \<Longrightarrow>
     Exclusions k r (D_DistributorBlock (G_dep g)) (tipNumber g) = Inr xs \<Longrightarrow> LaunchCurveAt k r (tipNumber g) = Inr curve \<Longrightarrow>
     snd (engine_load k g) = Inr ()"
proof -
  let ?opts = "cache_options (G_dep g) False"
  have start: "O_Start ?opts = D_TokenBlock (G_dep g)" by (simp add: cache_options_def)
  obtain c' sy p err where s: "Sync (Transfers k r) (BlockByNumber r) c (T_Block (G_tip g)) (word_of_int (G_SyncChunk (G_opts g))) = (c', sy, p, err)"
    "err = None \<longrightarrow> holds ?opts c' (chain_history k ch (R_token r) (D_TokenBlock (G_dep g)) (tipNumber g))"
    "never_fails (Transfers k r) (BlockByNumber r) (tipNumber g) \<longrightarrow> err = None"
    using Sync_history [OF chain, of ?opts c old m "T_Block (G_tip g)" "word_of_int (G_SyncChunk (G_opts g))"] opened(2-5) tip
    unfolding start tipNumber_def by blast
  define st0 where "st0 = \<lparr>GS_Dir = G_cacheDir g, GS_Records = 0, GS_Through = 0, GS_Appended = 0, GS_Reorg = None, GS_Repaired = None\<rparr>"
  have fresh: "\<not> G_loaded g" "G_synced g = None" "\<not> G_held g 1" using g(2) by (simp_all add: fresh_engine_def)
  have failed: "snd (engine_load k g) \<noteq> Inr ()" if "err = Some e1" for e1
    using that fresh opened(1) s(1) g(1) by (simp add: engine_load_def engine_Sync_def engine_sync_def Let_def)
  have synced: "\<exists>e st. engine_Sync k g = (e, st, None) \<and> G_history e = map toReplayable (chain_history k ch (R_token r) (D_TokenBlock (G_dep g)) (tipNumber g)) \<and>
      G_reader e = r \<and> G_tip e = G_tip g \<and> G_dep e = G_dep g \<and> G_ledgers e = G_ledgers g \<and> G_ledger e = G_ledger g \<and> G_first e = G_first g" if "err = None"
  proof -
    have h: "holds ?opts c' (chain_history k ch (R_token r) (D_TokenBlock (G_dep g)) (tipNumber g))" using s(2) that by simp
    obtain c2 where c2: "Open False (Close c') ?opts = Inr c2"
      "Each c2 (\<lambda>r hist. Inr (hist @ [toReplayable r])) [] =
        (flush c2, Inr (map toReplayable (chain_history k ch (R_token r) (D_TokenBlock (G_dep g)) (tipNumber g))) :: unit each_error + transfer list)"
      using reread [OF h] by blast
    show ?thesis
      using that fresh opened(1) s(1) c2 g(1) by (simp add: engine_Sync_def engine_sync_def Let_def)
  qed
  show "snd (engine_load k g) = Inr () \<longrightarrow> loaded_from k ch g (fst (engine_load k g))"
  proof (cases err)
    case None
    from synced [OF this] fresh(1) g(1) show ?thesis
      by (auto simp: loaded_from_def engine_load_def Let_def tipNumber_def split: sum.splits)
  qed (use failed in blast)
  show "snd (engine_load k g) = Inr ()"
    if "never_fails (Transfers k r) (BlockByNumber r) (tipNumber g)"
      "Exclusions k r (D_DistributorBlock (G_dep g)) (tipNumber g) = Inr xs" "LaunchCurveAt k r (tipNumber g) = Inr curve"
  proof -
    have "err = None" using s(3) that(1) by blast
    from synced [OF this] fresh(1) that(2,3) show ?thesis by (auto simp: engine_load_def Let_def tipNumber_def)
  qed
qed

end

end
