(* ===== verification/Carry.thy ===== *)
theory Carry
  imports Engine
begin

text \<open>
  The Carry from Root to Root: the funding an Epoch that is passed over leaves, the chain of links a Walk makes, that nothing is lost
  along it, and that a Walk ends in what Compute returns.
\<close>

section \<open>Funding carried over\<close>

definition funding :: "keccak \<Rightarrow> engine \<Rightarrow> uint64 \<Rightarrow> token \<Rightarrow> int" where
  "funding k g i t = (case ledger_at k g i of Inr l \<Rightarrow> the (L_Funded l t) | Inl _ \<Rightarrow> 0)"

definition funded_between :: "keccak \<Rightarrow> engine \<Rightarrow> uint64 \<Rightarrow> uint64 \<Rightarrow> token \<Rightarrow> int" where
  "funded_between k g i j t = (\<Sum>n \<leftarrow> [unat i..<unat j]. funding k g (of_nat n) t)"

lemma funded_between_step: "i \<le> j \<Longrightarrow> j < m \<Longrightarrow> funded_between k g i (j + 1) t = funded_between k g i j t + funding k g j t"
  unfolding funded_between_def by (simp add: word_succ_nat word_le_nat_alt)

lemma funded_between_first: "i < j \<Longrightarrow> funded_between k g i j t = funding k g i t + funded_between k g (i + 1) j t"
  unfolding funded_between_def
  by (simp add: word_succ_nat word_less_nat_alt upt_rec [of "unat i"])

lemma funded_between_none [simp]: "funded_between k g i i t = 0"
  by (simp add: funded_between_def)

lemma funded_between_join:
  assumes "i \<le> j" "j \<le> m"
  shows "funded_between k g i m t = funded_between k g i j t + funded_between k g j m t"
proof -
  have "[unat i..<unat m] = [unat i..<unat j] @ [unat j..<unat m]"
    using upt_add_eq_append [of "unat i" "unat j" "unat m - unat j"] assms by (simp add: word_le_nat_alt)
  then show ?thesis by (simp add: funded_between_def)
qed

lemma add_amounts_Inr: "add_amounts a b = Inr c \<Longrightarrow> c t = Some (the (a t) + the (b t))"
  by (auto simp: add_amounts_def split: if_splits)

lemma funded_at_Inr: "funded_at k g carry i = Inr c \<Longrightarrow> c t = Some (the (carry t) + funding k g i t)"
  by (auto simp: funded_at_def and_then_Inr funding_def dest: add_amounts_Inr)

function carried :: "keccak \<Rightarrow> engine \<Rightarrow> uint64 \<Rightarrow> uint64 \<Rightarrow> amounts \<Rightarrow> nat \<Rightarrow> engine_error + (amounts \<times> nat)" where
  "carried k g i to carry skipped =
     (if i < to then and_then (funded_at k g carry i) (\<lambda>carry'. carried k g (i + 1) to carry' (skipped + 1))
      else Inr (carry, skipped))"
  by pat_completeness auto
termination
proof (relation "measure (\<lambda>(k, g, i, to, c, n). unat to - unat i)", goal_cases)
  case (2 k g i to carry skipped carry')
  then show ?case using word_succ_nat [of i to] by (simp add: word_less_nat_alt)
qed simp

declare carried.simps [simp del]

lemma carry_loop_acts: "acts (same_run k g) (carry_loop k i to carry skipped) (carried k g i to carry skipped)"
proof (induction k g i to carry skipped rule: carried.induct)
  case (1 k g i to carry skipped)
  have "carry_loop k i to carry skipped =
      (if i < to then follow (addFunding k carry i) (\<lambda>carry'. carry_loop k (i + 1) to carry' (skipped + 1)) else return_with (carry, skipped))"
    by (rule ext, subst carry_loop.simps) simp
  then show ?case
    using 1 by (subst carried.simps) (auto intro!: acts_follow addFunding_acts)
qed

lemma carried_Inr:
  "carried k g i to carry skipped = Inr (c, n) \<Longrightarrow> i \<le> to \<Longrightarrow>
   n = skipped + (unat to - unat i) \<and> (\<forall>t. the (c t) = the (carry t) + funded_between k g i to t) \<and> (i < to \<or> c = carry)"
proof (induction k g i to carry skipped rule: carried.induct)
  case (1 k g i to carry skipped)
  show ?case
  proof (cases "i < to")
    case True
    then obtain c1 where c1: "funded_at k g carry i = Inr c1" "carried k g (i + 1) to c1 (skipped + 1) = Inr (c, n)"
      using 1(2) by (subst (asm) carried.simps) (auto simp: and_then_Inr)
    have le: "i + 1 \<le> to" using True word_succ_nat [OF True] by (simp add: word_le_nat_alt word_less_nat_alt)
    from 1(1) [OF True c1 le] show ?thesis
      using True funded_at_Inr [OF c1(1)] funded_between_first [OF True, of k g] word_succ_nat [OF True]
      by (simp add: word_less_nat_alt)
  next
    case False
    with 1(2,3) show ?thesis by (subst (asm) carried.simps) simp
  qed
qed

section \<open>The chain of a Walk\<close>

text \<open>
  Links in order: each is expected to have come in with the Carry of the one before plus the funding of every Epoch
  between, the first with \<open>c\<close> plus the funding from Epoch \<open>i\<close> on.
\<close>

fun carry_chain :: "keccak \<Rightarrow> engine \<Rightarrow> uint64 \<Rightarrow> (token \<Rightarrow> int) \<Rightarrow> epoch_result list \<Rightarrow> bool" where
  "carry_chain k g i c [] \<longleftrightarrow> True"
| "carry_chain k g i c (l # ls) \<longleftrightarrow>
     i \<le> E_EpochID l \<and> (\<forall>t. the (E_ExpectedCarryIn l t) = c t + funded_between k g i (E_EpochID l) t) \<and>
     carry_chain k g (E_EpochID l + 1) (\<lambda>t. the (E_CarryOut l t)) ls"

fun chain_end :: "uint64 \<Rightarrow> (token \<Rightarrow> int) \<Rightarrow> epoch_result list \<Rightarrow> uint64 \<times> (token \<Rightarrow> int)" where
  "chain_end i c [] = (i, c)"
| "chain_end i c (l # ls) = chain_end (E_EpochID l + 1) (\<lambda>t. the (E_CarryOut l t)) ls"

lemma carry_chain_snoc:
  "carry_chain k g i c (ls @ [l]) \<longleftrightarrow>
     carry_chain k g i c ls \<and> carry_chain k g (fst (chain_end i c ls)) (snd (chain_end i c ls)) [l]"
  by (induction ls arbitrary: i c) auto

lemma chain_end_snoc: "chain_end i c (ls @ [l]) = (E_EpochID l + 1, \<lambda>t. the (E_CarryOut l t))"
  by (induction ls arbitrary: i c) auto

definition balanced :: "keccak \<Rightarrow> engine \<Rightarrow> epoch_result \<Rightarrow> bool" where
  "balanced k g l \<longleftrightarrow>
     (\<forall>t. the (E_Totals l t) + the (E_CarryOut l t) = funding k g (E_EpochID l) t + the (E_CarryIn l t) \<and>
          the (E_Funded l t) = funding k g (E_EpochID l) t)"

text \<open>When each link came in with what it was expected to, nothing is lost along the chain.\<close>

lemma chain_conserves:
  assumes "carry_chain k g i c ls" "\<forall>l \<in> set ls. balanced k g l \<and> E_CarryIn l = E_ExpectedCarryIn l \<and> E_EpochID l < m"
  shows "c t + funded_between k g i (fst (chain_end i c ls)) t =
    (\<Sum>l \<leftarrow> ls. the (E_Totals l t)) + snd (chain_end i c ls) t \<and> (i \<le> m \<longrightarrow> i \<le> fst (chain_end i c ls) \<and> fst (chain_end i c ls) \<le> m)"
  using assms
proof (induction ls arbitrary: i c)
  case (Cons l ls)
  let ?j = "E_EpochID l"
  have l: "i \<le> ?j" "the (E_ExpectedCarryIn l t) = c t + funded_between k g i ?j t" "?j < m"
    "the (E_Totals l t) + the (E_CarryOut l t) = funding k g ?j t + the (E_ExpectedCarryIn l t)"
    using Cons.prems by (auto simp: balanced_def)
  have up: "i \<le> ?j + 1" "?j + 1 \<le> m"
    using l(1,3) word_succ_nat [OF l(3)] by (simp_all add: word_le_nat_alt word_less_nat_alt)
  note IH = Cons.IH [of "?j + 1" "\<lambda>t. the (E_CarryOut l t)"]
  have IH: "the (E_CarryOut l t) + funded_between k g (?j + 1) (fst (chain_end i c (l # ls))) t =
      (\<Sum>l \<leftarrow> ls. the (E_Totals l t)) + snd (chain_end i c (l # ls)) t" "?j + 1 \<le> fst (chain_end i c (l # ls))"
    "fst (chain_end i c (l # ls)) \<le> m"
    using IH Cons.prems up(2) by auto
  have "funded_between k g i (fst (chain_end i c (l # ls))) t =
      funded_between k g i ?j t + funding k g ?j t + funded_between k g (?j + 1) (fst (chain_end i c (l # ls))) t"
    using funded_between_join [OF up(1) IH(2), of k g t] funded_between_step [OF l(1,3), of k g t] by simp
  with IH l(2,4) up(1) show ?case by auto
qed simp

lemma rebuilt_Inr:
  assumes "rebuilt k g i posted expected from = Inr l"
  shows "E_EpochID l = i" "E_ExpectedCarryIn l = expected" "E_CarryIn l = posted_carry posted expected" "E_Posted l = posted"
    "balanced k g l"
proof -
  obtain le computed where c: "ledger_at k g i = Inr le"
    "Compute k (rules_params g i (L_Funded le) (posted_carry posted expected)) = Inr computed"
    "l = epoch_result_of (T_Finality (G_tip g)) (G_exclusions g) i le posted (posted_carry posted expected) expected from computed"
    using assms by (auto simp: rebuilt_def and_then_Inr)
  then obtain hs where hs: "Allocate k (rules_params g i (L_Funded le) (posted_carry posted expected)) hs = Inr computed"
    by (auto simp: Compute_def split: sum.splits)
  show "E_EpochID l = i" "E_ExpectedCarryIn l = expected" "E_CarryIn l = posted_carry posted expected" "E_Posted l = posted"
    by (simp_all add: c(3) epoch_result_of_def)
  show "balanced k g l"
    using Allocate_balance [OF hs] c(1) by (simp add: balanced_def c(3) epoch_result_of_def rules_params_def funding_def)
qed

function walked ::
  "keccak \<Rightarrow> engine \<Rightarrow> (uint64 \<rightharpoonup> rootPosted) \<Rightarrow> uint64 \<Rightarrow> uint64 \<Rightarrow> walk_state \<Rightarrow> engine_error + walk_state" where
  "walked k g standing i target w =
     (if i < target then
        (case standing i of
           None \<Rightarrow>
             and_then (funded_at k g (K_carry w) i) (\<lambda>carry.
               walked k g standing (i + 1) target (w\<lparr>K_carry := carry, K_skipped := K_skipped w + 1\<rparr>))
         | Some posted \<Rightarrow>
             and_then (rebuilt k g i (Some posted) (K_carry w) (carrySource (K_from w) (K_skipped w))) (\<lambda>link.
               walked k g standing (i + 1) target
                 \<lparr>K_carry = E_CarryOut link, K_from = ''carryOut of epoch '' @ dec (unat i), K_skipped = 0, K_out = K_out w @ [link]\<rparr>))
      else Inr w)"
  by pat_completeness auto
termination
proof (relation "measure (\<lambda>(k, g, st, i, target, w). unat target - unat i)", goal_cases)
  case (2 k g st i target w carry)
  then show ?case using word_succ_nat [of i target] by (simp add: word_less_nat_alt)
next
  case (3 k g st i target w p link)
  then show ?case using word_succ_nat [of i target] by (simp add: word_less_nat_alt)
qed simp

declare walked.simps [simp del]

lemma epoch_ok_below: "epoch_ok j \<Longrightarrow> i \<le> j \<Longrightarrow> epoch_ok i"
  by (simp add: epoch_ok_def word_le_def)

lemma walk_loop_acts:
  assumes "sound_history (G_history g)" "epoch_ok target"
  shows "acts (same_run k g) (walk_loop k standing i target w) (walked k g standing i target w)"
proof (induction "unat target - unat i" arbitrary: i w rule: less_induct)
  case less
  have eq: "walk_loop k standing i target w =
      (if i < target then
        (case standing i of
           None \<Rightarrow> follow (addFunding k (K_carry w) i) (\<lambda>carry.
               walk_loop k standing (i + 1) target (w\<lparr>K_carry := carry, K_skipped := K_skipped w + 1\<rparr>))
         | Some posted \<Rightarrow>
             follow (engine_compute k i (Some posted) (K_carry w) (carrySource (K_from w) (K_skipped w))) (\<lambda>link.
               walk_loop k standing (i + 1) target
                 \<lparr>K_carry = E_CarryOut link, K_from = ''carryOut of epoch '' @ dec (unat i), K_skipped = 0, K_out = K_out w @ [link]\<rparr>))
       else return_with w)"
    by (rule ext, subst walk_loop.simps) (simp split: option.split)
  show ?case
  proof (cases "i < target")
    case True
    then have "unat target - unat (i + 1) < unat target - unat i" using word_succ_nat [OF True] by (simp add: word_less_nat_alt)
    note IH = less [OF this]
    have "epoch_ok i" using True assms(2) epoch_ok_below by auto
    note compute = engine_compute_acts [OF assms(1) this]
    show ?thesis
    proof (cases "standing i")
      case None
      show ?thesis unfolding eq walked.simps [of k g standing i target w]
        using True None by (simp, intro acts_follow addFunding_acts IH)
    next
      case (Some p)
      show ?thesis unfolding eq walked.simps [of k g standing i target w]
        using True Some by (simp, intro acts_follow compute IH)
    qed
  next
    case False
    then show ?thesis unfolding eq by (simp add: walked.simps [of k g standing i target w] acts_def)
  qed
qed

definition walk_ok :: "keccak \<Rightarrow> engine \<Rightarrow> uint64 \<Rightarrow> uint64 \<Rightarrow> walk_state \<Rightarrow> bool" where
  "walk_ok k g s i w \<longleftrightarrow>
     carry_chain k g s (\<lambda>t. 0) (K_out w) \<and> fst (chain_end s (\<lambda>t. 0) (K_out w)) \<le> i \<and>
     (\<forall>t. the (K_carry w t) = snd (chain_end s (\<lambda>t. 0) (K_out w)) t + funded_between k g (fst (chain_end s (\<lambda>t. 0) (K_out w))) i t) \<and>
     (\<forall>l \<in> set (K_out w). balanced k g l \<and> E_EpochID l < i)"

lemma walk_ok_skip:
  assumes "walk_ok k g s i w" "i < target" "funded_at k g (K_carry w) i = Inr carry"
  shows "walk_ok k g s (i + 1) (w\<lparr>K_carry := carry, K_skipped := n\<rparr>)"
proof -
  let ?a = "fst (chain_end s (\<lambda>t. 0) (K_out w))"
  have up: "unat (i + 1) = unat i + 1" by (rule word_succ_nat [OF assms(2)])
  have a: "?a \<le> i" using assms(1) by (simp add: walk_ok_def)
  have "funded_between k g ?a (i + 1) t = funded_between k g ?a i t + funding k g i t" for t
    by (rule funded_between_step [OF a assms(2)])
  then show ?thesis
    using assms(1) funded_at_Inr [OF assms(3)] up by (auto simp: walk_ok_def word_le_nat_alt word_less_nat_alt)
qed

lemma walk_ok_link:
  assumes "walk_ok k g s i w" "i < target" "rebuilt k g i posted (K_carry w) from = Inr link"
  shows "walk_ok k g s (i + 1) \<lparr>K_carry = E_CarryOut link, K_from = source, K_skipped = n, K_out = K_out w @ [link]\<rparr>"
proof -
  note link = rebuilt_Inr [OF assms(3)]
  have up: "unat (i + 1) = unat i + 1" by (rule word_succ_nat [OF assms(2)])
  show ?thesis
    using assms(1) link up by (auto simp: walk_ok_def carry_chain_snoc chain_end_snoc word_less_nat_alt)
qed

lemma walked_ok:
  "walked k g standing i target w = Inr w' \<Longrightarrow> walk_ok k g s i w \<Longrightarrow> i \<le> target \<Longrightarrow> walk_ok k g s target w'"
proof (induction k g standing i target w rule: walked.induct)
  case (1 k g standing i target w)
  show ?case
  proof (cases "i < target")
    case True
    have le: "i + 1 \<le> target" using True word_succ_nat [OF True] by (simp add: word_le_nat_alt word_less_nat_alt)
    show ?thesis
    proof (cases "standing i")
      case None
      then obtain carry where c: "funded_at k g (K_carry w) i = Inr carry"
        "walked k g standing (i + 1) target (w\<lparr>K_carry := carry, K_skipped := K_skipped w + 1\<rparr>) = Inr w'"
        using 1(3) True by (subst (asm) walked.simps) (auto simp: and_then_Inr)
      show ?thesis by (rule 1(1) [OF True None c(1,2) walk_ok_skip [OF 1(4) True c(1)] le])
    next
      case (Some p)
      then obtain link where c: "rebuilt k g i (Some p) (K_carry w) (carrySource (K_from w) (K_skipped w)) = Inr link"
        "walked k g standing (i + 1) target
           \<lparr>K_carry = E_CarryOut link, K_from = ''carryOut of epoch '' @ dec (unat i), K_skipped = 0, K_out = K_out w @ [link]\<rparr> = Inr w'"
        using 1(3) True by (subst (asm) walked.simps) (auto simp: and_then_Inr)
      show ?thesis by (rule 1(2) [OF True Some c(1,2) walk_ok_link [OF 1(4) True c(1)] le])
    qed
  next
    case False
    with 1(3-5) show ?thesis by (subst (asm) walked.simps) simp
  qed
qed

section \<open>Compute and Walk as functions of the chain\<close>

fun standing_from :: "keccak \<Rightarrow> engine \<Rightarrow> uint64 \<Rightarrow> uint64 \<Rightarrow> rootPosted list \<Rightarrow> (uint64 \<rightharpoonup> rootPosted) \<Rightarrow>
    engine_error + (uint64 \<rightharpoonup> rootPosted)" where
  "standing_from k g first final [] out = Inr out"
| "standing_from k g first final (p # ps) out =
     (if RP_Kind p \<noteq> KindEpoch \<or> RP_ID p < first \<or> RP_ID p \<ge> final then standing_from k g first final ps out
      else and_then (stands_at k g p) (\<lambda>ok.
             standing_from k g first final ps (if ok then out(RP_ID p \<mapsto> p) else out(RP_ID p := None))))"

lemma standing_loop_acts: "acts (same_run k g) (standing_loop k first final ps out) (standing_from k g first final ps out)"
proof (induction ps arbitrary: out)
  case Nil
  then show ?case by (simp add: acts_def)
next
  case (Cons p ps)
  then show ?case by (simp only: standing_loop.simps standing_from.simps) (intro acts_if acts_follow stands_acts)
qed

definition standing_map :: "keccak \<Rightarrow> engine \<Rightarrow> uint64 \<Rightarrow> uint64 \<Rightarrow> engine_error + (uint64 \<rightharpoonup> rootPosted)" where
  "standing_map k g first final =
     and_then (roots_between k g (D_DistributorBlock (G_dep g)) (tipNumber g)) (\<lambda>roots. standing_from k g first final roots Map.empty)"

lemma standingRoots_acts: "acts (same_run k g) (standingRoots k first final) (standing_map k g first final)"
proof -
  have "acts (same_run k g) (follow (engine_Roots k (D_DistributorBlock (G_dep g)) (tipNumber g)) (\<lambda>roots. standing_loop k first final roots Map.empty))
      (standing_map k g first final)"
    unfolding standing_map_def by (intro acts_follow engine_Roots_acts standing_loop_acts)
  then show ?thesis unfolding acts_def standingRoots_def by (simp add: same_runD(3,8) [of k g])
qed

definition closing_block :: "engine \<Rightarrow> uint64 \<Rightarrow> engine_error + block" where
  "closing_block g i = with_error ChainFailed (EndBlock (G_reader g) i (G_tip g))"

lemma end_block_acts: "acts (same_run k g) (end_block i) (closing_block g i)"
  unfolding end_block_def closing_block_def by (intro acts_reads) (simp add: same_runD(1,2) [of k g])

lemma load_acts: "G_loaded g \<Longrightarrow> acts (same_run k g) (engine_load k) (Inr ())"
  by (simp add: acts_def engine_load_def same_runD(4) [of k g])

lemma standingRoot_tip_acts:
  "acts (same_run k g) (\<lambda>e. standingRoot k i from (tipNumber e) e) (standing_root_at k g i from (tipNumber g))"
  using standingRoot_acts [of k g i "from" "tipNumber g"] unfolding acts_def by (simp add: same_runD(8) [of k g])

definition walk_start :: walk_state where
  "walk_start = \<lparr>K_carry = zeroAmounts, K_from = ''nothing before deploy'', K_skipped = 0, K_out = []\<rparr>"

definition finish :: "keccak \<Rightarrow> engine \<Rightarrow> uint64 \<Rightarrow> block \<Rightarrow> amounts \<Rightarrow> string \<Rightarrow> engine_error + epoch_result" where
  "finish k g i endBlock expected from =
     and_then (standing_root_at k g i (B_Number endBlock + 1) (tipNumber g)) (\<lambda>posted.
     and_then (rebuilt k g i posted expected from) (\<lambda>result. Inr (result\<lparr>E_EndBlock := Some endBlock\<rparr>)))"

definition walk_at :: "keccak \<Rightarrow> engine \<Rightarrow> uint64 \<Rightarrow> engine_error + epoch_result list" where
  "walk_at k g target =
     and_then (closing_block g target) (\<lambda>endBlock.
     and_then (deploy_epoch g) (\<lambda>first.
       if target < first then Inl (Predates target first)
       else
         and_then (standing_map k g first target) (\<lambda>standing.
         and_then (walked k g standing first target walk_start) (\<lambda>w.
         and_then (finish k g target endBlock (K_carry w) (carrySource (K_from w) (K_skipped w))) (\<lambda>result.
           Inr (K_out w @ [result]))))))"

lemma and_then_assoc: "and_then (and_then x f) h = and_then x (\<lambda>a. and_then (f a) h)"
  by (cases x) simp_all

lemma Walk_acts:
  assumes "G_loaded g" "sound_history (G_history g)" "epoch_ok target"
  shows "acts (same_run k g) (Walk k target) (walk_at k g target)"
proof -
  have "acts (same_run k g) (Walk k target)
    (and_then (closing_block g target) (\<lambda>endBlock.
     and_then (Inr ()) (\<lambda>_.
     and_then (deploy_epoch g) (\<lambda>first.
       if target < first then Inl (Predates target first)
       else
         and_then (standing_map k g first target) (\<lambda>standing.
         and_then (walked k g standing first target walk_start) (\<lambda>w.
         and_then (standing_root_at k g target (B_Number endBlock + 1) (tipNumber g)) (\<lambda>posted.
         and_then (rebuilt k g target posted (K_carry w) (carrySource (K_from w) (K_skipped w))) (\<lambda>result.
           Inr (K_out w @ [result\<lparr>E_EndBlock := Some endBlock\<rparr>])))))))))"
    unfolding Walk_def walk_start_def
    by (intro acts_follow acts_if end_block_acts load_acts [OF assms(1)] deployEpoch_acts acts_fail standingRoots_acts
        walk_loop_acts [OF assms(2,3)] standingRoot_tip_acts engine_compute_acts [OF assms(2,3)] acts_return)
  then show ?thesis by (simp only: walk_at_def finish_def and_then_assoc and_then_simps)
qed

definition carry_over :: "keccak \<Rightarrow> engine \<Rightarrow> amounts \<Rightarrow> uint64 \<Rightarrow> uint64 \<Rightarrow> string \<Rightarrow> engine_error + (amounts \<times> string)" where
  "carry_over k g carry from to source =
     and_then (carried k g from to carry 0) (\<lambda>(carry', skipped). Inr (carry', carrySource source skipped))"

lemma carryOver_acts: "acts (same_run k g) (carryOver k carry from to source) (carry_over k g carry from to source)"
  unfolding carryOver_def carry_over_def by (intro acts_follow carry_loop_acts) (auto simp: acts_def split: prod.split)

definition expected_at :: "keccak \<Rightarrow> engine \<Rightarrow> uint64 \<Rightarrow> rootPosted option \<Rightarrow> engine_error + (amounts \<times> string)" where
  "expected_at k g target found =
     (case found of
        None \<Rightarrow>
          and_then (deploy_epoch g) (\<lambda>first.
            if target < first then Inl (Predates target first)
            else carry_over k g zeroAmounts first target ''nothing before deploy'')
      | Some previous \<Rightarrow>
          and_then (rebuilt k g (RP_ID previous) (Some previous) (RP_CarryIn previous) ''its own posted carryIn'') (\<lambda>result.
            carry_over k g (E_CarryOut result) (RP_ID previous + 1) target (''carryOut of epoch '' @ dec (unat (RP_ID previous)))))"

lemma pick_previous_below: "pick (previous_at k g) ps bound = Inr (b', Some p) \<Longrightarrow> RP_ID p < bound"
proof (induction ps arbitrary: bound)
  case (Cons q ps)
  show ?case
  proof (cases "RP_Kind q \<noteq> KindEpoch \<or> RP_ID q \<ge> bound")
    case True
    then show ?thesis using Cons by (simp add: previous_at_def [of k g bound q])
  next
    case False
    then have "RP_ID q < bound" by (simp add: not_le)
    with False Cons show ?thesis
      by (cases "stands_at k g q") (auto simp: previous_at_def [of k g bound q] split: if_splits intro: less_trans)
  qed
qed simp

context honest_reader
begin

lemma Compute_acts:
  assumes "G_reader g = r" "G_loaded g" "sound_history (G_history g)" "epoch_ok i"
  shows "\<exists>previous. acts (same_run k g) (engine_Compute k i)
      (and_then (closing_block g i) (\<lambda>endBlock. and_then previous (\<lambda>found. and_then (expected_at k g i found) (\<lambda>(expected, from).
         finish k g i endBlock expected from)))) \<and>
    (\<forall>found. previous = Inr found \<longrightarrow> (\<exists>b'. pick (previous_at k g) (rev (engine_stream k ch g)) i = Inr (b', found))) \<and>
    (readable_roots k g \<longrightarrow> previous = and_then (pick (previous_at k g) (rev (engine_stream k ch g)) i) (\<lambda>(b', found). Inr found))"
proof -
  obtain v where v: "acts (same_run k g) (previousRoot k i) v"
    "\<forall>found. v = Inr found \<longrightarrow> (\<exists>b'. pick (previous_at k g) (rev (engine_stream k ch g)) i = Inr (b', found))"
    "readable_roots k g \<longrightarrow> v = and_then (pick (previous_at k g) (rev (engine_stream k ch g)) i) (\<lambda>(b', found). Inr found)"
    using previousRoot_acts [OF assms(1)] by blast
  have "acts (same_run k g) (expectedCarry k i) (and_then v (expected_at k g i))"
    unfolding expectedCarry_def
  proof (rule acts_follow [OF v(1)])
    fix found
    assume f: "v = Inr found"
    show "acts (same_run k g)
        (case found of
           None \<Rightarrow> follow deployEpoch (\<lambda>first.
             if i < first then fail_with (Predates i first) else carryOver k zeroAmounts first i ''nothing before deploy'')
         | Some previous \<Rightarrow>
             follow (engine_compute k (RP_ID previous) (Some previous) (RP_CarryIn previous) ''its own posted carryIn'') (\<lambda>result.
               carryOver k (E_CarryOut result) (RP_ID previous + 1) i (''carryOut of epoch '' @ dec (unat (RP_ID previous)))))
        (expected_at k g i found)"
    proof (cases found)
      case None
      then show ?thesis by (simp add: expected_at_def, intro acts_follow deployEpoch_acts acts_if acts_fail carryOver_acts)
    next
      case (Some p)
      then have "RP_ID p < i" using v(2) f pick_previous_below by blast
      then have "epoch_ok (RP_ID p)" using epoch_ok_below [OF assms(4)] by simp
      with Some show ?thesis
        by (simp add: expected_at_def, intro acts_follow engine_compute_acts [OF assms(3)] carryOver_acts)
    qed
  qed
  note expected = this
  have "acts (same_run k g) (engine_Compute k i)
      (and_then (closing_block g i) (\<lambda>endBlock. and_then (Inr ()) (\<lambda>_. and_then (and_then v (expected_at k g i)) (\<lambda>x.
         (case x of (expected, from) \<Rightarrow>
            and_then (standing_root_at k g i (B_Number endBlock + 1) (tipNumber g)) (\<lambda>posted.
            and_then (rebuilt k g i posted expected from) (\<lambda>result. Inr (result\<lparr>E_EndBlock := Some endBlock\<rparr>))))))))"
    unfolding engine_Compute_def
  proof (intro acts_follow end_block_acts load_acts [OF assms(2)] expected)
    fix eb x
    show "acts (same_run k g)
        (case x of (expected, from) \<Rightarrow> follow (\<lambda>e. standingRoot k i (B_Number eb + 1) (tipNumber e) e) (\<lambda>posted.
           follow (engine_compute k i posted expected from) (\<lambda>result. return_with (result\<lparr>E_EndBlock := Some eb\<rparr>))))
        (case x of (expected, from) \<Rightarrow> and_then (standing_root_at k g i (B_Number eb + 1) (tipNumber g)) (\<lambda>posted.
            and_then (rebuilt k g i posted expected from) (\<lambda>result. Inr (result\<lparr>E_EndBlock := Some eb\<rparr>))))"
      by (cases x) (simp del: action_simps, intro acts_follow standingRoot_tip_acts engine_compute_acts [OF assms(3,4)] acts_return)
  qed
  then have "acts (same_run k g) (engine_Compute k i)
      (and_then (closing_block g i) (\<lambda>endBlock. and_then v (\<lambda>found. and_then (expected_at k g i found) (\<lambda>(expected, from).
         finish k g i endBlock expected from))))"
    by (simp only: finish_def and_then_assoc and_then_simps)
  with v(2,3) show ?thesis by blast
qed

end

section \<open>Walk and Compute agree\<close>

definition log_of :: "uint64 \<Rightarrow> rootPosted \<Rightarrow> bool" where
  "log_of i p \<longleftrightarrow> RP_Kind p = KindEpoch \<and> RP_ID p = i"

lemma find_append: "List.find P (xs @ ys) = (case List.find P xs of None \<Rightarrow> List.find P ys | Some x \<Rightarrow> Some x)"
  by (induction xs) auto

lemma find_member: "List.find P xs = Some x \<Longrightarrow> x \<in> set xs \<and> P x"
  by (induction xs) (auto split: if_splits)

text \<open>A standing Root is the last log of its Epoch in the range that stands.\<close>

lemma standing_from_Inr:
  assumes "standing_from k g first final ps out = Inr st"
  shows "st i = (if first \<le> i \<and> i < final
    then (case List.find (log_of i) (rev ps) of None \<Rightarrow> out i | Some p \<Rightarrow> if stands_at k g p = Inr True then Some p else None)
    else out i)"
  using assms
proof (induction ps arbitrary: out)
  case (Cons p ps)
  show ?case
  proof (cases "RP_Kind p \<noteq> KindEpoch \<or> RP_ID p < first \<or> RP_ID p \<ge> final")
    case True
    then have "standing_from k g first final ps out = Inr st" using Cons.prems by simp
    moreover have "\<not> (first \<le> i \<and> i < final \<and> log_of i p)" using True by (auto simp: log_of_def)
    ultimately show ?thesis using Cons.IH [of out] by (auto simp: find_append split: option.split)
  next
    case False
    then obtain ok where ok: "stands_at k g p = Inr ok"
      "standing_from k g first final ps (if ok then out(RP_ID p \<mapsto> p) else out(RP_ID p := None)) = Inr st"
      using Cons.prems by (auto simp: and_then_Inr)
    have rng: "first \<le> RP_ID p" "RP_ID p < final" using False by auto
    have "log_of i p \<longleftrightarrow> i = RP_ID p" using False by (auto simp: log_of_def)
    then show ?thesis
      using Cons.IH [OF ok(2)] rng ok(1) by (cases "i = RP_ID p"; cases ok; cases "List.find (log_of i) (rev ps)") (simp_all add: find_append)
  qed
qed simp

lemma pick_previous_newest:
  "pick (previous_at k g) ps bound = Inr (b', Some p) \<Longrightarrow> List.find (log_of (RP_ID p)) ps = Some p \<and> stands_at k g p = Inr True"
proof (induction ps arbitrary: bound)
  case (Cons q ps)
  show ?case
  proof (cases "RP_Kind q \<noteq> KindEpoch \<or> RP_ID q \<ge> bound")
    case True
    then have rest: "pick (previous_at k g) ps bound = Inr (b', Some p)" using Cons.prems by (simp add: previous_at_def [of k g bound q])
    have "RP_ID p < bound" by (rule pick_previous_below [OF rest])
    with True have "\<not> log_of (RP_ID p) q" by (auto simp: log_of_def)
    with Cons.IH [OF rest] show ?thesis by simp
  next
    case False
    then obtain ok where ok: "stands_at k g q = Inr ok"
      using Cons.prems by (cases "stands_at k g q") (auto simp: previous_at_def [of k g bound q])
    show ?thesis
    proof (cases ok)
      case True
      then have "p = q" using Cons.prems False ok by (simp add: previous_at_def [of k g bound q])
      with False ok True show ?thesis by (simp add: log_of_def)
    next
      case no: False
      then have rest: "pick (previous_at k g) ps (RP_ID q) = Inr (b', Some p)"
        using Cons.prems False ok by (simp add: previous_at_def [of k g bound q])
      have "\<not> log_of (RP_ID p) q" using pick_previous_below [OF rest] by (auto simp: log_of_def)
      with Cons.IH [OF rest] show ?thesis by simp
    qed
  qed
qed simp

lemma previous_in_map:
  assumes st: "standing_from k g first target ps Map.empty = Inr st"
    and pick: "pick (previous_at k g) (rev ps) target = Inr (b', found)" and order: "posted_in_order k g (rev ps)"
  shows "found = Some p \<Longrightarrow> first \<le> RP_ID p \<Longrightarrow> st (RP_ID p) = Some p"
    "found = Some p \<Longrightarrow> RP_ID p < i \<Longrightarrow> i < target \<Longrightarrow> st i = None" "found = None \<Longrightarrow> st i = None"
proof -
  note at = standing_from_Inr [OF st]
  have none: "st i = None" if "i < target" "\<And>p. found = Some p \<Longrightarrow> RP_ID p < i" for i
  proof (cases "List.find (log_of i) (rev ps)")
    case None
    then show ?thesis by (simp add: at)
  next
    case (Some q)
    then have q: "q \<in> set (rev ps)" "log_of i q" using find_member [OF Some] by simp_all
    have "stands_at k g q \<noteq> Inr True"
    proof
      assume "stands_at k g q = Inr True"
      then have "standing_epoch k g q" "RP_ID q = i" using q(2) by (simp_all add: standing_epoch_def log_of_def)
      with pick_previous [OF pick order] q(1) that show False by (metis leD)
    qed
    with Some show ?thesis by (simp add: at)
  qed
  show "st (RP_ID p) = Some p" if "found = Some p" "first \<le> RP_ID p"
    using pick_previous_newest [of k g "rev ps" target b' p] pick_previous_below [of k g "rev ps" target b' p] pick that
    by (simp add: at)
  show "st i = None" if "found = Some p" "RP_ID p < i" "i < target" using none that by simp
  show "st i = None" if "found = None"
  proof (cases "i < target")
    case False
    then show ?thesis by (simp add: at)
  qed (use none that in simp)
qed

lemma walked_skips:
  assumes "\<And>j. i \<le> j \<Longrightarrow> j < target \<Longrightarrow> standing j = None"
  shows "walked k g standing i target w =
    and_then (carried k g i target (K_carry w) (K_skipped w)) (\<lambda>(carry, n). Inr (w\<lparr>K_carry := carry, K_skipped := n\<rparr>))"
  using assms
proof (induction "unat target - unat i" arbitrary: i w rule: less_induct)
  case less
  show ?case
  proof (cases "i < target")
    case True
    have up: "unat (i + 1) = unat i + 1" by (rule word_succ_nat [OF True])
    then have m: "unat target - unat (i + 1) < unat target - unat i" using True by (simp add: word_less_nat_alt)
    have none: "standing j = None" if "i + 1 \<le> j" "j < target" for j
      using less.prems [of j] that up by (simp add: word_le_nat_alt)
    note IH = less.hyps [OF m none]
    show ?thesis
      using True less.prems [of i] by (subst walked.simps, subst carried.simps) (simp add: IH and_then_assoc)
  next
    case False
    then show ?thesis by (subst walked.simps, subst carried.simps) simp
  qed
qed

lemma walked_through:
  assumes "walked k g standing i target w = Inr w'" "i \<le> j" "j < target" "standing j = Some p"
  shows "\<exists>(w1 :: walk_state) link. rebuilt k g j (Some p) (K_carry w1) (carrySource (K_from w1) (K_skipped w1)) = Inr link \<and>
    walked k g standing (j + 1) target
      \<lparr>K_carry = E_CarryOut link, K_from = ''carryOut of epoch '' @ dec (unat j), K_skipped = 0, K_out = K_out w1 @ [link]\<rparr> = Inr w'"
  using assms(1,2)
proof (induction "unat j - unat i" arbitrary: i w rule: less_induct)
  case less
  have lt: "i < target" using less.prems(2) assms(3) by simp
  show ?case
  proof (cases "i = j")
    case True
    with less.prems(1) lt assms(4)
    have "and_then (rebuilt k g j (Some p) (K_carry w) (carrySource (K_from w) (K_skipped w))) (\<lambda>link.
        walked k g standing (j + 1) target
          \<lparr>K_carry = E_CarryOut link, K_from = ''carryOut of epoch '' @ dec (unat j), K_skipped = 0, K_out = K_out w @ [link]\<rparr>) = Inr w'"
      by (subst (asm) walked.simps) simp
    then show ?thesis unfolding and_then_Inr by (rule exI [of _ w])
  next
    case False
    have up: "unat (i + 1) = unat i + 1" by (rule word_succ_nat [OF lt])
    have m: "unat j - unat (i + 1) < unat j - unat i" "i + 1 \<le> j"
      using False less.prems(2) up by (simp_all add: word_le_nat_alt word_unat_eq_iff)
    show ?thesis
    proof (cases "standing i")
      case None
      with less.prems(1) lt obtain w2 where "walked k g standing (i + 1) target w2 = Inr w'"
        by (subst (asm) walked.simps) (auto simp: and_then_Inr)
      from less.hyps [OF m(1) this m(2)] show ?thesis .
    next
      case (Some q)
      with less.prems(1) lt obtain w2 where "walked k g standing (i + 1) target w2 = Inr w'"
        by (subst (asm) walked.simps) (auto simp: and_then_Inr)
      from less.hyps [OF m(1) this m(2)] show ?thesis .
    qed
  qed
qed

lemma rebuilt_posted:
  assumes "rebuilt k g i (Some p) x from = Inr l" "rebuilt k g i (Some p) y from' = Inr l'"
  shows "E_CarryOut l = E_CarryOut l'"
  using assms by (auto simp: rebuilt_def and_then_Inr posted_carry_def epoch_result_of_def)

text \<open>The Carry a Walk arrives with is the one Compute expects, and so is where it says that came from.\<close>

lemma walk_expects:
  assumes st: "standing_from k g first target ps Map.empty = Inr st" and first: "deploy_epoch g = Inr first" "first \<le> target"
    and pick: "pick (previous_at k g) (rev ps) target = Inr (b', found)" and order: "posted_in_order k g (rev ps)"
    and deployed: "\<forall>p \<in> set ps. RP_Kind p = KindEpoch \<longrightarrow> first \<le> RP_ID p"
    and w: "walked k g st first target walk_start = Inr w"
    and e: "expected_at k g target found = Inr (expected, from)"
  shows "K_carry w = expected" "carrySource (K_from w) (K_skipped w) = from"
proof -
  note m = previous_in_map [OF st pick order]
  have "K_carry w = expected \<and> carrySource (K_from w) (K_skipped w) = from"
  proof (cases found)
    case None
    then have "walked k g st first target walk_start =
        and_then (carried k g first target zeroAmounts 0) (\<lambda>(carry, n). Inr (walk_start\<lparr>K_carry := carry, K_skipped := n\<rparr>))"
      using walked_skips [of first target st k g walk_start] m(3) by (simp add: walk_start_def)
    with w e None first show ?thesis
      by (auto simp: expected_at_def carry_over_def and_then_Inr walk_start_def split: if_splits)
  next
    case (Some p)
    note at = pick [unfolded Some]
    have p: "RP_ID p < target" "List.find (log_of (RP_ID p)) (rev ps) = Some p"
      using pick_previous_below [OF at] pick_previous_newest [OF at] by auto
    then have "p \<in> set ps" "RP_Kind p = KindEpoch" using find_member [OF p(2)] by (simp_all add: log_of_def)
    then have ge: "first \<le> RP_ID p" using deployed by blast
    obtain w1 :: walk_state and link where l: "rebuilt k g (RP_ID p) (Some p) (K_carry w1) (carrySource (K_from w1) (K_skipped w1)) = Inr link"
      "walked k g st (RP_ID p + 1) target
        \<lparr>K_carry = E_CarryOut link, K_from = ''carryOut of epoch '' @ dec (unat (RP_ID p)), K_skipped = 0, K_out = K_out w1 @ [link]\<rparr> = Inr w"
      using walked_through [OF w ge p(1) m(1) [OF Some ge]] by blast
    have none: "st j = None" if "RP_ID p + 1 \<le> j" "j < target" for j
      using m(2) [OF Some _ that(2)] that(1) word_succ_nat [OF p(1)] by (simp add: word_le_nat_alt word_less_nat_alt)
    obtain res where res: "rebuilt k g (RP_ID p) (Some p) (RP_CarryIn p) ''its own posted carryIn'' = Inr res"
      "carry_over k g (E_CarryOut res) (RP_ID p + 1) target (''carryOut of epoch '' @ dec (unat (RP_ID p))) = Inr (expected, from)"
      using e Some by (auto simp: expected_at_def and_then_Inr)
    have skips: "walked k g st (RP_ID p + 1) target w2 = and_then (carried k g (RP_ID p + 1) target (K_carry w2) (K_skipped w2))
        (\<lambda>(carry, n). Inr (w2\<lparr>K_carry := carry, K_skipped := n\<rparr>))" for w2
      by (rule walked_skips) (rule none)
    have same: "E_CarryOut link = E_CarryOut res" by (rule rebuilt_posted [OF l(1) res(1)])
    define source where "source = ''carryOut of epoch '' @ dec (unat (RP_ID p))"
    obtain carry n where c: "carried k g (RP_ID p + 1) target (E_CarryOut res) 0 = Inr (carry, n)"
      "expected = carry" "from = carrySource source n"
      using res(2) unfolding source_def [symmetric] by (auto simp: carry_over_def and_then_Inr)
    have "w = \<lparr>K_carry = carry, K_from = source, K_skipped = n, K_out = K_out w1 @ [link]\<rparr>"
      using l(2) c(1) unfolding source_def [symmetric] same skips by simp
    with c(2,3) show ?thesis by simp
  qed
  then show "K_carry w = expected" "carrySource (K_from w) (K_skipped w) = from" by auto
qed

section \<open>When Compute returns\<close>

lemma Replay_positive: "Replay i trs xs = Inr hs \<Longrightarrow> positive hs"
  using replay.weighty [of "(i, trs, xs)" hs] by simp

lemma rebuilt_total:
  assumes "sound_history (G_history g)" "epoch_ok i" "ledger_at k g i = Inr l"
    and "\<And>t. funded_ok (L_Funded l t) \<and> funded_ok (posted_carry posted expected t)"
    and "\<And>t. funding k g i t + the (posted_carry posted expected t) < 2 ^ 256"
  shows "\<exists>res. rebuilt k g i posted expected from = Inr res \<and>
    (\<forall>t. funded_ok (E_CarryOut res t) \<and> the (E_CarryOut res t) \<le> funding k g i t + the (posted_carry posted expected t))"
proof -
  let ?p = "rules_params g i (L_Funded l) (posted_carry posted expected)"
  obtain hs where hs: "Replay i (G_history g) (G_replayables g) = Inr hs"
    using Replay_iff [of i "G_history g" "G_replayables g"] assms(1,2) by (auto simp: sound_history_def)
  have fund: "funding k g i t = the (L_Funded l t)" for t using assms(3) by (simp add: funding_def)
  have "funding_ok ?p" "\<forall>t. base_of ?p t < 2 ^ 256"
    using assms(4,5) by (simp_all add: funding_ok_def base_of_def rules_params_def fund)
  from Allocate_total [OF Replay_positive [OF hs] this] obtain r where r: "Allocate k ?p hs = Inr r" by blast
  note bal = Allocate_conserving [OF Replay_positive [OF hs] r]
  have "Compute k ?p = Inr r" using r hs by (simp add: Compute_def) (simp add: rules_params_def)
  then have "rebuilt k g i posted expected from =
      Inr (epoch_result_of (T_Finality (G_tip g)) (G_exclusions g) i l posted (posted_carry posted expected) expected from r)"
    using assms(3) by (simp add: rebuilt_def)
  moreover have "0 \<le> R_CarryOut r t \<and> R_CarryOut r t \<le> funding k g i t + the (posted_carry posted expected t)" for t
    using bal [of t] by (simp add: rules_params_def fund)
  ultimately show ?thesis by (auto simp: epoch_result_of_def funded_ok_def)
qed

text \<open>The book can be read: every page of the stream, every ledger with amounts that fit, the deploy block.\<close>

definition readable :: "keccak \<Rightarrow> engine \<Rightarrow> bool" where
  "readable k g \<longleftrightarrow>
     readable_roots k g \<and> (\<forall>i. \<exists>l. ledger_at k g i = Inr l \<and> ledger_fields_ok l) \<and> (\<exists>first. deploy_epoch g = Inr first)"

lemma funding_nonneg: "readable k g \<Longrightarrow> 0 \<le> funding k g i t"
proof -
  assume "readable k g"
  then obtain l where "ledger_at k g i = Inr l" "ledger_fields_ok l" unfolding readable_def by blast
  then have "amount_ok (L_Funded l t)" "funding k g i t = the (L_Funded l t)"
    by (simp_all add: ledger_fields_ok_def amounts_ok_def funding_def)
  then show ?thesis by (auto simp: amount_ok_def split: option.splits)
qed

lemma funded_between_nonneg: "readable k g \<Longrightarrow> 0 \<le> funded_between k g i j t"
  unfolding funded_between_def by (rule sum_list_nonneg) (auto simp: funding_nonneg)

lemma amount_funded: "amount_ok x \<Longrightarrow> funded_ok x"
  by (auto simp: amount_ok_def funded_ok_def split: option.splits)

lemma carried_total:
  assumes "readable k g" "i \<le> to" "\<And>t. funded_ok (carry t)"
  shows "\<exists>c n. carried k g i to carry skipped = Inr (c, n) \<and> (\<forall>t. funded_ok (c t))"
  using assms(2,3)
proof (induction "unat to - unat i" arbitrary: i carry skipped rule: less_induct)
  case less
  show ?case
  proof (cases "i < to")
    case True
    obtain l where l: "ledger_at k g i = Inr l" "ledger_fields_ok l" using assms(1) unfolding readable_def by blast
    have f: "funded_ok (L_Funded l t)" for t using l(2) by (simp add: ledger_fields_ok_def amounts_ok_def amount_funded)
    have some: "carry t \<noteq> None \<and> L_Funded l t \<noteq> None" for t
      using less.prems(2) [of t] f [of t] by (auto simp: funded_ok_def split: option.splits)
    define c1 where "c1 = (\<lambda>t. Some (the (carry t) + the (L_Funded l t)))"
    have "add_amounts carry (L_Funded l) = Inr c1" using some by (auto simp: add_amounts_def c1_def)
    then have at: "funded_at k g carry i = Inr c1" using l(1) by (simp add: funded_at_def)
    have c1: "funded_ok (c1 t)" for t
      using less.prems(2) [of t] f [of t] by (auto simp: funded_ok_def c1_def split: option.splits)
    have up: "unat (i + 1) = unat i + 1" by (rule word_succ_nat [OF True])
    have m: "unat to - unat (i + 1) < unat to - unat i" "i + 1 \<le> to" using True up by (simp_all add: word_less_nat_alt word_le_nat_alt)
    from less.hyps [where skipped = "skipped + 1", OF m c1] show ?thesis
      using True at by (subst carried.simps) simp
  next
    case False
    then show ?thesis using less.prems by (subst carried.simps) simp
  qed
qed

text \<open>No amount in play passes 256 bits.\<close>

definition amounts_fit :: "keccak \<Rightarrow> engine \<Rightarrow> rootPosted list \<Rightarrow> uint64 \<Rightarrow> bool" where
  "amounts_fit k g ps i \<longleftrightarrow>
     (\<forall>p \<in> set ps. \<forall>t. funded_ok (RP_CarryIn p t) \<and> the (RP_CarryIn p t) + funded_between k g (RP_ID p) (i + 1) t < 2 ^ 256) \<and>
     (\<forall>first t. deploy_epoch g = Inr first \<longrightarrow> funded_between k g first (i + 1) t < 2 ^ 256)"

lemma expected_total:
  assumes "readable k g" "sound_history (G_history g)" "epoch_ok i" "i \<noteq> - 1" "amounts_fit k g ps i"
    and found: "case found of None \<Rightarrow> (\<forall>first. deploy_epoch g = Inr first \<longrightarrow> first \<le> i) | Some p \<Rightarrow> p \<in> set ps \<and> RP_ID p < i"
  shows "\<exists>expected from. expected_at k g i found = Inr (expected, from) \<and>
    (\<forall>t. funded_ok (expected t) \<and> funding k g i t + the (expected t) < 2 ^ 256)"
proof -
  have top: "i < - 1" using assms(4) by (metis word_order.extremum order.not_eq_order_implies_strict)
  show ?thesis
  proof (cases found)
    case None
    obtain first where first: "deploy_epoch g = Inr first" "first \<le> i" using assms(1) found None by (auto simp: readable_def)
    obtain c n where c: "carried k g first i zeroAmounts 0 = Inr (c, n)" "\<forall>t. funded_ok (c t)"
      using carried_total [OF assms(1) first(2), of zeroAmounts 0] by (auto simp: zeroAmounts_def funded_ok_def)
    have val: "the (c t) = funded_between k g first i t" for t using carried_Inr [OF c(1) first(2)] by (simp add: zeroAmounts_def)
    have "funding k g i t + the (c t) < 2 ^ 256" for t
    proof -
      have "funded_between k g first (i + 1) t < 2 ^ 256" using assms(5) first(1) unfolding amounts_fit_def by blast
      then show ?thesis using funded_between_step [OF first(2) top, of k g t] val [of t] by linarith
    qed
    then show ?thesis using None first c by (simp add: expected_at_def carry_over_def leD)
  next
    case (Some p)
    then have p: "p \<in> set ps" "RP_ID p < i" using found by simp_all
    have fits: "funded_ok (RP_CarryIn p t)" "the (RP_CarryIn p t) + funded_between k g (RP_ID p) (i + 1) t < 2 ^ 256" for t
      using assms(5) p(1) by (auto simp: amounts_fit_def)
    have up: "RP_ID p + 1 \<le> i" using word_succ_nat [OF p(2)] p(2) by (simp add: word_le_nat_alt word_less_nat_alt)
    have split: "funded_between k g (RP_ID p) (i + 1) t =
        funding k g (RP_ID p) t + funded_between k g (RP_ID p + 1) i t + funding k g i t" for t
      using funded_between_step [OF less_imp_le [OF p(2)] top, of k g t] funded_between_first [OF p(2), of k g t] by simp
    have nn: "0 \<le> funding k g j t" "0 \<le> funded_between k g j j' t" for j j' t
      using funding_nonneg funded_between_nonneg assms(1) by blast+
    obtain l where l: "ledger_at k g (RP_ID p) = Inr l" "ledger_fields_ok l" using assms(1) unfolding readable_def by blast
    have small: "funding k g (RP_ID p) t + the (posted_carry (Some p) (RP_CarryIn p) t) < 2 ^ 256" for t
      using fits(2) [of t] split [of t] nn(1) [of i t] nn(2) [of "RP_ID p + 1" i t] by (simp add: posted_carry_def)
    have ok: "funded_ok (L_Funded l t) \<and> funded_ok (posted_carry (Some p) (RP_CarryIn p) t)" for t
      using l(2) fits(1) by (simp add: ledger_fields_ok_def amounts_ok_def amount_funded posted_carry_def)
    have "epoch_ok (RP_ID p)" using epoch_ok_below [OF assms(3)] p(2) by simp
    from rebuilt_total [OF assms(2) this l(1) ok small]
    obtain res where res: "rebuilt k g (RP_ID p) (Some p) (RP_CarryIn p) ''its own posted carryIn'' = Inr res"
      "\<forall>t. funded_ok (E_CarryOut res t) \<and> the (E_CarryOut res t) \<le> funding k g (RP_ID p) t + the (RP_CarryIn p t)"
      by (auto simp: posted_carry_def)
    obtain c n where c: "carried k g (RP_ID p + 1) i (E_CarryOut res) 0 = Inr (c, n)" "\<forall>t. funded_ok (c t)"
      using carried_total [OF assms(1) up, of "E_CarryOut res" 0] res(2) by blast
    have "the (c t) = the (E_CarryOut res t) + funded_between k g (RP_ID p + 1) i t" for t using carried_Inr [OF c(1) up] by simp
    then have "funding k g i t + the (c t) < 2 ^ 256" for t
      using fits(2) [of t] split [of t] res(2) by (smt (verit))
    then show ?thesis using Some res(1) c by (simp add: expected_at_def carry_over_def)
  qed
qed

lemma epoch_ok_top: "epoch_ok i \<Longrightarrow> i \<noteq> - 1"
proof
  assume "epoch_ok i" "i = - 1"
  moreover have "uint (- 1 :: uint64) = 2 ^ 64 - 1" by (simp add: unsigned_minus_1_eq_mask mask_eq_exp_minus_1)
  ultimately show False by (simp add: epoch_ok_def)
qed

lemma pick_total: "(\<And>b p. \<exists>x. w b p = Inr x) \<Longrightarrow> \<exists>y. pick w ps b = Inr y"
proof (induction ps arbitrary: b)
  case (Cons p ps)
  obtain x where "w b p = Inr x" using Cons.prems by blast
  then show ?case using Cons.IH [OF Cons.prems] by (cases x) auto
qed simp

lemma previous_at_total: "readable k g \<Longrightarrow> \<exists>x. previous_at k g b p = Inr x"
proof -
  assume "readable k g"
  then obtain l where "ledger_at k g (RP_ID p) = Inr l" unfolding readable_def by blast
  then show ?thesis by (auto simp: previous_at_def stands_at_def)
qed

lemma pick_member: "pick (previous_at k g) ps bound = Inr (b', Some p) \<Longrightarrow> p \<in> set ps"
  using pick_previous_newest [of k g ps bound b' p] find_member [of "log_of (RP_ID p)" ps p] by blast

context honest_reader
begin

lemma standing_root_logged:
  assumes "G_reader g = r" "standing_root_at k g i from (tipNumber g) = Inr (Some p)" "D_DistributorBlock (G_dep g) \<le> from"
  shows "p \<in> set (engine_stream k ch g) \<and> RP_ID p = i"
proof -
  obtain l roots where roots: "roots_between k g from (tipNumber g) = Inr roots"
    "List.find (\<lambda>p. RP_Kind p = KindEpoch \<and> RP_ID p = i) (rev roots) = Some p"
    using assms(2) by (auto simp: standing_root_at_def and_then_Inr split: if_splits option.splits)
  have p: "p \<in> set roots" "RP_ID p = i" using find_member [OF roots(2)] by auto
  have "roots = posted_stream k ch (R_distributor r) from (tipNumber g)"
    using Roots_true [of k "from" "tipNumber g" roots] roots(1) by (simp add: roots_between_def assms(1) posted_stream_def)
  with p assms(1,3) show ?thesis
    by (auto simp: engine_stream_def posted_stream_def selected_def intro: order_trans)
qed

lemma Compute_gives:
  assumes g: "G_reader g = r" "G_loaded g" "sound_history (G_history g)" "epoch_ok i" and read: "readable k g"
    and "closing_block g i = Inr eb" "D_DistributorBlock (G_dep g) \<le> B_Number eb + 1"
    and "standing_root_at k g i (B_Number eb + 1) (tipNumber g) = Inr posted"
    and fit: "amounts_fit k g (engine_stream k ch g) i" and first: "\<And>first. deploy_epoch g = Inr first \<Longrightarrow> first \<le> i"
    and "same_run k g e1"
  shows "\<exists>res. snd (engine_Compute k i e1) = Inr res"
proof -
  obtain previous where a: "acts (same_run k g) (engine_Compute k i)
      (and_then (closing_block g i) (\<lambda>endBlock. and_then previous (\<lambda>found. and_then (expected_at k g i found) (\<lambda>(expected, from).
         finish k g i endBlock expected from))))"
    "readable_roots k g \<longrightarrow> previous = and_then (pick (previous_at k g) (rev (engine_stream k ch g)) i) (\<lambda>(b', found). Inr found)"
    using Compute_acts [OF g] by blast
  obtain b' found where f: "pick (previous_at k g) (rev (engine_stream k ch g)) i = Inr (b', found)"
    using pick_total [of "previous_at k g", OF previous_at_total [OF read]] by (metis surj_pair)
  then have prev: "previous = Inr found" using a(2) read by (simp add: readable_def)
  have top: "i \<noteq> - 1" using g(4) by (rule epoch_ok_top)
  have "case found of None \<Rightarrow> \<forall>first. deploy_epoch g = Inr first \<longrightarrow> first \<le> i | Some p \<Rightarrow> p \<in> set (engine_stream k ch g) \<and> RP_ID p < i"
    using f first pick_previous_below pick_member by (auto split: option.split) (metis set_rev)
  from expected_total [OF read g(3,4) top fit this]
  obtain expected source where x: "expected_at k g i found = Inr (expected, source)"
    "\<forall>t. funded_ok (expected t) \<and> funding k g i t + the (expected t) < 2 ^ 256" by blast
  obtain l where l: "ledger_at k g i = Inr l" "ledger_fields_ok l" using read unfolding readable_def by blast
  have "i < - 1" using top by (metis word_order.extremum order.not_eq_order_implies_strict)
  then have one: "funded_between k g i (i + 1) t = funding k g i t" for t using funded_between_step [of i i "- 1" k g t] by simp
  have "funded_ok (posted_carry posted expected t) \<and> funding k g i t + the (posted_carry posted expected t) < 2 ^ 256" for t
  proof (cases posted)
    case (Some p)
    have p: "p \<in> set (engine_stream k ch g)" "RP_ID p = i" using standing_root_logged [OF g(1) assms(8) [unfolded Some] assms(7)] by auto
    then have "funded_ok (RP_CarryIn p t)" "the (RP_CarryIn p t) + funded_between k g i (i + 1) t < 2 ^ 256"
      using fit unfolding amounts_fit_def by blast+
    then show ?thesis using one [of t] Some by (simp add: posted_carry_def add.commute)
  qed (use x(2) in \<open>simp add: posted_carry_def\<close>)
  moreover have "funded_ok (L_Funded l t)" for t using l(2) by (simp add: ledger_fields_ok_def amounts_ok_def amount_funded)
  ultimately obtain res where "rebuilt k g i posted expected source = Inr res"
    using rebuilt_total [OF g(3,4) l(1), of posted expected source] by blast
  then have "and_then (closing_block g i) (\<lambda>endBlock. and_then previous (\<lambda>found. and_then (expected_at k g i found) (\<lambda>(expected, from).
         finish k g i endBlock expected from))) = Inr (res\<lparr>E_EndBlock := Some eb\<rparr>)"
    using assms(6,8) prev x(1) by (simp add: finish_def)
  with acts_result [OF a(1) assms(11)] show ?thesis by auto
qed

end

end
