(* ===== verification/Fakenode.thy ===== *)
theory Fakenode
  imports Reader
begin

text \<open>
  The JSON-RPC server the tests run against (\<open>internal/fakenode/fakenode.go\<close>): a chain of blocks, the logs appended to it,
  the Distributor's book and the launch factory. It is the concrete endpoint on which the
  interface \<open>honest_endpoint\<close> is interpreted: every read of the Reader goes through the requests, replies and
  decoders of \<open>Rpc\<close>.

  A panic of a handler, which the HTTP server turns into a broken connection, is a value. The texts of library
  errors are abbreviated. Counting requests and starting the server are left out.
\<close>

section \<open>The node\<close>

record node_ledger =
  NL_Root :: hash
  NL_RootPostedAt :: int64
  NL_Skipped :: bool
  NL_Funded :: amounts
  NL_Totals :: amounts

record node =
  N_ChainID :: uint64
  N_Timestamps :: "int64 list"
  N_Tips :: "string \<rightharpoonup> uint64"
  N_HashSalt :: byte
  N_logs :: "wireLog list"
  N_Ledgers :: "uint64 \<rightharpoonup> node_ledger"
  N_Factory :: address
  N_Curves :: "address \<rightharpoonup> address"
  N_HTTPStatus :: nat

definition node_New :: "int64 list \<Rightarrow> node" where
  "node_New timestamps =
     (let tip_number = of_nat (length timestamps) - 1
      in \<lparr>N_ChainID = 4663, N_Timestamps = timestamps,
          N_Tips = [''latest'' \<mapsto> tip_number, ''safe'' \<mapsto> tip_number, ''finalized'' \<mapsto> tip_number],
          N_HashSalt = 0, N_logs = [], N_Ledgers = Map.empty, N_Factory = 0, N_Curves = Map.empty, N_HTTPStatus = 0\<rparr>)"

text \<open>\<open>big.Int.Bytes\<close>: big-endian, without leading zeros.\<close>

definition big_bytes :: "nat \<Rightarrow> byte list" where
  "big_bytes n = (if n = 0 then [] else map of_nat (digits 256 n))"

definition HashOf :: "keccak \<Rightarrow> node \<Rightarrow> uint64 \<Rightarrow> hash" where
  "HashOf k n b = keccak256 k [big_bytes (nat \<bar>i64 (uint b)\<bar>) @ [N_HashSalt n]]"

definition node_word :: "bigint \<Rightarrow> byte list" where
  "node_word x = be_bytes 32 (case x of None \<Rightarrow> 0 | Some v \<Rightarrow> nat \<bar>v\<bar>)"

definition addressTopic :: "address \<Rightarrow> string" where
  "addressTopic a = hexBytes (replicate 12 0 @ addr_bytes a)"

definition node_topic :: "keccak \<Rightarrow> string \<Rightarrow> string" where
  "node_topic k signature = Hash_String (keccak256 k [ascii signature])"

section \<open>Log builders\<close>

definition append_log :: "node \<Rightarrow> uint64 \<Rightarrow> string \<Rightarrow> string list \<Rightarrow> byte list \<Rightarrow> node" where
  "append_log n b addr topics data =
     n\<lparr>N_logs := N_logs n @
        [\<lparr>WL_Address = addr, WL_Topics = topics, WL_Data = hexBytes data, WL_BlockNumber = quantity b, WL_BlockHash = [],
          WL_LogIndex = quantity (of_nat (length (N_logs n))), WL_Removed = False\<rparr>]\<rparr>"

definition node_Transfer :: "keccak \<Rightarrow> node \<Rightarrow> uint64 \<Rightarrow> address \<Rightarrow> address \<Rightarrow> address \<Rightarrow> int64 \<Rightarrow> node" where
  "node_Transfer k n b token from to v =
     append_log n b (Address_String token)
       [node_topic k ''Transfer(address,address,uint256)'', addressTopic from, addressTopic to] (node_word (Some v))"

definition node_Exclusion :: "keccak \<Rightarrow> node \<Rightarrow> uint64 \<Rightarrow> address \<Rightarrow> address \<Rightarrow> node" where
  "node_Exclusion k n b distributor account =
     append_log n b (Address_String distributor)
       [node_topic k ''ExcludedAppended(address)'', addressTopic account] []"

definition node_RootPosted ::
  "keccak \<Rightarrow> node \<Rightarrow> uint64 \<Rightarrow> address \<Rightarrow> uint64 \<Rightarrow> hash \<Rightarrow> amounts \<Rightarrow> amounts \<Rightarrow> node" where
  "node_RootPosted k n b distributor i root totals carryIn =
     append_log n b (Address_String distributor)
       [node_topic k ''RootPosted(uint8,uint256,bytes32,uint256[5],uint256[5])'', hexBytes (node_word (Some 0)),
        hexBytes (node_word (Some (uint i)))]
       (hash_bytes root @ concat (map (\<lambda>g. concat (map (\<lambda>t. node_word (g t)) Enum.enum)) [totals, carryIn]))"

definition DropLastLog :: "node \<Rightarrow> node" where
  "DropLastLog n = n\<lparr>N_logs := butlast (N_logs n)\<rparr>"

definition Launch :: "node \<Rightarrow> address \<Rightarrow> address \<Rightarrow> address \<Rightarrow> node" where
  "Launch n factory token curve = n\<lparr>N_Factory := factory, N_Curves := (N_Curves n)(token \<mapsto> curve)\<rparr>"

section \<open>Answers\<close>

datatype served = Panics | Refuses string | Serves json

text \<open>\<open>fmt.Sscanf (s, "0x%x")\<close> stops at the first character that is not a digit.\<close>

definition scan_quantity :: "string \<Rightarrow> string + uint64" where
  "scan_quantity s =
     (if take 2 s \<noteq> ''0x'' then Inl ''input does not match format''
      else
        let ds = takeWhile (\<lambda>c. hex_value c \<noteq> None) (dropWhile is_space (drop 2 s))
        in if ds = [] then Inl ''expected integer''
           else case ParseUint16 ds of Inl e \<Rightarrow> Inl ''value out of range'' | Inr n \<Rightarrow> Inr n)"

definition node_block :: "keccak \<Rightarrow> node \<Rightarrow> string \<Rightarrow> served" where
  "node_block k n tag =
     (let number =
            (case N_Tips n tag of
               Some b \<Rightarrow> Some b
             | None \<Rightarrow>
                 (case scan_quantity tag of
                    Inl e \<Rightarrow> None
                  | Inr b \<Rightarrow> if unat b \<ge> length (N_Timestamps n) then None else Some b))
      in case number of
           None \<Rightarrow> Serves JNull
         | Some b \<Rightarrow>
             if unat b \<ge> length (N_Timestamps n) then Panics
             else Serves (JObj
               [(''hash'', JStr (Hash_String (HashOf k n b))), (''number'', JStr (quantity b)),
                (''parentHash'', JStr (Hash_String (if b > 0 then HashOf k n (b - 1) else 0))),
                (''timestamp'', JStr (quantity (word_of_int (N_Timestamps n ! unat b))))]))"

definition json_log :: "wireLog \<Rightarrow> json" where
  "json_log l =
     JObj [(''address'', JStr (WL_Address l)), (''topics'', JArr (map JStr (WL_Topics l))), (''data'', JStr (WL_Data l)),
           (''blockNumber'', JStr (WL_BlockNumber l)), (''blockHash'', JStr (WL_BlockHash l)),
           (''logIndex'', JStr (WL_LogIndex l)), (''transactionHash'', JStr []), (''transactionIndex'', JStr []),
           (''removed'', JBool (WL_Removed l))]"

definition EqualFold :: "string \<Rightarrow> string \<Rightarrow> bool" where
  "EqualFold a b \<longleftrightarrow> lower a = lower b"

fun select_logs :: "keccak \<Rightarrow> node \<Rightarrow> uint64 \<Rightarrow> uint64 \<Rightarrow> string \<Rightarrow> string \<Rightarrow> wireLog list \<Rightarrow> (string option) + wireLog list" where
  "select_logs k n from to addr topic0 [] = Inr []"
| "select_logs k n from to addr topic0 (l # ls) =
     (case scan_quantity (WL_BlockNumber l) of
        Inl e \<Rightarrow> Inl (Some e)
      | Inr b \<Rightarrow>
          if b < from \<or> b > to \<or> \<not> EqualFold (WL_Address l) addr then select_logs k n from to addr topic0 ls
          else if WL_Topics l = [] then Inl None
          else if hd (WL_Topics l) \<noteq> topic0 then select_logs k n from to addr topic0 ls
          else and_then (select_logs k n from to addr topic0 ls) (\<lambda>out.
                 Inr (l\<lparr>WL_BlockHash := Hash_String (HashOf k n b)\<rparr> # out)))"

definition node_getLogs :: "keccak \<Rightarrow> node \<Rightarrow> string \<Rightarrow> string \<Rightarrow> string \<Rightarrow> string \<Rightarrow> served" where
  "node_getLogs k n fromHex toHex addr topic0 =
     (case scan_quantity fromHex of
        Inl e \<Rightarrow> Refuses e
      | Inr from \<Rightarrow>
          (case scan_quantity toHex of
             Inl e \<Rightarrow> Refuses e
           | Inr to \<Rightarrow>
               (case select_logs k n from to addr topic0 (N_logs n) of
                  Inl (Some e) \<Rightarrow> Refuses e
                | Inl None \<Rightarrow> Panics
                | Inr ls \<Rightarrow> Serves (JArr (map json_log ls)))))"

definition factoryCall :: "keccak \<Rightarrow> node \<Rightarrow> byte list \<Rightarrow> json" where
  "factoryCall k n raw =
     (if length raw \<noteq> 36 \<or> take 4 raw \<noteq> selectorGetLaunchedToken k then JStr ''0x''
      else
        let token = bytes_addr (drop 16 raw);
            words = (case N_Curves n token of
                       None \<Rightarrow> replicate 15 0
                     | Some curve \<Rightarrow> (replicate 15 0)[0 := unat token, 1 := unat curve, 14 := 1])
        in JStr (hexBytes (concat (map (be_bytes 32) words))))"

definition node_call :: "keccak \<Rightarrow> node \<Rightarrow> string \<Rightarrow> string \<Rightarrow> served" where
  "node_call k n to data =
     (case hex_decode (if take 2 data = ''0x'' then drop 2 data else data) of
        None \<Rightarrow> Refuses ''encoding/hex''
      | Some raw \<Rightarrow>
          if N_Factory n \<noteq> 0 \<and> EqualFold to (Address_String (N_Factory n)) then Serves (factoryCall k n raw)
          else if length raw \<noteq> 68 \<or> take 4 raw \<noteq> selectorLedger k \<or> raw ! 35 \<noteq> 0 then Serves (JStr ''0x'')
          else
            let l = (case N_Ledgers n (of_nat (be_nat (drop 36 raw))) of
                       Some l \<Rightarrow> l
                     | None \<Rightarrow> \<lparr>NL_Root = 0, NL_RootPostedAt = 0, NL_Skipped = False, NL_Funded = (\<lambda>t. None), NL_Totals = (\<lambda>t. None)\<rparr>)
            in Serves (JStr (hexBytes
                 (hash_bytes (NL_Root l) @ node_word (Some (NL_RootPostedAt l)) @ node_word (Some (if NL_Skipped l then 1 else 0)) @
                  concat (map (\<lambda>g. concat (map (\<lambda>t. node_word (g t)) Enum.enum)) [NL_Funded l, NL_Totals l, (\<lambda>t. None)])))))"

record log_query =
  LQ_FromBlock :: string
  LQ_ToBlock :: string
  LQ_Address :: string
  LQ_Topics :: "string list"

definition log_query_member :: "string \<Rightarrow> json \<Rightarrow> log_query \<Rightarrow> log_query option" where
  "log_query_member k v q =
     (if k = ''fromblock'' then map_option (\<lambda>s. q\<lparr>LQ_FromBlock := s\<rparr>) (to_string v (LQ_FromBlock q))
      else if k = ''toblock'' then map_option (\<lambda>s. q\<lparr>LQ_ToBlock := s\<rparr>) (to_string v (LQ_ToBlock q))
      else if k = ''address'' then map_option (\<lambda>s. q\<lparr>LQ_Address := s\<rparr>) (to_string v (LQ_Address q))
      else if k = ''topics'' then map_option (\<lambda>ts. q\<lparr>LQ_Topics := ts\<rparr>) (to_list (\<lambda>t. to_string t []) v)
      else Some q)"

definition call_member :: "string \<Rightarrow> json \<Rightarrow> string \<times> string \<Rightarrow> (string \<times> string) option" where
  "call_member k v c =
     (if k = ''to'' then map_option (\<lambda>s. (s, snd c)) (to_string v (fst c))
      else if k = ''data'' then map_option (\<lambda>s. (fst c, s)) (to_string v (snd c))
      else Some c)"

definition dispatch :: "keccak \<Rightarrow> node \<Rightarrow> string \<Rightarrow> json list \<Rightarrow> served" where
  "dispatch k n method params =
     (if method = ''eth_chainId'' then Serves (JStr (quantity (N_ChainID n)))
      else if method = ''eth_getBlockByNumber'' then
        (case params of
           [] \<Rightarrow> Panics
         | p # _ \<Rightarrow> (case to_string p [] of None \<Rightarrow> Refuses ''json'' | Some tag \<Rightarrow> node_block k n tag))
      else if method = ''eth_getLogs'' then
        (case params of
           [] \<Rightarrow> Panics
         | p # _ \<Rightarrow>
             (case to_struct log_query_member p \<lparr>LQ_FromBlock = [], LQ_ToBlock = [], LQ_Address = [], LQ_Topics = []\<rparr> of
                None \<Rightarrow> Refuses ''json''
              | Some q \<Rightarrow>
                  if LQ_Topics q = [] then Panics
                  else node_getLogs k n (LQ_FromBlock q) (LQ_ToBlock q) (LQ_Address q) (hd (LQ_Topics q))))
      else if method = ''eth_call'' then
        (case params of
           [] \<Rightarrow> Panics
         | p # _ \<Rightarrow>
             (case to_struct call_member p ([], []) of
                None \<Rightarrow> Refuses ''json''
              | Some (to, data) \<Rightarrow> node_call k n to data))
      else Refuses (''unsupported method '' @ method))"

text \<open>A nil result is left out of the reply.\<close>

definition answer :: "keccak \<Rightarrow> node \<Rightarrow> rpcRequest \<Rightarrow> json option" where
  "answer k n req =
     (let envelope = [(''jsonrpc'', JStr ''2.0''), (''id'', JInt (uint (RQ_ID req)))]
      in case dispatch k n (RQ_Method req) (RQ_Params req) of
           Panics \<Rightarrow> None
         | Refuses msg \<Rightarrow> Some (JObj (envelope @ [(''error'', JObj [(''code'', JInt (- 32000)), (''message'', JStr msg)])]))
         | Serves v \<Rightarrow> Some (JObj (envelope @ (if v = JNull then [] else [(''result'', v)]))))"

definition handle :: "keccak \<Rightarrow> node \<Rightarrow> rpc_body \<Rightarrow> http_reply" where
  "handle k n b =
     (if N_HTTPStatus n \<noteq> 0 then Replied (N_HTTPStatus n) [] (Text None)
      else case b of
             One req \<Rightarrow> (case answer k n req of None \<Rightarrow> Broken | Some j \<Rightarrow> Replied 200 [] (Text (Some j)))
           | Many reqs \<Rightarrow>
               (case those (map (answer k n) reqs) of
                  None \<Rightarrow> Broken
                | Some js \<Rightarrow> Replied 200 [] (Text (Some (JArr js)))))"

text \<open>The endpoint a Reader has of the node: every call starts from the request counter \<open>0\<close>.\<close>

definition endpoint_of :: "keccak \<Rightarrow> node \<Rightarrow> endpoint" where
  "endpoint_of k n =
     \<lparr>E_label = ''endpoint 1 (127.0.0.1)'',
      E_ask = \<lambda>m ps. snd (call (\<lambda>i. True) (\<lambda>i. handle k n) 0 m ps),
      E_askBatch = \<lambda>m pss. snd (callBatch (\<lambda>i. True) (\<lambda>i. handle k n) 0 m pss),
      E_noBatch = \<lambda>ns. False\<rparr>"

section \<open>What a call to the node returns\<close>

lemma roundTrip_Inr: "roundTrip alive post = Inr raw \<Longrightarrow> \<exists>n h. post n = Replied 200 h (Text raw)"
proof -
  have "round_trip_loop alive post n left st = Inr raw \<Longrightarrow> \<exists>n h. post n = Replied 200 h (Text raw)" for n left st
  proof (induction alive post n left st rule: round_trip_loop.induct)
    case (2 alive post n left st)
    then show ?case
      by (auto simp: attempt_def split: http_reply.splits body.splits if_splits)
  qed simp
  then show "roundTrip alive post = Inr raw \<Longrightarrow> \<exists>n h. post n = Replied 200 h (Text raw)" by (simp add: roundTrip_def)
qed

lemma lower_names [simp]:
  "lower ''jsonrpc'' = ''jsonrpc''" "lower ''id'' = ''id''" "lower ''result'' = ''result''" "lower ''error'' = ''error''"
  "lower ''code'' = ''code''" "lower ''message'' = ''message''" "lower ''number'' = ''number''" "lower ''hash'' = ''hash''"
  "lower ''parentHash'' = ''parenthash''" "lower ''timestamp'' = ''timestamp''" "lower ''address'' = ''address''"
  "lower ''topics'' = ''topics''" "lower ''data'' = ''data''" "lower ''blockNumber'' = ''blocknumber''"
  "lower ''blockHash'' = ''blockhash''" "lower ''logIndex'' = ''logindex''" "lower ''transactionHash'' = ''transactionhash''"
  "lower ''transactionIndex'' = ''transactionindex''" "lower ''removed'' = ''removed''" "lower ''fromBlock'' = ''fromblock''"
  "lower ''toBlock'' = ''toblock''" "lower ''to'' = ''to''"
  by code_simp+

text \<open>The reply a request gets, as the client decodes it.\<close>

definition reply_of :: "keccak \<Rightarrow> node \<Rightarrow> rpcRequest \<Rightarrow> rpcResponse" where
  "reply_of k n req =
     (case dispatch k n (RQ_Method req) (RQ_Params req) of
        Serves v \<Rightarrow> \<lparr>RS_ID = RQ_ID req, RS_Result = (if v = JNull then None else Some v), RS_Error = None\<rparr>
      | Refuses msg \<Rightarrow> \<lparr>RS_ID = RQ_ID req, RS_Result = None, RS_Error = Some \<lparr>E_Code = - 32000, E_Message = msg\<rparr>\<rparr>
      | Panics \<Rightarrow> \<lparr>RS_ID = 0, RS_Result = None, RS_Error = None\<rparr>)"

lemma to_uint64_uint [simp]: "to_uint64 (JInt (uint w)) old = Some w"
  using unsigned_less [where 'a = int, of w] by (simp add: to_uint64_def)

lemma answer_decodes: "answer k n req = Some j \<Longrightarrow> to_response j = Some (reply_of k n req)"
  by (auto simp: answer_def reply_of_def Let_def to_response_def to_struct_def rpcResponse_member_def rpcError_member_def
      to_int_def to_string_def in_i64_def split: served.splits if_splits)

lemma reply_of_Inr:
  "response_result (reply_of k n req) m = Inr v \<longleftrightarrow> dispatch k n (RQ_Method req) (RQ_Params req) = Serves v \<and> v \<noteq> JNull"
  by (auto simp: response_result_Inr reply_of_def split: served.splits)

lemma ask_Inr:
  assumes "E_ask (endpoint_of k n) m ps = Inr v"
  shows "dispatch k n m ps = Serves v \<and> v \<noteq> JNull"
proof -
  let ?req = "\<lparr>RQ_ID = 1, RQ_Method = m, RQ_Params = ps\<rparr>"
  obtain raw r where raw: "roundTrip (\<lambda>i. True) (\<lambda>i. handle k n (One ?req)) = Inr raw"
    "Option.bind raw to_response = Some r" "response_result r m = Inr v"
    using assms by (auto simp: endpoint_of_def call_def request_def and_then_Inr split: option.splits)
  obtain h where "handle k n (One ?req) = Replied 200 h (Text raw)" using roundTrip_Inr [OF raw(1)] by blast
  then obtain j where "answer k n ?req = Some j" "raw = Some j"
    using raw(2) by (auto simp: handle_def split: if_splits option.splits)
  then have "r = reply_of k n ?req" using answer_decodes [of k n ?req j] raw(2) by simp
  then show ?thesis using reply_of_Inr [of k n ?req m v] raw(3) by simp
qed

lemma those_map_Some: "those (map f xs) = Some ys \<longleftrightarrow> map f xs = map Some ys"
proof (induction xs arbitrary: ys)
  case (Cons x xs)
  then show ?case by (cases ys) (auto split: option.splits)
qed auto

lemma requests_method: "requests i m pss = (i', reqs) \<Longrightarrow> rq \<in> set reqs \<Longrightarrow> RQ_Method rq = m"
  by (induction pss arbitrary: i i' reqs) (auto simp: request_def Let_def split: prod.splits)

lemma handle_batch:
  assumes "handle k n (Many reqs) = Replied 200 h (Text raw)" "Option.bind raw (to_list to_response) = Some replies"
  shows "replies = map (reply_of k n) reqs"
proof -
  obtain js where js: "raw = Some (JArr js)" "map (answer k n) reqs = map Some js"
    using assms by (auto simp: handle_def those_map_Some split: if_splits option.splits)
  have "map to_response js = map Some replies" using assms(2) js(1) by (simp add: to_list_def those_map_Some)
  moreover have "map to_response js = map Some (map (reply_of k n) reqs)"
  proof (rule nth_equalityI)
    have len: "length js = length reqs" using js(2) by (metis length_map)
    then show "length (map to_response js) = length (map Some (map (reply_of k n) reqs))" by simp
    fix i
    assume "i < length (map to_response js)"
    then have i: "i < length js" "i < length reqs" using len by simp_all
    have "answer k n (reqs ! i) = Some (js ! i)" using js(2) i by (metis nth_map)
    then show "map to_response js ! i = map Some (map (reply_of k n) reqs) ! i" using answer_decodes i by simp
  qed
  ultimately show ?thesis by (metis inj_Some map_injective)
qed

lemma askBatch_Inr:
  assumes "E_askBatch (endpoint_of k n) m pss = Inr vs" "length pss < 2 ^ 64" "i < length pss"
  shows "length vs = length pss" "dispatch k n m (pss ! i) = Serves (vs ! i)" "vs ! i \<noteq> JNull"
proof -
  obtain reqs where reqs: "requests 0 m pss = (of_nat (length pss), reqs)" "map RQ_Params reqs = pss"
    "\<forall>i < length pss. RQ_ID (reqs ! i) = 0 + 1 + of_nat i"
    using requests_spec [of 0 m pss] by auto
  have len: "length reqs = length pss" by (rule requests_length [OF reqs(1)])
  obtain n' where b: "callBatch (\<lambda>i. True) (\<lambda>i. handle k n) 0 m pss = (n', Inr vs)"
    using assms(1) by (cases "callBatch (\<lambda>i. True) (\<lambda>i. handle k n) 0 m pss") (simp add: endpoint_of_def)
  obtain raw replies rp where s: "roundTrip (\<lambda>i. True) (\<lambda>i. handle k n (Many reqs)) = Inr raw"
    "Option.bind raw (to_list to_response) = Some replies" "length vs = length pss" "rp \<in> set replies"
    "RS_ID rp = 0 + 1 + of_nat i" "RS_Error rp = None" "RS_Result rp = Some (vs ! i)" "vs ! i \<noteq> JNull"
    using callBatch_sound [OF b assms(3)] reqs(1) by auto
  obtain h where "handle k n (Many reqs) = Replied 200 h (Text raw)" using roundTrip_Inr [OF s(1)] by blast
  from handle_batch [OF this s(2)] s(4) obtain rq where rq: "rq \<in> set reqs" "rp = reply_of k n rq" by auto
  then obtain j where j: "j < length reqs" "rq = reqs ! j" by (metis in_set_conv_nth)
  have d: "dispatch k n (RQ_Method rq) (RQ_Params rq) = Serves (vs ! i)" "RS_ID rp = RQ_ID rq"
    using s(6,7) rq(2) by (auto simp: reply_of_def split: served.splits if_splits)
  have "RQ_ID (reqs ! j) = RQ_ID (reqs ! i)" using d(2) s(5) reqs(3) j assms(3) by simp
  then have "j = i"
    using requests_distinct [OF reqs(1) assms(2)] j(1) assms(3) len by (simp add: distinct_conv_nth) metis
  then show "dispatch k n m (pss ! i) = Serves (vs ! i)"
    using d(1) requests_method [OF reqs(1) rq(1)] j reqs(2) by (metis nth_map)
  show "length vs = length pss" "vs ! i \<noteq> JNull" by (fact s)+
qed

section \<open>The chain the node stands for\<close>

lemma digit_char_plain:
  assumes "d < 16"
  shows "\<not> is_space (digit_char d)" "lower_char (digit_char d) = digit_char d"
proof -
  have code: "of_char (digit_char d) = (if d < 10 then 48 + d else 87 + d)"
    using assms by (simp add: digit_char_def)
  have "of_char c \<in> {32, 9, 10, 11, 12, 13 :: nat}" if "is_space c" for c
    using that by (auto simp: is_space_def)
  from this [of "digit_char d"] show "\<not> is_space (digit_char d)" unfolding code by (auto split: if_splits)
  show "lower_char (digit_char d) = digit_char d"
    using assms unfolding lower_char_def Let_def code by (simp split: if_split)
qed

lemma scan_quantity_quantity [simp]: "scan_quantity (quantity b) = Inr b"
proof -
  have all: "\<forall>d \<in> set (digits 16 (unat b)). d < 16" using digits_hex_bound [of 16 "unat b"] by simp
  then have digits: "takeWhile (\<lambda>c. hex_value c \<noteq> None) (FormatUint16 b) = FormatUint16 b"
    by (auto simp: FormatUint16_def takeWhile_eq_all_conv)
  have plain: "dropWhile is_space (FormatUint16 b) = FormatUint16 b"
  proof (cases "digits 16 (unat b)")
    case (Cons d ds)
    then show ?thesis using all digit_char_plain [of d] by (simp add: FormatUint16_def)
  qed simp
  show ?thesis by (simp add: scan_quantity_def quantity_def Let_def plain digits del: not_None_eq)
qed

lemma lower_hex_encode [simp]: "lower (hex_encode bs) = hex_encode bs"
proof (induction bs)
  case (Cons b bs)
  have "unat b div 16 < 16" "unat b mod 16 < 16" using unat_byte_less [of b] by (simp_all add: less_mult_imp_div_less)
  then show ?case using Cons digit_char_plain by (simp add: lower_def hex_encode_def)
qed (simp add: lower_def hex_encode_def)

lemma EqualFold_Address [simp]: "EqualFold (Address_String a) (Address_String b) \<longleftrightarrow> a = b"
proof -
  have "lower (Address_String x) = Address_String x" for x
  proof -
    have "lower (''0x'' @ s) = ''0x'' @ lower s" for s by (simp add: lower_def) code_simp
    then show ?thesis by (simp only: Address_String_def hexBytes_def lower_hex_encode)
  qed
  then show ?thesis using address_codec.enc_inject [of a b] by (simp add: EqualFold_def)
qed

definition wire_of :: "eventLog \<Rightarrow> wireLog" where
  "wire_of l =
     \<lparr>WL_Address = Address_String (EL_Address l), WL_Topics = map Hash_String (EL_Topics l), WL_Data = hexBytes (EL_Data l),
      WL_BlockNumber = quantity (EL_BlockNumber l), WL_BlockHash = Hash_String (EL_BlockHash l),
      WL_LogIndex = quantity (EL_LogIndex l), WL_Removed = False\<rparr>"

lemma decode_topics_wire: "decode_topics b ix i (map Hash_String ts) = Inr ts"
  by (induction ts arbitrary: i) (simp_all add: hash_codec.roundtrip)

lemma decode_log_wire [simp]: "decode_log (wire_of l) = Inr l"
  by (simp add: decode_log_def wire_of_def quantity_codec.roundtrip hash_codec.roundtrip address_codec.roundtrip
      hex_codec.roundtrip decode_topics_wire)

lemma to_wireLog_json [simp]: "to_wireLog (json_log w) = Some w"
proof -
  have "to_list (\<lambda>t. to_string t []) (JArr (map JStr ts)) = Some ts" for ts
    by (induction ts) (auto simp: to_list_def to_string_def)
  then show ?thesis by (simp add: to_wireLog_def json_log_def to_struct_def wireLog_member_def to_string_def to_bool_def)
qed

text \<open>A node whose logs were built from \<open>els\<close>: the hash of their block is filled in when they are served.\<close>

definition node_logs :: "node \<Rightarrow> eventLog list \<Rightarrow> bool" where
  "node_logs n els \<longleftrightarrow>
     N_logs n = map (\<lambda>l. (wire_of l)\<lparr>WL_BlockHash := []\<rparr>) els \<and> (\<forall>l \<in> set els. EL_Topics l \<noteq> []) \<and> (\<forall>b. N_Tips n (quantity b) = None)"

definition hashed_by :: "keccak \<Rightarrow> node \<Rightarrow> eventLog \<Rightarrow> eventLog" where
  "hashed_by k n l = l\<lparr>EL_BlockHash := HashOf k n (EL_BlockNumber l)\<rparr>"

definition state_of :: "keccak \<Rightarrow> node \<Rightarrow> eventLog list \<Rightarrow> chain_state" where
  "state_of k n els =
     \<lparr>H_block = \<lambda>b. \<lparr>B_Number = b, B_Hash = HashOf k n b, B_ParentHash = (if b > 0 then HashOf k n (b - 1) else 0),
                      B_Timestamp = uint (word_of_int (N_Timestamps n ! unat b) :: uint64)\<rparr>,
      H_logs = sort_key log_key (map (hashed_by k n) els),
      H_call = \<lambda>to data b. (case node_call k n (Address_String to) (hexBytes data) of
                 Serves (JStr s) \<Rightarrow> projr (parseHexBytes s) | _ \<Rightarrow> [])\<rparr>"

lemma node_block_quantity:
  assumes "node_logs n els" "node_block k n (quantity b) = Serves j" "j \<noteq> JNull"
  shows "read_block j = Inr bl \<Longrightarrow> bl = H_block (state_of k n els) b"
proof -
  have j: "j = JObj [(''hash'', JStr (Hash_String (HashOf k n b))), (''number'', JStr (quantity b)),
      (''parentHash'', JStr (Hash_String (if b > 0 then HashOf k n (b - 1) else 0))),
      (''timestamp'', JStr (quantity (word_of_int (N_Timestamps n ! unat b))))]"
    using assms by (auto simp: node_block_def node_logs_def Let_def split: if_splits)
  have "to_wireBlock j = Some \<lparr>WB_Number = quantity b, WB_Hash = Hash_String (HashOf k n b),
      WB_ParentHash = Hash_String (if b > 0 then HashOf k n (b - 1) else 0),
      WB_Timestamp = quantity (word_of_int (N_Timestamps n ! unat b))\<rparr>"
    by (simp add: j to_wireBlock_def to_struct_def wireBlock_member_def to_string_def)
  then show "read_block j = Inr bl \<Longrightarrow> bl = H_block (state_of k n els) b"
    by (auto simp: read_block_def decode_block_def quantity_codec.roundtrip hash_codec.roundtrip state_of_def split: if_splits)
qed

lemma select_logs_spec:
  "\<forall>l \<in> set els. EL_Topics l \<noteq> [] \<Longrightarrow>
   select_logs k n from to (Address_String a) (Hash_String t) (map (\<lambda>l. (wire_of l)\<lparr>WL_BlockHash := []\<rparr>) els) =
     Inr (map (\<lambda>l. wire_of (hashed_by k n l)) (filter (selected a t from to) els))"
proof (induction els)
  case (Cons l els)
  have hd: "hd (map Hash_String (EL_Topics l)) = Hash_String t \<longleftrightarrow> hd (EL_Topics l) = t"
    using Cons.prems hash_codec.enc_inject [of "hd (EL_Topics l)" t] by (simp add: hd_map)
  show ?case
    using Cons hd by (auto simp: wire_of_def hashed_by_def selected_def not_less)
qed simp

lemma node_getLogs_spec:
  assumes "node_logs n els"
  shows "node_getLogs k n (quantity from) (quantity to) (Address_String a) (Hash_String t) =
    Serves (JArr (map (\<lambda>l. json_log (wire_of (hashed_by k n l))) (filter (selected a t from to) els)))"
  using assms select_logs_spec [of els k n "from" to a t] by (simp add: node_getLogs_def node_logs_def comp_def)

lemma selected_hashed [simp]: "selected a t from to (hashed_by k n l) = selected a t from to l"
  by (simp add: selected_def hashed_by_def)

lemma getLogs_of_node:
  assumes "node_logs n els" "getLogs (endpoint_of k n) a t from to = Inr ls"
  shows "ls = filter (selected a t from to) (H_logs (state_of k n els))"
proof -
  let ?sel = "filter (selected a t from to) els"
  let ?dec = "\<lambda>w. and_then (with_error ReadWire (decode_log w)) (filtered a t from to)"
  obtain raw where raw: "E_ask (endpoint_of k n) ''eth_getLogs'' [log_filter a t from to] = Inr raw"
    "(case to_list to_wireLog raw of None \<Rightarrow> Inl ReadJson | Some ws \<Rightarrow> and_then (traverse ?dec ws) (\<lambda>out. Inr (sortLogs out))) = Inr ls"
    using assms(2) by (auto simp: getLogs_def and_then_Inr)
  have "to_struct log_query_member (log_filter a t from to) \<lparr>LQ_FromBlock = [], LQ_ToBlock = [], LQ_Address = [], LQ_Topics = []\<rparr> =
      Some \<lparr>LQ_FromBlock = quantity from, LQ_ToBlock = quantity to, LQ_Address = Address_String a, LQ_Topics = [Hash_String t]\<rparr>"
    by (simp add: log_filter_def to_struct_def log_query_member_def to_string_def to_list_def)
  then have "dispatch k n ''eth_getLogs'' [log_filter a t from to] =
      node_getLogs k n (quantity from) (quantity to) (Address_String a) (Hash_String t)"
    by (simp add: dispatch_def)
  then have "raw = JArr (map (\<lambda>l. json_log (wire_of (hashed_by k n l))) ?sel)"
    using ask_Inr [OF raw(1)] node_getLogs_spec [OF assms(1)] by simp
  then have "to_list to_wireLog raw = Some (map (\<lambda>l. wire_of (hashed_by k n l)) ?sel)"
    by (simp add: to_list_def those_map_Some comp_def)
  moreover have "traverse ?dec (map (\<lambda>l. wire_of (hashed_by k n l)) ?sel) = Inr (map (hashed_by k n) ?sel)"
  proof -
    have "?dec w = Inr (projr (decode_log w))" if "w \<in> set (map (\<lambda>l. wire_of (hashed_by k n l)) ?sel)" for w
      using that by (auto simp: filtered_def) (auto simp: selected_def hashed_by_def)
    then show ?thesis
      using traverse_total [of "map (\<lambda>l. wire_of (hashed_by k n l)) ?sel" ?dec "\<lambda>w. projr (decode_log w)"] by (simp add: comp_def)
  qed
  ultimately have "ls = sortLogs (map (hashed_by k n) ?sel)" using raw(2) by simp
  also have "\<dots> = filter (selected a t from to) (H_logs (state_of k n els))"
    by (simp add: state_of_def sortLogs_def filter_sort filter_map comp_def)
  finally show ?thesis .
qed

lemma blockByTag_of_node:
  assumes "node_logs n els" "blockByTag (endpoint_of k n) (quantity b) = Inr bl"
  shows "bl = H_block (state_of k n els) b"
proof -
  obtain j where j: "E_ask (endpoint_of k n) ''eth_getBlockByNumber'' [JStr (quantity b), JBool False] = Inr j" "read_block j = Inr bl"
    using assms(2) by (auto simp: blockByTag_def and_then_Inr)
  have "node_block k n (quantity b) = Serves j" "j \<noteq> JNull"
    using ask_Inr [OF j(1)] by (simp_all add: dispatch_def to_string_def)
  from node_block_quantity [OF assms(1) this j(2)] show ?thesis .
qed

lemma batchBlocks_of_node:
  assumes "node_logs n els" "length bs \<le> HeaderBatch" "batchBlocks (endpoint_of k n) bs = Inr out"
  shows "out = map (H_block (state_of k n els)) bs"
proof -
  let ?ps = "map (\<lambda>b. [JStr (quantity b), JBool False]) bs"
  obtain vs where v: "E_askBatch (endpoint_of k n) ''eth_getBlockByNumber'' ?ps = Inr vs"
    "traverse (\<lambda>(b, raw). and_then (read_block raw) (isBlock b)) (zip bs vs) = Inr out"
    using assms(3) by (auto simp: batchBlocks_def split: sum.splits batch_error.splits)
  have small: "length ?ps < 2 ^ 64" using assms(2) by (simp add: HeaderBatch_def)
  have len: "length vs = length bs" if "bs \<noteq> []" using askBatch_Inr(1) [OF v(1) small, of 0] that by simp
  then have lens: "length out = length bs" using traverse_length [OF v(2)] by (cases "bs = []") simp_all
  show ?thesis
  proof (rule nth_equalityI)
    show "length out = length (map (H_block (state_of k n els)) bs)" using lens by simp
    fix i
    assume "i < length out"
    then have "i < length bs" using lens by simp
    then have i: "i < length bs" "i < length vs" using len by (cases bs, simp_all)+
    have "dispatch k n ''eth_getBlockByNumber'' (?ps ! i) = Serves (vs ! i)" "vs ! i \<noteq> JNull"
      using askBatch_Inr(2,3) [OF v(1) small, of i] i(1) by auto
    then have b: "node_block k n (quantity (bs ! i)) = Serves (vs ! i)" "vs ! i \<noteq> JNull"
      using i(1) by (simp_all add: dispatch_def to_string_def)
    have "read_block (vs ! i) = Inr (out ! i)"
      using traverse_nth [OF v(2), of i] i by (auto simp: and_then_Inr)
    from node_block_quantity [OF assms(1) b this] i(1) show "out ! i = map (H_block (state_of k n els)) bs ! i" by simp
  qed
qed

lemma ethCall_of_node:
  assumes "ethCall (endpoint_of k n) dest data b = Inr out"
  shows "out = H_call (state_of k n els) dest data b"
proof -
  obtain j s where j: "E_ask (endpoint_of k n) ''eth_call''
      [JObj [(''data'', JStr (hexBytes data)), (''to'', JStr (Address_String dest))], JStr (quantity b)] = Inr j"
    "to_string j [] = Some s" "parseHexBytes s = Inr out"
    using assms by (auto simp: ethCall_def and_then_Inr split: option.splits)
  have "node_call k n (Address_String dest) (hexBytes data) = Serves j" "j \<noteq> JNull"
    using ask_Inr [OF j(1)] by (simp_all add: dispatch_def to_struct_def call_member_def to_string_def)
  moreover from j(2) this(2) have "j = JStr s" by (cases j) (simp_all add: to_string_def)
  ultimately show ?thesis using j(3) by (simp add: state_of_def)
qed

text \<open>The node is an honest endpoint of the chain its logs were built into.\<close>

lemma node_honest: "node_logs n els \<Longrightarrow> honest_endpoint (endpoint_of k n) (state_of k n els)"
  using blockByTag_of_node batchBlocks_of_node getLogs_of_node ethCall_of_node
  by unfold_locales (auto simp: state_of_def)

section \<open>Nodes the builders make\<close>

datatype log_op =
    OpTransfer uint64 address address address int64
  | OpExclusion uint64 address address
  | OpRoot uint64 address uint64 hash amounts amounts
  | OpLedger uint64 node_ledger
  | OpLaunch address address address

definition apply_op :: "keccak \<Rightarrow> node \<Rightarrow> log_op \<Rightarrow> node" where
  "apply_op k n op =
     (case op of
        OpTransfer b token from to v \<Rightarrow> node_Transfer k n b token from to v
      | OpExclusion b distributor account \<Rightarrow> node_Exclusion k n b distributor account
      | OpRoot b distributor i root totals carryIn \<Rightarrow> node_RootPosted k n b distributor i root totals carryIn
      | OpLedger i l \<Rightarrow> n\<lparr>N_Ledgers := (N_Ledgers n)(i \<mapsto> l)\<rparr>
      | OpLaunch factory token curve \<Rightarrow> Launch n factory token curve)"

definition op_log :: "keccak \<Rightarrow> nat \<Rightarrow> log_op \<Rightarrow> eventLog list" where
  "op_log k i op =
     (case op of
        OpTransfer b token from to v \<Rightarrow>
          [\<lparr>EL_Address = token, EL_Topics = [topicTransfer k, bytes_hash (abi_address from), bytes_hash (abi_address to)],
            EL_Data = node_word (Some v), EL_BlockNumber = b, EL_BlockHash = 0, EL_LogIndex = of_nat i\<rparr>]
      | OpExclusion b distributor account \<Rightarrow>
          [\<lparr>EL_Address = distributor, EL_Topics = [topicExcludedAppended k, bytes_hash (abi_address account)],
            EL_Data = [], EL_BlockNumber = b, EL_BlockHash = 0, EL_LogIndex = of_nat i\<rparr>]
      | OpRoot b distributor e root totals carryIn \<Rightarrow>
          [\<lparr>EL_Address = distributor,
            EL_Topics = [topicRootPosted k, bytes_hash (node_word (Some 0)), bytes_hash (node_word (Some (uint e)))],
            EL_Data = hash_bytes root @ concat (map (\<lambda>g. concat (map (\<lambda>t. node_word (g t)) Enum.enum)) [totals, carryIn]),
            EL_BlockNumber = b, EL_BlockHash = 0, EL_LogIndex = of_nat i\<rparr>]
      | _ \<Rightarrow> [])"

definition logged_by :: "log_op \<Rightarrow> nat" where
  "logged_by op = (case op of OpLedger _ _ \<Rightarrow> 0 | OpLaunch _ _ _ \<Rightarrow> 0 | _ \<Rightarrow> 1)"

fun op_logs :: "keccak \<Rightarrow> nat \<Rightarrow> log_op list \<Rightarrow> eventLog list" where
  "op_logs k i [] = []"
| "op_logs k i (op # ops) = op_log k i op @ op_logs k (i + logged_by op) ops"

lemma length_op_log [simp]: "length (op_log k i op) = logged_by op"
  by (cases op) (simp_all add: op_log_def logged_by_def)

lemma hexBytes_hash: "length bs = 32 \<Longrightarrow> hexBytes bs = Hash_String (bytes_hash bs)"
  by (simp add: Hash_String_def hash_bytes_hash)

lemma length_node_word [simp]: "length (node_word x) = 32"
  by (simp add: node_word_def)

lemma apply_op_logs:
  "N_logs (apply_op k n op) = N_logs n @ map (\<lambda>l. (wire_of l)\<lparr>WL_BlockHash := []\<rparr>) (op_log k (length (N_logs n)) op)"
  "N_Tips (apply_op k n op) = N_Tips n" "l \<in> set (op_log k i op) \<Longrightarrow> EL_Topics l \<noteq> []"
  by (cases op; simp add: apply_op_def node_Transfer_def node_Exclusion_def node_RootPosted_def Launch_def append_log_def op_log_def
      wire_of_def node_topic_def addressTopic_def hexBytes_hash topicTransfer_def topicExcludedAppended_def topicRootPosted_def
      abi_address_def)+

definition node_build :: "keccak \<Rightarrow> int64 list \<Rightarrow> log_op list \<Rightarrow> node" where
  "node_build k ts ops = foldl (apply_op k) (node_New ts) ops"

lemma node_build_logs: "node_logs (node_build k ts ops) (op_logs k 0 ops)"
proof -
  have "N_logs (foldl (apply_op k) n ops) = N_logs n @ map (\<lambda>l. (wire_of l)\<lparr>WL_BlockHash := []\<rparr>) (op_logs k (length (N_logs n)) ops) \<and>
      N_Tips (foldl (apply_op k) n ops) = N_Tips n" for n
    by (induction ops arbitrary: n) (simp_all add: apply_op_logs)
  moreover have "\<forall>l \<in> set (op_logs k i ops). EL_Topics l \<noteq> []" for i
    by (induction ops arbitrary: i) (auto simp: apply_op_logs(3))
  moreover have "N_Tips (node_New ts) (quantity b) = None" for b
    by (simp add: node_New_def Let_def quantity_def)
  ultimately show ?thesis by (simp add: node_logs_def node_build_def) (simp add: node_New_def Let_def)
qed

interpretation fake: honest_endpoint "endpoint_of k (node_build k ts ops)" "state_of k (node_build k ts ops) (op_logs k 0 ops)" for k ts ops
  by (rule node_honest [OF node_build_logs])

section \<open>A Reader of the node\<close>

definition fake_reader :: "keccak \<Rightarrow> int64 list \<Rightarrow> log_op list \<Rightarrow> address \<Rightarrow> address \<Rightarrow> address \<Rightarrow> reader" where
  "fake_reader k ts ops token distributor factory =
     \<lparr>R_endpoints = [endpoint_of k (node_build k ts ops)], R_token = token, R_distributor = distributor, R_factory = factory,
      R_order = \<lambda>q. []\<rparr>"

abbreviation fake_state :: "keccak \<Rightarrow> int64 list \<Rightarrow> log_op list \<Rightarrow> chain_state" where
  "fake_state k ts ops \<equiv> state_of k (node_build k ts ops) (op_logs k 0 ops)"

lemma op_logs_fit: "l \<in> set (op_logs k i ops) \<Longrightarrow> log_fits l"
proof (induction ops arbitrary: i)
  case (Cons op ops)
  have "length (concat (map (\<lambda>t. node_word (g t)) (Enum.enum :: token list))) = 32 * 5" for g
    by (simp add: enum_token_def tokens_def)
  then have "log_fits l" if "l \<in> set (op_log k i op)"
    using that by (cases op) (auto simp: op_log_def log_fits_def)
  then show ?case using Cons by auto
qed simp

lemma in_fake_logs: "l \<in> set (H_logs (fake_state k ts ops)) \<longleftrightarrow> (\<exists>l' \<in> set (op_logs k 0 ops). l = hashed_by k (node_build k ts ops) l')"
  by (auto simp: state_of_def)

lemma fake_reader_honest:
  "honest_reader (endpoint_of k (node_build k ts ops)) (fake_state k ts ops) (fake_reader k ts ops token distributor factory)"
proof unfold_locales
  fix e' address topic0 "from" to ls l
  assume "e' \<in> set (R_endpoints (fake_reader k ts ops token distributor factory))"
    "getLogs e' address topic0 from to = Inr ls" "l \<in> set ls"
  then have "l \<in> set (H_logs (fake_state k ts ops))"
    using fake.honest_logs [of k ts ops address topic0 "from" to ls] by (auto simp: fake_reader_def)
  then obtain l' where "l' \<in> set (op_logs k 0 ops)" "l = hashed_by k (node_build k ts ops) l'"
    unfolding in_fake_logs by blast
  then show "log_fits l" using op_logs_fit [of l' k 0 ops] by (simp add: hashed_by_def log_fits_def)
qed (simp add: fake_reader_def)

interpretation fakes: honest_reader "endpoint_of k (node_build k ts ops)" "fake_state k ts ops" "fake_reader k ts ops token distributor factory"
  for k ts ops token distributor factory
  by (rule fake_reader_honest)

lemma build_plain [simp]: "N_HTTPStatus (node_build k ts ops) = 0" "N_Timestamps (node_build k ts ops) = ts"
proof -
  have "N_HTTPStatus (apply_op k n op) = N_HTTPStatus n" "N_Timestamps (apply_op k n op) = N_Timestamps n" for n op
    by (cases op; simp add: apply_op_def node_Transfer_def node_Exclusion_def node_RootPosted_def Launch_def append_log_def)+
  then have "N_HTTPStatus (foldl (apply_op k) n ops) = N_HTTPStatus n \<and> N_Timestamps (foldl (apply_op k) n ops) = N_Timestamps n" for n
    by (induction ops arbitrary: n) simp_all
  then show "N_HTTPStatus (node_build k ts ops) = 0" "N_Timestamps (node_build k ts ops) = ts"
    by (simp_all add: node_build_def node_New_def Let_def)
qed

lemma ask_serves:
  assumes "N_HTTPStatus n = 0" "dispatch k n m ps = Serves v" "v \<noteq> JNull"
  shows "E_ask (endpoint_of k n) m ps = Inr v"
proof -
  let ?req = "\<lparr>RQ_ID = 1, RQ_Method = m, RQ_Params = ps\<rparr>"
  obtain j where j: "answer k n ?req = Some j" using assms(2) by (auto simp: answer_def Let_def)
  have "roundTrip (\<lambda>i. True) (\<lambda>i. handle k n (One ?req)) = Inr (Some j)"
    by (rule roundTrip_first) (simp_all add: handle_def assms(1) j)
  moreover have "response_result (reply_of k n ?req) m = Inr v"
    using reply_of_Inr [of k n ?req m v] assms by simp
  ultimately show ?thesis
    using answer_decodes [OF j] by (simp add: endpoint_of_def call_def request_def)
qed

lemma getLogs_serves:
  assumes "node_logs n els" "N_HTTPStatus n = 0"
  shows "\<exists>ls. getLogs (endpoint_of k n) a t from to = Inr ls"
proof -
  let ?sel = "filter (selected a t from to) els"
  have "to_struct log_query_member (log_filter a t from to) \<lparr>LQ_FromBlock = [], LQ_ToBlock = [], LQ_Address = [], LQ_Topics = []\<rparr> =
      Some \<lparr>LQ_FromBlock = quantity from, LQ_ToBlock = quantity to, LQ_Address = Address_String a, LQ_Topics = [Hash_String t]\<rparr>"
    by (simp add: log_filter_def to_struct_def log_query_member_def to_string_def to_list_def)
  then have "dispatch k n ''eth_getLogs'' [log_filter a t from to] =
      Serves (JArr (map (\<lambda>l. json_log (wire_of (hashed_by k n l))) ?sel))"
    using node_getLogs_spec [OF assms(1), of k "from" to a t] by (simp add: dispatch_def)
  from ask_serves [OF assms(2) this]
  have ask: "E_ask (endpoint_of k n) ''eth_getLogs'' [log_filter a t from to] = Inr (JArr (map (\<lambda>l. json_log (wire_of (hashed_by k n l))) ?sel))"
    by simp
  have "and_then (with_error ReadWire (decode_log w)) (filtered a t from to) = Inr (projr (decode_log w))"
    if "w \<in> set (map (\<lambda>l. wire_of (hashed_by k n l)) ?sel)" for w
    using that by (auto simp: filtered_def) (auto simp: selected_def hashed_by_def)
  then have "traverse (\<lambda>w. and_then (with_error ReadWire (decode_log w)) (filtered a t from to)) (map (\<lambda>l. wire_of (hashed_by k n l)) ?sel) =
      Inr (map (\<lambda>w. projr (decode_log w)) (map (\<lambda>l. wire_of (hashed_by k n l)) ?sel))"
    by (rule traverse_total)
  moreover have "to_list to_wireLog (JArr (map (\<lambda>l. json_log (wire_of (hashed_by k n l))) ?sel)) = Some (map (\<lambda>l. wire_of (hashed_by k n l)) ?sel)"
    by (simp add: to_list_def those_map_Some comp_def)
  ultimately show ?thesis by (simp add: getLogs_def ask)
qed

definition times_fit :: "int64 list \<Rightarrow> bool" where
  "times_fit ts \<longleftrightarrow> (\<forall>t \<in> set ts. 0 \<le> t \<and> in_i64 t)"

lemma block_serves:
  assumes "node_logs n els" "times_fit (N_Timestamps n)" "unat b < length (N_Timestamps n)"
  shows "\<exists>j. node_block k n (quantity b) = Serves j \<and> j \<noteq> JNull \<and> read_block j = Inr (H_block (state_of k n els) b)"
proof -
  let ?t = "N_Timestamps n ! unat b"
  have t: "0 \<le> ?t" "?t < 2 ^ 63" using assms(2,3) by (auto simp: times_fit_def in_i64_def)
  have "uint (word_of_int ?t :: uint64) = ?t mod 2 ^ 64" by (simp add: uint_word_of_int)
  also have "\<dots> = ?t" by (rule mod_pos_pos_trivial) (use t in auto)
  finally have "unat (word_of_int ?t :: uint64) = nat ?t" by (simp only: unat_eq_nat_uint)
  then have small: "\<not> unat (word_of_int ?t :: uint64) > 2 ^ 63 - 1" using t by (simp add: nat_less_iff)
  let ?j = "JObj [(''hash'', JStr (Hash_String (HashOf k n b))), (''number'', JStr (quantity b)),
      (''parentHash'', JStr (Hash_String (if b > 0 then HashOf k n (b - 1) else 0))), (''timestamp'', JStr (quantity (word_of_int ?t)))]"
  have "node_block k n (quantity b) = Serves ?j"
    using assms by (simp add: node_block_def node_logs_def Let_def)
  moreover have "read_block ?j = Inr (H_block (state_of k n els) b)"
    using small by (simp add: read_block_def to_wireBlock_def to_struct_def wireBlock_member_def to_string_def decode_block_def
        quantity_codec.roundtrip hash_codec.roundtrip state_of_def)
  ultimately show ?thesis by blast
qed

section \<open>Reading a node back\<close>

lemma batch_serves:
  assumes "N_HTTPStatus n = 0" "length pss < 2 ^ 64" "\<And>ps. ps \<in> set pss \<Longrightarrow> dispatch k n m ps = Serves (v ps) \<and> v ps \<noteq> JNull"
  shows "E_askBatch (endpoint_of k n) m pss = Inr (map v pss)"
proof -
  obtain i' reqs where reqs: "requests 0 m pss = (i', reqs)" by (cases "requests 0 m pss")
  have params: "map RQ_Params reqs = pss" using requests_spec [of 0 m pss] reqs by auto
  have rq: "dispatch k n (RQ_Method rq) (RQ_Params rq) = Serves (v (RQ_Params rq)) \<and> v (RQ_Params rq) \<noteq> JNull" if "rq \<in> set reqs" for rq
    using assms(3) [of "RQ_Params rq"] that params requests_method [OF reqs that] by auto
  define js where "js = map (\<lambda>rq. the (answer k n rq)) reqs"
  have some: "answer k n rq = Some (the (answer k n rq))" if "rq \<in> set reqs" for rq
    using rq [OF that] by (simp add: answer_def Let_def)
  have "map (answer k n) reqs = map Some js"
    unfolding js_def map_map comp_def by (rule map_cong [OF refl]) (erule some)
  then have h: "handle k n (Many reqs) = Replied 200 [] (Text (Some (JArr js)))"
    using assms(1) by (simp add: handle_def those_map_Some [THEN iffD2])
  have "map to_response js = map Some (map (reply_to v) reqs)"
    unfolding js_def map_map comp_def
  proof (rule map_cong [OF refl])
    fix rq
    assume "rq \<in> set reqs"
    then show "to_response (the (answer k n rq)) = Some (reply_to v rq)"
      using answer_decodes [OF some] rq by (simp add: reply_of_def reply_to_def)
  qed
  then have t: "those (map to_response js) = Some (map (reply_to v) reqs)" by (simp only: those_map_Some)
  show ?thesis
    using callBatch_any_order [of "\<lambda>i. True" pss "\<lambda>i. handle k n" 0 m "[]" js "map (reply_to v) reqs" v] assms h t reqs
    by (simp add: endpoint_of_def)
qed

lemma blockByTag_serves:
  assumes "node_logs n els" "N_HTTPStatus n = 0" "times_fit (N_Timestamps n)" "unat b < length (N_Timestamps n)"
  shows "blockByTag (endpoint_of k n) (quantity b) = Inr (H_block (state_of k n els) b)"
proof -
  obtain j where j: "node_block k n (quantity b) = Serves j" "j \<noteq> JNull" "read_block j = Inr (H_block (state_of k n els) b)"
    using block_serves [OF assms(1,3,4)] by blast
  have "dispatch k n ''eth_getBlockByNumber'' [JStr (quantity b), JBool False] = Serves j"
    using j(1) by (simp add: dispatch_def to_string_def)
  from ask_serves [OF assms(2) this j(2)] j(3) show ?thesis by (simp add: blockByTag_def)
qed

lemma blocksByNumber_serves:
  assumes "node_logs n els" "N_HTTPStatus n = 0" "times_fit (N_Timestamps n)" "\<And>b. b \<in> set bs \<Longrightarrow> unat b < length (N_Timestamps n)"
    and "length bs \<le> HeaderBatch"
  shows "blocksByNumber (endpoint_of k n) bs = Inr (map (H_block (state_of k n els)) bs)"
proof -
  define j where "j b = (case node_block k n (quantity b) of Serves j \<Rightarrow> j | _ \<Rightarrow> JNull)" for b
  have j: "node_block k n (quantity b) = Serves (j b)" "j b \<noteq> JNull" "read_block (j b) = Inr (H_block (state_of k n els) b)"
    if "b \<in> set bs" for b
    using block_serves [OF assms(1,3) assms(4) [OF that], of k] by (auto simp: j_def)
  let ?v = "\<lambda>ps. (case ps of [JStr s, p] \<Rightarrow> (case node_block k n s of Serves j \<Rightarrow> j | _ \<Rightarrow> JNull) | _ \<Rightarrow> JNull)"
  let ?ps = "map (\<lambda>b. [JStr (quantity b), JBool False]) bs"
  have "E_askBatch (endpoint_of k n) ''eth_getBlockByNumber'' ?ps = Inr (map ?v ?ps)"
    by (rule batch_serves [OF assms(2)]) (use assms(5) j in \<open>auto simp: HeaderBatch_def dispatch_def to_string_def\<close>)
  also have "map ?v ?ps = map j bs" by (simp add: j_def comp_def)
  finally have batch: "E_askBatch (endpoint_of k n) ''eth_getBlockByNumber'' ?ps = Inr (map j bs)" .
  have "traverse (\<lambda>(b, raw). and_then (read_block raw) (isBlock b)) (zip bs (map j bs)) = Inr (map (\<lambda>(b, raw). H_block (state_of k n els) b) (zip bs (map j bs)))"
    by (rule traverse_total) (use j(3) in \<open>auto simp: in_set_zip isBlock_def state_of_def\<close>)
  also have "map (\<lambda>(b, raw). H_block (state_of k n els) b) (zip bs (map j bs)) = map (H_block (state_of k n els)) bs"
    by (induction bs) simp_all
  finally have "batchBlocks (endpoint_of k n) bs = Inr (map (H_block (state_of k n els)) bs)"
    by (simp add: batchBlocks_def batch)
  moreover have "\<not> E_noBatch (endpoint_of k n) bs" by (simp add: endpoint_of_def)
  ultimately show ?thesis by (simp add: blocksByNumber_def)
qed

lemma fake_crossCheck:
  "crossCheck (fake_reader k ts ops token distributor factory) q read canon =
     with_error (EndpointFailed (E_label (endpoint_of k (node_build k ts ops))) q) (read (endpoint_of k (node_build k ts ops)))"
  by (simp add: crossCheck_def fake_reader_def)

lemma fake_narrowable: "narrowable (fake_reader k ts ops token distributor factory) a t"
proof -
  have "\<exists>ls. page (fake_reader k ts ops token distributor factory) a t from to = Inr ls" for "from" to
    using getLogs_serves [OF node_build_logs build_plain(1), of k k ts ops a t "from" to] by (auto simp: page_def fake_crossCheck)
  then show ?thesis unfolding narrowable_def by (metis (no_types, lifting) sum.case(2))
qed

lemma fake_stamps:
  assumes "times_fit ts" "\<And>b. b \<in> set bs \<Longrightarrow> unat b < length ts"
  shows "\<exists>stamps. Timestamps (fake_reader k ts ops token distributor factory) bs = Inr stamps"
proof -
  have "\<exists>stamps. header_batches (fake_reader k ts ops token distributor factory) bss out = Inr stamps"
    if "\<And>ns. ns \<in> set bss \<Longrightarrow> length ns \<le> HeaderBatch" "\<And>b. b \<in> set (concat bss) \<Longrightarrow> unat b < length ts" for bss out
    using that
  proof (induction bss arbitrary: out)
    case (Cons ns bss)
    have "blocksByNumber (endpoint_of k (node_build k ts ops)) ns = Inr (map (H_block (fake_state k ts ops)) ns)"
      by (rule blocksByNumber_serves [OF node_build_logs]) (use assms(1) Cons.prems in auto)
    then show ?case using Cons by (simp add: fake_crossCheck)
  qed simp
  from this [of "batches_of (remdups_adj (sort bs))"] show ?thesis
    using assms(2) by (simp add: Timestamps_def concat_batches_of batches_of_small)
qed

section \<open>What was appended\<close>

definition sent_of :: "keccak \<Rightarrow> int64 list \<Rightarrow> address \<Rightarrow> nat \<Rightarrow> log_op \<Rightarrow> chainTransfer list" where
  "sent_of k ts token i op =
     (case op of
        OpTransfer b tok from to v \<Rightarrow>
          if tok = token
          then [\<lparr>S_BlockNumber = b, S_BlockHash = HashOf k (node_New ts) b, S_LogIndex = of_nat i, S_Timestamp = ts ! unat b,
                 CT_From = from, CT_To = to, CT_Value = Some \<bar>v\<bar>\<rparr>]
          else []
      | _ \<Rightarrow> [])"

fun sent :: "keccak \<Rightarrow> int64 list \<Rightarrow> address \<Rightarrow> nat \<Rightarrow> log_op list \<Rightarrow> chainTransfer list" where
  "sent k ts token i [] = []"
| "sent k ts token i (op # ops) = sent_of k ts token i op @ sent k ts token (i + logged_by op) ops"

definition site_key :: "'a site_scheme \<Rightarrow> nat" where
  "site_key s = unat (S_BlockNumber s) * 2 ^ 64 + unat (S_LogIndex s)"

text \<open>No other event is emitted by the token, and the amounts are 64-bit.\<close>

definition op_ok :: "address \<Rightarrow> log_op \<Rightarrow> bool" where
  "op_ok token op =
     (case op of
        OpTransfer b tok from to v \<Rightarrow> in_i64 v
      | OpExclusion b distributor account \<Rightarrow> distributor \<noteq> token
      | OpRoot b distributor i root totals carryIn \<Rightarrow> distributor \<noteq> token
      | _ \<Rightarrow> True)"

lemma node_build_salt: "HashOf k (node_build k ts ops) b = HashOf k (node_New ts) b"
proof -
  have "N_HashSalt (apply_op k n op) = N_HashSalt n" for n op
    by (cases op) (simp_all add: apply_op_def node_Transfer_def node_Exclusion_def node_RootPosted_def Launch_def append_log_def)
  then have "N_HashSalt (foldl (apply_op k) n ops) = N_HashSalt n" for n by (induction ops arbitrary: n) simp_all
  then show ?thesis by (simp add: HashOf_def node_build_def)
qed

lemma fake_block_time:
  assumes "times_fit ts" "unat b < length ts"
  shows "B_Timestamp (H_block (fake_state k ts ops) b) = ts ! unat b"
proof -
  have t: "0 \<le> ts ! unat b" "ts ! unat b < 2 ^ 63" using assms by (auto simp: times_fit_def in_i64_def)
  have "uint (word_of_int (ts ! unat b) :: uint64) = ts ! unat b mod 2 ^ 64" by (simp add: uint_word_of_int)
  also have "\<dots> = ts ! unat b" by (rule mod_pos_pos_trivial) (use t in auto)
  finally show ?thesis by (simp add: state_of_def)
qed

lemma decode_sent:
  assumes "in_i64 v"
  shows "decodeTransfer k (hashed_by k n (hd (op_log k i (OpTransfer b token from to v)))) =
    Inr \<lparr>S_BlockNumber = b, S_BlockHash = HashOf k n b, S_LogIndex = of_nat i, S_Timestamp = 0,
         CT_From = from, CT_To = to, CT_Value = Some \<bar>v\<bar>\<rparr>"
proof -
  have "\<bar>v\<bar> < 2 ^ 256" using assms by (auto simp: in_i64_def)
  then show ?thesis
    by (simp add: decodeTransfer_iff amount_ok_def hashed_by_def op_log_def transfer_log_def site_of_def site.defs word_of_def node_word_def)
qed


lemma sent_logs:
  assumes "times_fit ts" "\<And>op. op \<in> set ops \<Longrightarrow> op_ok token op" "unat hi < length ts"
  shows "(\<forall>l \<in> set (filter (selected token (topicTransfer k) lo hi) (map (hashed_by k n) (op_logs k i ops))). \<exists>t. decodeTransfer k l = Inr t) \<and>
    map (\<lambda>l. (projr (decodeTransfer k l))\<lparr>S_Timestamp := ts ! unat (EL_BlockNumber l)\<rparr>)
      (filter (selected token (topicTransfer k) lo hi) (map (hashed_by k n) (op_logs k i ops))) =
    filter (\<lambda>t. lo \<le> S_BlockNumber t \<and> S_BlockNumber t \<le> hi)
      (map (\<lambda>t. t\<lparr>S_BlockHash := HashOf k n (S_BlockNumber t)\<rparr>) (sent k ts token i ops))"
  using assms(2)
proof (induction ops arbitrary: i)
  case (Cons op ops)
  note IH = Cons.IH [of "i + logged_by op"]
  show ?case
  proof (cases op)
    case (OpTransfer b tok from' to' v)
    have v: "in_i64 v" using Cons.prems [of op] by (simp add: OpTransfer op_ok_def)
    show ?thesis
      using IH Cons.prems decode_sent [OF v, of k n i b tok from' to']
      by (auto simp: OpTransfer sent_of_def selected_def hashed_by_def op_log_def)
  qed (use IH Cons.prems [of op] Cons.prems in \<open>auto simp: sent_of_def op_ok_def selected_def hashed_by_def op_log_def\<close>)
qed simp

lemma map_sort_key_commute:
  assumes "\<And>x. x \<in> set xs \<Longrightarrow> g (f x) = h x"
  shows "map f (sort_key h xs) = sort_key g (map f xs)"
proof -
  have "map f (insort_key h x ys) = insort_key g (f x) (map f ys)" if "g (f x) = h x" "\<forall>y \<in> set ys. g (f y) = h y" for x ys
    using that by (induction ys) auto
  then show ?thesis using assms by (induction xs) auto
qed

lemma sent_salt: "map (\<lambda>t. t\<lparr>S_BlockHash := HashOf k (node_build k ts ops') (S_BlockNumber t)\<rparr>) (sent k ts token i ops) = sent k ts token i ops"
  by (induction ops arbitrary: i) (auto simp: sent_of_def node_build_salt split: log_op.split)

definition sent_within :: "keccak \<Rightarrow> int64 list \<Rightarrow> log_op list \<Rightarrow> address \<Rightarrow> uint64 \<Rightarrow> uint64 \<Rightarrow> chainTransfer list" where
  "sent_within k ts ops token from to =
     sort_key site_key (filter (\<lambda>t. from \<le> S_BlockNumber t \<and> S_BlockNumber t \<le> to) (sent k ts token 0 ops))"

lemma fake_Transfers:
  assumes "times_fit ts" "\<And>op. op \<in> set ops \<Longrightarrow> op_ok token op" "from \<le> to" "unat to < length ts"
  shows "Transfers k (fake_reader k ts ops token distributor factory) from to = Inr (sent_within k ts ops token from to)"
proof -
  let ?r = "fake_reader k ts ops token distributor factory" and ?n = "node_build k ts ops"
  let ?f = "selected token (topicTransfer k) from to"
  let ?sel = "filter ?f (map (hashed_by k ?n) (op_logs k 0 ops))"
  let ?g = "\<lambda>l. (projr (decodeTransfer k l))\<lparr>S_Timestamp := ts ! unat (EL_BlockNumber l)\<rparr>"
  note s = sent_logs [OF assms(1,2,4), where k = k and n = ?n and lo = "from" and i = 0]
  have true: "filter ?f (H_logs (fake_state k ts ops)) = sort_key log_key ?sel" by (simp add: state_of_def filter_sort)
  obtain ls where ls: "logs ?r token (topicTransfer k) from to MaxLogRange = Inr ls"
    using logs_loop_total [OF fake_narrowable assms(3), of MaxLogRange k ts ops token distributor factory token "topicTransfer k" "[]"]
    by (auto simp: logs_def MaxLogRange_def)
  have sel: "ls = sort_key log_key ?sel" using fakes.logs_true [OF ls] unfolding true .
  have dec: "decodeTransfer k l = Inr (projr (decodeTransfer k l))" "EL_BlockNumber l \<le> to" if "l \<in> set ls" for l
    using that s by (force simp: sel, simp add: sel selected_def)
  have evs: "traverse (decodeTransfer k) ls = Inr (map (\<lambda>l. projr (decodeTransfer k l)) ls)" by (rule traverse_total [OF dec(1)])
  have "\<exists>st. Timestamps ?r (map S_BlockNumber (map (\<lambda>l. projr (decodeTransfer k l)) ls)) = Inr st"
  proof (rule fake_stamps [OF assms(1)])
    fix b
    assume "b \<in> set (map S_BlockNumber (map (\<lambda>l. projr (decodeTransfer k l)) ls))"
    then obtain l where "l \<in> set ls" "b = S_BlockNumber (projr (decodeTransfer k l))" by auto
    then have "b \<le> to" using dec decodeTransfer_site [OF dec(1)] by simp
    then show "unat b < length ts" using assms(4) by (simp add: word_le_nat_alt)
  qed
  then obtain out where out: "Transfers k ?r from to = Inr out"
    using ls evs by (auto simp: Transfers_def stamp_def fake_reader_def)
  have "out = map (stamped (decodeTransfer k) (fake_state k ts ops)) ls"
    using fakes.Transfers_true [OF out] ls fakes.logs_true [OF ls] by (simp add: fake_reader_def)
  also have "\<dots> = map ?g ls"
  proof (rule map_cong [OF refl])
    fix l
    assume "l \<in> set ls"
    then have "unat (EL_BlockNumber l) < length ts" using dec(2) assms(4) by (meson le_less_trans word_le_nat_alt)
    then show "stamped (decodeTransfer k) (fake_state k ts ops) l = ?g l" by (simp add: stamped_def fake_block_time [OF assms(1)])
  qed
  also have "\<dots> = sort_key site_key (map ?g ?sel)"
    unfolding sel
  proof (rule map_sort_key_commute)
    fix l
    assume "l \<in> set ?sel"
    then have "decodeTransfer k l = Inr (projr (decodeTransfer k l))" using s by force
    then show "site_key (?g l) = log_key l"
      unfolding decodeTransfer_iff by (cases "projr (decodeTransfer k l)") (simp add: site_of_def site.defs site_key_def log_key_def)
  qed
  also have "map ?g ?sel = filter (\<lambda>t. from \<le> S_BlockNumber t \<and> S_BlockNumber t \<le> to) (sent k ts token 0 ops)"
    using conjunct2 [OF s] unfolding sent_salt .
  finally show ?thesis using out by (simp add: sent_within_def)
qed

section \<open>The node as a Source\<close>

lemma op_logs_op: "l \<in> set (op_logs k i ops) \<Longrightarrow> \<exists>op j. op \<in> set ops \<and> l \<in> set (op_log k j op)"
  by (induction ops arbitrary: i) (auto, blast)

definition op_within :: "int64 list \<Rightarrow> log_op \<Rightarrow> bool" where
  "op_within ts op = (case op of OpTransfer b token from to v \<Rightarrow> unat b < length ts | _ \<Rightarrow> True)"

lemma fake_chain_ok:
  assumes "times_fit ts" "\<And>op. op \<in> set ops \<Longrightarrow> op_ok token op \<and> op_within ts op"
  shows "chain_ok k token (fake_state k ts ops)"
  unfolding chain_ok_def
proof
  fix l
  assume "l \<in> set (transfer_logs k token (fake_state k ts ops))"
  then have "l \<in> set (H_logs (fake_state k ts ops))" and a: "EL_Address l = token" by (simp_all add: transfer_logs_def)
  then obtain l' where l': "l' \<in> set (op_logs k 0 ops)" "l = hashed_by k (node_build k ts ops) l'" unfolding in_fake_logs by blast
  obtain op j where op: "op \<in> set ops" "l' \<in> set (op_log k j op)" using op_logs_op [OF l'(1)] by blast
  have ok: "op_ok token op" "op_within ts op" using assms(2) [OF op(1)] by simp_all
  obtain b "from" to v where t: "op = OpTransfer b token from to v"
    using ok(1) a op(2) by (cases op) (auto simp: op_ok_def l'(2) hashed_by_def op_log_def)
  have h: "l' = hd (op_log k j op)" using op(2) by (simp add: t op_log_def)
  have b: "EL_BlockNumber l = b" "unat b < length ts" "EL_BlockHash l = HashOf k (node_build k ts ops) b"
    using ok(2) by (simp_all add: t l'(2) h hashed_by_def op_log_def op_within_def)
  have "in_i64 (ts ! unat b)" using assms(1) b(2) by (simp add: times_fit_def)
  then show "in_i64 (B_Timestamp (H_block (fake_state k ts ops) (EL_BlockNumber l))) \<and>
      EL_BlockHash l = B_Hash (H_block (fake_state k ts ops) (EL_BlockNumber l)) \<and> (\<exists>t. decodeTransfer k l = Inr t)"
    using fake_block_time [OF assms(1) b(2)] decode_sent [of v k "node_build k ts ops" j b token "from" to] ok(1)
    unfolding b by (simp add: l'(2) h t op_ok_def) (simp add: state_of_def)
qed

lemma fake_BlockByNumber:
  assumes "times_fit ts" "unat b < length ts"
  shows "BlockByNumber (fake_reader k ts ops token distributor factory) b = Inr (H_block (fake_state k ts ops) b)"
  using blockByTag_serves [OF node_build_logs [of k ts ops], of b k] assms by (simp add: BlockByNumber_def fake_crossCheck)

lemma fake_never_fails:
  assumes "times_fit ts" "\<And>op. op \<in> set ops \<Longrightarrow> op_ok token op" "unat tip_number < length ts"
  shows "never_fails (Transfers k (fake_reader k ts ops token distributor factory))
    (BlockByNumber (fake_reader k ts ops token distributor factory)) tip_number"
proof -
  have "unat b < length ts" if "b \<le> tip_number" for b using that assms(3) by (meson le_less_trans word_le_nat_alt)
  then show ?thesis
    using fake_Transfers [OF assms(1,2)] fake_BlockByNumber [OF assms(1)] by (auto simp: never_fails_def)
qed

lemma fake_times_ascend:
  assumes "times_fit ts" "sorted ts" "unat N < length ts"
  shows "times_ascend (fake_state k ts ops) N"
proof -
  have "B_Timestamp (H_block (fake_state k ts ops) m) \<le> B_Timestamp (H_block (fake_state k ts ops) n)" if "m \<le> n" "n \<le> N" for m n
  proof -
    have "unat m \<le> unat n" "unat n < length ts" using that assms(3) by (simp_all add: word_le_nat_alt)
    then show ?thesis using fake_block_time [OF assms(1)] sorted_nth_mono [OF assms(2)] by simp
  qed
  then show ?thesis by (simp add: times_ascend_def)
qed

section \<open>Calls to the node\<close>

definition amount_abs :: "amounts \<Rightarrow> amounts" where
  "amount_abs a = (\<lambda>t. Some (case a t of None \<Rightarrow> 0 | Some v \<Rightarrow> \<bar>v\<bar>))"

definition no_ledger :: node_ledger where
  "no_ledger = \<lparr>NL_Root = 0, NL_RootPostedAt = 0, NL_Skipped = False, NL_Funded = (\<lambda>t. None), NL_Totals = (\<lambda>t. None)\<rparr>"

definition ledger_of :: "node_ledger \<Rightarrow> chainLedger" where
  "ledger_of l =
     \<lparr>L_Root = NL_Root l, L_RootPostedAt = NL_RootPostedAt l, L_Skipped = NL_Skipped l, L_Funded = amount_abs (NL_Funded l),
      L_Totals = amount_abs (NL_Totals l), L_Claimed = (\<lambda>t. Some 0)\<rparr>"

lemma node_word_abs: "node_word (a t) = word_of (amount_abs a t)"
  by (cases "a t") (simp_all add: node_word_def word_of_def amount_abs_def)

lemma ethCall_serves:
  assumes "N_HTTPStatus n = 0" "node_call k n (Address_String dest) (hexBytes data) = Serves (JStr (hexBytes out))"
  shows "ethCall (endpoint_of k n) dest data b = Inr out"
proof -
  have "dispatch k n ''eth_call'' [JObj [(''data'', JStr (hexBytes data)), (''to'', JStr (Address_String dest))], JStr (quantity b)] =
      Serves (JStr (hexBytes out))"
    using assms(2) by (simp add: dispatch_def to_struct_def call_member_def to_string_def)
  from ask_serves [OF assms(1) this] show ?thesis by (simp add: ethCall_def to_string_def hex_codec.roundtrip)
qed

lemma LedgerCall_read:
  "length (encodeLedgerCall k KindEpoch i) = 68" "take 4 (encodeLedgerCall k KindEpoch i) = selectorLedger k"
  "encodeLedgerCall k KindEpoch i ! 35 = 0" "of_nat (be_nat (drop 36 (encodeLedgerCall k KindEpoch i))) = i"
proof -
  have four: "length (selectorLedger k) = 4" by (simp add: selectorLedger_def selectorOf_def)
  have zeros: "(replicate 32 0)[31 := 0] = (replicate 32 0 :: byte list)" by (simp add: list_eq_iff_nth_eq nth_list_update)
  have "unat i < 256 ^ 32" using unat_uint64_less [of i] by (simp add: less_trans)
  then have again: "be_nat (be_bytes 32 (unat i)) = unat i" by (rule be_nat_be_bytes_id)
  show "length (encodeLedgerCall k KindEpoch i) = 68" "take 4 (encodeLedgerCall k KindEpoch i) = selectorLedger k"
    "encodeLedgerCall k KindEpoch i ! 35 = 0" "of_nat (be_nat (drop 36 (encodeLedgerCall k KindEpoch i))) = i"
    by (simp_all add: encodeLedgerCall_def ordinal_def four zeros nth_append again)
qed

lemma node_ledger_serves:
  assumes "N_HTTPStatus n = 0" "N_Factory n = 0 \<or> dest \<noteq> N_Factory n"
    and "l = (case N_Ledgers n i of Some l \<Rightarrow> l | None \<Rightarrow> no_ledger)" "0 \<le> NL_RootPostedAt l"
  shows "ethCall (endpoint_of k n) dest (encodeLedgerCall k KindEpoch i) b = Inr (abi_ledger (ledger_of l))"
proof (rule ethCall_serves [OF assms(1)])
  have five: "concat (map (\<lambda>t. node_word (g t)) Enum.enum) = concat (amount_words (amount_abs g))" for g
    by (simp add: amount_words_def enum_token_def node_word_abs)
  have zero: "amount_words (amount_abs (\<lambda>t. None)) = amount_words (\<lambda>t. Some 0)" by (simp add: amount_abs_def)
  have posted: "node_word (Some (NL_RootPostedAt l)) = abi_uint (nat (NL_RootPostedAt l))"
    "node_word (Some (if NL_Skipped l then 1 else 0)) = abi_uint (of_bool (NL_Skipped l))"
    using assms(4) by (simp_all add: node_word_def abi_uint_def)
  show "node_call k n (Address_String dest) (hexBytes (encodeLedgerCall k KindEpoch i)) = Serves (JStr (hexBytes (abi_ledger (ledger_of l))))"
    using assms(2,4) LedgerCall_read [of k i]
    by (auto simp: node_call_def hexBytes_def hex_decode_encode assms(3) [unfolded no_ledger_def, symmetric] Let_def five zero posted
        abi_ledger_def ledger_words_def ledger_of_def)
qed

lemma fake_LedgerAt:
  assumes "N_Factory (node_build k ts ops) = 0 \<or> distributor \<noteq> N_Factory (node_build k ts ops)"
    and "l = (case N_Ledgers (node_build k ts ops) i of Some l \<Rightarrow> l | None \<Rightarrow> no_ledger)" "ledger_fields_ok (ledger_of l)"
  shows "LedgerAt k (fake_reader k ts ops token distributor factory) KindEpoch i b = Inr (ledger_of l)"
proof -
  have "0 \<le> NL_RootPostedAt l" using assms(3) by (simp add: ledger_fields_ok_def ledger_of_def)
  from node_ledger_serves [OF build_plain(1) assms(1,2) this]
  have "callAt (fake_reader k ts ops token distributor factory) distributor q (encodeLedgerCall k KindEpoch i) b = Inr (abi_ledger (ledger_of l))" for q
    by (simp add: callAt_def fake_crossCheck)
  moreover have "decodeLedger (abi_ledger (ledger_of l)) = Inr (ledger_of l)" using assms(3) by (simp add: decodeLedger_iff)
  moreover have "R_distributor (fake_reader k ts ops token distributor factory) = distributor" by (simp add: fake_reader_def)
  ultimately show ?thesis by (simp add: LedgerAt_def)
qed

section \<open>Events of the node\<close>

definition op_block :: "log_op \<Rightarrow> uint64" where
  "op_block op = (case op of OpTransfer b _ _ _ _ \<Rightarrow> b | OpExclusion b _ _ \<Rightarrow> b | OpRoot b _ _ _ _ _ \<Rightarrow> b | _ \<Rightarrow> 0)"

text \<open>Any read of events returns, when what is selected decodes and is in blocks the node has.\<close>

lemma fake_events:
  assumes "times_fit ts" "from \<le> to" "unat to < length ts" "0 < span"
    and dcd: "\<And>l. l \<in> set (H_logs (fake_state k ts ops)) \<Longrightarrow> selected address topic0 from to l \<Longrightarrow> \<exists>x. dcd l = Inr x"
    and site: "\<And>l x. dcd l = Inr x \<Longrightarrow> S_BlockNumber x = EL_BlockNumber l"
  shows "\<exists>out. and_then (logs (fake_reader k ts ops token distributor factory) address topic0 from to span)
    (\<lambda>ls. and_then (with_error BadEvent (traverse dcd ls)) (stamp (fake_reader k ts ops token distributor factory))) = Inr out"
proof -
  let ?r = "fake_reader k ts ops token distributor factory"
  obtain ls where ls: "logs ?r address topic0 from to span = Inr ls"
    using logs_loop_total [OF fake_narrowable assms(2,4), of k ts ops token distributor factory address topic0 "[]"] by (auto simp: logs_def)
  have sel: "ls = filter (selected address topic0 from to) (H_logs (fake_state k ts ops))" by (rule fakes.logs_true [OF ls])
  have each: "dcd l = Inr (projr (dcd l))" "EL_BlockNumber l \<le> to" if "l \<in> set ls" for l
    using dcd [of l] that by (auto simp: sel selected_def)
  have evs: "traverse dcd ls = Inr (map (\<lambda>l. projr (dcd l)) ls)" by (rule traverse_total [OF each(1)])
  have "\<exists>st. Timestamps ?r (map S_BlockNumber (map (\<lambda>l. projr (dcd l)) ls)) = Inr st"
  proof (rule fake_stamps [OF assms(1)])
    fix b
    assume "b \<in> set (map S_BlockNumber (map (\<lambda>l. projr (dcd l)) ls))"
    then obtain l where "l \<in> set ls" "b = S_BlockNumber (projr (dcd l))" by auto
    then have "b \<le> to" using each site [OF each(1)] by simp
    then show "unat b < length ts" using assms(3) by (simp add: word_le_nat_alt)
  qed
  then show ?thesis using ls evs by (auto simp: stamp_def)
qed

lemma be_bytes_address: "be_bytes 32 (unat a) = abi_address a"
proof -
  have "be_nat (replicate n 0 :: byte list) = 0" for n by (induction n) (simp_all add: be_nat_Cons)
  then have "be_nat (abi_address a) = unat a"
    using be_nat_be_bytes_id [OF unat_addr_less, of a] by (simp add: abi_address_def be_nat_append addr_bytes_def)
  then show ?thesis using be_bytes_be_nat [of "abi_address a" 32] by simp
qed

lemma fake_LaunchCurveAt:
  assumes "N_Factory (node_build k ts ops) = factory" "factory \<noteq> 0" "N_Curves (node_build k ts ops) token = Some curve" "curve \<noteq> 0"
  shows "LaunchCurveAt k (fake_reader k ts ops token distributor factory) b = Inr curve"
proof -
  let ?words = "(replicate 15 0)[0 := unat token, 1 := unat curve, 14 := 1]"
  let ?ws = "map (be_bytes 32) ?words"
  let ?raw = "encodeGetLaunchedToken k token"
  have raw: "length ?raw = 36" "take 4 ?raw = selectorGetLaunchedToken k" "drop 16 ?raw = addr_bytes token"
    by (simp_all add: encodeGetLaunchedToken_def selectorGetLaunchedToken_def selectorOf_def)
  have call: "node_call k (node_build k ts ops) (Address_String factory) (hexBytes ?raw) = Serves (JStr (hexBytes (concat ?ws)))"
    using assms(1-3) raw by (simp add: node_call_def hexBytes_def factoryCall_def Let_def)
  have len: "length ?ws = 15" "\<forall>w \<in> set ?ws. length w = 32" by auto
  have words: "map (dataWord (concat ?ws)) [0..<15] = ?ws" using payload_iff [OF len, of "concat ?ws"] by simp
  have at: "dataWord (concat ?ws) i = be_bytes 32 (?words ! i)" if "i < 15" for i
    using arg_cong [OF words, of "\<lambda>xs. xs ! i"] that by simp
  have two: "dataWord (concat ?ws) 1 = abi_address curve" "dataWord (concat ?ws) 14 = abi_uint (of_bool True)"
    using at [of 1] at [of 14] by (simp_all add: abi_uint_def be_bytes_address)
  define data where "data = concat ?ws"
  have read: "wordBool (dataWord data 14) = Inr True" "wordAddress (dataWord data 1) = Inr curve"
    using wordBool_iff [of "abi_uint (of_bool True)" True] wordAddress_iff [of "abi_address curve" curve] unfolding data_def two by simp_all
  have "length data = 15 * 32" using payload_iff [OF len, of data] by (simp add: data_def)
  then have "decodeLaunchedToken data = Inr curve"
    unfolding decodeLaunchedToken_def launchedTokenWords_def using assms(4) read by simp
  then have "decodeLaunchedToken (concat ?ws) = Inr curve" by (simp only: data_def)
  then show ?thesis
    using ethCall_serves [OF build_plain(1) call] assms(2)
    by (simp add: LaunchCurveAt_def callAt_def fake_crossCheck) (simp add: fake_reader_def)
qed

end
