(* ===== verification/Runs.thy ===== *)
theory Runs
  imports Carry Fakenode Place
begin

text \<open>
  What a run of the Engine returns: that Compute and Walk answer as functions of the chain and the Epoch, that the Carry
  chain conserves every token's funding, that a Walk ends in what Compute returns, and when they return at all.
  The properties are applied to an Engine over a node with two posted Roots.
\<close>

section \<open>What Compute returns\<close>

context honest_reader
begin

lemma Compute_parts:
  assumes "G_reader g = r" "G_loaded g" "sound_history (G_history g)" "epoch_ok i" "same_run k g e1"
    and "snd (engine_Compute k i e1) = Inr res"
  shows "\<exists>eb b' found expected source. closing_block g i = Inr eb \<and> pick (previous_at k g) (rev (engine_stream k ch g)) i = Inr (b', found) \<and>
    expected_at k g i found = Inr (expected, source) \<and> finish k g i eb expected source = Inr res"
proof -
  obtain previous where a: "acts (same_run k g) (engine_Compute k i)
      (and_then (closing_block g i) (\<lambda>endBlock. and_then previous (\<lambda>found. and_then (expected_at k g i found) (\<lambda>(expected, from).
         finish k g i endBlock expected from))))"
    "\<forall>found. previous = Inr found \<longrightarrow> (\<exists>b'. pick (previous_at k g) (rev (engine_stream k ch g)) i = Inr (b', found))"
    using Compute_acts [OF assms(1-4)] by blast
  have "and_then (closing_block g i) (\<lambda>endBlock. and_then previous (\<lambda>found. and_then (expected_at k g i found) (\<lambda>(expected, from).
         finish k g i endBlock expected from))) = Inr res"
    using acts_result [OF a(1) assms(5)] assms(6) by simp
  then obtain eb found expected source where "closing_block g i = Inr eb" "previous = Inr found"
    "expected_at k g i found = Inr (expected, source)" "finish k g i eb expected source = Inr res"
    by (auto simp: and_then_Inr)
  with a(2) show ?thesis by blast
qed

end

lemma finish_Inr:
  assumes "finish k g i eb expected from = Inr res"
  shows "\<exists>posted res0. standing_root_at k g i (B_Number eb + 1) (tipNumber g) = Inr posted \<and>
    rebuilt k g i posted expected from = Inr res0 \<and> res = res0\<lparr>E_EndBlock := Some eb\<rparr>"
  using assms by (auto simp: finish_def and_then_Inr)

text \<open>The Carry an Epoch is expected to come in with, given the previous standing Root or that there is none.\<close>

definition carries :: "keccak \<Rightarrow> engine \<Rightarrow> uint64 \<Rightarrow> rootPosted option \<Rightarrow> amounts \<Rightarrow> bool" where
  "carries k g i found expected \<longleftrightarrow>
     (case found of
        None \<Rightarrow> \<exists>first. deploy_epoch g = Inr first \<and> first \<le> i \<and> (\<forall>t. the (expected t) = funded_between k g first i t)
      | Some p \<Rightarrow> \<exists>previous source. rebuilt k g (RP_ID p) (Some p) (RP_CarryIn p) source = Inr previous \<and>
          (\<forall>t. the (expected t) = the (E_CarryOut previous t) + funded_between k g (RP_ID p + 1) i t))"

lemma expected_carries:
  assumes "expected_at k g i found = Inr (expected, source)" "\<And>p. found = Some p \<Longrightarrow> RP_ID p < i"
  shows "carries k g i found expected"
proof (cases found)
  case None
  then obtain first n where f: "deploy_epoch g = Inr first" "first \<le> i" "carried k g first i zeroAmounts 0 = Inr (expected, n)"
    using assms(1) by (auto simp: expected_at_def carry_over_def and_then_Inr not_less split: if_splits)
  from carried_Inr [OF f(3,2)] f(1,2) None show ?thesis by (auto simp: carries_def zeroAmounts_def)
next
  case (Some p)
  then have lt: "RP_ID p < i" using assms(2) by blast
  have up: "RP_ID p + 1 \<le> i" using word_succ_nat [OF lt] lt by (simp add: word_le_nat_alt word_less_nat_alt)
  obtain previous n where f: "rebuilt k g (RP_ID p) (Some p) (RP_CarryIn p) ''its own posted carryIn'' = Inr previous"
    "carried k g (RP_ID p + 1) i (E_CarryOut previous) 0 = Inr (expected, n)"
    using assms(1) Some by (auto simp: expected_at_def carry_over_def and_then_Inr)
  from carried_Inr [OF f(2) up] f(1) Some show ?thesis by (auto simp: carries_def)
qed

text \<open>The standing Root of the greatest Epoch below a bound, or that there is none.\<close>

definition greatest_standing :: "keccak \<Rightarrow> engine \<Rightarrow> rootPosted list \<Rightarrow> uint64 \<Rightarrow> rootPosted option \<Rightarrow> bool" where
  "greatest_standing k g ps bound found \<longleftrightarrow>
     (\<forall>p. found = Some p \<longrightarrow> p \<in> set ps \<and> standing_epoch k g p \<and> RP_ID p < bound) \<and>
     (\<forall>q \<in> set ps. standing_epoch k g q \<and> RP_ID q < bound \<longrightarrow> (\<exists>p. found = Some p \<and> RP_ID q \<le> RP_ID p))"

text \<open>A result is what the rules make of the whole history with the Carry it came in with.\<close>

definition by_the_rules :: "keccak \<Rightarrow> engine \<Rightarrow> uint64 \<Rightarrow> epoch_result \<Rightarrow> bool" where
  "by_the_rules k g i res \<longleftrightarrow>
     (\<exists>l computed. ledger_at k g i = Inr l \<and> Compute k (rules_params g i (L_Funded l) (E_CarryIn res)) = Inr computed \<and>
        E_EpochID res = i \<and> E_Funded res = L_Funded l \<and> E_HasRoot res = R_HasRoot computed \<and> E_Root res = R_Root computed \<and>
        E_Tree res = R_Tree computed \<and> E_Totals res = Some \<circ> R_Totals computed \<and> E_CarryOut res = Some \<circ> R_CarryOut computed \<and>
        E_Allocations res = epoch_rows computed \<and> E_Excluded res = chain_ExcludedAsOf i (G_exclusions g)) \<and>
     E_CarryIn res = posted_carry (E_Posted res) (E_ExpectedCarryIn res)"

lemma rebuilt_by_the_rules: "rebuilt k g i posted expected from = Inr res \<Longrightarrow> by_the_rules k g i res"
  by (auto simp: rebuilt_def and_then_Inr by_the_rules_def epoch_result_of_def comp_def)

lemma by_the_rules_EndBlock [simp]: "by_the_rules k g i (res\<lparr>E_EndBlock := b\<rparr>) \<longleftrightarrow> by_the_rules k g i res"
  by (simp add: by_the_rules_def)

lemma latest_at_total: "readable k g \<Longrightarrow> \<exists>x. latest_at k g b p = Inr x"
proof -
  assume "readable k g"
  then obtain l where "ledger_at k g (RP_ID p) = Inr l" unfolding readable_def by blast
  then show ?thesis by (auto simp: latest_at_def stands_at_def)
qed

context honest_reader
begin

lemma Latest_total:
  assumes "G_reader g = r"
  shows "\<exists>v. acts (same_run k g) (engine_Latest k) (and_then v (\<lambda>found. case found of
      None \<Rightarrow> Inl (NoRootPosted (T_Finality (G_tip g))) | Some p \<Rightarrow> Inr (RP_ID p))) \<and>
    (\<forall>found. v = Inr found \<longrightarrow> (\<exists>b'. pick (latest_at k g) (rev (engine_stream k ch g)) () = Inr (b', found))) \<and>
    (readable k g \<longrightarrow> (\<exists>found. v = Inr found))"
proof -
  obtain v where v: "acts (same_run k g) (engine_Latest k) (and_then v (\<lambda>found. case found of
      None \<Rightarrow> Inl (NoRootPosted (T_Finality (G_tip g))) | Some p \<Rightarrow> Inr (RP_ID p)))"
    "\<forall>found. v = Inr found \<longrightarrow> (\<exists>b'. pick (latest_at k g) (rev (engine_stream k ch g)) () = Inr (b', found))"
    "readable_roots k g \<longrightarrow> v = and_then (pick (latest_at k g) (rev (engine_stream k ch g)) ()) (\<lambda>(b', found). Inr found)"
    using Latest_acts [OF assms] by blast
  have "\<exists>found. v = Inr found" if rd: "readable k g"
  proof -
    obtain b' found where "pick (latest_at k g) (rev (engine_stream k ch g)) () = Inr (b', found)"
      using pick_total [of "latest_at k g"] latest_at_total [OF rd] by (metis surj_pair)
    with v(3) rd show ?thesis by (simp add: readable_def)
  qed
  with v(1,2) show ?thesis by blast
qed

end

section \<open>What Walk returns\<close>

lemma Walk_parts:
  assumes "G_loaded g" "sound_history (G_history g)" "epoch_ok target" "same_run k g e1" "snd (Walk k target e1) = Inr links"
  shows "\<exists>eb first st w res. closing_block g target = Inr eb \<and> deploy_epoch g = Inr first \<and> first \<le> target \<and>
    standing_map k g first target = Inr st \<and> walked k g st first target walk_start = Inr w \<and>
    finish k g target eb (K_carry w) (carrySource (K_from w) (K_skipped w)) = Inr res \<and> links = K_out w @ [res]"
proof -
  have "walk_at k g target = Inr links" using acts_result [OF Walk_acts [OF assms(1-3)] assms(4)] assms(5) by simp
  then show ?thesis by (auto simp: walk_at_def and_then_Inr not_less split: if_splits)
qed

lemma Walk_chain:
  assumes "G_loaded g" "sound_history (G_history g)" "epoch_ok target" "same_run k g e1" "snd (Walk k target e1) = Inr links"
  shows "\<exists>first. deploy_epoch g = Inr first \<and> first \<le> target \<and> carry_chain k g first (\<lambda>t. 0) links \<and>
    (\<forall>l \<in> set links. balanced k g l \<and> E_EpochID l < target + 1) \<and>
    chain_end first (\<lambda>t. 0) links = (target + 1, \<lambda>t. the (E_CarryOut (last links) t)) \<and> E_EpochID (last links) = target"
proof -
  obtain eb first st w res where p: "deploy_epoch g = Inr first" "first \<le> target" "walked k g st first target walk_start = Inr w"
    "finish k g target eb (K_carry w) (carrySource (K_from w) (K_skipped w)) = Inr res" "links = K_out w @ [res]"
    using Walk_parts [OF assms] by blast
  obtain posted res0 where r: "rebuilt k g target posted (K_carry w) (carrySource (K_from w) (K_skipped w)) = Inr res0"
    "res = res0\<lparr>E_EndBlock := Some eb\<rparr>"
    using finish_Inr [OF p(4)] by blast
  note res0 = rebuilt_Inr [OF r(1)]
  have "target < - 1" using epoch_ok_top [OF assms(3)] by (metis word_order.extremum order.not_eq_order_implies_strict)
  from word_succ_nat [OF this] have up: "unat (target + 1) = unat target + 1" .
  have "walk_ok k g first first walk_start" by (simp add: walk_ok_def walk_start_def zeroAmounts_def)
  from walked_ok [OF p(3) this p(2)] have w: "walk_ok k g first target w" .
  have "carry_chain k g first (\<lambda>t. 0) links"
    using w res0 unfolding p(5) r(2) carry_chain_snoc by (simp add: walk_ok_def)
  moreover have "\<forall>l \<in> set links. balanced k g l \<and> E_EpochID l < target + 1"
    using w res0 up unfolding p(5) r(2) by (auto simp: walk_ok_def balanced_def word_less_nat_alt)
  moreover have "chain_end first (\<lambda>t. 0) links = (target + 1, \<lambda>t. the (E_CarryOut (last links) t))" "E_EpochID (last links) = target"
    unfolding p(5) chain_end_snoc using res0 by (simp_all add: r(2))
  ultimately show ?thesis using p(1,2) by blast
qed

section \<open>Properties\<close>

lemma Compute_rebuilt:
  assumes "honest_reader ep ch (G_reader g)" "G_loaded g" "sound_history (G_history g)" "epoch_ok i" "same_run k g e"
    and "posted_in_order k g (rev (engine_stream k ch g))" "snd (engine_Compute k i e) = Inr res"
  shows "by_the_rules k g i res \<and>
    (\<exists>found. greatest_standing k g (engine_stream k ch g) i found \<and> carries k g i found (E_ExpectedCarryIn res))"
proof -
  obtain eb b' found expected source where p: "pick (previous_at k g) (rev (engine_stream k ch g)) i = Inr (b', found)"
    "expected_at k g i found = Inr (expected, source)" "finish k g i eb expected source = Inr res"
    using honest_reader.Compute_parts [OF assms(1) refl assms(2-5,7)] by blast
  obtain posted res0 where r: "rebuilt k g i posted expected source = Inr res0" "res = res0\<lparr>E_EndBlock := Some eb\<rparr>"
    using finish_Inr [OF p(3)] by blast
  have "greatest_standing k g (engine_stream k ch g) i found"
    using pick_previous [OF p(1) assms(6)] by (simp add: greatest_standing_def)
  moreover have "carries k g i found (E_ExpectedCarryIn res)"
    using expected_carries [OF p(2)] pick_previous_below [of k g _ i b'] p(1) rebuilt_Inr(2) [OF r(1)] by (auto simp: r(2))
  moreover have "by_the_rules k g i res" using rebuilt_by_the_rules [OF r(1)] by (simp add: r(2))
  ultimately show ?thesis by blast
qed

text \<open>
  C2. What a Compute returns. The Epoch is what the rules make of the loaded history, whatever was computed before it in
  the run; the Carry it is expected to have come in with is that of the greatest Epoch below it whose Root stands,
  recomputed, plus the funding of every Epoch between, or all funding since deploy when no Root stands.
\<close>

theorem Compute_rebuilds:
  assumes "honest_reader ep ch (G_reader g)" "G_loaded g" "sound_history (G_history g)" "epoch_ok i" "same_run k g e"
    and "posted_in_order k g (rev (engine_stream k ch g))" "snd (engine_Compute k i e) = Inr res"
  shows "by_the_rules k g i res \<and>
    (\<exists>found. greatest_standing k g (engine_stream k ch g) i found \<and> carries k g i found (E_ExpectedCarryIn res))"
  by (rule Compute_rebuilt [OF assms])

text \<open>
  C11. A Compute of an Engine that is loaded returns. When the Epoch is not before the deployment and has closed, the book can be read, the log of its Root is there if the ledger
  holds one, and no amount passes 256 bits, Compute gives a result and not an error.
\<close>

theorem Compute_returns:
  assumes "honest_reader ep ch (G_reader g)" "G_loaded g" "sound_history (G_history g)" "epoch_ok i" "readable k g"
    and "closing_block g i = Inr eb" "D_DistributorBlock (G_dep g) \<le> B_Number eb + 1"
    and "standing_root_at k g i (B_Number eb + 1) (tipNumber g) = Inr posted"
    and "amounts_fit k g (engine_stream k ch g) i" "\<And>first. deploy_epoch g = Inr first \<Longrightarrow> first \<le> i" "same_run k g e"
  shows "\<exists>res. snd (engine_Compute k i e) = Inr res"
  by (rule honest_reader.Compute_gives [OF assms(1) refl assms(2-11)])

text \<open>
  C12. A run has no memory. Two Engines of one run, whatever each has read, memoized and replayed before, return the same from Compute
  and the same from Walk, errors included.
\<close>

theorem runs_stateless:
  assumes "honest_reader ep ch (G_reader g)" "G_loaded g" "sound_history (G_history g)" "epoch_ok i" "same_run k g e" "same_run k g e'"
  shows "snd (engine_Compute k i e) = snd (engine_Compute k i e') \<and> snd (Walk k i e) = snd (Walk k i e')"
proof -
  obtain v where "acts (same_run k g) (engine_Compute k i) v"
    using honest_reader.Compute_acts [OF assms(1) refl assms(2-4)] by blast
  with Walk_acts [OF assms(2-4)] show ?thesis using acts_result assms(5,6) by metis
qed

text \<open>
  C6. The Carry chain conserves. In what a Walk returns, each link is expected to come in with the Carry of the one before plus the
  funding of the Epochs between. When every link did come in with that, then for each token all the funding
  from the deploy Epoch through the target is in the Totals of the links or in the last Carry.
\<close>

theorem Walk_conserves:
  assumes "G_loaded g" "sound_history (G_history g)" "epoch_ok target" "same_run k g e" "snd (Walk k target e) = Inr links"
  shows "\<exists>first. deploy_epoch g = Inr first \<and> carry_chain k g first (\<lambda>t. 0) links \<and> E_EpochID (last links) = target \<and>
    ((\<forall>l \<in> set links. E_CarryIn l = E_ExpectedCarryIn l) \<longrightarrow>
       (\<forall>t. funded_between k g first (target + 1) t = (\<Sum>l \<leftarrow> links. the (E_Totals l t)) + the (E_CarryOut (last links) t)))"
proof -
  obtain first where c: "deploy_epoch g = Inr first" "carry_chain k g first (\<lambda>t. 0) links" "E_EpochID (last links) = target"
    "\<forall>l \<in> set links. balanced k g l \<and> E_EpochID l < target + 1"
    "chain_end first (\<lambda>t. 0) links = (target + 1, \<lambda>t. the (E_CarryOut (last links) t))"
    using Walk_chain [OF assms] by blast
  have "funded_between k g first (target + 1) t = (\<Sum>l \<leftarrow> links. the (E_Totals l t)) + the (E_CarryOut (last links) t)"
    if "\<forall>l \<in> set links. E_CarryIn l = E_ExpectedCarryIn l" for t
    using chain_conserves [OF c(2), of "target + 1" t] c(4,5) that by simp
  with c(1-3) show ?thesis by blast
qed

text \<open>
  C13. Walk and Compute agree. The last link of a Walk is what Compute returns for the target: the chain from deploy leads to the same Carry,
  told the same way, as the previous Root alone.
\<close>

theorem Walk_ends_in_Compute:
  assumes "honest_reader ep ch (G_reader g)" "G_loaded g" "sound_history (G_history g)" "epoch_ok i" "same_run k g e" "same_run k g e'"
    and "posted_in_order k g (rev (engine_stream k ch g))"
    and "\<And>first p. deploy_epoch g = Inr first \<Longrightarrow> p \<in> set (engine_stream k ch g) \<Longrightarrow> RP_Kind p = KindEpoch \<Longrightarrow> first \<le> RP_ID p"
    and "snd (Walk k i e) = Inr links" "snd (engine_Compute k i e') = Inr res"
  shows "last links = res"
proof -
  obtain eb first st w last_res where w: "closing_block g i = Inr eb" "deploy_epoch g = Inr first" "first \<le> i"
    "standing_map k g first i = Inr st" "walked k g st first i walk_start = Inr w"
    "finish k g i eb (K_carry w) (carrySource (K_from w) (K_skipped w)) = Inr last_res" "links = K_out w @ [last_res]"
    using Walk_parts [OF assms(2-5,9)] by blast
  obtain b' found expected source where c: "pick (previous_at k g) (rev (engine_stream k ch g)) i = Inr (b', found)"
    "expected_at k g i found = Inr (expected, source)" "finish k g i eb expected source = Inr res"
    using honest_reader.Compute_parts [OF assms(1) refl assms(2-4,6,10)] w(1) by auto
  have "standing_from k g first i (engine_stream k ch g) Map.empty = Inr st"
    using w(4) honest_reader.Roots_true [OF assms(1)]
    by (auto simp: standing_map_def and_then_Inr roots_between_def engine_stream_def posted_stream_def)
  from walk_expects [OF this w(2,3) c(1) assms(7) _ w(5) c(2)] assms(8) [OF w(2)]
  have "K_carry w = expected" "carrySource (K_from w) (K_skipped w) = source" by blast+
  with w(6,7) c(3) show ?thesis by simp
qed

lemma Latest_spec:
  assumes "honest_reader ep ch (G_reader g)" "same_run k g e" "posted_in_order k g (rev (engine_stream k ch g))"
  shows "(\<forall>i. snd (engine_Latest k e) = Inr i \<longrightarrow>
      (\<exists>p \<in> set (engine_stream k ch g). standing_epoch k g p \<and> RP_ID p = i) \<and>
      (\<forall>q \<in> set (engine_stream k ch g). standing_epoch k g q \<longrightarrow> RP_ID q \<le> i)) \<and>
    (snd (engine_Latest k e) = Inl (NoRootPosted (T_Finality (G_tip g))) \<and> readable k g \<longrightarrow>
      (\<forall>q \<in> set (engine_stream k ch g). \<not> standing_epoch k g q)) \<and>
    (readable k g \<longrightarrow> (\<exists>i. snd (engine_Latest k e) = Inr i) \<or> snd (engine_Latest k e) = Inl (NoRootPosted (T_Finality (G_tip g))))"
proof -
  obtain v where v: "acts (same_run k g) (engine_Latest k) (and_then v (\<lambda>found. case found of
      None \<Rightarrow> Inl (NoRootPosted (T_Finality (G_tip g))) | Some p \<Rightarrow> Inr (RP_ID p)))"
    "\<forall>found. v = Inr found \<longrightarrow> (\<exists>b'. pick (latest_at k g) (rev (engine_stream k ch g)) () = Inr (b', found))"
    "readable k g \<longrightarrow> (\<exists>found. v = Inr found)"
    using honest_reader.Latest_total [OF assms(1) refl] by blast
  have out: "snd (engine_Latest k e) = and_then v (\<lambda>found. case found of
      None \<Rightarrow> Inl (NoRootPosted (T_Finality (G_tip g))) | Some p \<Rightarrow> Inr (RP_ID p))"
    using acts_result [OF v(1) assms(2)] by simp
  have main: "(\<forall>p. found = Some p \<longrightarrow> p \<in> set (engine_stream k ch g) \<and> standing_epoch k g p) \<and>
      (\<forall>q \<in> set (engine_stream k ch g). standing_epoch k g q \<longrightarrow> (\<exists>p. found = Some p \<and> RP_ID q \<le> RP_ID p))" if "v = Inr found" for found
    using v(2) that pick_latest [OF _ assms(3)] by (metis set_rev)
  show ?thesis
  proof (cases v)
    case (Inl err)
    with out v(3) show ?thesis by auto
  next
    case (Inr found)
    with out main [OF Inr] show ?thesis by (cases found) auto
  qed
qed

text \<open>
  C27. Latest. The Epoch \<open>Latest\<close> returns has a standing Root, and no Epoch with one is greater. When the book can
  be read it returns one, or reports that no Root has been posted, and then none stands.
\<close>

theorem Latest_is_greatest:
  assumes "honest_reader ep ch (G_reader g)" "same_run k g e" "posted_in_order k g (rev (engine_stream k ch g))"
  shows "(\<forall>i. snd (engine_Latest k e) = Inr i \<longrightarrow>
      (\<exists>p \<in> set (engine_stream k ch g). standing_epoch k g p \<and> RP_ID p = i) \<and>
      (\<forall>q \<in> set (engine_stream k ch g). standing_epoch k g q \<longrightarrow> RP_ID q \<le> i)) \<and>
    (snd (engine_Latest k e) = Inl (NoRootPosted (T_Finality (G_tip g))) \<and> readable k g \<longrightarrow>
      (\<forall>q \<in> set (engine_stream k ch g). \<not> standing_epoch k g q)) \<and>
    (readable k g \<longrightarrow> (\<exists>i. snd (engine_Latest k e) = Inr i) \<or> snd (engine_Latest k e) = Inl (NoRootPosted (T_Finality (G_tip g))))"
  by (rule Latest_spec [OF assms])

text \<open>
  The ledger and the log must agree. \<open>standingRoot\<close> says an Epoch has no Root exactly when the ledger holds none, and returns a log only
  when it is the Epoch's last one on the chain in the range and carries the Root of the ledger; a ledger
  with a Root whose log is missing or carries another is an error.
\<close>

theorem standingRoot_agrees:
  assumes "honest_reader ep ch (G_reader g)" "same_run k g e" "ledger_at k g i = Inr l"
    and "Roots k (G_reader g) from to = Inr roots" "from \<le> to"
  shows "snd (standingRoot k i from to e) =
    (if \<not> HasRoot l then Inr None
     else case List.find (log_of i) (rev (posted_stream k ch (R_distributor (G_reader g)) from to)) of
            None \<Rightarrow> Inl (RootNotLogged i (L_Root l) from to)
          | Some p \<Rightarrow> if RP_Root p = L_Root l then Inr (Some p) else Inl (RootDiffers i (L_Root l) from to (RP_Root p)))"
proof -
  have "roots = posted_stream k ch (R_distributor (G_reader g)) from to"
    using honest_reader.Roots_true [OF assms(1,4)] by (simp add: posted_stream_def)
  moreover have "snd (standingRoot k i from to e) = standing_root_at k g i from to"
    using acts_result [OF standingRoot_acts assms(2)] by simp
  moreover have "log_of i = (\<lambda>p. RP_Kind p = KindEpoch \<and> RP_ID p = i)" by (simp add: log_of_def fun_eq_iff)
  ultimately show ?thesis
    using assms(3-5) by (auto simp: standing_root_at_def roots_between_def split: option.split)
qed

section \<open>A node with two posted Roots\<close>

text \<open>
  Five blocks over Epochs 10 to 12. Account 3 holds the whole supply from the first block on; the curve is account 6. Epoch
  10 is funded with 50 and posted in Epoch 11, Epoch 11 is funded with 7 and posted in Epoch 12; each Root is that
  of the one leaf, under a hash that counts bytes.
\<close>

definition demo_keccak :: keccak where "demo_keccak bs = of_nat (length bs)"

definition run_times :: "int64 list" where "run_times = [36005, 36100, 39607, 43203, 43250]"

definition run_ops :: "log_op list" where
  "run_ops =
     [OpTransfer 0 7 0 3 100, OpLaunch 9 7 6,
      OpLedger 10 \<lparr>NL_Root = 32, NL_RootPostedAt = 39607, NL_Skipped = False, NL_Funded = (\<lambda>t. Some 50), NL_Totals = (\<lambda>t. Some 50)\<rparr>,
      OpRoot 2 8 10 32 (\<lambda>t. Some 50) (\<lambda>t. Some 0),
      OpLedger 11 \<lparr>NL_Root = 32, NL_RootPostedAt = 43203, NL_Skipped = False, NL_Funded = (\<lambda>t. Some 7), NL_Totals = (\<lambda>t. Some 7)\<rparr>,
      OpRoot 3 8 11 32 (\<lambda>t. Some 7) (\<lambda>t. Some 0)]"

abbreviation run_state :: chain_state where "run_state \<equiv> fake_state demo_keccak run_times run_ops"

definition run_reader :: reader where "run_reader = fake_reader demo_keccak run_times run_ops 7 8 9"

definition run_deployment :: deployment where
  "run_deployment =
     \<lparr>D_ChainID = 4663, D_Token = 7, D_Distributor = 8, D_DevWallet = 5, D_PonsFactory = 9, D_TokenBlock = 0, D_DistributorBlock = 0\<rparr>"

definition run_tip :: tip where "run_tip = \<lparr>T_Block = H_block run_state 4, T_Finality = Safe, T_Lag = 0\<rparr>"

definition run_dir :: string where
  "run_dir = the (Dir (\<lambda>v. ''/root'') (D_ChainID run_deployment) (D_Token run_deployment))"

lemma run_dir: "Dir (\<lambda>v. ''/root'') (D_ChainID run_deployment) (D_Token run_deployment) = Some run_dir" "run_dir \<noteq> []"
proof -
  have "\<exists>d. Dir (\<lambda>v. ''/root'') (D_ChainID run_deployment) (D_Token run_deployment) = Some d" by (simp add: Dir_def cache_base_def)
  then show d: "Dir (\<lambda>v. ''/root'') (D_ChainID run_deployment) (D_Token run_deployment) = Some run_dir" by (auto simp: run_dir_def)
  show "run_dir \<noteq> []" by (rule Dir_not_Nil [OF d])
qed

definition run_start :: engine where
  "run_start = projr (engine_New (Some run_reader) run_tip run_dir run_deployment \<lparr>G_SyncChunk = 0, G_Fresh = False\<rparr> [] (\<lambda>n. False))"

lemma run_node:
  "times_fit run_times" "\<And>op. op \<in> set run_ops \<Longrightarrow> op_ok 7 op \<and> op_within run_times op" "sorted run_times" "length run_times = 5"
  "N_Factory (node_build demo_keccak run_times run_ops) = 9" "N_Curves (node_build demo_keccak run_times run_ops) 7 = Some 6"
  by (auto simp: run_times_def run_ops_def times_fit_def op_ok_def op_within_def in_i64_def node_build_def apply_op_def node_Transfer_def
      node_RootPosted_def append_log_def Launch_def)

lemma run_ledgers:
  "N_Ledgers (node_build demo_keccak run_times run_ops) =
     [10 \<mapsto> \<lparr>NL_Root = 32, NL_RootPostedAt = 39607, NL_Skipped = False, NL_Funded = (\<lambda>t. Some 50), NL_Totals = (\<lambda>t. Some 50)\<rparr>,
      11 \<mapsto> \<lparr>NL_Root = 32, NL_RootPostedAt = 43203, NL_Skipped = False, NL_Funded = (\<lambda>t. Some 7), NL_Totals = (\<lambda>t. Some 7)\<rparr>]"
  by (simp add: run_ops_def node_build_def apply_op_def node_Transfer_def node_RootPosted_def append_log_def Launch_def node_New_def Let_def)

lemma run_start_simps [simp]:
  "G_reader run_start = run_reader" "G_tip run_start = run_tip" "G_dep run_start = run_deployment" "G_file run_start = []"
  "G_held run_start n = False" "G_ledgers run_start = Map.empty" "G_ledger run_start = None" "G_first run_start = None"
  "\<not> G_loaded run_start" "G_synced run_start = None" "G_Fresh (G_opts run_start) = False" "tipNumber run_start = 4"
  by (simp_all add: run_start_def run_dir(2) engine_New_def run_deployment_def deployment_Check_def run_reader_def fake_reader_def run_tip_def
      tipNumber_def state_of_def)

lemma run_honest: "honest_reader (endpoint_of demo_keccak (node_build demo_keccak run_times run_ops)) run_state run_reader"
  unfolding run_reader_def by (rule fake_reader_honest)

lemma run_reader_simps [simp]: "R_token run_reader = 7" "R_distributor run_reader = 8" "R_factory run_reader = 9"
  by (simp_all add: run_reader_def fake_reader_def)

lemma run_topics:
  "topicTransfer demo_keccak = 33" "topicExcludedAppended demo_keccak = 25" "topicRootPosted demo_keccak = 55"
  by (simp_all add: topicTransfer_def topicExcludedAppended_def topicRootPosted_def keccak256_def demo_keccak_def ascii_def)

lemma decode_posted:
  assumes "amounts_ok (amount_abs totals)" "amounts_ok (amount_abs carryIn)"
  shows "decodeRootPosted k (hashed_by k n (hd (op_log k j (OpRoot b distributor i root totals carryIn)))) =
    Inr \<lparr>S_BlockNumber = b, S_BlockHash = HashOf k n b, S_LogIndex = of_nat j, S_Timestamp = 0, RP_Kind = KindEpoch, RP_ID = i,
         RP_Root = root, RP_Totals = amount_abs totals, RP_CarryIn = amount_abs carryIn\<rparr>"
proof -
  have five: "concat (map (\<lambda>t. node_word (g t)) Enum.enum) = concat (amount_words (amount_abs g))" for g
    by (simp add: amount_words_def enum_token_def node_word_abs)
  show ?thesis
    using assms
    by (simp add: decodeRootPosted_iff hashed_by_def op_log_def root_posted_log_def root_words_def five site_of_def site.defs
        ordinal_def) (simp add: node_word_def abi_uint_def)
qed

lemma run_logs:
  "H_logs run_state = map (\<lambda>(j, op). hashed_by demo_keccak (node_build demo_keccak run_times run_ops) (hd (op_log demo_keccak j op)))
     [(0, run_ops ! 0), (1, run_ops ! 3), (2, run_ops ! 5)]"
  by (simp add: state_of_def run_ops_def op_log_def logged_by_def hashed_by_def log_key_def)

definition run_post :: "uint64 \<Rightarrow> uint64 \<Rightarrow> int64 \<Rightarrow> uint64 \<Rightarrow> int \<Rightarrow> rootPosted" where
  "run_post b ix time i paid =
     \<lparr>S_BlockNumber = b, S_BlockHash = HashOf demo_keccak (node_New run_times) b, S_LogIndex = ix, S_Timestamp = time, RP_Kind = KindEpoch,
      RP_ID = i, RP_Root = 32, RP_Totals = (\<lambda>t. Some paid), RP_CarryIn = (\<lambda>t. Some 0)\<rparr>"

lemma run_post_simps [simp]:
  "S_BlockNumber (run_post b ix time i paid) = b" "RP_Kind (run_post b ix time i paid) = KindEpoch" "RP_ID (run_post b ix time i paid) = i"
  "RP_Root (run_post b ix time i paid) = 32" "RP_Totals (run_post b ix time i paid) = (\<lambda>t. Some paid)"
  "RP_CarryIn (run_post b ix time i paid) = (\<lambda>t. Some 0)"
  by (simp_all add: run_post_def)

lemma run_decoded:
  fixes node :: node
  defines "node \<equiv> node_build demo_keccak run_times run_ops"
  shows "stamped (decodeRootPosted demo_keccak) run_state (hashed_by demo_keccak node (hd (op_log demo_keccak 1 (run_ops ! 3)))) = run_post 2 1 39607 10 50"
    "stamped (decodeRootPosted demo_keccak) run_state (hashed_by demo_keccak node (hd (op_log demo_keccak 2 (run_ops ! 5)))) = run_post 3 2 43203 11 7"
    "\<exists>p. decodeRootPosted demo_keccak (hashed_by demo_keccak node (hd (op_log demo_keccak 1 (run_ops ! 3)))) = Inr p"
    "\<exists>p. decodeRootPosted demo_keccak (hashed_by demo_keccak node (hd (op_log demo_keccak 2 (run_ops ! 5)))) = Inr p"
proof -
  have op: "run_ops ! 3 = OpRoot 2 8 10 32 (\<lambda>t. Some 50) (\<lambda>t. Some 0)" "run_ops ! 5 = OpRoot 3 8 11 32 (\<lambda>t. Some 7) (\<lambda>t. Some 0)"
    by (simp_all add: run_ops_def)
  have ok: "amounts_ok (amount_abs (\<lambda>t. Some 50))" "amounts_ok (amount_abs (\<lambda>t. Some 7))" "amounts_ok (amount_abs (\<lambda>t. Some 0))"
    by (simp_all add: amounts_ok_def amount_ok_def amount_abs_def)
  have time: "B_Timestamp (H_block run_state 2) = 39607" "B_Timestamp (H_block run_state 3) = 43203"
    using fake_block_time [OF run_node(1), of 2] fake_block_time [OF run_node(1), of 3] run_node(4) by (simp_all add: run_times_def)
  note dcd = decode_posted [OF ok(1,3), of demo_keccak node 1 2 8 10 32] decode_posted [OF ok(2,3), of demo_keccak node 2 3 8 11 32]
  have b: "EL_BlockNumber (hashed_by demo_keccak node (hd (op_log demo_keccak j (OpRoot b d i root tot car)))) = b" for j b d i root tot car
    by (simp add: hashed_by_def op_log_def)
  show "stamped (decodeRootPosted demo_keccak) run_state (hashed_by demo_keccak node (hd (op_log demo_keccak 1 (run_ops ! 3)))) = run_post 2 1 39607 10 50"
    "stamped (decodeRootPosted demo_keccak) run_state (hashed_by demo_keccak node (hd (op_log demo_keccak 2 (run_ops ! 5)))) = run_post 3 2 43203 11 7"
    unfolding op stamped_def b dcd time by (simp_all add: run_post_def amount_abs_def node_def node_build_salt)
  show "\<exists>p. decodeRootPosted demo_keccak (hashed_by demo_keccak node (hd (op_log demo_keccak 1 (run_ops ! 3)))) = Inr p"
    "\<exists>p. decodeRootPosted demo_keccak (hashed_by demo_keccak node (hd (op_log demo_keccak 2 (run_ops ! 5)))) = Inr p"
    unfolding op dcd by simp_all
qed

lemma run_selected:
  fixes lo hi :: uint64
  defines "h \<equiv> \<lambda>j op. hd (op_log demo_keccak j op)"
  shows "\<not> selected 8 topic0 lo hi (h 0 (run_ops ! 0))"
    "selected 8 (topicRootPosted demo_keccak) lo hi (h 1 (run_ops ! 3)) \<longleftrightarrow> lo \<le> 2 \<and> 2 \<le> hi"
    "selected 8 (topicRootPosted demo_keccak) lo hi (h 2 (run_ops ! 5)) \<longleftrightarrow> lo \<le> 3 \<and> 3 \<le> hi"
    "\<not> selected 8 (topicExcludedAppended demo_keccak) lo hi (h 1 (run_ops ! 3))"
    "\<not> selected 8 (topicExcludedAppended demo_keccak) lo hi (h 2 (run_ops ! 5))"
  by (simp_all add: h_def selected_def run_ops_def op_log_def hashed_by_def run_topics)

lemma run_posted:
  "posted_stream demo_keccak run_state 8 lo hi =
    (if lo \<le> 2 \<and> 2 \<le> hi then [run_post 2 1 39607 10 50] else []) @ (if lo \<le> 3 \<and> 3 \<le> hi then [run_post 3 2 43203 11 7] else [])"
  by (simp add: posted_stream_def run_selected run_logs run_decoded del: One_nat_def)

lemma run_Roots:
  assumes "lo \<le> hi" "hi \<le> 4"
  shows "Roots demo_keccak run_reader lo hi = Inr (posted_stream demo_keccak run_state 8 lo hi)"
proof -
  have "\<exists>out. Roots demo_keccak run_reader lo hi = Inr out"
    unfolding Roots_def run_reader_simps unfolding run_reader_def
  proof (rule fake_events [OF run_node(1) assms(1)])
    show "unat hi < length run_times" using assms(2) run_node(4) by (simp add: word_le_nat_alt)
    fix l
    assume "l \<in> set (H_logs run_state)" "selected 8 (topicRootPosted demo_keccak) lo hi l"
    then show "\<exists>x. decodeRootPosted demo_keccak l = Inr x"
      using run_decoded(3,4) by (auto simp: run_logs run_selected simp del: One_nat_def)
  next
    fix l x
    assume "decodeRootPosted demo_keccak l = Inr x"
    then show "S_BlockNumber x = EL_BlockNumber l"
      by (auto simp: decodeRootPosted_iff site_of_def site.defs)
  qed (simp add: SparseLogRange_def)
  then show ?thesis using honest_reader.Roots_true [OF run_honest] by (auto simp: posted_stream_def)
qed

lemma run_LedgerAt:
  "LedgerAt demo_keccak run_reader KindEpoch i b =
    Inr (ledger_of (case N_Ledgers (node_build demo_keccak run_times run_ops) i of Some l \<Rightarrow> l | None \<Rightarrow> no_ledger))"
proof -
  have "ledger_fields_ok (ledger_of (case N_Ledgers (node_build demo_keccak run_times run_ops) i of Some l \<Rightarrow> l | None \<Rightarrow> no_ledger))"
    by (simp add: run_ledgers ledger_fields_ok_def ledger_of_def no_ledger_def amount_abs_def amounts_ok_def amount_ok_def)
  then show ?thesis
    unfolding run_reader_def by (rule fake_LedgerAt [OF _ refl, rotated]) (simp add: run_node(5))
qed

lemma run_blocks: "b \<le> 4 \<Longrightarrow> BlockByNumber run_reader b = Inr (H_block run_state b)"
  unfolding run_reader_def by (rule fake_BlockByNumber [OF run_node(1)]) (simp add: run_node(4) word_le_nat_alt)

lemma run_block_times:
  "B_Timestamp (H_block run_state 0) = 36005" "B_Timestamp (H_block run_state 1) = 36100" "B_Timestamp (H_block run_state 2) = 39607"
  "B_Timestamp (H_block run_state 3) = 43203" "B_Timestamp (H_block run_state 4) = 43250"
  using fake_block_time [OF run_node(1), of 0] fake_block_time [OF run_node(1), of 1] fake_block_time [OF run_node(1), of 2]
    fake_block_time [OF run_node(1), of 3] fake_block_time [OF run_node(1), of 4] run_node(4)
  by (simp_all add: run_times_def)

lemma run_Exclusions: "Exclusions demo_keccak run_reader 0 4 = Inr []"
proof -
  have none: "\<not> selected 8 (topicExcludedAppended demo_keccak) 0 4 l" if "l \<in> set (H_logs run_state)" for l
    using that run_selected by (auto simp: run_logs simp del: One_nat_def)
  have "\<exists>out. Exclusions demo_keccak run_reader 0 4 = Inr out"
    unfolding Exclusions_def run_reader_simps unfolding run_reader_def
  proof (rule fake_events [OF run_node(1)])
    show "S_BlockNumber x = EL_BlockNumber l" if "decodeExcludedAppended demo_keccak l = Inr x" for l x
      using that by (auto simp: decodeExcludedAppended_iff site_of_def site.defs)
  qed (use none run_node(4) in \<open>auto simp: SparseLogRange_def\<close>)
  then obtain out where out: "Exclusions demo_keccak run_reader 0 4 = Inr out" by blast
  moreover have "filter (selected 8 (topicExcludedAppended demo_keccak) 0 4) (H_logs run_state) = []" using none by (simp add: filter_empty_conv)
  ultimately show ?thesis using honest_reader.Exclusions_true [OF run_honest out] by simp
qed

lemma run_LaunchCurveAt: "LaunchCurveAt demo_keccak run_reader b = Inr 6"
  unfolding run_reader_def by (rule fake_LaunchCurveAt) (simp_all add: run_node)

lemma run_Transfers:
  "Transfers demo_keccak run_reader 0 4 =
     Inr [\<lparr>S_BlockNumber = 0, S_BlockHash = HashOf demo_keccak (node_New run_times) 0, S_LogIndex = 0, S_Timestamp = 36005,
           CT_From = 0, CT_To = 3, CT_Value = Some 100\<rparr>]"
proof -
  have "Transfers demo_keccak run_reader 0 4 = Inr (sent_within demo_keccak run_times run_ops 7 0 4)"
    unfolding run_reader_def by (rule fake_Transfers) (use run_node in auto)
  then show ?thesis by (simp add: sent_within_def run_ops_def sent_of_def site_key_def logged_by_def) (simp add: run_times_def)
qed

lemma run_deployment_simps:
  "D_Token run_deployment = 7" "D_TokenBlock run_deployment = 0" "D_DistributorBlock run_deployment = 0" "D_DevWallet run_deployment = 5"
  by (simp_all add: run_deployment_def)

lemma run_tip_hash: "B_Hash (T_Block run_tip) \<noteq> 0"
  by (simp add: run_tip_def state_of_def node_build_salt)
     (simp add: HashOf_def keccak256_def demo_keccak_def big_bytes_def node_New_def Let_def i64_def digits.simps)

definition run_history :: "transfer list" where
  "run_history = [\<lparr>T_Timestamp = 36005, T_From = 0, T_To = 3, T_Value = Some 100\<rparr>]"

interpretation run_reads: caching_reader "endpoint_of demo_keccak (node_build demo_keccak run_times run_ops)" run_state run_reader demo_keccak
  by (rule caching_reader.intro [OF run_honest], rule caching_reader_axioms.intro) (use fake_chain_ok run_node(1,2) in simp)

lemma run_loads:
  "snd (engine_load demo_keccak run_start) = Inr ()" "loaded_from demo_keccak run_state run_start (fst (engine_load demo_keccak run_start))"
proof -
  let ?br = "branch_of demo_keccak 7 run_state"
  have tip: "B_Number (H_block run_state 4) = 4" by (simp add: state_of_def)
  have hash: "B_Hash (T_Block (G_tip run_start)) \<noteq> 0" using run_tip_hash by simp
  have ok: "chain_ok demo_keccak 7 run_state" using run_reads.cacheable by simp
  have br: "branch_ok ?br" using run_reads.source.branch by simp
  have nf: "never_fails (Transfers demo_keccak run_reader) (BlockByNumber run_reader) 4"
    unfolding run_reader_def by (rule fake_never_fails) (use run_node in auto)
  have empty: "branch_log ?br (unat (D_TokenBlock (G_dep run_start))) 0 = []" by (simp add: branch_log_def)
  obtain c where c: "Open False [] (cache_options run_deployment False) = Inr c" "holds (cache_options run_deployment False) c []"
    using Open_new [of "cache_options run_deployment False"] by blast
  have "snd (engine_load demo_keccak run_start) = Inr () \<and>
    (snd (engine_load demo_keccak run_start) = Inr () \<longrightarrow> loaded_from demo_keccak run_state run_start (fst (engine_load demo_keccak run_start)))"
    using honest_reader.load_true(1) [OF run_honest, of run_start demo_keccak c ?br 0]
      honest_reader.load_true(2) [OF run_honest, of run_start demo_keccak c ?br 0 "[]" 6] ok br c empty hash nf
    by (simp add: fresh_engine_def commits_def run_Exclusions run_LaunchCurveAt run_deployment_simps)
  then show "snd (engine_load demo_keccak run_start) = Inr ()" "loaded_from demo_keccak run_state run_start (fst (engine_load demo_keccak run_start))"
    by blast+
qed

definition run_engine :: engine where "run_engine = fst (engine_load demo_keccak run_start)"

lemma run_engine_simps [simp]:
  "G_reader run_engine = run_reader" "G_tip run_engine = run_tip" "G_dep run_engine = run_deployment" "G_loaded run_engine" "tipNumber run_engine = 4"
  "G_history run_engine = run_history" "G_replayables run_engine = [\<lparr>X_Timestamp = 0, X_Account = 6\<rparr>]"
  "G_exclusions run_engine = [curve_exclusion run_deployment 6]"
proof -
  have "map (stamped (decodeTransfer demo_keccak) run_state) (filter (selected 7 (topicTransfer demo_keccak) 0 4) (H_logs run_state)) =
    [\<lparr>S_BlockNumber = 0, S_BlockHash = HashOf demo_keccak (node_New run_times) 0, S_LogIndex = 0, S_Timestamp = 36005,
           CT_From = 0, CT_To = 3, CT_Value = Some 100\<rparr>]"
    using honest_reader.Transfers_true [OF run_honest run_Transfers] by simp
  from arg_cong [OF this, of "map (\<lambda>t. toReplayable (FromTransfer t))"]
  have "map toReplayable (chain_history demo_keccak run_state 7 0 4) = run_history"
    by (simp add: chain_history_def run_history_def toReplayable_def FromTransfer_def comp_def)
  then show "G_reader run_engine = run_reader" "G_tip run_engine = run_tip" "G_dep run_engine = run_deployment" "G_loaded run_engine" "tipNumber run_engine = 4"
  "G_history run_engine = run_history" "G_replayables run_engine = [\<lparr>X_Timestamp = 0, X_Account = 6\<rparr>]"
  "G_exclusions run_engine = [curve_exclusion run_deployment 6]"
    using run_loads(2) run_start_simps(12)
    by (auto simp: loaded_from_def run_engine_def run_deployment_simps run_Exclusions run_LaunchCurveAt tipNumber_def replayable_exclusion_def
        curve_exclusion_def)
qed

lemma run_same: "same_run demo_keccak run_engine run_engine"
  using run_loads(2) by (simp add: same_run_def loaded_from_def run_engine_def)

lemma run_sound: "sound_history run_history"
proof -
  have "0 \<le> balance_at run_history a t" for a t by (simp add: balance_at_def run_history_def delta_def value_of_def zeroAddress_def)
  then show ?thesis by (simp add: sound_history_def times_ok_def history_ok_def) (simp add: run_history_def in_i64_def value_ok_def)
qed

lemma run_ledger_at:
  "ledger_at demo_keccak run_engine i =
    Inr (ledger_of (case N_Ledgers (node_build demo_keccak run_times run_ops) i of Some l \<Rightarrow> l | None \<Rightarrow> no_ledger))"
  by (simp add: ledger_at_def run_LedgerAt)

lemma run_deploy: "deploy_epoch run_engine = Inr 10"
  by (simp add: deploy_epoch_def run_deployment_simps run_blocks run_block_times EpochSeconds_def quo_def)

lemma run_readable: "readable demo_keccak run_engine"
proof -
  have "ledger_fields_ok (ledger_of (case N_Ledgers (node_build demo_keccak run_times run_ops) i of Some l \<Rightarrow> l | None \<Rightarrow> no_ledger))" for i
    by (simp add: run_ledgers ledger_fields_ok_def ledger_of_def no_ledger_def amount_abs_def amounts_ok_def amount_ok_def)
  then show ?thesis by (simp add: readable_def readable_roots_def run_Roots run_ledger_at run_deploy)
qed

lemma run_stream: "engine_stream demo_keccak run_state run_engine = [run_post 2 1 39607 10 50, run_post 3 2 43203 11 7]"
  by (simp add: engine_stream_def run_posted run_deployment_simps)

lemma run_stands: "standing_epoch demo_keccak run_engine (run_post 2 1 39607 10 50)" "standing_epoch demo_keccak run_engine (run_post 3 2 43203 11 7)"
  by (simp_all add: standing_epoch_def stands_at_def run_ledger_at run_ledgers ledger_of_def HasRoot_def)

lemma run_order: "posted_in_order demo_keccak run_engine (rev (engine_stream demo_keccak run_state run_engine))"
  by (simp add: posted_in_order_def run_stream run_stands)

lemma run_closing: "closing_block run_engine 11 = Inr (H_block run_state 2)"
proof -
  have end_time: "End (WindowOf 11) = 43200" by (simp add: WindowOf_def Let_def i64_def EpochSeconds_def)
  have num: "B_Number (H_block run_state n) = n" for n by (simp add: state_of_def)
  have asc: "times_ascend run_state 4" by (rule fake_times_ascend [OF run_node(1,3)]) (simp add: run_node(4))
  have tp: "T_Block run_tip = H_block run_state 4" "B_Number (T_Block run_tip) = 4" by (simp_all add: run_tip_def num)
  obtain b where b: "EndBlock run_reader 11 run_tip = Inr b"
    using honest_reader.EndBlock_found [OF run_honest, of 11 run_tip 4] tp run_blocks by (auto simp: end_time run_block_times)
  from honest_reader.EndBlock_last [OF run_honest b tp asc]
  obtain n where n: "n < 4" "b = H_block run_state n" "\<forall>m \<le> 4. B_Timestamp (H_block run_state m) < 43200 \<longleftrightarrow> m \<le> n"
    unfolding end_time by blast
  have "2 \<le> n" "\<not> 3 \<le> n" using n(3) [rule_format, of 2] n(3) [rule_format, of 3] by (simp_all add: run_block_times)
  then have "n = 2" by (simp add: word_le_nat_alt word_unat_eq_iff)
  with b n(2) show ?thesis by (simp add: closing_block_def)
qed

lemma run_standing_root: "standing_root_at demo_keccak run_engine 11 3 4 = Inr (Some (run_post 3 2 43203 11 7))"
  by (simp add: standing_root_at_def run_ledger_at run_ledgers ledger_of_def HasRoot_def roots_between_def run_Roots run_posted)

lemma run_funding: "funding demo_keccak run_engine 10 t = 50" "funding demo_keccak run_engine 11 t = 7"
  by (simp_all add: funding_def run_ledger_at run_ledgers ledger_of_def amount_abs_def)

lemma run_fits: "amounts_fit demo_keccak run_engine (engine_stream demo_keccak run_state run_engine) 11"
proof -
  have "[10..<12] = [10, 11 :: nat]" "[11..<12] = [11 :: nat]" by (simp_all add: upt_rec)
  then show ?thesis
    by (auto simp: amounts_fit_def run_stream run_deploy funded_between_def run_funding funded_ok_def)
qed

definition run_rules :: "uint64 \<Rightarrow> int \<Rightarrow> params" where
  "run_rules i f =
     \<lparr>P_EpochID = i, P_Transfers = run_history, P_Exclusions = [\<lparr>X_Timestamp = 0, X_Account = 6\<rparr>], P_DevWallet = 5,
      P_Funded = (\<lambda>t. Some f), P_CarryIn = (\<lambda>t. Some 0)\<rparr>"

definition outline :: "alloc_error + result \<Rightarrow> (bool \<times> hash \<times> int list \<times> int list) option" where
  "outline x = (case x of Inl e \<Rightarrow> None | Inr r \<Rightarrow> Some (R_HasRoot r, R_Root r, map (R_Totals r) tokens, map (R_CarryOut r) tokens))"

lemma run_outline:
  "outline (Compute demo_keccak (run_rules 10 50)) = Some (True, 32, [50, 50, 50, 50, 50], [0, 0, 0, 0, 0])"
  "outline (Compute demo_keccak (run_rules 11 7)) = Some (True, 32, [7, 7, 7, 7, 7], [0, 0, 0, 0, 0])"
  by code_simp+

lemma run_Compute:
  assumes "(i, f) = (10, 50) \<or> (i, f) = (11, 7)"
  shows "\<exists>r. Compute demo_keccak (run_rules i f) = Inr r \<and> R_HasRoot r \<and> R_Root r = 32 \<and> (\<forall>t. R_Totals r t = f \<and> R_CarryOut r t = 0)"
proof -
  have "outline (Compute demo_keccak (run_rules i f)) = Some (True, 32, [f, f, f, f, f], [0, 0, 0, 0, 0])"
    using assms run_outline by auto
  then show ?thesis by (auto simp: outline_def tokens_def all_tokens split: sum.splits)
qed

lemma run_rebuilt:
  assumes "(i, f, p) = (10, 50, run_post 2 1 39607 10 50) \<or> (i, f, p) = (11, 7, run_post 3 2 43203 11 7)"
  shows "\<exists>l. rebuilt demo_keccak run_engine i (Some p) expected from = Inr l \<and> E_EpochID l = i \<and> E_HasRoot l \<and> E_Root l = 32 \<and> E_Skipped l = False \<and>
    E_Totals l = (\<lambda>t. Some f) \<and> E_CarryOut l = zeroAmounts \<and> E_CarryIn l = zeroAmounts \<and> E_ExpectedCarryIn l = expected \<and>
    E_Funded l = (\<lambda>t. Some f) \<and> E_Posted l = Some p"
proof -
  obtain r where r: "Compute demo_keccak (run_rules i f) = Inr r" "R_HasRoot r" "R_Root r = 32" "\<forall>t. R_Totals r t = f \<and> R_CarryOut r t = 0"
    using run_Compute [of i f] assms by auto
  have led: "\<exists>l. ledger_at demo_keccak run_engine i = Inr l \<and> L_Funded l = (\<lambda>t. Some f) \<and> L_Skipped l = False"
    using assms by (auto simp: run_ledger_at run_ledgers ledger_of_def amount_abs_def)
  have c: "RP_CarryIn p = (\<lambda>t. Some 0)" using assms by auto
  have "rules_params run_engine i (\<lambda>t. Some f) (\<lambda>t. Some 0) = run_rules i f"
    by (simp add: rules_params_def run_rules_def run_deployment_simps)
  with led r c show ?thesis by (auto simp: rebuilt_def posted_carry_def epoch_result_of_def zeroAmounts_def)
qed

lemma run_Walk:
  "\<exists>l m. snd (Walk demo_keccak 11 run_engine) = Inr [l, m] \<and> E_EpochID l = 10 \<and> E_EpochID m = 11 \<and>
    (\<forall>x \<in> {l, m}. E_CarryIn x = E_ExpectedCarryIn x \<and> E_Root x = 32 \<and> E_HasRoot x)"
proof -
  let ?from = "carrySource ''nothing before deploy'' 0"
  obtain l where l: "rebuilt demo_keccak run_engine 10 (Some (run_post 2 1 39607 10 50)) zeroAmounts ?from = Inr l"
    "E_EpochID l = 10" "E_HasRoot l" "E_Root l = 32" "E_CarryOut l = zeroAmounts" "E_CarryIn l = zeroAmounts" "E_ExpectedCarryIn l = zeroAmounts"
    using run_rebuilt [of 10 50 "run_post 2 1 39607 10 50" zeroAmounts ?from] by blast
  let ?src = "carrySource (''carryOut of epoch '' @ dec 10) 0"
  obtain m where m: "rebuilt demo_keccak run_engine 11 (Some (run_post 3 2 43203 11 7)) zeroAmounts ?src = Inr m"
    "E_EpochID m = 11" "E_HasRoot m" "E_Root m = 32" "E_CarryIn m = zeroAmounts" "E_ExpectedCarryIn m = zeroAmounts"
    using run_rebuilt [of 11 7 "run_post 3 2 43203 11 7" zeroAmounts ?src] by blast
  have st: "standing_map demo_keccak run_engine 10 11 = Inr [10 \<mapsto> run_post 2 1 39607 10 50]"
    using run_stands by (simp add: standing_map_def roots_between_def run_deployment_simps run_Roots run_posted standing_epoch_def)
  have w: "walked demo_keccak run_engine [10 \<mapsto> run_post 2 1 39607 10 50] 10 11 walk_start =
      Inr \<lparr>K_carry = zeroAmounts, K_from = ''carryOut of epoch '' @ dec 10, K_skipped = 0, K_out = [l]\<rparr>"
    using l(1,5) by (subst walked.simps, simp add: walk_start_def, subst walked.simps) simp
  have num: "B_Number (H_block run_state 2) = 2" by (simp add: state_of_def)
  have "walk_at demo_keccak run_engine 11 = Inr [l, m\<lparr>E_EndBlock := Some (H_block run_state 2)\<rparr>]"
    using m(1) by (simp add: walk_at_def run_closing run_deploy st w finish_def num run_standing_root)
  then have "snd (Walk demo_keccak 11 run_engine) = Inr [l, m\<lparr>E_EndBlock := Some (H_block run_state 2)\<rparr>]"
    using acts_result [OF Walk_acts run_same, of 11] run_sound by (simp add: epoch_ok_def)
  with l m show ?thesis by auto
qed

lemma run_epoch_ok: "epoch_ok 11" by (simp add: epoch_ok_def)

section \<open>The properties on the node\<close>

lemma run_returns: "\<exists>res. snd (engine_Compute demo_keccak 11 run_engine) = Inr res"
proof -
  have "B_Number (H_block run_state 2) = 2" by (simp add: state_of_def)
  then show ?thesis
    using honest_reader.Compute_gives [OF run_honest, of run_engine 11 demo_keccak "H_block run_state 2" _ run_engine]
      run_sound run_epoch_ok run_readable run_closing run_standing_root run_fits run_deploy run_same run_deployment_simps by auto
qed

theorem Compute_rebuilds_witness:
  "\<exists>res found. snd (engine_Compute demo_keccak 11 run_engine) = Inr res \<and> by_the_rules demo_keccak run_engine 11 res \<and>
    greatest_standing demo_keccak run_engine [run_post 2 1 39607 10 50, run_post 3 2 43203 11 7] 11 found \<and>
    carries demo_keccak run_engine 11 found (E_ExpectedCarryIn res)"
proof -
  obtain res where res: "snd (engine_Compute demo_keccak 11 run_engine) = Inr res" using run_returns by blast
  show ?thesis
    using Compute_rebuilds [OF run_honest [folded run_engine_simps(1)] _ _ run_epoch_ok run_same run_order res] res run_sound
    unfolding run_stream by auto
qed

theorem Compute_returns_witness: "\<exists>res. snd (engine_Compute demo_keccak 11 run_engine) = Inr res"
proof -
  have "B_Number (H_block run_state 2) = 2" by (simp add: state_of_def)
  then show ?thesis
    using Compute_returns [OF run_honest [folded run_engine_simps(1)], of 11 demo_keccak "H_block run_state 2" _ run_engine]
      run_sound run_epoch_ok run_readable run_closing run_standing_root run_fits run_deploy run_same run_deployment_simps by auto
qed

theorem runs_stateless_witness:
  "snd (engine_Compute demo_keccak 11 run_engine) = snd (engine_Compute demo_keccak 11 (fst (Walk demo_keccak 11 run_engine)))"
proof -
  have "same_run demo_keccak run_engine (fst (Walk demo_keccak 11 run_engine))"
    using acts_result [OF Walk_acts run_same, of 11] run_sound run_epoch_ok by simp
  from runs_stateless [OF run_honest [folded run_engine_simps(1)] _ _ run_epoch_ok run_same this] run_sound show ?thesis by simp
qed

theorem Walk_conserves_witness:
  "\<exists>l m. snd (Walk demo_keccak 11 run_engine) = Inr [l, m] \<and>
     (\<forall>t. funded_between demo_keccak run_engine 10 12 t = the (E_Totals l t) + the (E_Totals m t) + the (E_CarryOut m t))"
proof -
  obtain l m where w: "snd (Walk demo_keccak 11 run_engine) = Inr [l, m]" "\<forall>x \<in> {l, m}. E_CarryIn x = E_ExpectedCarryIn x"
    using run_Walk by blast
  from Walk_conserves [OF _ _ run_epoch_ok run_same w(1)] run_sound w show ?thesis by (auto simp: run_deploy algebra_simps)
qed

theorem Walk_ends_in_Compute_witness:
  "\<exists>l m. snd (Walk demo_keccak 11 run_engine) = Inr [l, m] \<and> snd (engine_Compute demo_keccak 11 run_engine) = Inr m"
proof -
  obtain l m where w: "snd (Walk demo_keccak 11 run_engine) = Inr [l, m]" using run_Walk by blast
  obtain res where res: "snd (engine_Compute demo_keccak 11 run_engine) = Inr res" using run_returns by blast
  have "last [l, m] = res"
    by (rule Walk_ends_in_Compute [OF run_honest [folded run_engine_simps(1)] _ _ run_epoch_ok run_same run_same run_order _ w res])
      (auto simp: run_sound run_deploy run_stream)
  with w res show ?thesis by simp
qed

theorem Latest_is_greatest_witness: "snd (engine_Latest demo_keccak run_engine) = Inr 11"
proof -
  note main = Latest_is_greatest [OF run_honest [folded run_engine_simps(1)] run_same run_order]
  from main run_readable run_stands show ?thesis by (force simp: run_stream)
qed

theorem standingRoot_agrees_witness:
  "snd (standingRoot demo_keccak 11 3 4 run_engine) = Inr (Some (run_post 3 2 43203 11 7))"
  using standingRoot_agrees [OF run_honest [folded run_engine_simps(1)] run_same run_ledger_at, of 3 4 _ 11]
  by (simp add: run_Roots run_posted run_ledgers ledger_of_def HasRoot_def log_of_def)

text \<open>
  C8. What an Engine loads. When its Reader has one honest endpoint and the Cache file holds an earlier state of the chain, a
  load that succeeds has read back from disk, after a close and a second scan, exactly the token's transfers on the
  chain from its creation block to the tip; the Exclusions are the Distributor's and the bonding curve.
\<close>

theorem load_exact:
  assumes "honest_reader ep ch (G_reader g)" "fresh_engine g" "D_Token (G_dep g) = R_token (G_reader g)" "chain_ok k (R_token (G_reader g)) ch"
    and "Open (G_held g 0) (G_file g) (cache_options (G_dep g) (G_Fresh (G_opts g))) = Inr c"
    and "holds (cache_options (G_dep g) False) c (branch_log old (unat (D_TokenBlock (G_dep g))) m)"
    and "branch_ok old" "commits old (branch_of k (R_token (G_reader g)) ch)"
    and "\<forall>rc \<in> set (branch_log old (unat (D_TokenBlock (G_dep g))) m). Rec_BlockNumber rc \<le> tipNumber g"
    and "tipNumber g \<noteq> - 1" "B_Hash (T_Block (G_tip g)) \<noteq> 0" "snd (engine_load k g) = Inr ()"
  shows "loaded_from k ch g (fst (engine_load k g))"
  using honest_reader.load_true(1) [OF assms(1) refl assms(2-11)] assms(12) by blast

theorem load_exact_witness:
  "G_history (fst (engine_load demo_keccak run_start)) = run_history \<and> loaded_from demo_keccak run_state run_start (fst (engine_load demo_keccak run_start))"
proof -
  let ?br = "branch_of demo_keccak 7 run_state"
  obtain c where c: "Open False [] (cache_options run_deployment False) = Inr c" "holds (cache_options run_deployment False) c []"
    using Open_new [of "cache_options run_deployment False"] by blast
  have ok: "chain_ok demo_keccak 7 run_state" using fake_chain_ok run_node(1,2) by blast
  have br: "branch_ok ?br" by (rule honest_endpoint.branch_of_ok [OF node_honest [OF node_build_logs] ok])
  have "loaded_from demo_keccak run_state run_start (fst (engine_load demo_keccak run_start))"
    by (rule load_exact [OF run_honest [folded run_start_simps(1)], of demo_keccak c ?br 0])
      (use ok br c run_tip_hash run_loads(1) in \<open>auto simp: fresh_engine_def run_deployment_simps branch_log_def commits_def\<close>)
  then show ?thesis by (simp flip: run_engine_def)
qed

end
