(* ===== verification/Verifier.thy ===== *)
theory Verifier
  imports Document Place Runs
begin

text \<open>
  The program (\<open>cmd/nutz-verify\<close>): the command line (\<open>run.go\<close>), the run from flags to exit status (\<open>run.go\<close>, \<open>recompute.go\<close>) and the
  comparison with a published bundle (\<open>artifacts.go\<close>); also the construction of a Reader from URLs (\<open>chain/reader.go\<close>, \<open>chain/rpc.go\<close>).

  What lies outside the program is a record of parameters, \<open>environment\<close>. Progress lines and the
  signals that cancel a run are left out.
\<close>

section \<open>The command line\<close>

definition DefaultCallsPerSecond :: rate where
  "DefaultCallsPerSecond = \<lparr>Rate_text = ''15'', Rate_json = Some ''15'', Rate_zero = False, Rate_negative = False\<rparr>"

record flags =
  F_rpc :: "string list"
  F_finality :: string
  F_rate :: rate
  F_fresh :: bool
  F_chain :: bool
  F_artifacts :: string
  F_expect :: "hash option"
  F_json :: bool

datatype usage_error =
    BadSyntax string
  | NotDefined string
  | HelpWanted
  | BadBool string string
  | NeedsArgument string
  | BadValue string string
  | NoCommand
  | EpochTakesOne
  | BadEpochID string
  | TakesNoArguments string
  | SyncRecomputesNothing
  | ExpectIsForEpoch string
  | UnknownCommand string
  | BadFinality string
  | NoRpc
  | NotARate string

definition ParseBool :: "string \<Rightarrow> bool option" where
  "ParseBool s =
     (if s \<in> {''1'', ''t'', ''T'', ''TRUE'', ''true'', ''True''} then Some True
      else if s \<in> {''0'', ''f'', ''F'', ''FALSE'', ''false'', ''False''} then Some False else None)"

definition set_bool :: "string \<Rightarrow> bool \<Rightarrow> flags \<Rightarrow> flags" where
  "set_bool name b fl =
     (if name = ''fresh'' then fl\<lparr>F_fresh := b\<rparr> else if name = ''chain'' then fl\<lparr>F_chain := b\<rparr> else fl\<lparr>F_json := b\<rparr>)"

definition set_value :: "(string \<Rightarrow> rate option) \<Rightarrow> string \<Rightarrow> string \<Rightarrow> flags \<Rightarrow> flags option" where
  "set_value parse_float name v fl =
     (if name = ''finality'' then Some (fl\<lparr>F_finality := v\<rparr>)
      else if name = ''rate'' then map_option (\<lambda>r. fl\<lparr>F_rate := r\<rparr>) (parse_float v)
      else if name = ''artifacts'' then Some (fl\<lparr>F_artifacts := v\<rparr>)
      else if name = ''expect'' then
        (case ParseHash v of
           Inl e \<Rightarrow> None
         | Inr h \<Rightarrow> if h = 0 then None else Some (fl\<lparr>F_expect := Some h\<rparr>))
      else Some (fl\<lparr>F_rpc := F_rpc fl @ [v]\<rparr>))"

text \<open>The name of a flag and the value written after an equals sign, which cannot come first.\<close>

definition split_flag :: "string \<Rightarrow> string \<times> string option" where
  "split_flag s =
     (let name = hd s # takeWhile (\<lambda>c. c \<noteq> CHR ''='') (tl s)
      in (name, if length name < length s then Some (drop (Suc (length name)) s) else None))"

definition bool_flags :: "string list" where "bool_flags = [''fresh'', ''chain'', ''json'']"
definition value_flags :: "string list" where "value_flags = [''finality'', ''rate'', ''artifacts'', ''expect'', ''rpc'']"

text \<open>One flag, and the arguments left after it (\<open>flag.FlagSet.parseOne\<close>).\<close>

definition parse_value :: "(string \<Rightarrow> rate option) \<Rightarrow> string \<Rightarrow> string \<Rightarrow> string list \<Rightarrow> flags \<Rightarrow> usage_error + (flags \<times> string list)" where
  "parse_value parse_float name v args fl =
     (case set_value parse_float name v fl of None \<Rightarrow> Inl (BadValue v name) | Some fl' \<Rightarrow> Inr (fl', args))"

definition parse_one :: "(string \<Rightarrow> rate option) \<Rightarrow> string \<Rightarrow> string list \<Rightarrow> flags \<Rightarrow> usage_error + (flags \<times> string list)" where
  "parse_one parse_float s args fl =
     (let rest = (if s ! 1 = CHR ''-'' then drop 2 s else drop 1 s)
      in if rest = [] \<or> hd rest = CHR ''-'' \<or> hd rest = CHR ''='' then Inl (BadSyntax s)
         else
           let (name, val) = split_flag rest
           in if name \<in> set bool_flags then
                (case val of
                   None \<Rightarrow> Inr (set_bool name True fl, args)
                 | Some v \<Rightarrow>
                     (case ParseBool v of None \<Rightarrow> Inl (BadBool v name) | Some b \<Rightarrow> Inr (set_bool name b fl, args)))
              else if name \<in> set value_flags then
                (case val of
                   Some v \<Rightarrow> parse_value parse_float name v args fl
                 | None \<Rightarrow>
                     (case args of
                        [] \<Rightarrow> Inl (NeedsArgument name)
                      | v # args' \<Rightarrow> parse_value parse_float name v args' fl))
              else if name = ''help'' \<or> name = ''h'' then Inl HelpWanted
              else Inl (NotDefined name))"

lemma parse_one_shorter: "parse_one pf s args fl = Inr (fl', rest) \<Longrightarrow> length rest \<le> length args"
  by (auto simp: parse_one_def parse_value_def Let_def split: if_splits prod.splits option.splits list.splits)

text \<open>\<open>flag.FlagSet.Parse\<close>: the flags up to the first argument that is none, and the arguments from there on.\<close>

function parse_flags :: "(string \<Rightarrow> rate option) \<Rightarrow> string list \<Rightarrow> flags \<Rightarrow> usage_error + (flags \<times> string list)" where
  "parse_flags parse_float [] fl = Inr (fl, [])"
| "parse_flags parse_float (s # args) fl =
     (if length s < 2 \<or> hd s \<noteq> CHR ''-'' then Inr (fl, s # args)
      else if s = ''--'' then Inr (fl, args)
      else and_then (parse_one parse_float s args fl) (\<lambda>(fl', rest). parse_flags parse_float rest fl'))"
  by pat_completeness auto
termination
proof (relation "measure (\<lambda>(pf, args, fl). length args)", goal_cases)
  case (2 pf s args fl x fl' rest)
  then show ?case using parse_one_shorter [of pf s args fl fl' rest] by simp
qed simp

declare parse_flags.simps [simp del]

lemma parse_flags_shorter: "parse_flags pf args fl = Inr (fl', rest) \<Longrightarrow> length rest \<le> length args"
proof (induction pf args fl rule: parse_flags.induct)
  case (2 pf s args fl)
  show ?case
  proof (cases "length s < 2 \<or> hd s \<noteq> CHR ''-'' \<or> s = ''--''")
    case True
    with 2(2) show ?thesis by (subst (asm) parse_flags.simps) (auto split: if_splits)
  next
    case False
    then obtain fl1 rest1 where one: "parse_one pf s args fl = Inr (fl1, rest1)" "parse_flags pf rest1 fl1 = Inr (fl', rest)"
      using 2(2) by (subst (asm) parse_flags.simps) (auto simp: and_then_Inr)
    have "length rest \<le> length rest1" using 2(1) [OF _ _ one(1) refl one(2)] False by blast
    then show ?thesis using parse_one_shorter [OF one(1)] by simp
  qed
qed (simp add: parse_flags.simps)

text \<open>The loop of \<open>parse\<close>: flags may come before, between and after the positional arguments.\<close>

function parse_args :: "(string \<Rightarrow> rate option) \<Rightarrow> string list \<Rightarrow> flags \<Rightarrow> string list \<Rightarrow> usage_error + (flags \<times> string list)" where
  "parse_args parse_float args fl positional =
     and_then (parse_flags parse_float args fl) (\<lambda>(fl', rest).
       case rest of
         [] \<Rightarrow> Inr (fl', positional)
       | p # rest' \<Rightarrow> parse_args parse_float rest' fl' (positional @ [p]))"
  by pat_completeness auto
termination
proof (relation "measure (\<lambda>(pf, args, fl, pos). length args)", goal_cases)
  case (2 pf args fl pos x fl' rest p rest')
  then show ?case using parse_flags_shorter [of pf args fl fl' rest] by simp
qed simp

declare parse_args.simps [simp del]

definition ParseUint10 :: "string \<Rightarrow> uint64 option" where
  "ParseUint10 s =
     (if s = [] then None
      else case those (map dec_value s) of
             None \<Rightarrow> None
           | Some vs \<Rightarrow> if of_digits 10 vs < 2 ^ 64 then Some (of_nat (of_digits 10 vs)) else None)"

record command =
  C_name :: string
  C_epochID :: uint64
  C_finality :: finality
  C_flags :: flags

definition initial_flags :: flags where
  "initial_flags =
     \<lparr>F_rpc = [], F_finality = ''safe'', F_rate = DefaultCallsPerSecond, F_fresh = False, F_chain = False, F_artifacts = [],
      F_expect = None, F_json = False\<rparr>"

text \<open>The command and its arguments, once the flags are read.\<close>

definition check_command :: "flags \<Rightarrow> string list \<Rightarrow> usage_error + (string \<times> uint64)" where
  "check_command fl positional =
     (case positional of
        [] \<Rightarrow> Inl NoCommand
      | name # arguments \<Rightarrow>
          if name = ''epoch'' then
            (case arguments of
               [a] \<Rightarrow> (case ParseUint10 a of None \<Rightarrow> Inl (BadEpochID a) | Some i \<Rightarrow> Inr (name, i))
             | _ \<Rightarrow> Inl EpochTakesOne)
          else if name = ''latest'' \<or> name = ''sync'' then
            (if arguments \<noteq> [] then Inl (TakesNoArguments name)
             else if name = ''sync'' \<and> (F_chain fl \<or> F_artifacts fl \<noteq> []) then Inl SyncRecomputesNothing
             else if F_expect fl \<noteq> None then Inl (ExpectIsForEpoch name)
             else Inr (name, 0))
          else Inl (UnknownCommand name))"

definition parse :: "(string \<Rightarrow> rate option) \<Rightarrow> string list \<Rightarrow> usage_error + command" where
  "parse parse_float args =
     and_then (parse_args parse_float args initial_flags []) (\<lambda>(fl, positional).
     and_then (check_command fl positional) (\<lambda>(name, i).
       case ParseFinality (F_finality fl) of
         None \<Rightarrow> Inl (BadFinality (F_finality fl))
       | Some level \<Rightarrow>
           if F_rpc fl = [] then Inl NoRpc
           else if Rate_zero (F_rate fl) \<or> Rate_negative (F_rate fl) then Inl (NotARate (Rate_text (F_rate fl)))
           else Inr \<lparr>C_name = name, C_epochID = i, C_finality = level, C_flags = fl\<rparr>))"

section \<open>The Reader of a run\<close>

record url =
  U_Scheme :: string
  U_Host :: string

datatype config_error =
    NoEndpoints
  | NegativeRate string
  | BadURL nat
  | BadScheme nat string
  | NoHost nat string
  | NoTokenAddress
  | NoDistributorAddress

text \<open>\<open>parse_url\<close> is \<open>url.Parse\<close>; \<open>dial\<close> says what is at a URL.\<close>

definition newEndpoint :: "(string \<Rightarrow> url option) \<Rightarrow> (string \<Rightarrow> endpoint) \<Rightarrow> nat \<Rightarrow> string \<Rightarrow> config_error + endpoint" where
  "newEndpoint parse_url dial position raw =
     (case parse_url raw of
        None \<Rightarrow> Inl (BadURL position)
      | Some u \<Rightarrow>
          if U_Scheme u \<noteq> ''http'' \<and> U_Scheme u \<noteq> ''https'' then Inl (BadScheme position (U_Scheme u))
          else if U_Host u = [] then Inl (NoHost position raw)
          else Inr ((dial raw)\<lparr>E_label := ''endpoint '' @ dec position @ '' ('' @ U_Host u @ '')''\<rparr>))"

record config =
  Cfg_Endpoints :: "string list"
  Cfg_Token :: address
  Cfg_Distributor :: address
  Cfg_PonsFactory :: address
  Cfg_Rate :: rate

definition chain_New ::
  "(string \<Rightarrow> url option) \<Rightarrow> (string \<Rightarrow> endpoint) \<Rightarrow> (question \<Rightarrow> nat list) \<Rightarrow> config \<Rightarrow> config_error + reader" where
  "chain_New parse_url dial order cfg =
     (if Cfg_Endpoints cfg = [] then Inl NoEndpoints
      else if \<not> Rate_zero (Cfg_Rate cfg) \<and> Rate_negative (Cfg_Rate cfg) then Inl (NegativeRate (Rate_text (Cfg_Rate cfg)))
      else
        and_then (traverse (\<lambda>(i, raw). newEndpoint parse_url dial (i + 1) raw) (enumerate 0 (Cfg_Endpoints cfg))) (\<lambda>es.
          if Cfg_Token cfg = 0 then Inl NoTokenAddress
          else if Cfg_Distributor cfg = 0 then Inl NoDistributorAddress
          else Inr \<lparr>R_endpoints = es, R_token = Cfg_Token cfg, R_distributor = Cfg_Distributor cfg, R_factory = Cfg_PonsFactory cfg,
                    R_order = order\<rparr>))"

section \<open>A published bundle\<close>

record artifact_row =
  AR_Account :: address
  AR_Amounts :: amounts
  AR_TWAB :: int
  AR_MultBps :: int64

definition SetString10 :: "string \<Rightarrow> int option" where
  "SetString10 s =
     (let neg = (take 1 s = ''-''); ds = (if take 1 s = ''-'' \<or> take 1 s = ''+'' then drop 1 s else s)
      in if ds = [] then None
         else map_option (\<lambda>vs. if neg then - int (of_digits 10 vs) else int (of_digits 10 vs)) (those (map dec_value ds)))"

text \<open>An integer written as a string or as a number. A string is taken to be written without escapes.\<close>

definition to_decimal :: "json \<Rightarrow> int option" where
  "to_decimal j = (case j of JInt n \<Rightarrow> Some n | JStr s \<Rightarrow> SetString10 s | _ \<Rightarrow> None)"

text \<open>A Go array of five: what is missing is zero, and what is too many is dropped.\<close>

definition to_amounts :: "json \<Rightarrow> int list \<Rightarrow> int list option" where
  "to_amounts j old =
     (case j of
        JArr js \<Rightarrow> map_option (\<lambda>xs. xs @ replicate (5 - length xs) 0) (those (map to_decimal (take 5 js)))
      | JNull \<Rightarrow> Some old
      | _ \<Rightarrow> None)"

record row_fields =
  RF_account :: string
  RF_amounts :: "int list"
  RF_twab :: int
  RF_multBps :: int

definition row_member :: "string \<Rightarrow> json \<Rightarrow> row_fields \<Rightarrow> row_fields option" where
  "row_member k v r =
     (if k = ''account'' then map_option (\<lambda>s. r\<lparr>RF_account := s\<rparr>) (to_string v (RF_account r))
      else if k = ''amounts'' then map_option (\<lambda>xs. r\<lparr>RF_amounts := xs\<rparr>) (to_amounts v (RF_amounts r))
      else if k = ''twab'' then map_option (\<lambda>n. r\<lparr>RF_twab := n\<rparr>) (to_decimal v)
      else if k = ''multbps'' then map_option (\<lambda>n. r\<lparr>RF_multBps := n\<rparr>) (to_decimal v)
      else Some r)"

text \<open>A null in a tuple leaves its slot as it was; in an object a null decimal is refused.\<close>

definition tuple_slot :: "string \<Rightarrow> json \<Rightarrow> row_fields \<Rightarrow> row_fields option" where
  "tuple_slot k v r = (if v = JNull then Some r else row_member k v r)"

definition to_row :: "json \<Rightarrow> artifact_row option" where
  "to_row j =
     (let zero = \<lparr>RF_account = [], RF_amounts = replicate 5 0, RF_twab = 0, RF_multBps = 0\<rparr>;
          fields = (case j of
            JArr js \<Rightarrow>
              if length js \<noteq> 4 then None
              else Option.bind (tuple_slot ''account'' (js ! 0) zero) (\<lambda>r.
                   Option.bind (tuple_slot ''amounts'' (js ! 1) r) (\<lambda>r.
                   Option.bind (tuple_slot ''twab'' (js ! 2) r) (tuple_slot ''multbps'' (js ! 3))))
          | _ \<Rightarrow> to_struct row_member j zero)
      in Option.bind fields (\<lambda>r.
           case ParseAddress (RF_account r) of
             Inl e \<Rightarrow> None
           | Inr a \<Rightarrow>
               if in_i64 (RF_multBps r)
               then Some \<lparr>AR_Account = a, AR_Amounts = (\<lambda>t. Some (RF_amounts r ! token_index t)), AR_TWAB = RF_twab r, AR_MultBps = RF_multBps r\<rparr>
               else None))"

definition first_amount :: "amounts \<Rightarrow> amounts \<Rightarrow> (nat \<times> token) option" where
  "first_amount a b = List.find (\<lambda>(i, t). a t \<noteq> b t) (enumerate 0 tokens)"

definition diff_row :: "nat \<Rightarrow> artifact_row \<Rightarrow> epoch_row \<Rightarrow> string" where
  "diff_row i p r =
     (if AR_Account p \<noteq> ER_Account r then
        ''row '' @ dec i @ '': published account '' @ Address_String (AR_Account p) @ '', recomputed '' @ Address_String (ER_Account r)
      else case first_amount (AR_Amounts p) (ER_Amounts r) of
             Some (n, t) \<Rightarrow>
               ''row '' @ dec i @ '' ('' @ Address_String (AR_Account p) @ ''): amounts['' @ dec n @ ''] published '' @
               fmt_big (AR_Amounts p t) @ '', recomputed '' @ fmt_big (ER_Amounts r t)
           | None \<Rightarrow>
               if AR_TWAB p \<noteq> ER_TWAB r then
                 ''row '' @ dec i @ '' ('' @ Address_String (AR_Account p) @ ''): twab published '' @ dec_int (AR_TWAB p) @ '', recomputed '' @ dec_int (ER_TWAB r)
               else if AR_MultBps p \<noteq> ER_MultBps r then
                 ''row '' @ dec i @ '' ('' @ Address_String (AR_Account p) @ ''): multBps published '' @ dec_int (AR_MultBps p) @ '', recomputed '' @ dec_int (ER_MultBps r)
               else [])"

text \<open>The rows from index \<open>i\<close> on; \<open>np\<close> and \<open>nr\<close> are how many there are of each in all.\<close>

fun diff_rows :: "nat \<Rightarrow> nat \<Rightarrow> nat \<Rightarrow> artifact_row list \<Rightarrow> epoch_row list \<Rightarrow> string" where
  "diff_rows i np nr [] [] = []"
| "diff_rows i np nr [] (r # rs) =
     ''row '' @ dec i @ '': the bundle ends after '' @ dec np @ '' rows, and the Recompute has '' @ dec nr @ '' (next is '' @ Address_String (ER_Account r) @ '')''"
| "diff_rows i np nr (p # ps) [] =
     ''row '' @ dec i @ '' ('' @ Address_String (AR_Account p) @ ''): the Recompute ends after '' @ dec nr @ '' rows, and the bundle has '' @ dec np"
| "diff_rows i np nr (p # ps) (r # rs) =
     (let d = diff_row i p r in if d \<noteq> [] then d else diff_rows (i + 1) np nr ps rs)"

definition diffRows :: "artifact_row list \<Rightarrow> epoch_row list \<Rightarrow> string" where
  "diffRows published recomputed = diff_rows 0 (length published) (length recomputed) published recomputed"

definition diffRoot :: "hash \<Rightarrow> epoch_result \<Rightarrow> string" where
  "diffRoot published result =
     (if \<not> E_HasRoot result then ''root.txt is '' @ Hash_String published @ '', and the Recompute posts no Root''
      else if published \<noteq> E_Root result then ''root.txt is '' @ Hash_String published @ '', recomputed '' @ Hash_String (E_Root result)
      else [])"

section \<open>The environment of a run\<close>

datatype 'a file_read = Missing | Unread string | Holding 'a

datatype bundle_error =
    StatFailed string
  | AllocationsUnread string
  | AllocationsBad
  | RootUnread string
  | RootBad string

datatype run_error =
    RunNotPinned engine_error
  | RunConfig config_error
  | RunChain chain_error
  | OtherChain uint64 uint64
  | NoCacheHome
  | RunEngine engine_error
  | RunPanics

text \<open>
  What a run finds outside itself: the parsers of floats and URLs, what answers at a URL and in which order its goroutines
  finish, the variables of the process, the file of a Cache directory with its lock, the published bundle by its directory, and the words
  errors and repairs are told in.
\<close>

record environment =
  V_ParseFloat :: "string \<Rightarrow> rate option"
  V_ParseURL :: "string \<Rightarrow> url option"
  V_dial :: "string \<Rightarrow> endpoint"
  V_order :: "question \<Rightarrow> nat list"
  V_Getenv :: "string \<Rightarrow> string"
  V_file :: "string \<Rightarrow> byte list"
  V_held :: "nat \<Rightarrow> bool"
  V_Stat :: "string \<Rightarrow> string + bool"
  V_parent :: "string \<Rightarrow> string"
  V_allocations :: "string \<Rightarrow> string + json option"
  V_root :: "string \<Rightarrow> string file_read"
  V_bundle_words :: "bundle_error \<Rightarrow> string"
  V_words :: "run_error \<Rightarrow> string"
  V_repair_words :: "repair_note \<Rightarrow> string"

definition readAllocations :: "environment \<Rightarrow> string \<Rightarrow> bundle_error + artifact_row list" where
  "readAllocations env dir =
     (case V_allocations env dir of
        Inl e \<Rightarrow> Inl (AllocationsUnread e)
      | Inr content \<Rightarrow> (case Option.bind content (to_list to_row) of None \<Rightarrow> Inl AllocationsBad | Some rows \<Rightarrow> Inr rows))"

definition readRoot :: "environment \<Rightarrow> string \<Rightarrow> bundle_error + hash option" where
  "readRoot env dir =
     (case V_root env dir of
        Missing \<Rightarrow> Inr None
      | Unread e \<Rightarrow> Inl (RootUnread e)
      | Holding content \<Rightarrow>
          let text = TrimSpace content
          in (case hex_decode (if take 2 text = ''0x'' then drop 2 text else text) of
                None \<Rightarrow> Inl (RootBad text)
              | Some raw \<Rightarrow> if length raw \<noteq> 32 then Inl (RootBad text) else Inr (Some (bytes_hash raw))))"

definition diffBundle :: "environment \<Rightarrow> string \<Rightarrow> epoch_result \<Rightarrow> bundle_error + artifactsReport" where
  "diffBundle env path result =
     (case V_Stat env path of
        Inl e \<Rightarrow> Inl (StatFailed e)
      | Inr isDir \<Rightarrow>
          let dir = (if isDir then path else V_parent env path)
          in and_then (readAllocations env dir) (\<lambda>rows.
             and_then (readRoot env dir) (\<lambda>root.
               let d = diffRows rows (E_Allocations result)
               in Inr \<lparr>Ar_Path = dir, Ar_Rows = length rows,
                       Ar_Root = (case root of None \<Rightarrow> [] | Some h \<Rightarrow> Hash_String h),
                       Ar_Diff = (case root of None \<Rightarrow> d | Some h \<Rightarrow> if d = [] then diffRoot h result else d),
                       Ar_Error = []\<rparr>)))"

definition compareArtifacts :: "environment \<Rightarrow> string \<Rightarrow> epoch_result \<Rightarrow> artifactsReport" where
  "compareArtifacts env path result =
     (case diffBundle env path result of
        Inl e \<Rightarrow> \<lparr>Ar_Path = path, Ar_Rows = 0, Ar_Root = [], Ar_Diff = [], Ar_Error = V_bundle_words env e\<rparr>
      | Inr out \<Rightarrow> out)"

section \<open>One Epoch\<close>

definition assess :: "epoch_result \<Rightarrow> hash option \<Rightarrow> epochReport option" where
  "assess r expected =
     (let rc = \<lparr>Rc_HasRoot = E_HasRoot r, Rc_Root = E_Root r, Rc_Totals = E_Totals r, Rc_Holders = length (E_Allocations r),
                Rc_ExpectedCarryIn = E_ExpectedCarryIn r, Rc_CarryFrom = E_CarryFrom r\<rparr>;
          chainSide = (case E_Posted r of
            None \<Rightarrow> \<lparr>Po_HasRoot = False, Po_Skipped = E_Skipped r, Po_Root = 0, Po_Totals = (\<lambda>t. None), Po_Funded = E_Funded r, Po_CarryIn = (\<lambda>t. None)\<rparr>
          | Some p \<Rightarrow> \<lparr>Po_HasRoot = True, Po_Skipped = E_Skipped r, Po_Root = RP_Root p, Po_Totals = RP_Totals p, Po_Funded = E_Funded r, Po_CarryIn = RP_CarryIn p\<rparr>)
      in map_option (\<lambda>assessed.
           \<lparr>Ep_ID = E_EpochID r, Ep_Start = Start (E_Window r), Ep_End = End (E_Window r),
            Ep_EndBlock = map_option (\<lambda>b. (B_Number b, Hash_String (B_Hash b))) (E_EndBlock r),
            Ep_Holders = length (E_Allocations r),
            Ep_Recomputed =
              \<lparr>Rd_HasRoot = E_HasRoot r, Rd_Root = (if E_HasRoot r then Hash_String (E_Root r) else []), Rd_Totals = Decimals (E_Totals r),
               Rd_CarryOut = Decimals (E_CarryOut r), Rd_TotalWeight = dec_int (E_TotalWeight r), Rd_CarryIn = Decimals (E_CarryIn r)\<rparr>,
            Ep_Posted = map_option (\<lambda>p.
              \<lparr>PR_Root = Hash_String (RP_Root p), PR_Block = S_BlockNumber p, PR_Totals = Decimals (RP_Totals p), PR_Funded = Decimals (E_Funded r),
               PR_CarryIn = Decimals (RP_CarryIn p)\<rparr>) (E_Posted r),
            Ep_Expected = (case expected of None \<Rightarrow> [] | Some h \<Rightarrow> Hash_String h),
            Ep_Skipped = E_Skipped r, Ep_Assertions = As_Assertions assessed, Ep_Verdict = As_Verdict assessed, Ep_Reason = As_Reason assessed\<rparr>)
           (Assess rc chainSide expected))"

definition reportCache :: "environment \<Rightarrow> engine \<Rightarrow> report \<Rightarrow> report" where
  "reportCache env e rep =
     (case G_synced e of
        None \<Rightarrow> rep
      | Some st \<Rightarrow>
          rep\<lparr>Rp_Run := (Rp_Run rep)\<lparr>Run_Cache := Some
            \<lparr>CI_Dir = GS_Dir st, CI_Records = int (GS_Records st), CI_Through = GS_Through st, CI_Appended = int (GS_Appended st),
             CI_Reorg = map_option (\<lambda>r. \<lparr>Reorg_Block = Rg_Block r, Reorg_Dropped = int (Rg_Dropped r)\<rparr>) (GS_Reorg st),
             CI_Repaired = (case GS_Repaired st of None \<Rightarrow> [] | Some n \<Rightarrow> V_repair_words env n)\<rparr>\<rparr>\<rparr>)"

text \<open>The Expectation is for the last of the results.\<close>

definition assess_all :: "hash option \<Rightarrow> epoch_result list \<Rightarrow> epochReport list option" where
  "assess_all expect results =
     those (map (\<lambda>(i, r). assess r (if i = length results - 1 then expect else None)) (enumerate 0 results))"

definition recompute_epoch :: "keccak \<Rightarrow> flags \<Rightarrow> uint64 \<Rightarrow> epoch_result list engine_action" where
  "recompute_epoch k fl i =
     (if F_chain fl then Walk k i else follow (engine_Compute k i) (\<lambda>one. return_with [one]))"

text \<open>Results that are empty, of which the code would take the last, panic as a nil amount does.\<close>

definition verifier_epoch :: "keccak \<Rightarrow> environment \<Rightarrow> flags \<Rightarrow> uint64 \<Rightarrow> engine \<Rightarrow> report \<Rightarrow> engine \<times> report \<times> run_error option" where
  "verifier_epoch k env fl i e rep =
     (case recompute_epoch k fl i e of
        (e', Inl err) \<Rightarrow> (e', reportCache env e' rep, Some (RunEngine err))
      | (e', Inr results) \<Rightarrow>
          (case (if results = [] then None else assess_all (F_expect fl) results) of
             None \<Rightarrow> (e', reportCache env e' rep, Some RunPanics)
           | Some assessed \<Rightarrow>
               let rep = rep\<lparr>Rp_Epochs := Rp_Epochs rep @ assessed, Rp_Verdict := Some (Worst (map Ep_Verdict assessed))\<rparr>;
                   target = last (Rp_Epochs rep);
                   rep = (if Ep_Reason target \<noteq> [] then rep\<lparr>Rp_Reason := Ep_Reason target\<rparr> else rep);
                   rep = (if F_artifacts fl \<noteq> [] then rep\<lparr>Rp_Artifacts := Some (compareArtifacts env (F_artifacts fl) (last results))\<rparr> else rep)
               in (e', reportCache env e' rep, None)))"

definition verifier_sync :: "keccak \<Rightarrow> environment \<Rightarrow> engine \<Rightarrow> report \<Rightarrow> engine \<times> report \<times> run_error option" where
  "verifier_sync k env e rep =
     (case engine_Sync k e of (e', st, err) \<Rightarrow> (e', reportCache env e' rep, map_option RunEngine err))"

section \<open>A run\<close>

text \<open>\<open>execute\<close> in two steps: what comes before the command (the Reader, the tip and the Engine), and the command.\<close>

definition prepare :: "environment \<Rightarrow> deployment \<Rightarrow> command \<Rightarrow> report \<Rightarrow> (report \<times> run_error) + (report \<times> engine)" where
  "prepare env dep cmd rep =
     (case deployment_Check dep of
        Some err \<Rightarrow> Inl (rep, RunNotPinned err)
      | None \<Rightarrow>
          (case chain_New (V_ParseURL env) (V_dial env) (V_order env)
                  \<lparr>Cfg_Endpoints = F_rpc (C_flags cmd), Cfg_Token = D_Token dep, Cfg_Distributor = D_Distributor dep,
                   Cfg_PonsFactory = D_PonsFactory dep, Cfg_Rate = F_rate (C_flags cmd)\<rparr> of
             Inl err \<Rightarrow> Inl (rep, RunConfig err)
           | Inr reader \<Rightarrow>
               let rep = rep\<lparr>Rp_Run := (Rp_Run rep)\<lparr>Run_Endpoints := map E_label (R_endpoints reader)\<rparr>\<rparr>
               in (case ChainID reader of
                     Inl err \<Rightarrow> Inl (rep, RunChain err)
                   | Inr served \<Rightarrow>
                       if served \<noteq> D_ChainID dep then Inl (rep, OtherChain served (D_ChainID dep))
                       else
                         (case Head reader (C_finality cmd) of
                            Inl err \<Rightarrow> Inl (rep, RunChain err)
                          | Inr tp \<Rightarrow>
                              let rep = rep\<lparr>Rp_Run := (Rp_Run rep)\<lparr>Run_Tip := Some
                                    \<lparr>Tip_Number = B_Number (T_Block tp), Tip_Hash = Hash_String (B_Hash (T_Block tp)), Tip_Lag = T_Lag tp\<rparr>\<rparr>\<rparr>
                              in (case Dir (V_Getenv env) (D_ChainID dep) (D_Token dep) of
                                    None \<Rightarrow> Inl (rep, NoCacheHome)
                                  | Some dir \<Rightarrow>
                                      (case engine_New (Some reader) tp dir dep \<lparr>G_SyncChunk = 0, G_Fresh = F_fresh (C_flags cmd)\<rparr>
                                              (V_file env dir) (V_held env) of
                                         Inl err \<Rightarrow> Inl (rep, RunEngine err)
                                       | Inr e \<Rightarrow> Inr (rep, e)))))))"

definition perform :: "keccak \<Rightarrow> environment \<Rightarrow> command \<Rightarrow> report \<Rightarrow> engine \<Rightarrow> engine \<times> report \<times> run_error option" where
  "perform k env cmd rep e =
     (if C_name cmd = ''sync'' then verifier_sync k env e rep
      else if C_name cmd = ''latest'' then
        (case engine_Latest k e of
           (e', Inl err) \<Rightarrow> (e', rep, Some (RunEngine err))
         | (e', Inr newest) \<Rightarrow> verifier_epoch k env (C_flags cmd) newest e' rep)
      else verifier_epoch k env (C_flags cmd) (C_epochID cmd) e rep)"

definition execute :: "keccak \<Rightarrow> environment \<Rightarrow> deployment \<Rightarrow> command \<Rightarrow> report \<Rightarrow> engine option \<times> report \<times> run_error option" where
  "execute k env dep cmd rep =
     (case prepare env dep cmd rep of
        Inl (rep', err) \<Rightarrow> (None, rep', Some err)
      | Inr (rep', e) \<Rightarrow> apfst Some (perform k env cmd rep' e))"

text \<open>What is printed. A panic, which \<open>run\<close> does not catch, ends the process with status 2 and no report.\<close>

datatype printed = Silent | UsageText usage_error | Lines "string list" | Document doc

definition initial_report :: "deployment \<Rightarrow> command \<Rightarrow> report" where
  "initial_report dep cmd =
     \<lparr>Command = C_name cmd,
      Rp_Run = \<lparr>Run_ChainID = D_ChainID dep, Run_Distributor = Address_String (D_Distributor dep), Run_Token = Address_String (D_Token dep),
                Run_DevWallet = Address_String (D_DevWallet dep), Run_Finality = finality_tag (C_finality cmd),
                Run_Expected = (case F_expect (C_flags cmd) of None \<Rightarrow> [] | Some h \<Rightarrow> Hash_String h),
                Run_Endpoints = [], Run_CallsPerSecond = F_rate (C_flags cmd), Run_Tip = None, Run_Cache = None\<rparr>,
      Rp_Verdict = None, Rp_Reason = [], Rp_Epochs = [], Rp_Artifacts = None\<rparr>"

definition run_command :: "keccak \<Rightarrow> environment \<Rightarrow> deployment \<Rightarrow> command \<Rightarrow> report option" where
  "run_command k env dep cmd =
     (case execute k env dep cmd (initial_report dep cmd) of
        (e, rep, None) \<Rightarrow> Some rep
      | (e, rep, Some err) \<Rightarrow>
          if err = RunPanics then None else Some (rep\<lparr>Rp_Verdict := Some Indeterminate, Rp_Reason := V_words env err\<rparr>))"

definition verifier_run :: "keccak \<Rightarrow> environment \<Rightarrow> deployment \<Rightarrow> string list \<Rightarrow> printed \<times> nat" where
  "verifier_run k env dep args =
     (case parse (V_ParseFloat env) args of
        Inl err \<Rightarrow> (UsageText err, ExitCode Indeterminate)
      | Inr cmd \<Rightarrow>
          (case run_command k env dep cmd of
             None \<Rightarrow> (Silent, 2)
           | Some rep \<Rightarrow>
               let status = (case Rp_Verdict rep of None \<Rightarrow> 0 | Some v \<Rightarrow> ExitCode v)
               in if F_json (C_flags cmd)
                  then (case WriteJSON rep of None \<Rightarrow> (Silent, ExitCode Indeterminate) | Some d \<Rightarrow> (Document d, status))
                  else (Lines (Write rep), status)))"

section \<open>Exit codes\<close>

lemma reportCache_simps [simp]:
  "Rp_Verdict (reportCache env e rep) = Rp_Verdict rep" "Rp_Epochs (reportCache env e rep) = Rp_Epochs rep"
  "Rp_Artifacts (reportCache env e rep) = Rp_Artifacts rep" "Rp_Reason (reportCache env e rep) = Rp_Reason rep"
  by (simp_all add: reportCache_def split: option.split)

definition judged :: "command \<Rightarrow> report \<Rightarrow> bool" where
  "judged cmd rep \<longleftrightarrow>
     Rp_Verdict rep = (if C_name cmd = ''sync'' then None else Some (Worst (map Ep_Verdict (Rp_Epochs rep))))"

lemma verifier_epoch_judged:
  assumes "verifier_epoch k env fl i e rep = (e', rep', None)" "Rp_Epochs rep = []"
  shows "Rp_Verdict rep' = Some (Worst (map Ep_Verdict (Rp_Epochs rep')))"
  using assms by (auto simp: verifier_epoch_def Let_def split: prod.splits sum.splits option.splits)

lemma verifier_sync_judged: "verifier_sync k env e rep = (e', rep', None) \<Longrightarrow> Rp_Verdict rep' = Rp_Verdict rep"
  by (auto simp: verifier_sync_def split: prod.splits)

lemma prepare_blank:
  assumes "prepare env dep cmd rep = Inr (rep', e)"
  shows "Rp_Epochs rep' = Rp_Epochs rep \<and> Rp_Verdict rep' = Rp_Verdict rep"
  using assms by (auto simp: prepare_def Let_def split: option.splits sum.splits if_splits)

lemma perform_judged:
  assumes "perform k env cmd rep e = (e', rep', None)" "Rp_Epochs rep = []" "Rp_Verdict rep = None"
  shows "judged cmd rep'"
  using assms verifier_sync_judged [of k env e rep e' rep'] verifier_epoch_judged [of k env "C_flags cmd" _ _ rep e' rep']
  by (auto simp: perform_def judged_def split: if_splits prod.splits sum.splits)

lemma execute_judged:
  assumes "execute k env dep cmd (initial_report dep cmd) = (e, rep, None)"
  shows "judged cmd rep"
proof -
  obtain rep1 e1 e' where p: "prepare env dep cmd (initial_report dep cmd) = Inr (rep1, e1)" "perform k env cmd rep1 e1 = (e', rep, None)"
    using assms by (auto simp: execute_def apfst_def map_prod_def split: sum.splits prod.splits)
  have "Rp_Epochs rep1 = []" "Rp_Verdict rep1 = None" using prepare_blank [OF p(1)] by (simp_all add: initial_report_def)
  with perform_judged [OF p(2)] show ?thesis by blast
qed

text \<open>The rate a report prints is the one of the command line, whatever happens on the way.\<close>

abbreviation rate_of :: "report \<Rightarrow> rate" where
  "rate_of rep \<equiv> Run_CallsPerSecond (Rp_Run rep)"

lemma reportCache_rate [simp]: "rate_of (reportCache env e rep) = rate_of rep"
  by (simp add: reportCache_def split: option.split)

lemma prepare_rate: "prepare env dep cmd rep = Inl (rep', err) \<Longrightarrow> rate_of rep' = rate_of rep"
    "prepare env dep cmd rep = Inr (rep', e) \<Longrightarrow> rate_of rep' = rate_of rep"
  by (auto simp: prepare_def Let_def split: option.splits sum.splits if_splits)

lemma verifier_epoch_rate: "verifier_epoch k env fl i e rep = (e', rep', err) \<Longrightarrow> rate_of rep' = rate_of rep"
  by (auto simp: verifier_epoch_def Let_def split: prod.splits sum.splits option.splits)

lemma perform_rate: "perform k env cmd rep e = (e', rep', err) \<Longrightarrow> rate_of rep' = rate_of rep"
  by (auto simp: perform_def verifier_sync_def dest: verifier_epoch_rate split: if_splits prod.splits sum.splits)

lemma execute_rate:
  assumes "execute k env dep cmd rep = (e, rep', err)"
  shows "rate_of rep' = rate_of rep"
proof (cases "prepare env dep cmd rep")
  case (Inl a)
  then show ?thesis using assms prepare_rate(1) [of env dep cmd rep] by (cases a) (simp add: execute_def)
next
  case (Inr a)
  obtain rep1 e1 where a: "a = (rep1, e1)" by (cases a)
  obtain e2 rep2 err2 where p: "perform k env cmd rep1 e1 = (e2, rep2, err2)" by (metis prod_cases3)
  show ?thesis using assms Inr a p prepare_rate(2) [of env dep cmd rep] perform_rate [OF p] by (simp add: execute_def)
qed

text \<open>A run whose report is asked for as JSON and cannot be written as such.\<close>

definition unwritable :: "command \<Rightarrow> bool" where
  "unwritable cmd \<longleftrightarrow> F_json (C_flags cmd) \<and> Rate_json (F_rate (C_flags cmd)) = None"

lemma run_status:
  "snd (verifier_run k env dep args) =
    (case parse (V_ParseFloat env) args of
       Inl err \<Rightarrow> 2
     | Inr cmd \<Rightarrow>
         (case execute k env dep cmd (initial_report dep cmd) of
            (e, rep, Some err) \<Rightarrow> 2
          | (e, rep, None) \<Rightarrow>
              if unwritable cmd then 2 else if C_name cmd = ''sync'' then 0 else ExitCode (Worst (map Ep_Verdict (Rp_Epochs rep)))))"
proof (cases "parse (V_ParseFloat env) args")
  case (Inr cmd)
  obtain e rep err where x: "execute k env dep cmd (initial_report dep cmd) = (e, rep, err)" by (metis prod_cases3)
  have rate: "rate_of rep = F_rate (C_flags cmd)" using execute_rate [OF x] by (simp add: initial_report_def)
  show ?thesis
  proof (cases err)
    case None
    with x have "judged cmd rep" using execute_judged by blast
    then show ?thesis using Inr x None rate
      by (simp add: verifier_run_def run_command_def judged_def unwritable_def WriteJSON_def ExitCode_def Let_def split: option.split)
  next
    case (Some why)
    then show ?thesis using Inr x by (simp add: verifier_run_def run_command_def ExitCode_def Let_def split: option.split)
  qed
qed (simp add: verifier_run_def ExitCode_def)

text \<open>
  C15. The exit status. A command line that cannot be read, and a run that could not check (whatever stopped it: an endpoint, the Cache, an
  Epoch not closed, a panic), end with 2, and so does a run with \<open>--json\<close> whose rate is no number, whatever it found: there is no document.
  Otherwise a sync that completes ends with 0, and any other run with the status of the worst Verdict of the Epochs it reports.
\<close>

theorem exit_status:
  "snd (verifier_run k env dep args) =
    (case parse (V_ParseFloat env) args of
       Inl err \<Rightarrow> 2
     | Inr cmd \<Rightarrow>
         (case execute k env dep cmd (initial_report dep cmd) of
            (e, rep, Some err) \<Rightarrow> 2
          | (e, rep, None) \<Rightarrow>
              if unwritable cmd then 2 else if C_name cmd = ''sync'' then 0 else ExitCode (Worst (map Ep_Verdict (Rp_Epochs rep)))))"
  by (rule run_status)

section \<open>The bundle\<close>

definition same_row :: "artifact_row \<Rightarrow> epoch_row \<Rightarrow> bool" where
  "same_row p r \<longleftrightarrow> AR_Account p = ER_Account r \<and> AR_Amounts p = ER_Amounts r \<and> AR_TWAB p = ER_TWAB r \<and> AR_MultBps p = ER_MultBps r"

lemma first_amount_None: "first_amount a b = None \<longleftrightarrow> a = b"
  by (auto simp: first_amount_def find_None_iff fun_eq_iff all_tokens tokens_def)

lemma diff_row_empty: "diff_row i p r = [] \<longleftrightarrow> same_row p r"
proof (cases "first_amount (AR_Amounts p) (ER_Amounts r)")
  case None
  then have "AR_Amounts p = ER_Amounts r" by (simp only: first_amount_None)
  then show ?thesis unfolding diff_row_def same_row_def None by auto
next
  case (Some x)
  then have "AR_Amounts p \<noteq> ER_Amounts r" by (metis first_amount_None option.distinct(1))
  with Some show ?thesis by (cases x) (simp add: diff_row_def same_row_def)
qed

text \<open>
  The comparison with a published bundle reports no difference exactly when the rows are the Recompute's, in order and number,
  with account, the five amounts, the average balance and the multiplier of each.
\<close>

theorem diffRows_exact: "diffRows published recomputed = [] \<longleftrightarrow> list_all2 same_row published recomputed"
proof -
  have "diff_rows i np nr ps rs = [] \<longleftrightarrow> list_all2 same_row ps rs" for i np nr ps rs
    by (induction i np nr ps rs rule: diff_rows.induct) (simp_all add: Let_def diff_row_empty)
  then show ?thesis by (simp add: diffRows_def)
qed

definition without_bundle :: "report \<Rightarrow> report" where "without_bundle rep = rep\<lparr>Rp_Artifacts := None\<rparr>"

definition other_bundle :: "command \<Rightarrow> string \<Rightarrow> command" where
  "other_bundle cmd path = cmd\<lparr>C_flags := (C_flags cmd)\<lparr>F_artifacts := path\<rparr>\<rparr>"

text \<open>
  C16. A bundle is never an input. Whatever is published, and whether it can be read or not, and with or without \<open>--artifacts\<close>: the
  run reports the same, its own section apart.
\<close>

theorem bundle_never_judges:
  "map_option without_bundle (run_command k env dep cmd) =
   map_option without_bundle (run_command k
     (env\<lparr>V_Stat := st, V_parent := up, V_allocations := rows, V_root := root, V_bundle_words := words\<rparr>) dep (other_bundle cmd path))"
  (is "_ = map_option without_bundle (run_command k ?env dep ?cmd)")
proof -
  have same [simp]: "C_name ?cmd = C_name cmd" "C_epochID ?cmd = C_epochID cmd" "C_finality ?cmd = C_finality cmd"
    "F_rpc (C_flags ?cmd) = F_rpc (C_flags cmd)" "F_rate (C_flags ?cmd) = F_rate (C_flags cmd)" "F_fresh (C_flags ?cmd) = F_fresh (C_flags cmd)"
    "F_expect (C_flags ?cmd) = F_expect (C_flags cmd)" "recompute_epoch k (C_flags ?cmd) = recompute_epoch k (C_flags cmd)"
    by (auto simp: other_bundle_def recompute_epoch_def fun_eq_iff)
  have start: "initial_report dep ?cmd = initial_report dep cmd" by (simp add: initial_report_def)
  have outside: "V_ParseURL ?env = V_ParseURL env" "V_dial ?env = V_dial env" "V_order ?env = V_order env" "V_Getenv ?env = V_Getenv env"
    "V_file ?env = V_file env" "V_held ?env = V_held env" "V_repair_words ?env = V_repair_words env" "V_words ?env = V_words env" by simp_all
  have prep: "prepare ?env dep ?cmd rep = prepare env dep cmd rep" for rep
    unfolding prepare_def same outside ..
  have cache: "reportCache ?env e rep = reportCache env e rep" for e rep unfolding reportCache_def outside ..
  have hide: "without_bundle (reportCache env e rep) = reportCache env e (without_bundle rep)" for e rep
    by (simp add: reportCache_def without_bundle_def split: option.split)
  have bare: "without_bundle (rep\<lparr>Rp_Artifacts := x\<rparr>) = without_bundle rep" for rep x by (simp add: without_bundle_def)
  have ep: "verifier_epoch k env (C_flags cmd) i e rep = (e', rep1, err) \<Longrightarrow>
      \<exists>rep2. verifier_epoch k ?env (C_flags ?cmd) i e rep = (e', rep2, err) \<and> without_bundle rep2 = without_bundle rep1" for i e rep e' rep1 err
    by (auto simp: verifier_epoch_def Let_def cache hide bare split: prod.splits sum.splits option.splits if_splits)
  have sy: "verifier_sync k ?env e rep = verifier_sync k env e rep" for e rep by (simp add: verifier_sync_def cache)
  have pf: "perform k env cmd rep e = (e', rep1, err) \<Longrightarrow>
      \<exists>rep2. perform k ?env ?cmd rep e = (e', rep2, err) \<and> without_bundle rep2 = without_bundle rep1" for rep e e' rep1 err
    using ep by (auto simp: perform_def sy split: if_splits prod.splits sum.splits)
  obtain e rep err where x: "execute k env dep cmd (initial_report dep cmd) = (e, rep, err)" by (metis prod_cases3)
  then obtain rep2 where "execute k ?env dep ?cmd (initial_report dep ?cmd) = (e, rep2, err)" "without_bundle rep2 = without_bundle rep"
    using pf by (fastforce simp: execute_def start prep apfst_def map_prod_def split: sum.splits prod.splits)
  moreover have "without_bundle (rep\<lparr>Rp_Verdict := v, Rp_Reason := w\<rparr>) = (without_bundle rep)\<lparr>Rp_Verdict := v, Rp_Reason := w\<rparr>" for rep v w
    by (simp add: without_bundle_def)
  ultimately show ?thesis using x by (simp add: run_command_def split: option.split)
qed

section \<open>Flags and arguments\<close>

definition plain :: "string \<Rightarrow> bool" where
  "plain p \<longleftrightarrow> length p < 2 \<or> hd p \<noteq> CHR ''-''"

lemma parse_one_append: "parse_one pf s args fl = Inr (fl', rest) \<Longrightarrow> parse_one pf s (args @ tail) fl = Inr (fl', rest @ tail)"
  by (auto simp: parse_one_def parse_value_def Let_def split: if_splits prod.splits option.splits list.splits)

lemma parse_one_rest: "parse_one pf s args fl = Inr (fl', rest) \<Longrightarrow> set rest \<subseteq> set args"
  by (auto simp: parse_one_def parse_value_def Let_def split: if_splits prod.splits option.splits list.splits)

lemma parse_flags_append:
  "parse_flags pf fs fl = Inr (fl', []) \<Longrightarrow> ''--'' \<notin> set fs \<Longrightarrow> parse_flags pf (fs @ tail) fl = parse_flags pf tail fl'"
proof (induction pf fs fl rule: parse_flags.induct)
  case (2 pf s args fl)
  have flag: "\<not> (length s < 2 \<or> hd s \<noteq> CHR ''-'')" "s \<noteq> ''--''" using 2(2,3) by (auto simp: parse_flags.simps split: if_splits)
  then obtain fl1 rest where one: "parse_one pf s args fl = Inr (fl1, rest)" "parse_flags pf rest fl1 = Inr (fl', [])"
    using 2(2) by (auto simp: parse_flags.simps and_then_Inr split: if_splits)
  have "''--'' \<notin> set rest" using parse_one_rest [OF one(1)] 2(3) by auto
  from 2(1) [OF flag one(1) refl one(2) this] show ?case
    using flag by (simp add: parse_flags.simps(2) [of pf s] parse_one_append [OF one(1)])
qed (simp add: parse_flags.simps)

lemma parse_args_flags:
  "parse_flags pf fs fl = Inr (fl', []) \<Longrightarrow> ''--'' \<notin> set fs \<Longrightarrow> parse_args pf (fs @ tail) fl pos = parse_args pf tail fl' pos"
  by (subst (1 2) parse_args.simps) (simp add: parse_flags_append)

lemma parse_args_plain: "\<forall>p \<in> set ps. plain p \<Longrightarrow> parse_args pf (ps @ tail) fl pos = parse_args pf tail fl (pos @ ps)"
proof (induction ps arbitrary: pos)
  case (Cons p ps)
  have "parse_flags pf (p # ps @ tail) fl = Inr (fl, p # ps @ tail)"
    using Cons.prems by (simp add: parse_flags.simps plain_def)
  then have "parse_args pf ((p # ps) @ tail) fl pos = parse_args pf (ps @ tail) fl (pos @ [p])"
    by (subst parse_args.simps) simp
  with Cons show ?case by simp
qed simp

text \<open>
  Flags may stand anywhere. Complete flags after the command and its arguments are read as if they stood before them.
\<close>

theorem flags_anywhere:
  assumes "parse_flags pf fs initial_flags = Inr (fl, [])" "parse_flags pf gs fl = Inr (fl', [])" "''--'' \<notin> set (fs @ gs)" "\<forall>p \<in> set ps. plain p"
  shows "parse pf (fs @ ps @ gs) = parse pf (fs @ gs @ ps)"
proof -
  have "parse_args pf (fs @ ps @ gs) initial_flags [] = parse_args pf gs fl ps"
    using parse_args_flags [OF assms(1)] parse_args_plain [OF assms(4)] assms(3) by simp
  also have "\<dots> = parse_args pf [] fl' ps" using parse_args_flags [OF assms(2), of "[]"] assms(3) by simp
  also have "\<dots> = parse_args pf (fs @ gs @ ps) initial_flags []"
    using parse_args_flags [OF assms(1)] parse_args_flags [OF assms(2)] parse_args_plain [OF assms(4), of pf "[]"] assms(3) by simp
  finally show ?thesis by (simp add: parse_def)
qed

definition demo_args :: "string list" where "demo_args = [''epoch'', ''11'']"

theorem flags_anywhere_witness:
  "parse (\<lambda>s. None) ([''-rpc'', ''http://node''] @ demo_args @ [''--json'', ''--finality=latest'']) =
   parse (\<lambda>s. None) ([''-rpc'', ''http://node''] @ [''--json'', ''--finality=latest''] @ demo_args) \<and>
   (\<exists>cmd. parse (\<lambda>s. None) ([''-rpc'', ''http://node''] @ [''--json'', ''--finality=latest''] @ demo_args) = Inr cmd \<and>
      C_epochID cmd = 11 \<and> C_finality cmd = Latest \<and> F_json (C_flags cmd))"
proof
  let ?fs = "[''-rpc'', ''http://node'']" and ?gs = "[''--json'', ''--finality=latest'']"
  let ?fl = "initial_flags\<lparr>F_rpc := [''http://node'']\<rparr>" and ?pf = "\<lambda>s. None :: rate option"
  have a: "parse_flags ?pf ?fs initial_flags = Inr (?fl, [])"
    by code_simp
  have b: "parse_flags ?pf ?gs ?fl = Inr (?fl\<lparr>F_json := True, F_finality := ''latest''\<rparr>, [])"
    by code_simp
  have p: "\<forall>p \<in> set demo_args. plain p" by (simp add: demo_args_def plain_def)
  show "parse ?pf (?fs @ demo_args @ ?gs) = parse ?pf (?fs @ ?gs @ demo_args)"
    by (rule flags_anywhere [OF a b _ p]) simp
  have "parse_args ?pf (?fs @ ?gs @ demo_args) initial_flags [] = parse_args ?pf demo_args (?fl\<lparr>F_json := True, F_finality := ''latest''\<rparr>) []"
    using parse_args_flags [OF a, of "?gs @ demo_args"] parse_args_flags [OF b, of demo_args] by simp
  also have "\<dots> = Inr (?fl\<lparr>F_json := True, F_finality := ''latest''\<rparr>, demo_args)"
    using parse_args_plain [OF p, of ?pf "[]"] by (simp add: parse_args.simps [of _ "[]"] parse_flags.simps)
  finally show "\<exists>cmd. parse ?pf (?fs @ ?gs @ demo_args) = Inr cmd \<and> C_epochID cmd = 11 \<and> C_finality cmd = Latest \<and> F_json (C_flags cmd)"
    by (simp add: parse_def demo_args_def check_command_def ParseUint10_def dec_value_def of_digits_def ParseFinality_def initial_flags_def
        DefaultCallsPerSecond_def)
qed

section \<open>What a command line amounts to\<close>

definition command_ok :: "command \<Rightarrow> bool" where
  "command_ok cmd \<longleftrightarrow>
     C_name cmd \<in> {''epoch'', ''latest'', ''sync''} \<and>
     (if C_name cmd = ''epoch'' then F_expect (C_flags cmd) \<noteq> Some 0 else C_epochID cmd = 0 \<and> F_expect (C_flags cmd) = None) \<and>
     (C_name cmd = ''sync'' \<longrightarrow> \<not> F_chain (C_flags cmd) \<and> F_artifacts (C_flags cmd) = []) \<and>
     ParseFinality (F_finality (C_flags cmd)) = Some (C_finality cmd) \<and> F_rpc (C_flags cmd) \<noteq> [] \<and>
     \<not> Rate_zero (F_rate (C_flags cmd)) \<and> \<not> Rate_negative (F_rate (C_flags cmd))"

lemma parse_one_expect:
  "parse_one pf s args fl = Inr (fl', rest) \<Longrightarrow> F_expect fl \<noteq> Some 0 \<Longrightarrow> F_expect fl' \<noteq> Some 0"
  by (auto simp: parse_one_def parse_value_def set_value_def set_bool_def Let_def split: if_splits prod.splits option.splits list.splits sum.splits)

lemma parse_flags_expect:
  "parse_flags pf args fl = Inr (fl', rest) \<Longrightarrow> F_expect fl \<noteq> Some 0 \<Longrightarrow> F_expect fl' \<noteq> Some 0"
proof (induction pf args fl rule: parse_flags.induct)
  case (2 pf s args fl)
  show ?case
  proof (cases "length s < 2 \<or> hd s \<noteq> CHR ''-'' \<or> s = ''--''")
    case True
    with 2(2,3) show ?thesis by (subst (asm) parse_flags.simps) (auto split: if_splits)
  next
    case False
    then obtain fl1 rest1 where one: "parse_one pf s args fl = Inr (fl1, rest1)" "parse_flags pf rest1 fl1 = Inr (fl', rest)"
      using 2(2) by (subst (asm) parse_flags.simps) (auto simp: and_then_Inr)
    have "F_expect fl1 \<noteq> Some 0" by (rule parse_one_expect [OF one(1) 2(3)])
    with 2(1) [OF _ _ one(1) refl one(2)] False show ?thesis by blast
  qed
qed (simp add: parse_flags.simps)

lemma parse_args_expect:
  "parse_args pf args fl pos = Inr (fl', pos') \<Longrightarrow> F_expect fl \<noteq> Some 0 \<Longrightarrow> F_expect fl' \<noteq> Some 0"
proof (induction pf args fl pos rule: parse_args.induct)
  case (1 pf args fl pos)
  obtain fl1 rest where one: "parse_flags pf args fl = Inr (fl1, rest)"
    "(case rest of [] \<Rightarrow> Inr (fl1, pos) | p # rest' \<Rightarrow> parse_args pf rest' fl1 (pos @ [p])) = Inr (fl', pos')"
    using 1(2) by (subst (asm) parse_args.simps) (auto simp: and_then_Inr)
  have fl1: "F_expect fl1 \<noteq> Some 0" by (rule parse_flags_expect [OF one(1) 1(3)])
  show ?case
  proof (cases rest)
    case Nil
    then show ?thesis using one(2) fl1 by simp
  next
    case (Cons p rest')
    with 1(1) [OF one(1) refl Cons _ fl1] one(2) show ?thesis by simp
  qed
qed

text \<open>
  C17. What is accepted as a command line. A command that parses is one of the three, with an Epoch and an Expectation where it takes one and
  nowhere else, never the zero hash for a Root; a sync has nothing of a Recompute; the finality is one that is known, there is an
  endpoint, and the rate is neither zero nor negative: what the Reader refuses for want of an endpoint or of a rate, and what it
  would replace by its default, cannot come from a command line.
\<close>

theorem parse_typed:
  assumes "parse pf args = Inr cmd"
  shows "command_ok cmd \<and> prepare env dep cmd rep \<noteq> Inl (rep', RunConfig NoEndpoints) \<and>
    prepare env dep cmd rep \<noteq> Inl (rep', RunConfig (NegativeRate s))"
proof -
  obtain fl pos where p: "parse_args pf args initial_flags [] = Inr (fl, pos)" "check_command fl pos = Inr (C_name cmd, C_epochID cmd)"
    "ParseFinality (F_finality fl) = Some (C_finality cmd)" "F_rpc fl \<noteq> []" "\<not> Rate_zero (F_rate fl)" "\<not> Rate_negative (F_rate fl)" "C_flags cmd = fl"
    using assms by (auto simp: parse_def and_then_Inr split: option.splits if_splits)
  have "F_expect fl \<noteq> Some 0" using parse_args_expect [OF p(1)] by (simp add: initial_flags_def)
  with p have ok: "command_ok cmd"
    by (auto simp: command_ok_def check_command_def split: list.splits if_splits option.splits)
  have "newEndpoint parse_url dial n raw \<noteq> Inl NoEndpoints \<and> newEndpoint parse_url dial n raw \<noteq> Inl (NegativeRate s)" for parse_url dial n raw
    by (simp add: newEndpoint_def split: option.split)
  then have dialled: "traverse (\<lambda>(i, raw). newEndpoint parse_url dial (i + 1) raw) xs \<notin> {Inl NoEndpoints, Inl (NegativeRate s)}" for parse_url dial xs
    by (induction xs) (auto simp: and_then_def split: sum.splits)
  have "chain_New (V_ParseURL env) (V_dial env) (V_order env) cfg \<notin> {Inl NoEndpoints, Inl (NegativeRate s)}"
    if "Cfg_Endpoints cfg = F_rpc fl" "Cfg_Rate cfg = F_rate fl" for cfg
    using p(4,6) that dialled [of "V_ParseURL env" "V_dial env" "enumerate 0 (F_rpc fl)"]
    by (auto simp: chain_New_def and_then_def split: sum.splits)
  then show ?thesis using ok p(7) by (auto simp: prepare_def Let_def split: option.splits sum.splits if_splits)
qed

theorem parse_typed_witness:
  "\<exists>cmd. parse (\<lambda>s. None) ([''-rpc'', ''http://node''] @ demo_args) = Inr cmd \<and> command_ok cmd"
proof -
  let ?fl = "initial_flags\<lparr>F_rpc := [''http://node'']\<rparr>" and ?pf = "\<lambda>s. None :: rate option"
  have a: "parse_flags ?pf [''-rpc'', ''http://node''] initial_flags = Inr (?fl, [])" by code_simp
  have p: "\<forall>p \<in> set demo_args. plain p" by (simp add: demo_args_def plain_def)
  have "parse_args ?pf ([''-rpc'', ''http://node''] @ demo_args) initial_flags [] = Inr (?fl, demo_args)"
    using parse_args_flags [OF a, of demo_args] parse_args_plain [OF p, of ?pf "[]"]
    by (simp add: parse_args.simps [of _ "[]"] parse_flags.simps)
  then have "\<exists>cmd. parse ?pf ([''-rpc'', ''http://node''] @ demo_args) = Inr cmd"
    by (simp add: parse_def demo_args_def check_command_def ParseUint10_def dec_value_def of_digits_def ParseFinality_def initial_flags_def
        DefaultCallsPerSecond_def)
  then obtain cmd where "parse ?pf ([''-rpc'', ''http://node''] @ demo_args) = Inr cmd" by blast
  with parse_typed [OF this] show ?thesis by blast
qed

end
