(* ===== verification/Panics.thy ===== *)
theory Panics
  imports Verifier
begin

text \<open>
  A run never panics. The code adds, compares and prints \<open>*big.Int\<close>s without a nil check, divides by a total weight and takes the last of
  its results; each of these is a value of the model where it would panic. Shown here: none is reached, whatever the
  endpoints, the Cache file and the command line.

  The proof follows the operations of the Engine with one invariant, that no ledger in the book has a nil amount.
\<close>

section \<open>Triples\<close>

text \<open>
  \<open>yields I E m Q\<close>: from any state with the invariant \<open>I\<close>, \<open>m\<close> keeps it, and it either fails with an error of \<open>E\<close> or returns a
  value of \<open>Q\<close>.
\<close>

definition yields :: "('s \<Rightarrow> bool) \<Rightarrow> ('e \<Rightarrow> bool) \<Rightarrow> ('s, 'e, 'a) action \<Rightarrow> ('a \<Rightarrow> bool) \<Rightarrow> bool" where
  "yields I E m Q \<longleftrightarrow> (\<forall>s. I s \<longrightarrow> I (fst (m s)) \<and> (case snd (m s) of Inl e \<Rightarrow> E e | Inr a \<Rightarrow> Q a))"

named_theorems yields_rules "rules for triples of actions"

lemma yields_return [yields_rules]: "Q a \<Longrightarrow> yields I E (return_with a) Q"
  by (simp add: yields_def)

lemma yields_fail [yields_rules]: "E e \<Longrightarrow> yields I E (fail_with e) Q"
  by (simp add: yields_def)

lemma yields_reads: "(\<And>s. I s \<Longrightarrow> case f s of Inl e \<Rightarrow> E e | Inr a \<Rightarrow> Q a) \<Longrightarrow> yields I E (reads f) Q"
  by (simp add: yields_def)

lemma yields_follow:
  assumes "yields I E m P" "\<And>a. P a \<Longrightarrow> yields I E (f a) Q"
  shows "yields I E (follow m f) Q"
  unfolding yields_def
proof (intro allI impI)
  fix s
  assume s: "I s"
  obtain t out where m: "m s = (t, out)" by (cases "m s")
  have t: "I t" "case out of Inl e \<Rightarrow> E e | Inr a \<Rightarrow> P a" using assms(1) s m by (auto simp: yields_def)
  show "I (fst (follow m f s)) \<and> (case snd (follow m f s) of Inl e \<Rightarrow> E e | Inr a \<Rightarrow> Q a)"
  proof (cases out)
    case (Inl e)
    with m t show ?thesis by simp
  next
    case (Inr a)
    with m t assms(2) [of a] show ?thesis by (simp add: yields_def)
  qed
qed

lemma yields_if [yields_rules]: "(b \<Longrightarrow> yields I E m Q) \<Longrightarrow> (\<not> b \<Longrightarrow> yields I E m' Q) \<Longrightarrow> yields I E (if b then m else m') Q"
  by simp

lemma yields_state: "(\<And>s. I s \<Longrightarrow> yields I E (m s) Q) \<Longrightarrow> yields I E (\<lambda>s. m s s) Q"
  by (simp add: yields_def)

lemma yields_weaken: "yields I E m P \<Longrightarrow> (\<And>a. P a \<Longrightarrow> Q a) \<Longrightarrow> yields I E m Q"
  by (auto simp: yields_def split: sum.splits)

lemma yields_result: "yields I E m Q \<Longrightarrow> I s \<Longrightarrow> m s = (t, out) \<Longrightarrow> I t \<and> (case out of Inl e \<Rightarrow> E e | Inr a \<Rightarrow> Q a)"
  by (metis fst_conv snd_conv yields_def)

section \<open>No nil amount\<close>

text \<open>The errors that stand for a panic of the program: adding a nil amount, dividing by zero.\<close>

definition survives :: "engine_error \<Rightarrow> bool" where
  "survives err \<longleftrightarrow> err \<noteq> NilAmount \<and> err \<noteq> AllocateFailed DivisionByZero"

lemma survives_simps [simp]:
  "survives (ChainFailed e)" "survives (Predates a b)" "survives (RootAboveTip i f a b)" "survives (RootNotLogged i h a b)"
  "survives (RootDiffers i h a b h')" "survives (NoRootPosted f)" "survives (ReplayFailed w)" "survives (CacheFailed c)"
  "survives (SyncFailed s)" "survives (EachFailed x)"
  by (simp_all add: survives_def)

text \<open>What the memo of an Engine and a log may carry.\<close>

definition book_ok :: "engine \<Rightarrow> bool" where
  "book_ok e \<longleftrightarrow> (\<forall>i l. G_ledgers e i = Some l \<longrightarrow> present (L_Funded l))"

definition log_present :: "rootPosted \<Rightarrow> bool" where
  "log_present p \<longleftrightarrow> present (RP_Totals p) \<and> present (RP_CarryIn p)"

definition result_present :: "epoch_result \<Rightarrow> bool" where
  "result_present r \<longleftrightarrow>
     present (E_Funded r) \<and> present (E_Totals r) \<and> present (E_CarryOut r) \<and> present (E_ExpectedCarryIn r) \<and> present (E_CarryIn r) \<and>
     pred_option log_present (E_Posted r)"

abbreviation engine_yields :: "'a engine_action \<Rightarrow> ('a \<Rightarrow> bool) \<Rightarrow> bool" where
  "engine_yields \<equiv> yields book_ok survives"

lemma amounts_present: "amounts_ok a \<Longrightarrow> present a"
  by (auto simp: amounts_ok_def amount_ok_def present_def all_tokens split: option.splits)

lemma LedgerAt_present: "LedgerAt k r kd i b = Inr l \<Longrightarrow> present (L_Funded l)"
  by (auto simp: LedgerAt_def and_then_Inr decodeLedger_iff ledger_fields_ok_def amounts_present)

lemma Roots_present: "Roots k r a b = Inr ps \<Longrightarrow> p \<in> set ps \<Longrightarrow> log_present p"
proof -
  assume "Roots k r a b = Inr ps" and p: "p \<in> set ps"
  then obtain ls qs where "traverse (decodeRootPosted k) ls = Inr qs" "stamp r qs = Inr ps" by (auto simp: Roots_def and_then_Inr)
  then obtain l q where "decodeRootPosted k l = Inr q" "RP_Totals p = RP_Totals q" "RP_CarryIn p = RP_CarryIn q"
    using p by (auto simp: stamp_def and_then_Inr traverse_Inr list_all2_conv_all_nth in_set_conv_nth)
  then show ?thesis by (simp add: decodeRootPosted_iff log_present_def amounts_present)
qed

lemma book_ledger_yields: "engine_yields (book_ledger k i) (\<lambda>l. present (L_Funded l))"
  by (auto simp: yields_def book_ledger_def book_ok_def LedgerAt_present split: option.splits sum.splits)

lemma add_amounts_present: "present a \<Longrightarrow> present b \<Longrightarrow> \<exists>c. add_amounts a b = Inr c \<and> present c"
  by (auto simp: add_amounts_def present_def)

lemma addFunding_yields: "present carry \<Longrightarrow> engine_yields (addFunding k carry i) present"
  unfolding addFunding_def
  by (rule yields_follow [OF book_ledger_yields], rule yields_reads) (auto dest: add_amounts_present [of carry])

lemma stands_yields: "engine_yields (stands k p) (\<lambda>_. True)"
  unfolding stands_def by (rule yields_follow [OF book_ledger_yields]) (simp add: yields_return)

lemma chain_survives: "with_error ChainFailed x = Inl e \<Longrightarrow> survives e"
  by (cases x) auto

lemma Roots_yields: "engine_yields (engine_Roots k a b) (\<lambda>ps. \<forall>p \<in> set ps. log_present p)"
  unfolding engine_Roots_def by (rule yields_reads) (auto simp: Roots_present chain_survives split: sum.split)

lemma deployEpoch_yields: "engine_yields deployEpoch (\<lambda>_. True)"
  by (auto simp: yields_def deployEpoch_def book_ok_def Let_def split: option.splits sum.splits)

lemma end_block_yields: "engine_yields (end_block i) (\<lambda>_. True)"
  unfolding end_block_def by (rule yields_reads) (simp add: chain_survives split: sum.split)

lemma standingRoot_yields: "engine_yields (standingRoot k i a b) (pred_option log_present)"
proof -
  have found: "log_present p" if "List.find f (rev roots) = Some p" "\<forall>p \<in> set roots. log_present p" for f roots p
    using find_member [OF that(1)] that(2) by simp
  have above: "engine_yields (\<lambda>e. (e, Inl (RootAboveTip i (T_Finality (G_tip e)) b (a - 1)))) (pred_option log_present)"
    by (simp add: yields_def)
  show ?thesis
    unfolding standingRoot_def
    by (rule yields_follow [OF book_ledger_yields])
      (auto intro!: yields_rules above yields_follow [OF Roots_yields] split: option.split, metis found)
qed

text \<open>The search backwards, whatever the caller wants of a log.\<close>

lemma want_loop_yields:
  assumes "\<And>b p. yields I E (want b p) (\<lambda>_. True)" "\<forall>p \<in> set ps. P p"
  shows "yields I E (want_loop want ps b) (\<lambda>(b', found). pred_option P found)"
  using assms(2)
proof (induction ps arbitrary: b)
  case (Cons p ps)
  then have "yields I E (if ok then return_with (b', Some p) else want_loop want ps b') (\<lambda>(b', found). pred_option P found)" for b' ok
    by (intro yields_if) (auto intro: yields_return)
  then show ?case by (auto intro: yields_follow [OF assms(1)])
qed (simp add: yields_return)

lemma search_pages_yields:
  assumes want: "\<And>b p. yields I E (want b p) (\<lambda>_. True)" and roots: "\<And>a b. yields I E (engine_Roots k a b) (\<lambda>ps. \<forall>p \<in> set ps. P p)"
  shows "yields I E (search_pages k want fl hi span b) (pred_option P)"
proof (induction "unat hi" arbitrary: hi span b rule: less_induct)
  case less
  define lo where "lo = page_start fl hi span"
  have "yields I E (\<lambda>e. if lo = fl then (e, Inr None) else search_pages k want fl (lo - 1) s b' e) (pred_option P)"
    if "\<not> hi < fl" for s b'
  proof (cases "lo = fl")
    case False
    then have "fl < lo" "lo \<le> hi" using page_start_bounds [of fl hi span, OF leI [OF that]] by (simp_all add: lo_def order_less_le)
    then have "unat (lo - 1) < unat hi" using word_pred_nat [of fl lo] by (simp add: word_le_nat_alt word_less_nat_alt)
    with less.hyps [of "lo - 1"] False show ?thesis by simp
  qed (simp add: yields_def)
  then have rest: "yields I E (\<lambda>e. case found of Some p \<Rightarrow> (e, Inr (Some p))
      | None \<Rightarrow> if lo = fl then (e, Inr None) else search_pages k want fl (lo - 1) s b' e) (pred_option P)"
    if "\<not> hi < fl" "pred_option P found" for s b' found
    using that by (cases found) (simp_all add: yields_def)
  have page: "yields I E (follow (engine_Roots k lo hi) (\<lambda>roots. follow (want_loop want (rev roots) b) (\<lambda>(b', found) e.
      case found of Some p \<Rightarrow> (e, Inr (Some p)) | None \<Rightarrow> if lo = fl then (e, Inr None) else search_pages k want fl (lo - 1) s b' e)))
    (pred_option P)" if "\<not> hi < fl" for s
    by (rule yields_follow [OF roots], rule yields_follow [OF want_loop_yields [OF want]]) (auto intro: rest [OF that])
  show ?case
  proof (cases "hi < fl")
    case True
    then have "search_pages k want fl hi span b = (\<lambda>e. (e, Inr None))" by (simp add: fun_eq_iff search_pages.simps [of k want fl hi span b])
    then show ?thesis by (simp add: yields_def)
  next
    case False
    then have "search_pages k want fl hi span b = follow (engine_Roots k lo hi) (\<lambda>roots. follow (want_loop want (rev roots) b) (\<lambda>(b', found) e.
      case found of Some p \<Rightarrow> (e, Inr (Some p)) | None \<Rightarrow> if lo = fl then (e, Inr None)
        else search_pages k want fl (lo - 1) (if span \<le> (2 ^ 64 - 1) div 2 then span * 2 else span) b' e))"
      by (intro ext, subst search_pages.simps) (simp only: Let_def if_False flip: lo_def)
    with page [OF False] show ?thesis by simp
  qed
qed

lemma searchBack_yields:
  assumes "\<And>b p. yields I E (want b p) (\<lambda>_. True)" "\<And>a b. yields I E (engine_Roots k a b) (\<lambda>ps. \<forall>p \<in> set ps. P p)"
  shows "yields I E (searchBack k want b) (pred_option P)"
  unfolding searchBack_def [abs_def] by (rule yields_state, rule search_pages_yields [OF assms])

lemma previous_want_yields: "engine_yields (previous_want k b p) (\<lambda>_. True)"
  unfolding previous_want_def by (intro yields_if yields_follow [OF stands_yields] yields_return TrueI)

lemma latest_want_yields: "engine_yields (latest_want k b p) (\<lambda>_. True)"
  unfolding latest_want_def by (intro yields_if yields_follow [OF stands_yields] yields_return TrueI)

lemma Latest_yields: "engine_yields (engine_Latest k) (\<lambda>_. True)"
  unfolding engine_Latest_def
  by (rule yields_follow [OF searchBack_yields [OF latest_want_yields Roots_yields]]) (simp add: yields_def split: option.split)

lemma standing_loop_yields:
  assumes "\<forall>p \<in> set ps. log_present p" "\<forall>i p. out i = Some p \<longrightarrow> log_present p"
  shows "engine_yields (standing_loop k first final ps out) (\<lambda>st. \<forall>i p. st i = Some p \<longrightarrow> log_present p)"
  using assms
proof (induction ps arbitrary: out)
  case (Cons p ps)
  then have "engine_yields (standing_loop k first final ps (if ok then out(RP_ID p \<mapsto> p) else out(RP_ID p := None)))
      (\<lambda>st. \<forall>i p. st i = Some p \<longrightarrow> log_present p)" for ok by simp
  with Cons show ?case by (auto intro: yields_follow [OF stands_yields])
qed (simp add: yields_return)

lemma standingRoots_yields: "engine_yields (standingRoots k first final) (\<lambda>st. \<forall>i p. st i = Some p \<longrightarrow> log_present p)"
  unfolding standingRoots_def [abs_def]
  by (rule yields_state, rule yields_follow [OF Roots_yields]) (simp add: standing_loop_yields)

lemma engine_Sync_book:
  assumes "engine_Sync k e = (e', st, out)"
  shows "G_ledgers e' = G_ledgers e" "out = Some err \<Longrightarrow> survives err"
  using assms by (auto simp: engine_Sync_def engine_sync_def Let_def split: option.splits sum.splits prod.splits if_splits)

lemma load_yields: "engine_yields (engine_load k) (\<lambda>_. True)"
proof -
  have "book_ok (fst (engine_load k e)) \<and> (case snd (engine_load k e) of Inl err \<Rightarrow> survives err | Inr _ \<Rightarrow> True)" if "book_ok e" for e
  proof -
    obtain e' st out where s: "engine_Sync k e = (e', st, out)" by (metis prod_cases3)
    note b = engine_Sync_book [OF s]
    show ?thesis
      using that b by (auto simp: engine_load_def s book_ok_def Let_def split: option.splits sum.splits)
  qed
  then show ?thesis by (simp add: yields_def)
qed

lemma holders_yields: "engine_yields (engine_holders i) (\<lambda>hs. \<exists>l. snd (Advance l i) = Inr hs)"
  unfolding yields_def
proof (intro allI impI)
  fix e
  assume e: "book_ok e"
  define l where "l = (case G_ledger e of None \<Rightarrow> NewLedger (G_history e) (G_replayables e)
    | Some l \<Rightarrow> if i < G_floor e then NewLedger (G_history e) (G_replayables e) else l)"
  obtain l' out where a: "Advance l i = (l', out)" by fastforce
  then have h: "engine_holders i e = (case out of Inl err \<Rightarrow> (e\<lparr>G_ledger := Some l'\<rparr>, Inl (ReplayFailed err))
      | Inr hs \<Rightarrow> (e\<lparr>G_ledger := Some l', G_floor := i + 1\<rparr>, Inr hs))"
    by (simp add: engine_holders_def flip: l_def split: sum.split)
  have "snd (Advance l i) = out" using a by simp
  with e show "book_ok (fst (engine_holders i e)) \<and>
      (case snd (engine_holders i e) of Inl err \<Rightarrow> survives err | Inr hs \<Rightarrow> \<exists>l. snd (Advance l i) = Inr hs)"
    unfolding h by (auto simp: book_ok_def split: sum.split)
qed

lemma compute_yields:
  assumes "present expected" "pred_option log_present posted"
  shows "engine_yields (engine_compute k i posted expected source) result_present"
  unfolding engine_compute_def Let_def
proof (rule yields_follow [OF book_ledger_yields], rule yields_follow [OF holders_yields], rule yields_reads)
  fix l :: chainLedger and hs e
  assume l: "present (L_Funded l)" and hs: "\<exists>lg. snd (Advance lg i) = Inr hs"
  let ?carry = "case posted of None \<Rightarrow> expected | Some p \<Rightarrow> RP_CarryIn p"
  have carry: "present ?carry" using assms by (cases posted) (simp_all add: log_present_def)
  obtain lg where "snd (Advance lg i) = Inr hs" using hs by blast
  then have "Allocate k p hs \<noteq> Inl DivisionByZero" for p using ledger.allocates_without_panic [of "(lg, i)" hs k p] by simp
  then show "case and_then (with_error AllocateFailed (Allocate k (epoch_params (G_dep e) i (L_Funded l) ?carry) hs)) (\<lambda>computed.
      Inr (epoch_result_of (T_Finality (G_tip e)) (G_exclusions e) i l posted ?carry expected source computed)) of
    Inl err \<Rightarrow> survives err | Inr res \<Rightarrow> result_present res"
    using l assms carry
    by (cases "Allocate k (epoch_params (G_dep e) i (L_Funded l) ?carry) hs")
      (auto simp: survives_def result_present_def epoch_result_of_def present_def)
qed

lemma carry_loop_yields: "present carry \<Longrightarrow> engine_yields (carry_loop k i to carry n) (\<lambda>(c, n). present c)"
proof (induction "unat to - unat i" arbitrary: i carry n rule: less_induct)
  case less
  show ?case
  proof (cases "i < to")
    case True
    then have "unat to - unat (i + 1) < unat to - unat i" using word_succ_nat [OF True] by (simp add: word_less_nat_alt)
    note IH = less.hyps [OF this]
    have "carry_loop k i to carry n = follow (addFunding k carry i) (\<lambda>c. carry_loop k (i + 1) to c (n + 1))"
      using True by (simp add: fun_eq_iff carry_loop.simps [of k i to carry n])
    then show ?thesis by (simp only:) (rule yields_follow [OF addFunding_yields [OF less.prems]], rule IH)
  next
    case False
    then have "carry_loop k i to carry n = return_with (carry, n)" by (simp add: fun_eq_iff carry_loop.simps [of k i to carry n])
    then show ?thesis using less.prems by (simp add: yields_return)
  qed
qed

lemma carryOver_yields: "present carry \<Longrightarrow> engine_yields (carryOver k carry a b source) (\<lambda>(c, s). present c)"
  unfolding carryOver_def by (rule yields_follow [OF carry_loop_yields]) (auto intro: yields_return)

lemma zero_present [simp]: "present zeroAmounts"
  by (simp add: present_def zeroAmounts_def)

lemma expectedCarry_yields: "engine_yields (expectedCarry k i) (\<lambda>(c, s). present c)"
  unfolding expectedCarry_def previousRoot_def
proof (rule yields_follow [OF searchBack_yields [OF previous_want_yields Roots_yields]], split option.split, intro conjI allI impI)
  show "engine_yields (follow deployEpoch (\<lambda>first. if i < first then fail_with (Predates i first)
      else carryOver k zeroAmounts first i ''nothing before deploy'')) (\<lambda>(c, s). present c)"
    by (intro yields_follow [OF deployEpoch_yields] yields_if yields_fail carryOver_yields) simp_all
next
  fix found p
  assume "pred_option log_present found" "found = Some p"
  then have p: "present (RP_CarryIn p)" "pred_option log_present (Some p)" by (simp_all add: log_present_def)
  show "engine_yields (follow (engine_compute k (RP_ID p) (Some p) (RP_CarryIn p) ''its own posted carryIn'') (\<lambda>result.
      carryOver k (E_CarryOut result) (RP_ID p + 1) i (''carryOut of epoch '' @ dec (unat (RP_ID p))))) (\<lambda>(c, s). present c)"
    by (rule yields_follow [OF compute_yields [OF p]], rule carryOver_yields) (simp add: result_present_def)
qed

lemma with_end_block: "result_present res \<Longrightarrow> result_present (res\<lparr>E_EndBlock := b\<rparr>)"
  by (simp add: result_present_def)

lemma standingRoot_tip_yields: "engine_yields (\<lambda>e. standingRoot k i a (tipNumber e) e) (pred_option log_present)"
  by (rule yields_state) (rule standingRoot_yields)

lemma Compute_yields: "engine_yields (engine_Compute k i) result_present"
  unfolding engine_Compute_def
  by (rule yields_follow [OF end_block_yields], rule yields_follow [OF load_yields], rule yields_follow [OF expectedCarry_yields])
    (auto intro!: yields_follow [OF standingRoot_tip_yields] yields_follow [OF compute_yields] yields_return with_end_block)

lemma walk_loop_yields:
  assumes "\<forall>i p. st i = Some p \<longrightarrow> log_present p"
  shows "present (K_carry w) \<Longrightarrow> \<forall>r \<in> set (K_out w). result_present r \<Longrightarrow>
    engine_yields (walk_loop k st i target w) (\<lambda>w. present (K_carry w) \<and> (\<forall>r \<in> set (K_out w). result_present r))"
proof (induction "unat target - unat i" arbitrary: i w rule: less_induct)
  case less
  show ?case
  proof (cases "i < target")
    case True
    then have "unat target - unat (i + 1) < unat target - unat i" using word_succ_nat [OF True] by (simp add: word_less_nat_alt)
    note IH = less.hyps [OF this]
    show ?thesis
    proof (cases "st i")
      case None
      then have "walk_loop k st i target w = follow (addFunding k (K_carry w) i) (\<lambda>carry.
          walk_loop k st (i + 1) target (w\<lparr>K_carry := carry, K_skipped := K_skipped w + 1\<rparr>))"
        using True by (simp add: fun_eq_iff walk_loop.simps [of k st i target w])
      then show ?thesis using less.prems by (simp only:) (rule yields_follow [OF addFunding_yields], simp, rule IH, simp_all)
    next
      case (Some p)
      then have "walk_loop k st i target w = follow (engine_compute k i (Some p) (K_carry w) (carrySource (K_from w) (K_skipped w))) (\<lambda>link.
          walk_loop k st (i + 1) target
            \<lparr>K_carry = E_CarryOut link, K_from = ''carryOut of epoch '' @ dec (unat i), K_skipped = 0, K_out = K_out w @ [link]\<rparr>)"
        using True by (simp add: fun_eq_iff walk_loop.simps [of k st i target w])
      moreover have "engine_yields (engine_compute k i (Some p) (K_carry w) (carrySource (K_from w) (K_skipped w))) result_present"
        using less.prems(1) assms Some by (intro compute_yields) simp_all
      ultimately show ?thesis using less.prems(2) by (simp only:) (erule yields_follow, rule IH, auto simp: result_present_def)
    qed
  next
    case False
    then have "walk_loop k st i target w = return_with w" by (simp add: fun_eq_iff walk_loop.simps [of k st i target w])
    then show ?thesis using less.prems by (simp add: yields_return)
  qed
qed

lemma Walk_yields: "engine_yields (Walk k i) (\<lambda>rs. rs \<noteq> [] \<and> (\<forall>r \<in> set rs. result_present r))"
  unfolding Walk_def
proof (rule yields_follow [OF end_block_yields], rule yields_follow [OF load_yields], rule yields_follow [OF deployEpoch_yields],
    rule yields_if, simp add: yields_fail, rule yields_follow [OF standingRoots_yields])
  fix b :: block and first and st :: "uint64 \<rightharpoonup> rootPosted"
  assume st: "\<forall>i p. st i = Some p \<longrightarrow> log_present p"
  show "engine_yields (follow (walk_loop k st first i \<lparr>K_carry = zeroAmounts, K_from = ''nothing before deploy'', K_skipped = 0, K_out = []\<rparr>) (\<lambda>w.
      follow (\<lambda>e. standingRoot k i (B_Number b + 1) (tipNumber e) e) (\<lambda>posted.
      follow (engine_compute k i posted (K_carry w) (carrySource (K_from w) (K_skipped w))) (\<lambda>result.
        return_with (K_out w @ [result\<lparr>E_EndBlock := Some b\<rparr>])))))
    (\<lambda>rs. rs \<noteq> [] \<and> (\<forall>r \<in> set rs. result_present r))"
    by (rule yields_follow [OF walk_loop_yields [OF st]])
      (auto intro!: yields_follow [OF standingRoot_tip_yields] yields_follow [OF compute_yields] yields_return with_end_block)
qed

section \<open>A run ends in a report\<close>

lemma assess_present: "result_present r \<Longrightarrow> assess r expect \<noteq> None"
proof -
  assume r: "result_present r"
  let ?rc = "\<lparr>Rc_HasRoot = E_HasRoot r, Rc_Root = E_Root r, Rc_Totals = E_Totals r, Rc_Holders = length (E_Allocations r),
    Rc_ExpectedCarryIn = E_ExpectedCarryIn r, Rc_CarryFrom = E_CarryFrom r\<rparr>"
  show ?thesis
  proof (cases "E_Posted r")
    case None
    then show ?thesis
      using r Assess_not_nil [of "\<lparr>Po_HasRoot = False, Po_Skipped = E_Skipped r, Po_Root = 0, Po_Totals = (\<lambda>t. None), Po_Funded = E_Funded r,
        Po_CarryIn = (\<lambda>t. None)\<rparr>" ?rc expect]
      by (auto simp: assess_def result_present_def)
  next
    case (Some p)
    then show ?thesis
      using r Assess_not_nil [of "\<lparr>Po_HasRoot = True, Po_Skipped = E_Skipped r, Po_Root = RP_Root p, Po_Totals = RP_Totals p, Po_Funded = E_Funded r,
        Po_CarryIn = RP_CarryIn p\<rparr>" ?rc expect]
      by (auto simp: assess_def result_present_def log_present_def)
  qed
qed

lemma those_total: "\<forall>x \<in> set xs. x \<noteq> None \<Longrightarrow> those xs \<noteq> None"
  by (induction xs) (auto split: option.splits)

lemma assess_all_present: "\<forall>r \<in> set rs. result_present r \<Longrightarrow> assess_all expect rs \<noteq> None"
  unfolding assess_all_def by (rule those_total) (auto simp del: not_None_eq simp: in_set_enumerate_eq intro!: assess_present)

lemma recompute_yields: "engine_yields (recompute_epoch k fl i) (\<lambda>rs. rs \<noteq> [] \<and> (\<forall>r \<in> set rs. result_present r))"
  unfolding recompute_epoch_def by (intro yields_if Walk_yields yields_follow [OF Compute_yields] yields_return) simp

definition panics :: "run_error \<Rightarrow> bool" where
  "panics err \<longleftrightarrow> err = RunPanics \<or> (\<exists>e. err = RunEngine e \<and> \<not> survives e)"

lemma verifier_epoch_survives:
  assumes "book_ok e" "verifier_epoch k env fl i e rep = (e', rep', Some err)"
  shows "\<not> panics err"
proof -
  obtain e1 out where r: "recompute_epoch k fl i e = (e1, out)" by fastforce
  note y = yields_result [OF recompute_yields assms(1) r]
  show ?thesis
  proof (cases out)
    case (Inl x)
    then show ?thesis using assms(2) r y by (auto simp: verifier_epoch_def panics_def)
  next
    case (Inr rs)
    then obtain as where "rs \<noteq> []" "assess_all (F_expect fl) rs = Some as" using y assess_all_present [of rs "F_expect fl"] by auto
    then show ?thesis using assms(2) r Inr by (simp add: verifier_epoch_def Let_def)
  qed
qed

lemma perform_survives:
  assumes "book_ok e" "perform k env cmd rep e = (e', rep', Some err)"
  shows "\<not> panics err"
proof -
  consider "C_name cmd = ''sync''" | "C_name cmd = ''latest''" | "C_name cmd \<noteq> ''sync''" "C_name cmd \<noteq> ''latest''" by blast
  then show ?thesis
  proof cases
    case 1
    obtain e1 st out where s: "engine_Sync k e = (e1, st, out)" by (metis prod_cases3)
    then show ?thesis
      using assms(2) 1 engine_Sync_book(2) [OF s] by (auto simp: perform_def verifier_sync_def panics_def)
  next
    case 2
    obtain e1 out where l: "engine_Latest k e = (e1, out)" by fastforce
    note y = yields_result [OF Latest_yields assms(1) l]
    then show ?thesis
      using assms(2) 2 l verifier_epoch_survives [of e1 k env "C_flags cmd" _ rep e' rep' err]
      by (cases out) (auto simp: perform_def panics_def)
  next
    case 3
    then show ?thesis using assms verifier_epoch_survives [of e k env "C_flags cmd" "C_epochID cmd" rep e' rep' err] by (simp add: perform_def)
  qed
qed

lemma prepared_book:
  assumes "prepare env dep cmd rep = Inr (rep', e)"
  shows "book_ok e"
  using assms by (auto simp: prepare_def engine_New_def Let_def book_ok_def split: option.splits sum.splits if_splits)

lemma prepare_survives: "prepare env dep cmd rep = Inl (rep', err) \<Longrightarrow> \<not> panics err"
  by (auto simp: prepare_def engine_New_def panics_def survives_def deployment_Check_def Let_def
      split: option.splits sum.splits if_splits)

text \<open>
  C14. A run does not panic. Whatever the endpoints answer, whatever the Cache file and a published bundle hold, and whatever the command
  line: no amount is nil where one is added, compared or printed, no weight is divided by zero, no result is taken of an empty list; so
  every command ends in a report.
\<close>

theorem never_panics:
  "pred_option (\<lambda>err. \<not> panics err) (snd (snd (execute k env dep cmd rep))) \<and> (\<exists>final. run_command k env dep cmd = Some final)"
proof -
  have alive: "\<not> panics err" if x: "execute k env dep cmd rep = (g, rep', Some err)" for rep g rep' err
  proof (cases "prepare env dep cmd rep")
    case (Inl r)
    then show ?thesis using x prepare_survives [of env dep cmd rep] by (cases r) (simp add: execute_def)
  next
    case (Inr r)
    obtain rep1 e where r: "r = (rep1, e)" by (cases r)
    obtain e1 where "perform k env cmd rep1 e = (e1, rep', Some err)"
      using x Inr r by (cases "perform k env cmd rep1 e") (auto simp: execute_def)
    with perform_survives prepared_book Inr r show ?thesis by blast
  qed
  obtain g rep' err where e: "execute k env dep cmd rep = (g, rep', err)" by (metis prod_cases3)
  obtain g0 rep0 err0 where e0: "execute k env dep cmd (initial_report dep cmd) = (g0, rep0, err0)" by (metis prod_cases3)
  have "\<exists>final. run_command k env dep cmd = Some final"
    using alive e0 by (cases err0) (auto simp: run_command_def panics_def)
  with alive e show ?thesis by (cases err) auto
qed

end
