(* ===== verification/Judgement.thy ===== *)
theory Judgement
  imports Panics
begin

text \<open>
  What the exit status of a run says of the chain: the evidence an Epoch is judged by, and that the status is 0 exactly when the evidence
  honours it. The property is applied to two runs over a node: one that ends with 0, one with a wrong \<open>--expect\<close> that ends with 1.
\<close>

section \<open>From a fresh Engine\<close>

lemma Compute_needs_load: "snd (engine_Compute k i g) = Inr res \<Longrightarrow> snd (engine_load k g) = Inr ()"
proof -
  assume r: "snd (engine_Compute k i g) = Inr res"
  obtain eb where eb: "end_block i g = (g, Inr eb)"
    using r by (cases "with_error ChainFailed (EndBlock (G_reader g) i (G_tip g))") (auto simp: engine_Compute_def end_block_def)
  then show ?thesis using r by (cases "engine_load k g"; cases "snd (engine_load k g)") (auto simp: engine_Compute_def)
qed

lemma Compute_of_loaded:
  assumes "snd (engine_load k g) = Inr ()" "G_loaded (fst (engine_load k g))" "G_reader (fst (engine_load k g)) = G_reader g"
    "G_tip (fst (engine_load k g)) = G_tip g"
  shows "snd (engine_Compute k i g) = snd (engine_Compute k i (fst (engine_load k g)))"
proof -
  obtain g1 where g1: "engine_load k g = (g1, Inr ())" using assms(1) by (metis prod.collapse)
  have "engine_load k g1 = (g1, Inr ())" using assms(2) g1 by (simp add: engine_load_def)
  moreover have "end_block i g1 = (g1, snd (end_block i g))" using assms(3,4) g1 by (simp add: end_block_def)
  moreover have "end_block i g = (g, snd (end_block i g))" by (simp add: end_block_def)
  ultimately show ?thesis using g1 by (cases "snd (end_block i g)") (simp_all add: engine_Compute_def)
qed

lemma loaded_same:
  assumes "loaded_from k ch g g'"
  shows "ledger_at k g' = ledger_at k g" "engine_stream k ch g' = engine_stream k ch g" "tipNumber g' = tipNumber g" "G_reader g' = G_reader g"
    "posted_in_order k g' ps = posted_in_order k g ps" "G_loaded g'" "G_tip g' = G_tip g"
    "G_history g' = map toReplayable (chain_history k ch (R_token (G_reader g)) (D_TokenBlock (G_dep g)) (tipNumber g))"
proof -
  have eq: "G_reader g' = G_reader g" "G_tip g' = G_tip g" "G_dep g' = G_dep g" using assms by (simp_all add: loaded_from_def)
  show led: "ledger_at k g' = ledger_at k g" by (simp add: fun_eq_iff ledger_at_def tipNumber_def eq)
  show "posted_in_order k g' ps = posted_in_order k g ps" by (simp add: posted_in_order_def standing_epoch_def stands_at_def led)
  show "engine_stream k ch g' = engine_stream k ch g" "tipNumber g' = tipNumber g" "G_reader g' = G_reader g" "G_tip g' = G_tip g"
    by (simp_all add: engine_stream_def tipNumber_def eq)
  show "G_loaded g'" "G_history g' = map toReplayable (chain_history k ch (R_token (G_reader g)) (D_TokenBlock (G_dep g)) (tipNumber g))"
    using assms by (auto simp: loaded_from_def)
qed

text \<open>The Cache file holds an earlier state of the chain, or nothing yet, and no other process is at it.\<close>

definition earlier_cache :: "keccak \<Rightarrow> chain_state \<Rightarrow> engine \<Rightarrow> bool" where
  "earlier_cache k ch g \<longleftrightarrow>
     fresh_engine g \<and> tipNumber g \<noteq> - 1 \<and> B_Hash (T_Block (G_tip g)) \<noteq> 0 \<and> D_Token (G_dep g) = R_token (G_reader g) \<and>
     chain_ok k (R_token (G_reader g)) ch \<and>
     (\<exists>c old m. Open (G_held g 0) (G_file g) (cache_options (G_dep g) (G_Fresh (G_opts g))) = Inr c \<and>
        holds (cache_options (G_dep g) False) c (branch_log old (unat (D_TokenBlock (G_dep g))) m) \<and> branch_ok old \<and>
        commits old (branch_of k (R_token (G_reader g)) ch) \<and>
        (\<forall>rc \<in> set (branch_log old (unat (D_TokenBlock (G_dep g))) m). Rec_BlockNumber rc \<le> tipNumber g))"

lemma earlier_cache_loads:
  assumes "honest_reader ep ch (G_reader g)" "earlier_cache k ch g" "snd (engine_load k g) = Inr ()"
  shows "loaded_from k ch g (fst (engine_load k g))"
proof -
  obtain c old m where "Open (G_held g 0) (G_file g) (cache_options (G_dep g) (G_Fresh (G_opts g))) = Inr c"
    "holds (cache_options (G_dep g) False) c (branch_log old (unat (D_TokenBlock (G_dep g))) m)" "branch_ok old"
    "commits old (branch_of k (R_token (G_reader g)) ch)"
    "\<forall>rc \<in> set (branch_log old (unat (D_TokenBlock (G_dep g))) m). Rec_BlockNumber rc \<le> tipNumber g"
    using assms(2) unfolding earlier_cache_def by blast
  then show ?thesis using honest_reader.load_true(1) [OF assms(1) refl] assms(2,3) unfolding earlier_cache_def by blast
qed

lemma prepare_fresh:
  assumes "prepare env dep cmd rep = Inr (rep', g)"
  shows "G_ledgers g = Map.empty" "G_first g = None" "G_ledger g = None"
  using assms by (auto simp: prepare_def engine_New_def Let_def split: option.splits sum.splits if_splits)


section \<open>What each exit status says\<close>

lemma Compute_funded:
  assumes "Compute k p = Inr r"
  shows "present (P_Funded p)" "present (P_CarryIn p)" "cap_ok (Some \<circ> R_Totals r) (P_Funded p) (P_CarryIn p)"
proof -
  obtain hs where hs: "Replay (P_EpochID p) (P_Transfers p) (P_Exclusions p) = Inr hs" "Allocate k p hs = Inr r"
    using assms by (auto simp: Compute_def split: sum.splits)
  have pos: "positive hs" using replay.weighty [of "(P_EpochID p, P_Transfers p, P_Exclusions p)"] hs(1) by simp
  have ok: "funding_ok p" by (rule Allocate_result(1) [OF pos hs(2)])
  then have some: "\<exists>f c. P_Funded p t = Some f \<and> P_CarryIn p t = Some c" for t
    by (auto simp: funding_ok_def funded_ok_def split: option.splits dest: spec [of _ t])
  then show "present (P_Funded p)" "present (P_CarryIn p)" unfolding present_def by (metis option.distinct(1))+
  show "cap_ok (Some \<circ> R_Totals r) (P_Funded p) (P_CarryIn p)"
    unfolding cap_ok_def
  proof
    fix t
    obtain f c where fc: "P_Funded p t = Some f" "P_CarryIn p t = Some c" using some by blast
    then show "cap_at (Some \<circ> R_Totals r) (P_Funded p) (P_CarryIn p) t"
      using Allocate_conserving [OF pos hs(2), of t] by (simp add: cap_at_def)
  qed
qed

text \<open>
  What a run compares, with \<open>l\<close> the ledger's entry, \<open>posted\<close> the log of its Root, \<open>carry\<close> the Carry the Root before leaves and \<open>computed\<close> what
  the rules give: Root, totals and Carry of the log are those of the rules, and a Root that was expected is the posted one. Where
  there is no Root, the rules give none, or the one expected.
\<close>

definition honoured :: "chainLedger \<Rightarrow> rootPosted option \<Rightarrow> amounts \<Rightarrow> result \<Rightarrow> hash option \<Rightarrow> bool" where
  "honoured l posted carry computed expect \<longleftrightarrow>
     (case posted of
        Some p \<Rightarrow> R_HasRoot computed \<and> R_Root computed = RP_Root p \<and> Some \<circ> R_Totals computed = RP_Totals p \<and> carry = RP_CarryIn p \<and>
          pred_option (\<lambda>h. h = RP_Root p) expect
      | None \<Rightarrow>
          (case expect of
             None \<Rightarrow> \<not> R_HasRoot computed
           | Some h \<Rightarrow> \<not> L_Skipped l \<and> R_HasRoot computed \<and> R_Root computed = h))"

text \<open>No Root stands, none was expected, and the Epoch was not skipped: what the rules give has nothing to be compared with.\<close>

definition undecided :: "chainLedger \<Rightarrow> rootPosted option \<Rightarrow> hash option \<Rightarrow> bool" where
  "undecided l posted expect \<longleftrightarrow> posted = None \<and> \<not> L_Skipped l \<and> expect = None"

lemma assessed_verdict:
  assumes "assess (epoch_result_of level xs i l posted (posted_carry posted carry) carry source computed\<lparr>E_EndBlock := eb\<rparr>) expect = Some a"
    and "Compute k (rules_params g i (L_Funded l) (posted_carry posted carry)) = Inr computed"
  shows "Ep_Verdict a = (if honoured l posted carry computed expect then Match else if undecided l posted expect then Indeterminate else Mismatch)"
proof -
  note funded = Compute_funded [OF assms(2), unfolded rules_params_def, simplified]
  have totals: "present (\<lambda>t. Some (R_Totals computed t))" by (simp add: present_def)
  show ?thesis
  proof (cases posted)
    case None
    let ?po = "\<lparr>Po_HasRoot = False, Po_Skipped = L_Skipped l, Po_Root = 0, Po_Totals = (\<lambda>t. None), Po_Funded = L_Funded l, Po_CarryIn = (\<lambda>t. None)\<rparr>"
    obtain rc as where as: "Assess rc ?po expect = Some as" "Ep_Verdict a = As_Verdict as" "Rc_HasRoot rc = R_HasRoot computed" "Rc_Root rc = R_Root computed"
      "Rc_Totals rc = Some \<circ> R_Totals computed" "Rc_ExpectedCarryIn rc = carry"
      using assms(1) None by (auto simp: assess_def epoch_result_of_def comp_def)
    then show ?thesis
      using None Assess_judges [OF as(1)] funded(3)
      by (auto simp: verdict_spec_def honoured_def undecided_def posted_carry_def split: option.splits)
  next
    case (Some p)
    let ?po = "\<lparr>Po_HasRoot = True, Po_Skipped = L_Skipped l, Po_Root = RP_Root p, Po_Totals = RP_Totals p, Po_Funded = L_Funded l, Po_CarryIn = RP_CarryIn p\<rparr>"
    obtain rc as where as: "Assess rc ?po expect = Some as" "Ep_Verdict a = As_Verdict as" "Rc_HasRoot rc = R_HasRoot computed" "Rc_Root rc = R_Root computed"
      "Rc_Totals rc = Some \<circ> R_Totals computed" "Rc_ExpectedCarryIn rc = carry"
      using assms(1) Some by (auto simp: assess_def epoch_result_of_def comp_def)
    moreover have "present (Some \<circ> R_Totals computed)" using totals by (simp add: comp_def)
    ultimately show ?thesis
      using Some Assess_judges [OF as(1)] funded
      by (cases expect) (auto simp: verdict_spec_def agrees_def honoured_def undecided_def posted_carry_def)
  qed
qed

text \<open>The log that a Root in the ledger was posted with: the last of the Epoch's after its end block.\<close>

definition posted_log :: "keccak \<Rightarrow> chain_state \<Rightarrow> engine \<Rightarrow> uint64 \<Rightarrow> chainLedger \<Rightarrow> rootPosted option \<Rightarrow> bool" where
  "posted_log k ch g i l posted \<longleftrightarrow>
     (case posted of
        None \<Rightarrow> \<not> HasRoot l
      | Some p \<Rightarrow> HasRoot l \<and> RP_Root p = L_Root l \<and>
          (\<exists>eb. closing_block g i = Inr eb \<and>
             List.find (\<lambda>p. RP_Kind p = KindEpoch \<and> RP_ID p = i)
               (rev (posted_stream k ch (R_distributor (G_reader g)) (B_Number eb + 1) (tipNumber g))) = Some p))"

text \<open>Everything an Epoch is judged by, from the chain.\<close>

definition evidence ::
  "keccak \<Rightarrow> chain_state \<Rightarrow> engine \<Rightarrow> uint64 \<Rightarrow> chainLedger \<Rightarrow> rootPosted option \<Rightarrow> amounts \<Rightarrow> result \<Rightarrow> bool" where
  "evidence k ch g i l posted carry computed \<longleftrightarrow>
     ledger_at k g i = Inr l \<and> posted_log k ch g i l posted \<and>
     (\<exists>found. greatest_standing k g (engine_stream k ch g) i found \<and> carries k g i found carry) \<and>
     Compute k (rules_params g i (L_Funded l) (posted_carry posted carry)) = Inr computed"

context honest_reader
begin

lemma Compute_judged:
  assumes g: "G_reader g = r" "G_loaded g" "sound_history (G_history g)" "epoch_ok i" "same_run k g g"
    and order: "posted_in_order k g (rev (engine_stream k ch g))"
    and res: "snd (engine_Compute k i g) = Inr res" "assess res expect = Some a"
  shows "\<exists>l posted carry computed. evidence k ch g i l posted carry computed \<and>
    Ep_Verdict a = (if honoured l posted carry computed expect then Match else if undecided l posted expect then Indeterminate else Mismatch)"
proof -
  have "honest_reader e ch (G_reader g)" unfolding g(1) by unfold_locales
  from Compute_rebuilt [OF this g(2-5) order res(1)]
  obtain found where found: "greatest_standing k g (engine_stream k ch g) i found" "carries k g i found (E_ExpectedCarryIn res)" by blast
  obtain eb expected source where eb: "closing_block g i = Inr eb" "finish k g i eb expected source = Inr res"
    using Compute_parts [OF g res(1)] by blast
  obtain posted res0 where p: "standing_root_at k g i (B_Number eb + 1) (tipNumber g) = Inr posted" "rebuilt k g i posted expected source = Inr res0"
    "res = res0\<lparr>E_EndBlock := Some eb\<rparr>" using finish_Inr [OF eb(2)] by blast
  obtain l computed where c: "ledger_at k g i = Inr l" "Compute k (rules_params g i (L_Funded l) (posted_carry posted expected)) = Inr computed"
    "res = epoch_result_of (T_Finality (G_tip g)) (G_exclusions g) i l posted (posted_carry posted expected) expected source computed\<lparr>E_EndBlock := Some eb\<rparr>"
    using p(2,3) by (auto simp: rebuilt_def and_then_Inr)
  have "posted_log k ch g i l posted"
  proof (cases "HasRoot l")
    case False
    then show ?thesis using p(1) c(1) by (auto simp: standing_root_at_def posted_log_def)
  next
    case True
    then obtain roots q where q: "roots_between k g (B_Number eb + 1) (tipNumber g) = Inr roots" "posted = Some q" "RP_Root q = L_Root l"
      "List.find (\<lambda>p. RP_Kind p = KindEpoch \<and> RP_ID p = i) (rev roots) = Some q"
      using p(1) c(1) by (auto simp: standing_root_at_def and_then_Inr split: if_splits option.splits)
    have "roots = posted_stream k ch (R_distributor r) (B_Number eb + 1) (tipNumber g)"
      using Roots_true [of k "B_Number eb + 1" "tipNumber g" roots] q(1) by (simp add: roots_between_def g(1) posted_stream_def)
    then show ?thesis using True q eb(1) by (simp add: posted_log_def g(1))
  qed
  moreover have "E_ExpectedCarryIn res = expected" unfolding c(3) by (simp add: epoch_result_of_def)
  ultimately have "evidence k ch g i l posted expected computed" using found c(1,2) by (auto simp: evidence_def)
  with assessed_verdict [OF res(2) [unfolded c(3)] c(2)] show ?thesis by blast
qed

end

lemma verifier_epoch_judges:
  assumes "verifier_epoch k env fl i g rep = (e', rep', None)" "Rp_Epochs rep = []" "\<not> F_chain fl"
  shows "\<exists>res a. snd (engine_Compute k i g) = Inr res \<and> assess res (F_expect fl) = Some a \<and> Rp_Epochs rep' = [a]"
proof -
  obtain e1 out where c: "engine_Compute k i g = (e1, out)" by fastforce
  obtain res where r: "out = Inr res"
    using assms(1,3) c by (cases out) (auto simp: verifier_epoch_def recompute_epoch_def)
  have re: "recompute_epoch k fl i g = (e1, Inr [res])" using assms(3) c r by (simp add: recompute_epoch_def)
  obtain a where a: "assess res (F_expect fl) = Some a"
    using assms(1) by (cases "assess res (F_expect fl)") (auto simp: verifier_epoch_def re assess_all_def)
  have "assess_all (F_expect fl) [res] = Some [a]" using a by (simp add: assess_all_def)
  then have "Rp_Epochs rep' = [a]" using assms(1,2) by (auto simp: verifier_epoch_def re Let_def)
  with a c r show ?thesis by auto
qed

text \<open>What \<open>Latest\<close> writes is the memo of the book alone, and none of what a run is judged by is in it.\<close>

definition memo_only :: "engine \<Rightarrow> engine \<Rightarrow> bool" where
  "memo_only g e \<longleftrightarrow> (\<exists>led. e = g\<lparr>G_ledgers := led\<rparr>)"

abbreviation keeps_to_memo :: "engine \<Rightarrow> 'a engine_action \<Rightarrow> bool" where
  "keeps_to_memo g m \<equiv> yields (memo_only g) (\<lambda>_. True) m (\<lambda>_. True)"

lemma stands_memo: "keeps_to_memo g (stands k p)"
proof -
  have "keeps_to_memo g (book_ledger k i)" for i
    by (auto simp: yields_def memo_only_def book_ledger_def split: option.split sum.split)
  then show ?thesis unfolding stands_def by (rule yields_follow) (simp add: yields_return)
qed

lemma Latest_memo: "memo_only g (fst (engine_Latest k g))"
proof -
  have "yields (memo_only g) (\<lambda>_. True) (engine_Roots k a b) (\<lambda>ps. \<forall>p \<in> set ps. True)" for a b
    unfolding engine_Roots_def by (rule yields_reads) (simp split: sum.split)
  moreover have "keeps_to_memo g (latest_want k b p)" for b p
    unfolding latest_want_def by (intro yields_if yields_follow [OF stands_memo] yields_return TrueI)
  ultimately have "yields (memo_only g) (\<lambda>_. True) (searchBack k (latest_want k) ()) (pred_option (\<lambda>_. True))"
    by (rule searchBack_yields [rotated])
  then have "keeps_to_memo g (engine_Latest k)"
    unfolding engine_Latest_def by (rule yields_follow) (simp add: yields_def split: option.split)
  moreover have "memo_only g g" unfolding memo_only_def by (rule exI [of _ "G_ledgers g"]) simp
  ultimately show ?thesis by (simp add: yields_def)
qed

lemma ledger_at_memo [simp]: "ledger_at k (g\<lparr>G_ledgers := led\<rparr>) = ledger_at k g"
  by (simp add: fun_eq_iff ledger_at_def tipNumber_def)

lemma memo_unseen [simp]:
  "engine_stream k ch (g\<lparr>G_ledgers := led\<rparr>) = engine_stream k ch g" "tipNumber (g\<lparr>G_ledgers := led\<rparr>) = tipNumber g"
  "standing_epoch k (g\<lparr>G_ledgers := led\<rparr>) = standing_epoch k g" "closing_block (g\<lparr>G_ledgers := led\<rparr>) = closing_block g"
  "deploy_epoch (g\<lparr>G_ledgers := led\<rparr>) = deploy_epoch g" "rules_params (g\<lparr>G_ledgers := led\<rparr>) = rules_params g"
  "posted_in_order k (g\<lparr>G_ledgers := led\<rparr>) = posted_in_order k g"
  by (simp_all add: fun_eq_iff engine_stream_def tipNumber_def standing_epoch_def stands_at_def closing_block_def deploy_epoch_def rules_params_def
      posted_in_order_def)

lemma evidence_memo: "evidence k ch (g\<lparr>G_ledgers := led\<rparr>) = evidence k ch g"
proof -
  have same: "rebuilt k (g\<lparr>G_ledgers := led\<rparr>) = rebuilt k g" "funded_between k (g\<lparr>G_ledgers := led\<rparr>) = funded_between k g"
    "G_reader (g\<lparr>G_ledgers := led\<rparr>) = G_reader g"
    by (simp_all add: fun_eq_iff rebuilt_def funded_between_def funding_def)
  show ?thesis
    unfolding fun_eq_iff evidence_def posted_log_def greatest_standing_def carries_def same memo_unseen ledger_at_memo by simp
qed

lemma earlier_cache_memo: "earlier_cache k ch (g\<lparr>G_ledgers := led\<rparr>) = earlier_cache k ch g"
  by (simp add: earlier_cache_def fresh_engine_def)

text \<open>One Epoch of a run, whatever the book has read before.\<close>

lemma verifier_epoch_judged_by:
  assumes "verifier_epoch k env fl i g rep = (e', rep', None)" "Rp_Epochs rep = []" "\<not> F_chain fl"
    and "honest_reader ep ch (G_reader g)" "earlier_cache k ch g" "epoch_ok i"
    and "sound_history (map toReplayable (chain_history k ch (R_token (G_reader g)) (D_TokenBlock (G_dep g)) (tipNumber g)))"
    and "posted_in_order k g (rev (engine_stream k ch g))"
    and "\<And>i l. G_ledgers g i = Some l \<Longrightarrow> ledger_at k g i = Inr l" "G_first g = None" "G_ledger g = None"
  shows "\<exists>a g' l posted carry computed. Rp_Epochs rep' = [a] \<and> loaded_from k ch g g' \<and> evidence k ch g' i l posted carry computed \<and>
    Ep_Verdict a = (if honoured l posted carry computed (F_expect fl) then Match
      else if undecided l posted (F_expect fl) then Indeterminate else Mismatch)"
proof -
  let ?g = "fst (engine_load k g)" and ?x = "F_expect fl"
  obtain res a where r: "snd (engine_Compute k i g) = Inr res" "assess res ?x = Some a" "Rp_Epochs rep' = [a]"
    using verifier_epoch_judges [OF assms(1-3)] by blast
  have loads: "snd (engine_load k g) = Inr ()" by (rule Compute_needs_load [OF r(1)])
  have lf: "loaded_from k ch g ?g" by (rule earlier_cache_loads [OF assms(4,5) loads])
  note same = loaded_same [OF lf]
  have run: "same_run k ?g ?g"
    using lf assms(9-11) same(1) by (auto simp: same_run_def loaded_from_def)
  have "snd (engine_Compute k i ?g) = Inr res" using Compute_of_loaded [OF loads same(6,4,7)] r(1) by simp
  with honest_reader.Compute_judged [OF assms(4) same(4,6) _ assms(6) run _ _ r(2)] assms(7,8) same
  obtain l posted carry computed where "evidence k ch ?g i l posted carry computed"
    "Ep_Verdict a = (if honoured l posted carry computed ?x then Match else if undecided l posted ?x then Indeterminate else Mismatch)" by metis
  with lf r(3) show ?thesis by blast
qed

text \<open>The Epoch a command is about: the one it names, or the greatest with a standing Root.\<close>

definition asked_for :: "keccak \<Rightarrow> chain_state \<Rightarrow> engine \<Rightarrow> command \<Rightarrow> uint64 \<Rightarrow> bool" where
  "asked_for k ch g cmd i \<longleftrightarrow>
     (if C_name cmd = ''latest'' then
        (\<exists>p \<in> set (engine_stream k ch g). standing_epoch k g p \<and> RP_ID p = i) \<and>
        (\<forall>q \<in> set (engine_stream k ch g). standing_epoch k g q \<longrightarrow> RP_ID q \<le> i)
      else i = C_epochID cmd)"

lemma performed_judged:
  assumes "perform k env cmd rep g = (e', rep', None)" "Rp_Epochs rep = []" "C_name cmd \<noteq> ''sync''" "\<not> F_chain (C_flags cmd)"
    and "honest_reader ep ch (G_reader g)" "earlier_cache k ch g" "\<And>i. asked_for k ch g cmd i \<Longrightarrow> epoch_ok i"
    and "sound_history (map toReplayable (chain_history k ch (R_token (G_reader g)) (D_TokenBlock (G_dep g)) (tipNumber g)))"
    and "posted_in_order k g (rev (engine_stream k ch g))" "G_ledgers g = Map.empty" "G_first g = None" "G_ledger g = None"
  shows "\<exists>i a g' l posted carry computed. Rp_Epochs rep' = [a] \<and> asked_for k ch g cmd i \<and> loaded_from k ch g g' \<and>
    evidence k ch g' i l posted carry computed \<and>
    Ep_Verdict a = (if honoured l posted carry computed (F_expect (C_flags cmd)) then Match
      else if undecided l posted (F_expect (C_flags cmd)) then Indeterminate else Mismatch)"
proof (cases "C_name cmd = ''latest''")
  case False
  then have "verifier_epoch k env (C_flags cmd) (C_epochID cmd) g rep = (e', rep', None)" "asked_for k ch g cmd (C_epochID cmd)"
    using assms(1,3) by (simp_all add: perform_def asked_for_def)
  with verifier_epoch_judged_by [OF this(1) assms(2,4-6) assms(7) assms(8,9)] assms(10-12) show ?thesis by fastforce
next
  case True
  have self: "same_run k g g" using assms(10-12) by (simp add: same_run_def)
  obtain g1 out where latest: "engine_Latest k g = (g1, out)" by fastforce
  obtain led where led: "g1 = g\<lparr>G_ledgers := led\<rparr>" using Latest_memo [of g k] latest by (auto simp: memo_only_def)
  obtain i where i: "out = Inr i" "verifier_epoch k env (C_flags cmd) i g1 rep = (e', rep', None)"
    using assms(1) True latest by (auto simp: perform_def split: sum.splits)
  have asked: "asked_for k ch g cmd i"
    using Latest_spec [OF assms(5) self assms(9)] latest i(1) True by (simp add: asked_for_def)
  obtain v where "acts (same_run k g) (engine_Latest k) v" using honest_reader.Latest_total [OF assms(5) refl] by blast
  then have run: "same_run k g g1" using self latest by (metis acts_def fst_conv)
  have "\<exists>a g' l posted carry computed. Rp_Epochs rep' = [a] \<and> loaded_from k ch g1 g' \<and> evidence k ch g' i l posted carry computed \<and>
    Ep_Verdict a = (if honoured l posted carry computed (F_expect (C_flags cmd)) then Match
      else if undecided l posted (F_expect (C_flags cmd)) then Indeterminate else Mismatch)"
    by (rule verifier_epoch_judged_by [OF i(2) assms(2,4)])
      (use assms(5,6,8,9,11,12) assms(7) [OF asked] same_runD(9) [OF run] in \<open>simp_all add: led earlier_cache_memo\<close>)
  then obtain a g' l posted carry computed where j: "Rp_Epochs rep' = [a]" "loaded_from k ch g1 g'" "evidence k ch g' i l posted carry computed"
    "Ep_Verdict a = (if honoured l posted carry computed (F_expect (C_flags cmd)) then Match
      else if undecided l posted (F_expect (C_flags cmd)) then Indeterminate else Mismatch)" by blast
  have "loaded_from k ch g (g'\<lparr>G_ledgers := G_ledgers g\<rparr>)" using j(2) by (simp add: loaded_from_def led)
  moreover have "evidence k ch (g'\<lparr>G_ledgers := G_ledgers g\<rparr>) i l posted carry computed" using j(3) by (simp add: evidence_memo)
  ultimately show ?thesis using asked j(1,4) by blast
qed

text \<open>
  C1. What the exit status of \<open>nutz-verify epoch\<close> and of \<open>nutz-verify latest\<close> means, without \<open>--chain\<close>. With one honest endpoint among those given and a Cache
  that holds an earlier state of the chain, a run that does not end with 2 ends with 0 when the Epoch it is about (the one named, or the greatest
  with a standing Root) is honoured by the chain's own evidence, and with 1 when it is not. The evidence is the ledger's entry, the log of its
  Root, the Carry that the greatest standing Root before it leaves with the funding since, and what the rules give over the chain's
  own transfers and Exclusions. Nothing the other endpoints, the Cache file or a published bundle say can change that.
\<close>

theorem exit_judges:
  assumes "parse (V_ParseFloat env) args = Inr cmd" "C_name cmd \<noteq> ''sync''" "\<not> F_chain (C_flags cmd)"
    and "prepare env dep cmd (initial_report dep cmd) = Inr (rep, g)"
    and "honest_reader ep ch (G_reader g)" "earlier_cache k ch g" "\<And>i. asked_for k ch g cmd i \<Longrightarrow> epoch_ok i"
    and "sound_history (map toReplayable (chain_history k ch (R_token (G_reader g)) (D_TokenBlock (G_dep g)) (tipNumber g)))"
    and "posted_in_order k g (rev (engine_stream k ch g))"
    and "snd (verifier_run k env dep args) \<noteq> 2"
  shows "\<exists>i g' l posted carry computed. asked_for k ch g cmd i \<and> loaded_from k ch g g' \<and> evidence k ch g' i l posted carry computed \<and>
    snd (verifier_run k env dep args) = (if honoured l posted carry computed (F_expect (C_flags cmd)) then 0 else 1)"
proof -
  let ?x = "F_expect (C_flags cmd)"
  obtain e' rep' err where x: "perform k env cmd rep g = (e', rep', err)" by (metis prod_cases3)
  then have ex: "execute k env dep cmd (initial_report dep cmd) = (Some e', rep', err)"
    using assms(4) by (simp add: execute_def)
  have written: "\<not> unwritable cmd" using assms(10) run_status [of k env dep args] assms(1) ex by (auto split: option.splits)
  have none: "err = None" using assms(10) run_status [of k env dep args] assms(1,2) ex by (cases err) simp_all
  have exit: "snd (verifier_run k env dep args) = ExitCode (Worst (map Ep_Verdict (Rp_Epochs rep')))"
    using run_status [of k env dep args] assms(1,2) ex none written by simp
  have "Rp_Epochs rep = []" using prepare_blank [OF assms(4)] by (simp add: initial_report_def)
  from performed_judged [OF x [unfolded none] this assms(2,3,5-9) prepare_fresh(1,2,3) [OF assms(4)]]
  obtain i a g' l posted carry computed where j: "Rp_Epochs rep' = [a]" "asked_for k ch g cmd i" "loaded_from k ch g g'"
    "evidence k ch g' i l posted carry computed"
    "Ep_Verdict a = (if honoured l posted carry computed ?x then Match else if undecided l posted ?x then Indeterminate else Mismatch)" by blast
  have "snd (verifier_run k env dep args) = (if honoured l posted carry computed ?x then 0 else 1)"
    using assms(10) j(5) unfolding exit j(1) by (auto simp: Worst_def ExitCode_def split: if_splits)
  with j(2-4) show ?thesis by blast
qed

section \<open>A run over the node\<close>

definition run_env :: environment where
  "run_env =
     \<lparr>V_ParseFloat = \<lambda>s. None, V_ParseURL = \<lambda>s. Some \<lparr>U_Scheme = ''http'', U_Host = ''127.0.0.1''\<rparr>,
      V_dial = \<lambda>s. endpoint_of demo_keccak (node_build demo_keccak run_times run_ops), V_order = \<lambda>q. [],
      V_Getenv = \<lambda>v. ''/root'', V_file = \<lambda>d. [], V_held = \<lambda>n. False,
      V_Stat = \<lambda>p. Inl ''no such file'', V_parent = \<lambda>p. ''.'', V_allocations = \<lambda>d. Inl ''no such file'', V_root = \<lambda>d. Missing,
      V_bundle_words = \<lambda>e. ''bundle'', V_words = \<lambda>e. ''error'', V_repair_words = \<lambda>n. ''repaired''\<rparr>"

text \<open>The command line, with a Root expected or none.\<close>

definition run_args :: "string list \<Rightarrow> string list" where
  "run_args rest = [''epoch'', ''11'', ''--rpc'', ''http://127.0.0.1''] @ rest"

definition run_cmd :: "hash option \<Rightarrow> command" where
  "run_cmd x = \<lparr>C_name = ''epoch'', C_epochID = 11, C_finality = Safe, C_flags = initial_flags\<lparr>F_rpc := [''http://127.0.0.1''], F_expect := x\<rparr>\<rparr>"

lemma run_cmd_simps [simp]:
  "C_name (run_cmd x) = ''epoch''" "C_epochID (run_cmd x) = 11" "C_finality (run_cmd x) = Safe" "F_expect (C_flags (run_cmd x)) = x"
  "\<not> F_chain (C_flags (run_cmd x))" "F_artifacts (C_flags (run_cmd x)) = []" "\<not> F_fresh (C_flags (run_cmd x))"
  "F_rpc (C_flags (run_cmd x)) = [''http://127.0.0.1'']" "F_rate (C_flags (run_cmd x)) = DefaultCallsPerSecond"
  by (simp_all add: run_cmd_def initial_flags_def)

lemma run_parses:
  assumes "parse_flags (\<lambda>s. None) ([''--rpc'', ''http://127.0.0.1''] @ rest) initial_flags =
    Inr (initial_flags\<lparr>F_rpc := [''http://127.0.0.1''], F_expect := x\<rparr>, [])"
    and "''--'' \<notin> set rest"
  shows "parse (V_ParseFloat run_env) (run_args rest) = Inr (run_cmd x)"
proof -
  have p: "\<forall>p \<in> set [''epoch'', ''11'']. plain p" by (simp add: plain_def)
  have "parse_args (\<lambda>s. None) (run_args rest) initial_flags [] =
      Inr (initial_flags\<lparr>F_rpc := [''http://127.0.0.1''], F_expect := x\<rparr>, [''epoch'', ''11''])"
    using parse_args_plain [OF p, of "\<lambda>s. None" "[''--rpc'', ''http://127.0.0.1''] @ rest"] parse_args_flags [OF assms(1), of "[]"] assms(2)
    by (simp add: run_args_def parse_args.simps [of _ "[]"] parse_flags.simps)
  then show ?thesis
    by (simp add: parse_def run_env_def run_cmd_def check_command_def ParseUint10_def dec_value_def of_digits_def ParseFinality_def initial_flags_def
        DefaultCallsPerSecond_def)
qed

lemma run_parse: "parse (V_ParseFloat run_env) (run_args []) = Inr (run_cmd None)"
  by (rule run_parses) (code_simp, code_simp)

lemma run_parse_expect: "parse (V_ParseFloat run_env) (run_args [''--expect'', Hash_String 33]) = Inr (run_cmd (Some 33))"
  by (rule run_parses) (code_simp, code_simp)

lemma run_node_New: "N_ChainID (node_build k ts ops) = 4663" "N_Tips (node_build k ts ops) = N_Tips (node_New ts)"
proof -
  have "N_ChainID (apply_op k n op) = N_ChainID n" "N_Tips (apply_op k n op) = N_Tips n" for n op
    by (cases op; simp add: apply_op_def node_Transfer_def node_Exclusion_def node_RootPosted_def Launch_def append_log_def)+
  then have "N_ChainID (foldl (apply_op k) n ops) = N_ChainID n \<and> N_Tips (foldl (apply_op k) n ops) = N_Tips n" for n
    by (induction ops arbitrary: n) simp_all
  then show "N_ChainID (node_build k ts ops) = 4663" "N_Tips (node_build k ts ops) = N_Tips (node_New ts)"
    by (simp_all add: node_build_def) (simp add: node_New_def Let_def)
qed

lemma run_ChainID: "ChainID run_reader = Inr 4663"
proof -
  have "dispatch demo_keccak (node_build demo_keccak run_times run_ops) ''eth_chainId'' [] = Serves (JStr (quantity 4663))"
    by (simp add: dispatch_def run_node_New)
  from ask_serves [OF build_plain(1) this] show ?thesis
    by (simp add: ChainID_def run_reader_def fake_crossCheck to_string_def quantity_codec.roundtrip)
qed

lemma run_Head: "Head run_reader Safe = Inr run_tip"
proof -
  let ?n = "node_build demo_keccak run_times run_ops"
  have tip: "N_Tips ?n ''safe'' = Some 4" by (simp add: run_node_New) (simp add: node_New_def Let_def run_node(4))
  have none: "N_Tips ?n (quantity 4) = None" by (simp add: run_node_New node_New_def Let_def quantity_def)
  obtain j where j: "node_block demo_keccak ?n (quantity 4) = Serves j" "j \<noteq> JNull" "read_block j = Inr (H_block run_state 4)"
    using block_serves [OF node_build_logs, of demo_keccak run_times run_ops 4 demo_keccak] run_node(1,4) by auto
  have "node_block demo_keccak ?n ''safe'' = node_block demo_keccak ?n (quantity 4)"
    using tip none run_node(4) by (simp add: node_block_def)
  then have "dispatch demo_keccak ?n ''eth_getBlockByNumber'' [JStr ''safe'', JBool False] = Serves j"
    using j(1) by (simp add: dispatch_def to_string_def)
  from ask_serves [OF build_plain(1) this j(2)] j(3)
  have "blockByTag (endpoint_of demo_keccak ?n) ''safe'' = Inr (H_block run_state 4)" by (simp add: blockByTag_def)
  then show ?thesis
    by (simp add: Head_def run_reader_def fake_reader_def finality_tag_def eachEndpoint_def MinFunc_def run_tip_def)
qed

lemma run_New: "chain_New (V_ParseURL run_env) (V_dial run_env) (V_order run_env)
    \<lparr>Cfg_Endpoints = F_rpc (C_flags (run_cmd x)), Cfg_Token = D_Token run_deployment, Cfg_Distributor = D_Distributor run_deployment,
     Cfg_PonsFactory = D_PonsFactory run_deployment, Cfg_Rate = F_rate (C_flags (run_cmd x))\<rparr> = Inr run_reader"
proof -
  have "dec 1 = ''1''" by code_simp
  then show ?thesis
    by (simp add: chain_New_def run_env_def DefaultCallsPerSecond_def run_deployment_def newEndpoint_def
        run_reader_def fake_reader_def endpoint_of_def)
qed

lemma run_prepare: "\<exists>rep. prepare run_env run_deployment (run_cmd x) (initial_report run_deployment (run_cmd x)) = Inr (rep, run_start) \<and> Rp_Epochs rep = []"
proof -
  have chk: "deployment_Check run_deployment = None" "D_ChainID run_deployment = 4663" by (simp_all add: deployment_Check_def run_deployment_def)
  have env: "V_Getenv run_env = (\<lambda>v. ''/root'')" "V_file run_env d = []" "V_held run_env = (\<lambda>n. False)" for d
    by (simp_all add: run_env_def)
  have "engine_New (Some run_reader) run_tip run_dir run_deployment \<lparr>G_SyncChunk = 0, G_Fresh = False\<rparr> [] (\<lambda>n. False) = Inr run_start"
    by (simp add: run_start_def engine_New_def deployment_Check_def run_dir(2)) (simp add: run_deployment_def)
  then show ?thesis by (simp add: prepare_def chk run_New [simplified] run_ChainID run_Head env run_dir(1) [unfolded chk] Let_def initial_report_def)
qed

lemma run_result:
  "\<exists>res. snd (engine_Compute demo_keccak 11 run_engine) = Inr res \<and> E_HasRoot res \<and> E_Root res = 32 \<and> E_Totals res = (\<lambda>t. Some 7) \<and>
    E_ExpectedCarryIn res = zeroAmounts \<and> E_Funded res = (\<lambda>t. Some 7) \<and> E_Posted res = Some (run_post 3 2 43203 11 7)"
proof -
  obtain res where res: "snd (engine_Compute demo_keccak 11 run_engine) = Inr res" using run_returns by blast
  obtain eb b' found expected source where p: "closing_block run_engine 11 = Inr eb"
    "pick (previous_at demo_keccak run_engine) (rev (engine_stream demo_keccak run_state run_engine)) 11 = Inr (b', found)"
    "expected_at demo_keccak run_engine 11 found = Inr (expected, source)" "finish demo_keccak run_engine 11 eb expected source = Inr res"
    using honest_reader.Compute_parts [OF run_honest run_engine_simps(1,4) _ run_epoch_ok run_same res] run_sound by auto
  have "stands_at demo_keccak run_engine (run_post 2 1 39607 10 50) = Inr True" using run_stands(1) by (simp add: standing_epoch_def)
  then have "found = Some (run_post 2 1 39607 10 50)" using p(2) by (simp add: run_stream previous_at_def)
  moreover obtain l where "rebuilt demo_keccak run_engine 10 (Some (run_post 2 1 39607 10 50)) zeroAmounts ''its own posted carryIn'' = Inr l" "E_CarryOut l = zeroAmounts"
    using run_rebuilt [of 10 50 "run_post 2 1 39607 10 50" zeroAmounts "''its own posted carryIn''"] by blast
  ultimately have carry: "expected = zeroAmounts"
    using p(3) by (auto simp: expected_at_def carry_over_def carried.simps zeroAmounts_def)
  obtain m where m: "rebuilt demo_keccak run_engine 11 (Some (run_post 3 2 43203 11 7)) expected source = Inr m" "E_HasRoot m" "E_Root m = 32"
    "E_Totals m = (\<lambda>t. Some 7)" "E_ExpectedCarryIn m = expected" "E_Funded m = (\<lambda>t. Some 7)" "E_Posted m = Some (run_post 3 2 43203 11 7)"
    using run_rebuilt [of 11 7 "run_post 3 2 43203 11 7" expected source] by blast
  have "B_Number (H_block run_state 2) = 2" by (simp add: state_of_def)
  then have "res = m\<lparr>E_EndBlock := Some eb\<rparr>"
    using p(1,4) m(1) by (simp add: finish_def run_closing run_standing_root)
  with res m carry show ?thesis by auto
qed

lemma run_assessed:
  "\<exists>res a. snd (engine_Compute demo_keccak 11 run_start) = Inr res \<and> assess res x = Some a \<and>
    Ep_Verdict a = (if x = None \<or> x = Some 32 then Match else Mismatch)"
proof -
  obtain res where res: "snd (engine_Compute demo_keccak 11 run_engine) = Inr res" "E_HasRoot res" "E_Root res = 32" "E_Totals res = (\<lambda>t. Some 7)"
    "E_ExpectedCarryIn res = zeroAmounts" "E_Funded res = (\<lambda>t. Some 7)" "E_Posted res = Some (run_post 3 2 43203 11 7)" using run_result by blast
  let ?rc = "\<lparr>Rc_HasRoot = E_HasRoot res, Rc_Root = E_Root res, Rc_Totals = E_Totals res, Rc_Holders = length (E_Allocations res),
      Rc_ExpectedCarryIn = E_ExpectedCarryIn res, Rc_CarryFrom = E_CarryFrom res\<rparr>"
  let ?po = "\<lparr>Po_HasRoot = True, Po_Skipped = E_Skipped res, Po_Root = 32, Po_Totals = (\<lambda>t. Some 7), Po_Funded = E_Funded res, Po_CarryIn = (\<lambda>t. Some 0)\<rparr>"
  obtain as where as: "Assess ?rc ?po x = Some as" using Assess_not_nil [of ?po ?rc x] by (auto simp: present_def res)
  have "verdict_spec ?rc ?po x = (if x = None \<or> x = Some 32 then Match else Mismatch)"
    by (cases x) (simp_all add: verdict_spec_def agrees_def present_def cap_ok_def cap_at_def res zeroAmounts_def)
  then have "As_Verdict as = (if x = None \<or> x = Some 32 then Match else Mismatch)" using Assess_judges [OF as] by simp
  then have "\<exists>a. assess res x = Some a \<and> Ep_Verdict a = (if x = None \<or> x = Some 32 then Match else Mismatch)"
    using as by (simp add: assess_def res(7))
  moreover have "snd (engine_Compute demo_keccak 11 run_start) = snd (engine_Compute demo_keccak 11 run_engine)"
    using Compute_of_loaded [OF run_loads(1)] by (simp flip: run_engine_def)
  ultimately show ?thesis using res(1) by auto
qed

lemma run_exit:
  assumes "parse (V_ParseFloat run_env) args = Inr (run_cmd x)"
  shows "snd (verifier_run demo_keccak run_env run_deployment args) = (if x = None \<or> x = Some 32 then 0 else 1)"
proof -
  obtain rep where rep: "prepare run_env run_deployment (run_cmd x) (initial_report run_deployment (run_cmd x)) = Inr (rep, run_start)" "Rp_Epochs rep = []"
    using run_prepare by blast
  obtain res a where a: "snd (engine_Compute demo_keccak 11 run_start) = Inr res" "assess res x = Some a"
    "Ep_Verdict a = (if x = None \<or> x = Some 32 then Match else Mismatch)"
    using run_assessed by blast
  obtain e1 where e1: "engine_Compute demo_keccak 11 run_start = (e1, Inr res)" using a(1) by (metis prod.collapse)
  have all: "assess_all x [res] = Some [a]" using a(2) by (simp add: assess_all_def)
  have "\<exists>rep'. verifier_epoch demo_keccak run_env (C_flags (run_cmd x)) 11 run_start rep = (e1, rep', None) \<and> Rp_Epochs rep' = [a]"
    using e1 all rep(2) by (simp add: verifier_epoch_def recompute_epoch_def Let_def)
  then obtain rep' where "execute demo_keccak run_env run_deployment (run_cmd x) (initial_report run_deployment (run_cmd x)) = (Some e1, rep', None)"
    "Rp_Epochs rep' = [a]" using rep(1) by (auto simp: execute_def perform_def)
  moreover have "\<not> unwritable (run_cmd x)" by (simp add: unwritable_def run_cmd_def initial_flags_def)
  ultimately show ?thesis using a(3) by (simp add: run_status assms Worst_def ExitCode_def)
qed

lemma run_earlier: "earlier_cache demo_keccak run_state run_start"
proof -
  let ?br = "branch_of demo_keccak 7 run_state"
  obtain c where c: "Open False [] (cache_options run_deployment False) = Inr c" "holds (cache_options run_deployment False) c []"
    using Open_new [of "cache_options run_deployment False"] by blast
  have ok: "chain_ok demo_keccak 7 run_state" using fake_chain_ok run_node(1,2) by blast
  have br: "branch_ok ?br" by (rule honest_endpoint.branch_of_ok [OF node_honest [OF node_build_logs] ok])
  have empty: "branch_log ?br n 0 = []" for n by (simp add: branch_log_def)
  have held: "Open (G_held run_start 0) (G_file run_start) (cache_options (G_dep run_start) (G_Fresh (G_opts run_start))) = Inr c \<and>
      holds (cache_options (G_dep run_start) False) c (branch_log ?br (unat (D_TokenBlock (G_dep run_start))) 0) \<and> branch_ok ?br \<and>
      commits ?br (branch_of demo_keccak (R_token (G_reader run_start)) run_state) \<and>
      (\<forall>rc \<in> set (branch_log ?br (unat (D_TokenBlock (G_dep run_start))) 0). Rec_BlockNumber rc \<le> tipNumber run_start)"
    using c br by (simp add: empty commits_def)
  have "fresh_engine run_start \<and> tipNumber run_start \<noteq> - 1 \<and> B_Hash (T_Block (G_tip run_start)) \<noteq> 0 \<and>
      D_Token (G_dep run_start) = R_token (G_reader run_start) \<and> chain_ok demo_keccak (R_token (G_reader run_start)) run_state"
    using ok run_tip_hash by (simp add: fresh_engine_def run_deployment_simps)
  with held show ?thesis unfolding earlier_cache_def by blast
qed

lemma run_meets:
  "\<exists>rep. prepare run_env run_deployment (run_cmd x) (initial_report run_deployment (run_cmd x)) = Inr (rep, run_start)"
  "sound_history (map toReplayable (chain_history demo_keccak run_state (R_token (G_reader run_start)) (D_TokenBlock (G_dep run_start)) (tipNumber run_start)))"
  "posted_in_order demo_keccak run_start (rev (engine_stream demo_keccak run_state run_start))"
proof -
  note same = loaded_same [OF run_loads(2), folded run_engine_def]
  have "map toReplayable (chain_history demo_keccak run_state (R_token (G_reader run_start)) (D_TokenBlock (G_dep run_start)) (tipNumber run_start)) = run_history"
    using same(8) by simp
  then show "sound_history (map toReplayable (chain_history demo_keccak run_state (R_token (G_reader run_start)) (D_TokenBlock (G_dep run_start))
    (tipNumber run_start)))" using run_sound by simp
  show "posted_in_order demo_keccak run_start (rev (engine_stream demo_keccak run_state run_start))"
    using run_order unfolding same(2) same(5) .
  show "\<exists>rep. prepare run_env run_deployment (run_cmd x) (initial_report run_deployment (run_cmd x)) = Inr (rep, run_start)"
    using run_prepare by blast
qed

theorem exit_judges_witness:
  "(\<exists>g' l posted carry computed. loaded_from demo_keccak run_state run_start g' \<and> evidence demo_keccak run_state g' 11 l posted carry computed \<and>
      honoured l posted carry computed None) \<and>
   (\<exists>g' l posted carry computed. loaded_from demo_keccak run_state run_start g' \<and> evidence demo_keccak run_state g' 11 l posted carry computed \<and>
      \<not> honoured l posted carry computed (Some 33))"
proof -
  have *: "\<exists>g' l posted carry computed. loaded_from demo_keccak run_state run_start g' \<and> evidence demo_keccak run_state g' 11 l posted carry computed \<and>
      (honoured l posted carry computed x \<longleftrightarrow> x = None \<or> x = Some 32)" if p: "parse (V_ParseFloat run_env) args = Inr (run_cmd x)" for args x
  proof -
    obtain rep where rep: "prepare run_env run_deployment (run_cmd x) (initial_report run_deployment (run_cmd x)) = Inr (rep, run_start)"
      using run_meets(1) by blast
    have not2: "snd (verifier_run demo_keccak run_env run_deployment args) \<noteq> 2" by (simp add: run_exit [OF p])
    have asked: "asked_for demo_keccak run_state run_start (run_cmd x) i \<longleftrightarrow> i = 11" for i by (simp add: asked_for_def)
    have "epoch_ok i" if "asked_for demo_keccak run_state run_start (run_cmd x) i" for i using that run_epoch_ok by (simp add: asked)
    from exit_judges [OF p _ run_cmd_simps(5) rep run_honest [folded run_start_simps(1)] run_earlier this run_meets(2,3) not2]
    obtain g' l posted carry computed where j: "loaded_from demo_keccak run_state run_start g'" "evidence demo_keccak run_state g' 11 l posted carry computed"
      "(if x = None \<or> x = Some 32 then 0 else 1 :: nat) = (if honoured l posted carry computed x then 0 else 1)"
      unfolding run_exit [OF p] asked by auto
    have "honoured l posted carry computed x \<longleftrightarrow> x = None \<or> x = Some 32" using j(3) by (simp split: if_splits)
    with j(1,2) show ?thesis by blast
  qed
  from * [OF run_parse] * [OF run_parse_expect] show ?thesis by simp
qed

end
