(* ===== verification/Float64.thy ===== *)
theory Float64
  imports Complex_Main
begin

text \<open>
  Go's \<open>float64\<close>: the finite values as rational numbers, the two infinities and NaN, and the operations the program uses, each the
  exact result rounded once to nearest, ties to even, with gradual underflow and overflow to an infinity. The two zeros are one value here: they
  differ only as divisors, and the program divides by nothing that can be zero. A conversion to \<open>int64\<close> that does not fit is the
  parameter \<open>huge\<close>, since Go leaves it to the machine; whether a product and a sum are fused into one rounding is the parameter
  \<open>fused\<close>, since Go leaves it to the compiler.
\<close>

section \<open>Rounding\<close>

fun bits :: "nat \<Rightarrow> nat" where
  "bits n = (if n = 0 then 0 else Suc (bits (n div 2)))"

declare bits.simps [simp del]

text \<open>The exponent \<open>e\<close> with \<open>2\<^sup>e \<le> x < 2\<^sup>e\<^sup>+\<^sup>1\<close>.\<close>

definition binade :: "rat \<Rightarrow> int" where
  "binade x =
     (case quotient_of x of (p, q) \<Rightarrow>
        let e = int (bits (nat p)) - int (bits (nat q)) in if x < 2 powi e then e - 1 else e)"

definition spacing :: "rat \<Rightarrow> rat" where
  "spacing x = 2 powi max (binade \<bar>x\<bar> - 52) (- 1074)"

definition round_half_even :: "rat \<Rightarrow> int" where
  "round_half_even x =
     (let n = \<lfloor>x\<rfloor>; d = x - of_int n
      in if d < 1 / 2 then n else if 1 / 2 < d then n + 1 else if even n then n else n + 1)"

definition round64 :: "rat \<Rightarrow> rat" where
  "round64 x = (if x = 0 then 0 else of_int (round_half_even (x / spacing x)) * spacing x)"

section \<open>The type and its operations\<close>

datatype float64 = NaN | Infinite (negative: bool) | Finite (rational: rat)

definition fl :: "rat \<Rightarrow> float64" where
  "fl x = (if \<bar>round64 x\<bar> < 2 ^ 1024 then Finite (round64 x) else Infinite (x < 0))"

fun fadd :: "float64 \<Rightarrow> float64 \<Rightarrow> float64" where
  "fadd (Finite x) (Finite y) = fl (x + y)"
| "fadd NaN _ = NaN"
| "fadd _ NaN = NaN"
| "fadd (Infinite s) (Infinite t) = (if s = t then Infinite s else NaN)"
| "fadd (Infinite s) (Finite _) = Infinite s"
| "fadd (Finite _) (Infinite t) = Infinite t"

fun fneg :: "float64 \<Rightarrow> float64" where
  "fneg (Finite x) = Finite (- x)"
| "fneg (Infinite s) = Infinite (\<not> s)"
| "fneg NaN = NaN"

definition fsub :: "float64 \<Rightarrow> float64 \<Rightarrow> float64" where
  "fsub x y = fadd x (fneg y)"

fun fmul :: "float64 \<Rightarrow> float64 \<Rightarrow> float64" where
  "fmul (Finite x) (Finite y) = fl (x * y)"
| "fmul NaN _ = NaN"
| "fmul _ NaN = NaN"
| "fmul (Infinite s) (Infinite t) = Infinite (s \<noteq> t)"
| "fmul (Infinite s) (Finite y) = (if y = 0 then NaN else Infinite (s \<noteq> (y < 0)))"
| "fmul (Finite x) (Infinite t) = (if x = 0 then NaN else Infinite ((x < 0) \<noteq> t))"

fun fdiv :: "float64 \<Rightarrow> float64 \<Rightarrow> float64" where
  "fdiv (Finite x) (Finite y) = (if y \<noteq> 0 then fl (x / y) else if x = 0 then NaN else Infinite (x < 0))"
| "fdiv NaN _ = NaN"
| "fdiv _ NaN = NaN"
| "fdiv (Infinite s) (Infinite t) = NaN"
| "fdiv (Infinite s) (Finite y) = Infinite (s \<noteq> (y < 0))"
| "fdiv (Finite x) (Infinite t) = Finite 0"

text \<open>\<open>x + y * z\<close>, in one rounding or in two.\<close>

fun muladd :: "bool \<Rightarrow> float64 \<Rightarrow> float64 \<Rightarrow> float64 \<Rightarrow> float64" where
  "muladd True (Finite x) (Finite y) (Finite z) = fl (x + y * z)"
| "muladd _ x y z = fadd x (fmul y z)"

fun fle :: "float64 \<Rightarrow> float64 \<Rightarrow> bool" where
  "fle (Finite x) (Finite y) = (x \<le> y)"
| "fle NaN _ = False"
| "fle _ NaN = False"
| "fle (Infinite s) y = (s \<or> y = Infinite False)"
| "fle (Finite _) (Infinite t) = (\<not> t)"

definition fmin :: "float64 \<Rightarrow> float64 \<Rightarrow> float64" where
  "fmin x y = (if x = NaN \<or> y = NaN then NaN else if fle x y then x else y)"

definition of_int64 :: "int \<Rightarrow> float64" where
  "of_int64 i = fl (of_int i)"

fun to_int64 :: "(float64 \<Rightarrow> int) \<Rightarrow> float64 \<Rightarrow> int" where
  "to_int64 huge (Finite x) =
     (let n = (if x < 0 then \<lceil>x\<rceil> else \<lfloor>x\<rfloor>) in if - (2 ^ 63) \<le> n \<and> n < 2 ^ 63 then n else huge (Finite x))"
| "to_int64 huge x = huge x"

section \<open>The error of one rounding\<close>

lemma bits_bounds: "0 < n \<Longrightarrow> 2 ^ (bits n - 1) \<le> n \<and> n < 2 ^ bits n \<and> 0 < bits n"
proof (induction n rule: bits.induct)
  case (1 n)
  show ?case
  proof (cases "n = 1")
    case False
    with 1 have "2 ^ (bits (n div 2) - 1) \<le> n div 2" "n div 2 < 2 ^ bits (n div 2)" "0 < bits (n div 2)" by auto
    then have "2 ^ bits (n div 2) \<le> 2 * (n div 2)" "2 * (n div 2) + 2 \<le> 2 * 2 ^ bits (n div 2)"
      by (cases "bits (n div 2)"; simp)+
    then show ?thesis using 1(2) by (subst bits.simps, subst (2) bits.simps, subst (3) bits.simps) (simp, linarith)
  qed (simp add: bits.simps)
qed

lemma binade_bounds:
  assumes "0 < x"
  shows "2 powi binade x \<le> x" "x < 2 powi (binade x + 1)"
proof -
  obtain p q where pq: "quotient_of x = (p, q)" by (cases "quotient_of x")
  have q: "0 < q" and x: "x = of_int p / of_int q" using quotient_of_denom_pos [OF pq] quotient_of_div [OF pq] by simp_all
  then have p: "0 < p" using assms by (simp add: zero_less_divide_iff)
  let ?m = "bits (nat p)" and ?l = "bits (nat q)"
  have m: "2 ^ (?m - 1) \<le> nat p" "nat p < 2 ^ ?m" "0 < ?m" and l: "2 ^ (?l - 1) \<le> nat q" "nat q < 2 ^ ?l" "0 < ?l"
    using bits_bounds [of "nat p"] bits_bounds [of "nat q"] p q by simp_all
  have up: "of_int i < (2::rat) ^ n" if "nat i < 2 ^ n" "0 < i" for i n
    using that of_int_less_iff [of i "2 ^ n", where 'a = rat] by (simp add: nat_less_iff)
  have low: "(2::rat) powi (int n - 1) \<le> of_int i" if "2 ^ (n - 1) \<le> nat i" "0 < i" "0 < n" for i n
  proof -
    have "(2::rat) powi (int n - 1) = 2 ^ (n - 1)" using that(3) by (simp add: power_int_nonneg_exp nat_diff_distrib)
    moreover have "(2::rat) ^ (n - 1) \<le> of_int i" using that(1,2) of_int_le_iff [of "2 ^ (n - 1)" i, where 'a = rat] by (simp add: le_nat_iff)
    ultimately show ?thesis by simp
  qed
  have "x < 2 ^ ?m / 2 powi (int ?l - 1)"
    unfolding x using up [OF m(2) p] low [OF l(1) q l(3)] p by (intro frac_less) auto
  also have "\<dots> = 2 powi (int ?m - int ?l + 1)" by (simp add: power_int_diff power_int_add)
  finally have hi: "x < 2 powi (int ?m - int ?l + 1)" .
  have "(2::rat) powi (int ?m - int ?l - 1) = 2 powi (int ?m - 1) / 2 ^ ?l" by (simp add: power_int_diff)
  also have "\<dots> < x" unfolding x using low [OF m(1) p m(3)] up [OF l(2) q] q by (intro frac_less2) auto
  finally have lo: "2 powi (int ?m - int ?l - 1) \<le> x" by simp
  show "2 powi binade x \<le> x" "x < 2 powi (binade x + 1)" using lo hi by (simp_all add: binade_def pq Let_def not_less)
qed

lemma powi_less: "(2::rat) powi m < 2 powi n \<Longrightarrow> m < n"
  using power_int_increasing [of n m "2::rat"] by (metis not_less one_le_numeral)

lemma spacing_pos [simp]: "0 < spacing x" "0 \<le> spacing x" "spacing x \<noteq> 0"
  by (simp_all add: spacing_def)

lemma round_half_even_error: "\<bar>of_int (round_half_even x) - x\<bar> \<le> 1 / 2"
  using floor_correct [of x] by (auto simp: round_half_even_def Let_def)

lemma round_half_even_int [simp]: "round_half_even (of_int i) = i"
  by (simp add: round_half_even_def)

lemma round64_half: "\<bar>round64 x - x\<bar> \<le> spacing x / 2"
proof (cases "x = 0")
  case False
  have "round64 x - x = (of_int (round_half_even (x / spacing x)) - x / spacing x) * spacing x" 
    using False by (simp add: round64_def left_diff_distrib)
  then have "\<bar>round64 x - x\<bar> = \<bar>of_int (round_half_even (x / spacing x)) - x / spacing x\<bar> * spacing x"
    using spacing_pos(1) [of x] by (simp only: abs_mult abs_of_pos)
  also have "\<dots> \<le> 1 / 2 * spacing x" using round_half_even_error [of "x / spacing x"] spacing_pos(1) [of x] by (intro mult_right_mono) simp_all
  finally show ?thesis by simp
qed (simp add: round64_def less_imp_le)

text \<open>Half a unit in the last place, relative to the number and, below the normal numbers, absolute.\<close>

definition ulp :: rat where "ulp = 1 / 2 ^ 53"
definition tiny :: rat where "tiny = 1 / 2 ^ 1075"

lemma binade_scaled: "0 < x \<Longrightarrow> 2 powi (binade x - 52) / 2 \<le> ulp * x"
  using binade_bounds(1) [of x] by (simp add: power_int_diff ulp_def)

lemma round64_error: "\<bar>round64 x - x\<bar> \<le> ulp * \<bar>x\<bar> + tiny"
proof (cases "x = 0")
  case False
  have "spacing x / 2 \<le> ulp * \<bar>x\<bar> + tiny"
  proof (cases "- 1074 \<le> binade \<bar>x\<bar> - 52")
    case True
    then have "spacing x = 2 powi (binade \<bar>x\<bar> - 52)" by (simp only: spacing_def max_absorb1)
    moreover have "0 \<le> tiny" by (simp add: tiny_def)
    ultimately show ?thesis using binade_scaled [of "\<bar>x\<bar>"] False by simp
  next
    case False
    then have "spacing x / 2 = tiny" by (simp add: spacing_def max_def tiny_def)
    moreover have "0 \<le> ulp * \<bar>x\<bar>" by (simp add: ulp_def)
    ultimately show ?thesis by linarith
  qed
  then show ?thesis using round64_half [of x] by linarith
qed (simp add: round64_def tiny_def)

lemma round64_relative:
  assumes "1 / 2 ^ 1022 \<le> \<bar>x\<bar>"
  shows "\<bar>round64 x - x\<bar> \<le> ulp * \<bar>x\<bar>"
proof -
  have x: "0 < \<bar>x\<bar>" using assms by (rule less_le_trans [rotated]) simp
  have "(2::rat) powi (- 1022) \<le> \<bar>x\<bar>" using assms by (simp add: power_int_minus_divide)
  also have "\<dots> < 2 powi (binade \<bar>x\<bar> + 1)" using binade_bounds(2) [OF x] .
  finally have "- 1022 < binade \<bar>x\<bar> + 1" by (rule powi_less)
  then have "- 1074 \<le> binade \<bar>x\<bar> - 52" by simp
  then have "spacing x = 2 powi (binade \<bar>x\<bar> - 52)" by (simp only: spacing_def max_absorb1)
  then show ?thesis using round64_half [of x] binade_scaled [OF x] by simp
qed

text \<open>Rounding keeps the sign, and small integers exactly.\<close>

lemma round64_nonneg: "0 \<le> x \<Longrightarrow> 0 \<le> round64 x"
proof (cases "x = 0")
  case False
  assume "0 \<le> x"
  then have "0 \<le> x / spacing x" using spacing_pos(1) [of x] by (intro divide_nonneg_pos)
  then have "0 \<le> \<lfloor>x / spacing x\<rfloor>" by simp
  then have "0 \<le> round_half_even (x / spacing x)" by (simp add: round_half_even_def Let_def)
  then show ?thesis using False spacing_pos(1) [of x] by (simp add: round64_def)
qed (simp add: round64_def)

lemma round64_int:
  assumes "\<bar>i\<bar> < 2 ^ 53"
  shows "round64 (of_int i) = of_int i"
proof (cases "i = 0")
  case False
  let ?x = "of_int i :: rat"
  have x: "0 < \<bar>?x\<bar>" using False by simp
  have "2 powi binade \<bar>?x\<bar> \<le> \<bar>?x\<bar>" by (rule binade_bounds(1) [OF x])
  also have "\<dots> < of_int (2 ^ 53)" using assms by (simp only: of_int_abs [symmetric] of_int_less_iff)
  finally have "(2::rat) powi binade \<bar>?x\<bar> < 2 powi 53" by simp
  then have b: "binade \<bar>?x\<bar> < 53" by (rule powi_less)
  define k where "k = nat (- max (binade \<bar>?x\<bar> - 52) (- 1074))"
  have "max (binade \<bar>?x\<bar> - 52) (- 1074) = - int k" using b by (simp add: k_def)
  then have s: "spacing ?x = 1 / 2 ^ k" by (simp add: spacing_def power_int_minus_divide)
  then have "?x / spacing ?x = of_int (i * 2 ^ k)" by simp
  then have "round_half_even (?x / spacing ?x) = i * 2 ^ k" by (simp only: round_half_even_int)
  then show ?thesis using False by (simp add: round64_def s)
qed (simp add: round64_def)

text \<open>What is far from the largest number does not overflow.\<close>

lemma fl_finite:
  assumes "\<bar>x\<bar> \<le> 2 ^ 1000"
  shows "fl x = Finite (round64 x)"
proof -
  have "ulp * \<bar>x\<bar> \<le> \<bar>x\<bar>" "tiny \<le> 1" by (simp_all add: ulp_def tiny_def)
  then have "\<bar>round64 x\<bar> \<le> 2 * \<bar>x\<bar> + 1" using round64_error [of x] by linarith
  also have "\<dots> \<le> 2 * 2 ^ 1000 + 1" using assms by simp
  also have "\<dots> < 2 ^ 1024" by simp
  finally show ?thesis by (simp add: fl_def)
qed

lemma of_int64_exact: "\<bar>i\<bar> < 2 ^ 53 \<Longrightarrow> of_int64 i = Finite (of_int i)"
proof -
  assume i: "\<bar>i\<bar> < 2 ^ 53"
  have "\<bar>of_int i :: rat\<bar> < of_int (2 ^ 53)" using i by (simp only: of_int_abs [symmetric] of_int_less_iff)
  then have "\<bar>of_int i :: rat\<bar> < 2 ^ 1024" by (rule less_trans) simp
  with i show ?thesis by (simp add: of_int64_def fl_def round64_int)
qed

text \<open>How a concrete number is rounded.\<close>

lemma round_half_even_nearest:
  assumes "\<bar>x - of_int n\<bar> < 1 / 2"
  shows "round_half_even x = n"
proof -
  have "\<lfloor>x\<rfloor> = n \<or> \<lfloor>x\<rfloor> = n - 1" using assms by (auto simp: floor_eq_iff abs_less_iff)
  then show ?thesis using assms floor_correct [of x] by (auto simp: round_half_even_def Let_def abs_less_iff)
qed

lemma binade_unique:
  assumes "2 powi e \<le> x" "x < 2 powi (e + 1)"
  shows "binade x = e"
proof -
  have x: "0 < x" using assms(1) by (rule less_le_trans [rotated]) simp
  have "e < binade x + 1" by (rule powi_less) (rule le_less_trans [OF assms(1) binade_bounds(2) [OF x]])
  moreover have "binade x < e + 1" by (rule powi_less) (rule le_less_trans [OF binade_bounds(1) [OF x] assms(2)])
  ultimately show ?thesis by simp
qed

lemma round64_at:
  assumes "2 powi e \<le> x" "x < 2 powi (e + 1)" "- 1022 \<le> e"
  shows "round64 x = of_int (round_half_even (x / 2 powi (e - 52))) * 2 powi (e - 52)"
proof -
  have x: "0 < x" using assms(1) by (rule less_le_trans [rotated]) simp
  then have "binade \<bar>x\<bar> = e" using binade_unique [OF assms(1,2)] by simp
  moreover have "max (e - 52) (- 1074) = e - 52" using assms(3) by simp
  ultimately have "spacing x = 2 powi (e - 52)" by (simp only: spacing_def)
  then show ?thesis using x by (simp add: round64_def)
qed

end
