(* ===== verification/Pacer.thy ===== *)
theory Pacer
  imports Float64 Reader
begin

text \<open>
  The pace at which an endpoint is asked (\<open>pacer\<close> of \<open>chain/rpc.go\<close>): a token bucket that may be in debt, in the \<open>float64\<close>
  arithmetic of the code, every rounding included. Time is in nanoseconds, read under the lock from a clock that does not go back. Where Go leaves
  the result to the compiler or to the machine it is a parameter: \<open>fused\<close>, whether the refill is a fused multiply-may add to a stretch of time, \<open>huge\<close>,
  a conversion to \<open>int64\<close> that does not fit.
\<close>

section \<open>The bucket\<close>

record pacer =
  Pc_rate :: float64
  Pc_capacity :: float64
  Pc_tokens :: float64
  Pc_last :: int

definition newPacer :: "float64 \<Rightarrow> float64 \<Rightarrow> int \<Rightarrow> pacer" where
  "newPacer r capacity now = \<lparr>Pc_rate = r, Pc_capacity = capacity, Pc_tokens = capacity, Pc_last = now\<rparr>"

definition endpoint_pacer :: "float64 \<Rightarrow> int \<Rightarrow> pacer" where
  "endpoint_pacer callsPerSecond now = newPacer callsPerSecond (Finite (2 * of_nat HeaderBatch)) now"

text \<open>\<open>Time.Sub\<close>, which stops at the ends of \<open>int64\<close>, and \<open>Duration.Seconds\<close>.\<close>

definition Sub :: "int \<Rightarrow> int \<Rightarrow> int" where
  "Sub t u = max (- (2 ^ 63)) (min (2 ^ 63 - 1) (t - u))"

definition Seconds :: "int \<Rightarrow> float64" where
  "Seconds d =
     (let sec = sgn d * (\<bar>d\<bar> div 10 ^ 9); nsec = d - sec * 10 ^ 9
      in fadd (of_int64 sec) (fdiv (of_int64 nsec) (Finite (10 ^ 9))))"

text \<open>The charge made under the lock, and then the pause, none when nothing is owed.\<close>

definition charge :: "bool \<Rightarrow> int \<Rightarrow> nat \<Rightarrow> pacer \<Rightarrow> pacer" where
  "charge fused now n p =
     (let refilled = fmin (Pc_capacity p) (muladd fused (Pc_tokens p) (Seconds (Sub now (Pc_last p))) (Pc_rate p))
      in p\<lparr>Pc_tokens := fsub refilled (of_int64 (int n)), Pc_last := now\<rparr>)"

definition pacer_wait :: "bool \<Rightarrow> (float64 \<Rightarrow> int) \<Rightarrow> int \<Rightarrow> nat \<Rightarrow> pacer \<Rightarrow> pacer \<times> int option" where
  "pacer_wait fused huge now n p =
     (let p' = charge fused now n p; debt = fneg (Pc_tokens p')
      in (p', if fle debt (Finite 0) then None else Some (to_int64 huge (fmul (fdiv debt (Pc_rate p')) (Finite (10 ^ 9))))))"

text \<open>When each of a sequence of requests, by the times they are charged at, is let through. A timer that is set to the past fires at once.\<close>

fun released :: "bool \<Rightarrow> (float64 \<Rightarrow> int) \<Rightarrow> pacer \<Rightarrow> (int \<times> nat) list \<Rightarrow> int list" where
  "released fused huge p [] = []"
| "released fused huge p ((now, n) # later) =
     (case pacer_wait fused huge now n p of
        (p', pause) \<Rightarrow> (case pause of None \<Rightarrow> now | Some d \<Rightarrow> now + max 0 d) # released fused huge p' later)"

section \<open>Seconds\<close>

definition seconds :: "int \<Rightarrow> rat" where
  "seconds d = of_int d / 10 ^ 9"

lemma seconds_split: "seconds (x - z) * r = seconds (x - y) * r + seconds (y - z) * r"
  by (simp add: seconds_def field_simps)

lemma constants: "0 < ulp" "ulp \<le> 1 / 2 ^ 53" "0 \<le> tiny" "tiny \<le> 1 / 2 ^ 200"
  by (simp_all add: ulp_def tiny_def)

lemma round64_up:
  assumes "x = 0 \<or> 1 / 2 ^ 1022 \<le> x"
  shows "0 \<le> round64 x" "round64 x \<le> (1 + ulp) * x" "(1 - ulp) * x \<le> round64 x"
proof -
  have x: "0 \<le> x" using assms by (auto intro: order_trans [rotated])
  then show "0 \<le> round64 x" by (rule round64_nonneg)
  have "\<bar>round64 x - x\<bar> \<le> ulp * x" using assms round64_relative [of x] x by (auto simp: round64_def)
  then show "round64 x \<le> (1 + ulp) * x" "(1 - ulp) * x \<le> round64 x" by (simp_all add: algebra_simps abs_le_iff)
qed

lemma Seconds_bounds:
  assumes "0 \<le> d" "d < 2 ^ 63"
  shows "\<exists>s. Seconds d = Finite s \<and> 0 \<le> s \<and> s \<le> (1 + ulp)\<^sup>2 * seconds d \<and> s \<le> 2 ^ 36"
proof -
  define sec nsec where "sec = d div 10 ^ 9" and "nsec = d mod 10 ^ 9"
  have d: "d = sec * 10 ^ 9 + nsec" and sec: "0 \<le> sec" "sec < 2 ^ 34" and nsec: "0 \<le> nsec" "nsec < 10 ^ 9"
    using assms by (simp_all add: sec_def nsec_def)
  let ?x = "of_int nsec / 10 ^ 9 :: rat" and ?s = "of_int sec :: rat"
  define b where "b = round64 ?x"
  have normal: "1 / 2 ^ 1022 \<le> (1 / 10 ^ 10 :: rat)" by simp
  have x: "?x = 0 \<or> 1 / 10 ^ 9 \<le> ?x" using nsec(1) by (cases "nsec = 0") simp_all
  have x1: "?x \<le> 1" using nsec(2) of_int_le_iff [of nsec "10 ^ 9", where 'a = rat] by simp
  from x have b: "0 \<le> b" "b \<le> (1 + ulp) * ?x" "(1 - ulp) * ?x \<le> b" unfolding b_def using normal by (intro round64_up; force)+
  have b1: "b \<le> 2" using b(2) x1 constants mult_mono [of "1 + ulp" 2 ?x 1] nsec(1) by simp
  have sum: "?s + b = 0 \<or> 1 / 10 ^ 10 \<le> ?s + b"
  proof (cases "sec = 0")
    case True
    have "?x / 2 \<le> (1 - ulp) * ?x" using constants nsec(1) mult_right_mono [of "1 / 2" "1 - ulp" ?x] by simp
    moreover have "?x = 0 \<Longrightarrow> b = 0" using b(1,2) by simp
    ultimately show ?thesis using True x b(3) by (simp del: divide_eq_0_iff) linarith
  next
    case False
    then have "1 \<le> ?s" using sec(1) by simp
    then show ?thesis using b(1) by simp
  qed
  have s34: "?s \<le> 2 ^ 34" using sec(2) of_int_le_iff [of sec "2 ^ 34", where 'a = rat] by simp
  have "fdiv (of_int64 nsec) (Finite (10 ^ 9)) = Finite b"
    using nsec x1 fl_finite [of ?x] by (simp add: of_int64_exact b_def)
  moreover have "of_int64 sec = Finite ?s" using sec by (simp add: of_int64_exact)
  moreover have "fl (?s + b) = Finite (round64 (?s + b))" using sec(1) b(1) b1 s34 by (intro fl_finite) simp
  moreover have "Seconds d = fadd (of_int64 sec) (fdiv (of_int64 nsec) (Finite (10 ^ 9)))"
  proof -
    have "sgn d * (\<bar>d\<bar> div 10 ^ 9) = sec" using assms(1) by (cases "d = 0") (simp_all add: sec_def)
    moreover have "d - sec * 10 ^ 9 = nsec" using d by linarith
    ultimately show ?thesis by (simp only: Seconds_def Let_def)
  qed
  ultimately have eq: "Seconds d = Finite (round64 (?s + b))" by simp
  have r: "0 \<le> round64 (?s + b)" "round64 (?s + b) \<le> (1 + ulp) * (?s + b)" using sum normal by (intro round64_up; force)+
  have "0 \<le> ulp * ?s" using sec(1) constants(1) by simp
  then have "?s + b \<le> (1 + ulp) * (?s + ?x)" using b(2) by (simp only: distrib_left distrib_right mult_1)
  moreover have "?s + ?x = seconds d" by (simp add: seconds_def d add_divide_distrib)
  ultimately have "(1 + ulp) * (?s + b) \<le> (1 + ulp) * ((1 + ulp) * seconds d)" using constants(1) by (intro mult_left_mono) simp_all
  then have "round64 (?s + b) \<le> (1 + ulp)\<^sup>2 * seconds d" using r(2) by (simp add: power2_eq_square mult.assoc)
  moreover have "(1 + ulp) * (?s + b) \<le> 2 * (?s + b)" using constants sec(1) b(1) by (intro mult_right_mono) simp_all
  then have "round64 (?s + b) \<le> 2 ^ 36" using r(2) s34 b1 by simp
  ultimately show ?thesis using eq r(1) by blast
qed

section \<open>One charge\<close>

text \<open>
  The slack of the arithmetic: \<open>stretch\<close> is what roundings may add to a stretch of time, \<open>whole\<close> what they leave of each call charged.
\<close>

definition stretch :: rat where "stretch = 1 + 1 / 2 ^ 50"
definition slip :: rat where "slip = 1 / 2 ^ 27"
definition whole :: rat where "whole = 1 - 2 * slip"

lemma stretch_pos: "0 \<le> stretch" "1 \<le> stretch"
  by (simp_all add: stretch_def)

abbreviation owned :: "pacer \<Rightarrow> rat" where "owned p \<equiv> rational (Pc_tokens p)"

definition paced :: "rat \<Rightarrow> pacer \<Rightarrow> bool" where
  "paced r p \<longleftrightarrow> 0 < r \<and> r \<le> 2 ^ 900 \<and> Pc_rate p = Finite r \<and> Pc_capacity p = Finite 40 \<and> Pc_tokens p = Finite (owned p) \<and> owned p \<le> 40"

text \<open>
  The requests to come: their times do not go back, each is for some calls and no more than the bucket holds, and all together they stay within
  the numbers in which a call is far from lost to rounding, and within the pauses that fit a duration.
\<close>

definition demand :: "pacer \<Rightarrow> (int \<times> nat) list \<Rightarrow> rat" where
  "demand p calls = 2 * of_nat (sum_list (map snd calls)) - owned p"

definition fits :: "rat \<Rightarrow> pacer \<Rightarrow> (int \<times> nat) list \<Rightarrow> bool" where
  "fits r p calls \<longleftrightarrow>
     sorted (Pc_last p # map fst calls) \<and> (\<forall>n \<in> snd ` set calls. 0 < n \<and> n \<le> 40) \<and>
     demand p calls \<le> 2 ^ 25 \<and> demand p calls * (4 * 10 ^ 9) \<le> 2 ^ 63 * r"

lemma slip_small: "0 \<le> slip" "slip \<le> 1 / 8"
  by (simp_all add: slip_def)

lemma refilled:
  assumes "\<bar>k\<bar> \<le> 2 ^ 25 + 40" "0 \<le> e" "e \<le> 2 ^ 36" "0 < r" "r \<le> 2 ^ 900"
  shows "\<exists>s. muladd fused (Finite k) (Finite e) (Finite r) = Finite s \<and>
    s \<le> k + (1 + ulp)\<^sup>2 * (e * r) + slip \<and> k - slip \<le> s"
proof -
  have er: "0 \<le> e * r" "e * r \<le> 2 ^ 36 * 2 ^ 900" using assms by (simp, intro mult_mono) simp_all
  then have big: "\<bar>e * r\<bar> \<le> 2 ^ 1000" "\<bar>k + e * r\<bar> \<le> 2 ^ 1000" using assms(1) by simp_all
  define P where "P = round64 (e * r)"
  have up: "ulp * y \<le> y" if "0 \<le> y" for y using constants mult_right_mono [of ulp 1 y] that by simp
  have P: "\<bar>P - e * r\<bar> \<le> ulp * (e * r) + tiny" "0 \<le> P"
    using round64_error [of "e * r"] er(1) by (simp_all add: P_def round64_nonneg)
  then have P2: "P \<le> 2 * (e * r) + tiny" using up [OF er(1)] by linarith
  then have big': "\<bar>k + P\<bar> \<le> 2 ^ 1000" using assms(1) er(2) P(2) constants by simp
  have small: "ulp * \<bar>k\<bar> + 3 * tiny \<le> slip"
    using mult_mono [OF constants(2) assms(1)] constants(1,4) by (simp add: slip_def)
  note t = constants(3)
  have split: "ulp * \<bar>k + y\<bar> \<le> ulp * \<bar>k\<bar> + ulp * y" if "0 \<le> y" for y
    using that constants(1) mult_left_mono [of "\<bar>k + y\<bar>" "\<bar>k\<bar> + y" ulp] by (simp add: distrib_left)
  have two: "muladd False (Finite k) (Finite e) (Finite r) = Finite (round64 (k + P))"
    using fl_finite [OF big(1)] fl_finite [OF big'] by (simp add: P_def)
  have one: "muladd True (Finite k) (Finite e) (Finite r) = Finite (round64 (k + e * r))" using fl_finite [OF big(2)] by simp
  have sq: "(1 + ulp)\<^sup>2 * (e * r) = e * r + 2 * (ulp * (e * r)) + ulp * (ulp * (e * r))"
    by (simp add: power2_eq_square algebra_simps)
  have pos: "0 \<le> ulp * (e * r)" "0 \<le> ulp * (ulp * (e * r))" using er(1) constants(1) by simp_all
  have uP: "ulp * P \<le> ulp * (e * r) + ulp * (ulp * (e * r)) + tiny"
  proof -
    have "ulp * P \<le> ulp * (e * r + ulp * (e * r) + tiny)" using P(1) constants(1) by (intro mult_left_mono) linarith+
    moreover have "ulp * tiny \<le> tiny" using up t by blast
    ultimately show ?thesis by (simp only: distrib_left)
  qed
  show ?thesis
  proof (cases fused)
    case True
    have "\<bar>round64 (k + e * r) - (k + e * r)\<bar> \<le> ulp * \<bar>k\<bar> + ulp * (e * r) + tiny"
      using round64_error [of "k + e * r"] split [OF er(1)] by linarith
    then have "round64 (k + e * r) \<le> k + (1 + ulp)\<^sup>2 * (e * r) + slip" "k - slip \<le> round64 (k + e * r)"
      using sq pos small t up [OF er(1)] by linarith+
    then show ?thesis using True one by simp
  next
    case False
    have "\<bar>round64 (k + P) - (k + P)\<bar> \<le> ulp * \<bar>k\<bar> + ulp * P + tiny"
      using round64_error [of "k + P"] split [OF P(2)] by linarith
    then have "round64 (k + P) \<le> k + (1 + ulp)\<^sup>2 * (e * r) + slip" "k - slip \<le> round64 (k + P)"
      using sq pos small t P uP up [OF P(2)] by linarith+
    then show ?thesis using False two by simp
  qed
qed

lemma charge_last [simp]: "Pc_last (charge fused now n p) = now"
  by (simp add: charge_def Let_def)

lemma stretch_covers: "(1 + ulp) ^ 4 \<le> stretch" "1 \<le> stretch * (1 - ulp)\<^sup>2" "stretch * (1 + ulp)\<^sup>2 \<le> 1 + 1 / 2 ^ 49"
  by (simp_all add: ulp_def stretch_def power_divide)

lemma charge_tokens:
  assumes "paced r p" "fits r p ((now, n) # later)"
  shows "paced r (charge fused now n p)" "owned (charge fused now n p) \<le> owned p + stretch * (seconds (now - Pc_last p) * r) - whole * of_nat n"
    "owned (charge fused now n p) \<le> 40 - whole * of_nat n" "owned p - (1 + 2 * slip) * of_nat n \<le> owned (charge fused now n p)"
proof -
  let ?k = "owned p" and ?n = "of_nat n :: rat" and ?d = "now - Pc_last p"
  have r: "0 < r" "r \<le> 2 ^ 900" and p: "Pc_rate p = Finite r" "Pc_capacity p = Finite 40" "Pc_tokens p = Finite ?k" "?k \<le> 40"
    using assms(1) by (simp_all only: paced_def)
  have n: "1 \<le> ?n" "?n \<le> 40" "n \<le> 40" and d: "0 \<le> ?d" and dem: "demand p ((now, n) # later) \<le> 2 ^ 25"
    using assms(2) of_nat_le_iff [of n 40, where 'a = rat] of_nat_le_iff [of 1 n, where 'a = rat] by (auto simp: fits_def)
  have k: "2 * ?n - ?k \<le> 2 ^ 25"
  proof -
    have "2 * ?n - ?k \<le> demand p ((now, n) # later)" by (simp add: demand_def)
    with dem show ?thesis by simp
  qed
  have sub: "0 \<le> Sub now (Pc_last p)" "Sub now (Pc_last p) < 2 ^ 63" "Sub now (Pc_last p) \<le> ?d" using d by (simp_all add: Sub_def)
  obtain e where e: "Seconds (Sub now (Pc_last p)) = Finite e" "0 \<le> e" "e \<le> (1 + ulp)\<^sup>2 * seconds (Sub now (Pc_last p))" "e \<le> 2 ^ 36"
    using Seconds_bounds [OF sub(1,2)] by blast
  obtain s where s: "muladd fused (Finite ?k) (Finite e) (Finite r) = Finite s"
    "s \<le> ?k + (1 + ulp)\<^sup>2 * (e * r) + slip" "?k - slip \<le> s"
    using refilled [of ?k e r fused] k n(1) p(4) e(2,4) r by (force simp: abs_le_iff)
  define x where "x = min 40 s - ?n"
  have m: "x \<le> s - ?n" "x \<le> 40 - ?n" "?k - slip - ?n \<le> x" using s(3) p(4) by (simp_all add: x_def min_def slip_def)
  have x: "\<bar>x\<bar> \<le> 2 ^ 25 + 1" using k n p(4) s(3) by (simp add: x_def min_def abs_le_iff slip_def)
  have err: "ulp * \<bar>x\<bar> + tiny \<le> slip"
    using mult_mono [OF constants(2) x] constants(1,4) by (simp add: slip_def)
  have fin: "fl x = Finite (round64 x)" using x by (intro fl_finite) (rule order_trans, assumption, simp)
  have near: "\<bar>round64 x - x\<bar> \<le> slip" using round64_error [of x] err by linarith
  have "of_int64 (int n) = Finite ?n" using n(3) of_int64_exact [of "int n"] by simp
  then have tok: "Pc_tokens (charge fused now n p) = Finite (round64 x)"
    using p e(1) s(1) fin by (cases "40 \<le> s") (simp_all add: charge_def Let_def fmin_def fsub_def x_def)
  have rest: "Pc_rate (charge fused now n p) = Finite r" "Pc_capacity (charge fused now n p) = Finite 40" using p by (simp_all add: charge_def Let_def)
  have gain: "(1 + ulp)\<^sup>2 * (e * r) \<le> stretch * (seconds ?d * r)"
  proof -
    have "e \<le> (1 + ulp)\<^sup>2 * seconds ?d"
      using e(3) sub(3) mult_left_mono [of "seconds (Sub now (Pc_last p))" "seconds ?d" "(1 + ulp)\<^sup>2"] by (simp add: seconds_def)
    then have "(1 + ulp)\<^sup>2 * (e * r) \<le> (1 + ulp)\<^sup>2 * ((1 + ulp)\<^sup>2 * seconds ?d * r)" using r(1) by (intro mult_left_mono mult_right_mono) simp_all
    also have "\<dots> = (1 + ulp) ^ 4 * (seconds ?d * r)" by (simp add: power2_eq_square eval_nat_numeral)
    also have "\<dots> \<le> stretch * (seconds ?d * r)" using stretch_covers(1) d r(1) by (intro mult_right_mono) (simp_all add: seconds_def)
    finally show ?thesis .
  qed
  have whole: "whole * ?n \<le> ?n - 2 * slip" using n(1) by (simp add: whole_def slip_def algebra_simps)
  have t: "owned (charge fused now n p) = round64 x" using tok by simp
  show upper: "owned (charge fused now n p) \<le> ?k + stretch * (seconds ?d * r) - whole * ?n"
    using t near whole m(1) s(2) gain by linarith
  show cap: "owned (charge fused now n p) \<le> 40 - whole * ?n" using t near whole m(2) by linarith
  have "?n + 2 * slip \<le> (1 + 2 * slip) * ?n" using mult_left_mono [OF n(1), of "2 * slip"] slip_small by (simp add: distrib_right)
  then show "?k - (1 + 2 * slip) * ?n \<le> owned (charge fused now n p)" using t near m(3) by linarith
  show "paced r (charge fused now n p)"
    using r rest tok cap whole n(1) slip_small by (simp add: paced_def whole_def slip_def)
qed

lemma fits_later:
  assumes "paced r p" "fits r p ((now, n) # later)"
  shows "fits r (charge fused now n p) later" "- owned (charge fused now n p) \<le> demand p ((now, n) # later)"
proof -
  let ?p = "charge fused now n p"
  have d: "demand ?p later \<le> demand p ((now, n) # later)" 
  proof -
    have "(1 + 2 * slip) * of_nat n \<le> 2 * of_nat n" using slip_small by (intro mult_right_mono) simp_all
    then show ?thesis using charge_tokens(4) [OF assms, of fused] by (simp add: demand_def)
  qed
  then have "demand ?p later * (4 * 10 ^ 9) \<le> demand p ((now, n) # later) * (4 * 10 ^ 9)" by (intro mult_right_mono) simp_all
  moreover have "demand p ((now, n) # later) \<le> 2 ^ 25" "demand p ((now, n) # later) * (4 * 10 ^ 9) \<le> 2 ^ 63 * r"
    using assms(2) by (simp_all only: fits_def)
  ultimately have "demand ?p later \<le> 2 ^ 25" "demand ?p later * (4 * 10 ^ 9) \<le> 2 ^ 63 * r" using d by (blast intro: order_trans)+
  then show "fits r ?p later" using assms(2) by (simp add: fits_def)
  have "(0 :: rat) \<le> 2 * of_nat (sum_list (map snd later))" by simp
  then show "- owned ?p \<le> demand p ((now, n) # later)" using d by (simp add: demand_def)
qed

definition release :: "bool \<Rightarrow> (float64 \<Rightarrow> int) \<Rightarrow> int \<Rightarrow> nat \<Rightarrow> pacer \<Rightarrow> int" where
  "release fused huge now n p = hd (released fused huge p [(now, n)])"

lemma released_Cons: "released fused huge p ((now, n) # later) = release fused huge now n p # released fused huge (charge fused now n p) later"
  by (simp add: release_def pacer_wait_def Let_def)

declare released.simps(2) [simp del]

text \<open>A pause in float64: a debt divided by the rate, in nanoseconds.\<close>

lemma pause_bounds:
  assumes "0 < r" "r \<le> 2 ^ 900" "0 < debt" "debt \<le> 2 ^ 25" "debt * (4 * 10 ^ 9) \<le> 2 ^ 63 * r"
  shows "\<exists>x. fmul (fdiv (Finite debt) (Finite r)) (Finite (10 ^ 9)) = Finite x \<and> 0 \<le> x \<and> x < 2 ^ 63 \<and>
    debt \<le> stretch * (seconds (\<lfloor>x\<rfloor> + 2) * r) \<and> stretch * (seconds \<lfloor>x\<rfloor> * r) \<le> debt + 9 * slip"
proof -
  define y where "y = debt / r"
  have y: "0 \<le> y" "y * (4 * 10 ^ 9) \<le> 2 ^ 63" "y * r = debt" using assms by (simp_all add: y_def divide_le_eq mult.commute)
  define q where "q = round64 y"
  have q: "\<bar>q - y\<bar> \<le> ulp * y + tiny" "0 \<le> q" using round64_error [of y] y(1) by (simp_all add: q_def round64_nonneg)
  have up: "ulp * z \<le> z / 4" if "0 \<le> z" for z using constants mult_right_mono [of ulp "1 / 4" z] that by simp
  have q2: "q \<le> 2 * y + tiny" using q(1) up [OF y(1)] y(1) by linarith
  define x where "x = round64 (q * 10 ^ 9)"
  have qn: "0 \<le> q * 10 ^ 9" using q(2) by simp
  have x: "\<bar>x - q * 10 ^ 9\<bar> \<le> ulp * (q * 10 ^ 9) + tiny" "0 \<le> x"
    using round64_error [of "q * 10 ^ 9"] qn by (simp_all add: x_def round64_nonneg)
  have "\<bar>y\<bar> \<le> 2 ^ 1000" "\<bar>q * 10 ^ 9\<bar> \<le> 2 ^ 1000" using y(1,2) q(2) q2 constants by simp_all
  then have eq: "fmul (fdiv (Finite debt) (Finite r)) (Finite (10 ^ 9)) = Finite x"
    using assms(1) fl_finite [of y] fl_finite [of "q * 10 ^ 9"] by (simp add: x_def q_def y_def)
  define Y Q T where "Y = y * 10 ^ 9" and "Q = q * 10 ^ 9" and "T = tiny * 10 ^ 9"
  have Y: "0 \<le> Y" "4 * Y \<le> 2 ^ 63" "Y / 10 ^ 9 * r = debt" using y by (simp_all add: Y_def)
  have T: "0 \<le> T" "T + tiny \<le> 1 / 8" using constants by (simp_all add: T_def)
  have "(1 - ulp) * y - tiny \<le> q" "q \<le> (1 + ulp) * y + tiny" using q(1) by (simp_all add: abs_le_iff algebra_simps)
  then have Q: "(1 - ulp) * Y - T \<le> Q" "Q \<le> (1 + ulp) * Y + T" by (simp_all add: Y_def Q_def T_def algebra_simps)
  have xQ: "(1 - ulp) * Q - tiny \<le> x" "x \<le> (1 + ulp) * Q + tiny" using x(1) by (simp_all add: Q_def abs_le_iff algebra_simps)
  have lower: "(1 - ulp)\<^sup>2 * Y - (T + tiny) \<le> x"
  proof -
    have "(1 - ulp) * ((1 - ulp) * Y - T) \<le> (1 - ulp) * Q" using Q(1) constants by (intro mult_left_mono) simp_all
    moreover have "0 \<le> ulp * T" using constants(1) T(1) by simp
    ultimately show ?thesis using xQ(1) by (simp add: power2_eq_square algebra_simps)
  qed
  have upper: "x \<le> (1 + ulp)\<^sup>2 * Y + 2 * (T + tiny)"
  proof -
    have "(1 + ulp) * Q \<le> (1 + ulp) * ((1 + ulp) * Y + T)" using Q(2) constants(1) by (intro mult_left_mono) simp_all
    moreover have "(1 + ulp) * T \<le> 2 * T" using constants T(1) by (intro mult_right_mono) simp_all
    ultimately show ?thesis using xQ(2) constants(3) by (simp add: power2_eq_square algebra_simps)
  qed
  have "(1 + ulp)\<^sup>2 * Y \<le> 5 / 4 * Y" using Y(1) by (intro mult_right_mono) (simp_all add: ulp_def power_divide)
  with upper have "x \<le> 5 / 4 * Y + 2 * (T + tiny)" by (meson add_right_mono order_trans)
  then have small: "x < 2 ^ 63" using T(2) Y(2) by simp
  have f: "of_int \<lfloor>x\<rfloor> \<le> x" "x + 1 / 8 \<le> of_int (\<lfloor>x\<rfloor> + 2)" using floor_correct [of x] by simp_all
  have "Y \<le> stretch * ((1 - ulp)\<^sup>2 * Y)" using mult_right_mono [OF stretch_covers(2) Y(1)] by (simp add: mult.assoc)
  also have "\<dots> \<le> stretch * of_int (\<lfloor>x\<rfloor> + 2)" using lower T(2) f(2) stretch_pos(1) by (intro mult_left_mono) linarith+
  finally have "Y / 10 ^ 9 * r \<le> stretch * of_int (\<lfloor>x\<rfloor> + 2) / 10 ^ 9 * r" using assms(1) by (intro mult_right_mono divide_right_mono) simp_all
  then have paid: "debt \<le> stretch * (seconds (\<lfloor>x\<rfloor> + 2) * r)" using Y(3) by (simp add: seconds_def)
  have "stretch * of_int \<lfloor>x\<rfloor> \<le> stretch * ((1 + ulp)\<^sup>2 * Y + 2 * (T + tiny))" using upper f(1) stretch_pos(1) by (intro mult_left_mono) linarith+
  also have "\<dots> \<le> (1 + 1 / 2 ^ 49) * Y + 4 * (T + tiny)"
  proof -
    have "stretch * (1 + ulp)\<^sup>2 * Y \<le> (1 + 1 / 2 ^ 49) * Y" using stretch_covers(3) Y(1) by (intro mult_right_mono)
    moreover have "stretch * (2 * (T + tiny)) \<le> 2 * (2 * (T + tiny))" using T(1) constants(3) by (intro mult_right_mono) (simp_all add: stretch_def)
    ultimately show ?thesis by (simp only: distrib_left mult.assoc)
  qed
  finally have "stretch * of_int \<lfloor>x\<rfloor> / 10 ^ 9 * r \<le> ((1 + 1 / 2 ^ 49) * Y + 4 * (T + tiny)) / 10 ^ 9 * r"
    using assms(1) by (intro mult_right_mono divide_right_mono) simp_all
  also have "\<dots> = debt + 1 / 2 ^ 49 * debt + 4 * (T + tiny) / 10 ^ 9 * r" unfolding Y(3) [symmetric] by (simp add: field_simps)
  also have "\<dots> \<le> debt + 9 * slip"
  proof -
    have "4 * (T + tiny) / 10 ^ 9 \<le> 8 * tiny" using constants(3) by (simp add: T_def)
    then have "4 * (T + tiny) / 10 ^ 9 * r \<le> 8 * tiny * 2 ^ 900" using assms(1,2) constants(3) by (intro mult_mono) simp_all
    also have "\<dots> \<le> slip" by (simp add: tiny_def slip_def)
    finally have "4 * (T + tiny) / 10 ^ 9 * r \<le> slip" .
    moreover have "1 / 2 ^ 49 * debt \<le> 8 * slip" using assms(4) by (simp add: slip_def)
    ultimately show ?thesis by linarith
  qed
  finally have "stretch * (seconds \<lfloor>x\<rfloor> * r) \<le> debt + 9 * slip" by (simp add: seconds_def)
  with eq x(2) small paid show ?thesis by blast
qed

text \<open>A pause covers the debt, to two nanoseconds and the roundings.\<close>

lemma release_bounds:
  assumes "paced r p" "fits r p ((now, n) # later)"
  shows "now \<le> release fused huge now n p" "- owned (charge fused now n p) \<le> stretch * (seconds (release fused huge now n p + 2 - now) * r)"
    "stretch * (seconds (release fused huge now n p - now) * r) \<le> max 0 (9 * slip - owned (charge fused now n p))"
    "0 \<le> owned (charge fused now n p) \<Longrightarrow> release fused huge now n p = now"
proof -
  let ?p = "charge fused now n p" and ?rel = "release fused huge now n p"
  let ?t = "owned ?p"
  have ok: "paced r ?p" using charge_tokens(1) [OF assms] .
  then have r: "0 < r" "r \<le> 2 ^ 900" and tok: "Pc_tokens ?p = Finite ?t" and rate: "Pc_rate ?p = Finite r" by (simp_all only: paced_def)
  have dem: "demand p ((now, n) # later) \<le> 2 ^ 25" "demand p ((now, n) # later) * (4 * 10 ^ 9) \<le> 2 ^ 63 * r"
    using assms(2) by (simp_all only: fits_def)
  have debt: "- ?t \<le> demand p ((now, n) # later)" by (rule fits_later(2) [OF assms])
  then have "- ?t * (4 * 10 ^ 9) \<le> demand p ((now, n) # later) * (4 * 10 ^ 9)" by (intro mult_right_mono) simp_all
  with dem debt have small: "- ?t \<le> 2 ^ 25" "- ?t * (4 * 10 ^ 9) \<le> 2 ^ 63 * r" by (blast intro: order_trans)+
  have rel: "?rel = (if fle (fneg (Finite ?t)) (Finite 0) then now
      else now + max 0 (to_int64 huge (fmul (fdiv (fneg (Finite ?t)) (Finite r)) (Finite (10 ^ 9)))))"
    by (simp add: release_def released.simps(2) pacer_wait_def Let_def flip: tok rate)
  show free: "?rel = now" if "0 \<le> ?t" using rel that by simp
  have bounds: "now \<le> ?rel \<and> - ?t \<le> stretch * (seconds (?rel + 2 - now) * r) \<and> stretch * (seconds (?rel - now) * r) \<le> max 0 (9 * slip - ?t)"
  proof (cases "0 \<le> ?t")
    case True
    have "0 \<le> stretch * (seconds 2 * r)" using stretch_pos(1) r(1) by (simp add: seconds_def)
    then show ?thesis using True free by (simp add: seconds_def)
  next
    case False
    then obtain x where x: "fmul (fdiv (Finite (- ?t)) (Finite r)) (Finite (10 ^ 9)) = Finite x" "0 \<le> x" "x < 2 ^ 63"
      "- ?t \<le> stretch * (seconds (\<lfloor>x\<rfloor> + 2) * r)" "stretch * (seconds \<lfloor>x\<rfloor> * r) \<le> - ?t + 9 * slip"
      using pause_bounds [OF r _ small] by auto
    have "0 \<le> \<lfloor>x\<rfloor>" "\<lfloor>x\<rfloor> < 2 ^ 63" using x(2,3) by (simp_all add: floor_less_iff)
    then have "?rel = now + \<lfloor>x\<rfloor>" using rel False x(1,2) by simp
    then show ?thesis using x(4,5) \<open>0 \<le> \<lfloor>x\<rfloor>\<close> by (simp add: add.commute)
  qed
  then show "now \<le> ?rel" "- ?t \<le> stretch * (seconds (?rel + 2 - now) * r)" "stretch * (seconds (?rel - now) * r) \<le> max 0 (9 * slip - ?t)"
    by blast+
qed

section \<open>A stretch of requests\<close>

lemma stretch_split: "stretch * (seconds (x - z) * r) = stretch * (seconds (x - y) * r) + stretch * (seconds (y - z) * r)"
  by (simp add: seconds_split [of x z r y] distrib_left)

lemma length_released [simp]: "length (released fused huge p calls) = length calls"
  by (induction calls arbitrary: p) (auto simp: released_Cons)

lemma covered:
  assumes "paced r p" "fits r p calls" "i < length calls"
  shows "whole * of_nat (sum_list (map snd (take (Suc i) calls))) \<le>
    owned p + stretch * (seconds (released fused huge p calls ! i + 2 - Pc_last p) * r)"
  using assms
proof (induction calls arbitrary: p i)
  case (Cons c later)
  obtain now n where c: "c = (now, n)" by (cases c)
  let ?p = "charge fused now n p"
  note fit = Cons.prems(1) Cons.prems(2) [unfolded c]
  note tok = charge_tokens(2) [OF fit, of fused]
  show ?case
  proof (cases i)
    case 0
    show ?thesis
      using release_bounds(2) [OF fit, of fused huge] tok stretch_split [of "release fused huge now n p + 2" "Pc_last p" r now]
      by (simp add: 0 c released_Cons)
  next
    case (Suc j)
    show ?thesis
      using Cons.IH [OF charge_tokens(1) [OF fit, of fused] fits_later(1) [OF fit, of fused], of j] Cons.prems(3) tok
        stretch_split [of "released fused huge ?p later ! j + 2" "Pc_last p" r now]
      by (simp add: Suc c released_Cons distrib_left)
  qed
qed simp

lemma window_from_first:
  assumes "paced r p" "fits r p ((now, n) # later)" "i \<le> length later"
  shows "whole * of_nat (sum_list (map snd (take (Suc i) ((now, n) # later)))) \<le>
    40 + 9 * slip + stretch * (seconds (released fused huge p ((now, n) # later) ! i + 2 - release fused huge now n p) * r)"
proof -
  have r: "0 < r" using assms(1) by (simp only: paced_def)
  have n: "whole * of_nat n \<le> 40"
  proof -
    have "of_nat n \<le> (40 :: rat)" using assms(2) of_nat_le_iff [of n 40, where 'a = rat] by (simp add: fits_def)
    moreover have "whole * of_nat n \<le> 1 * of_nat n" by (intro mult_right_mono) (simp_all add: whole_def slip_def)
    ultimately show ?thesis by simp
  qed
  show ?thesis
  proof (cases i)
    case 0
    have "0 \<le> stretch * (seconds 2 * r)" using stretch_pos(1) r by (simp add: seconds_def)
    then show ?thesis using n slip_small by (simp add: 0 released_Cons)
  next
    case (Suc j)
    let ?p = "charge fused now n p" and ?r = "release fused huge now n p" and ?x = "released fused huge (charge fused now n p) later ! j + 2"
    have "whole * of_nat (sum_list (map snd (take (Suc j) later))) \<le> owned ?p + stretch * (seconds (?x - now) * r)"
      using covered [OF charge_tokens(1) [OF assms(1,2), of fused] fits_later(1) [OF assms(1,2), of fused], of j fused huge] assms(3) Suc by simp
    moreover have "whole * of_nat n + owned ?p + stretch * (seconds (?r - now) * r) \<le> 40 + 9 * slip"
    proof (cases "0 \<le> owned ?p")
      case True
      then show ?thesis
        using charge_tokens(3) [OF assms(1,2), of fused] release_bounds(4) [OF assms(1,2), of fused huge] slip_small by (simp add: seconds_def)
    next
      case False
      then show ?thesis using release_bounds(3) [OF assms(1,2), of fused huge] n slip_small by (simp add: max_def split: if_splits)
    qed
    ultimately show ?thesis using stretch_split [of ?x now r ?r] by (simp add: Suc released_Cons distrib_left)
  qed
qed

lemma window:
  assumes "paced r p" "fits r p calls" "k \<le> i" "i < length calls"
  shows "whole * of_nat (sum_list (map snd (drop k (take (Suc i) calls)))) \<le>
    40 + 9 * slip + stretch * (seconds (released fused huge p calls ! i + 2 - released fused huge p calls ! k) * r)"
  using assms
proof (induction calls arbitrary: p i k)
  case (Cons c later)
  obtain now n where c: "c = (now, n)" by (cases c)
  note fit = Cons.prems(1) Cons.prems(2) [unfolded c]
  show ?case
  proof (cases k)
    case 0
    show ?thesis using window_from_first [OF fit, of i fused huge] Cons.prems(4) by (simp add: 0 c released_Cons)
  next
    case (Suc k')
    then obtain j where j: "i = Suc j" "k' \<le> j" using Cons.prems(3) by (cases i) auto
    show ?thesis
      using Cons.IH [OF charge_tokens(1) [OF fit, of fused] fits_later(1) [OF fit, of fused] j(2)] Cons.prems(4) by (simp add: Suc j(1) c released_Cons)
  qed
qed simp

lemma waits:
  assumes "paced r p" "fits r p calls" "i < length calls"
  shows "seconds (released fused huge p calls ! i - fst (calls ! i)) * r \<le>
    max 0 ((1 + 2 * slip) * of_nat (sum_list (map snd (take (Suc i) calls))) - owned p + 9 * slip)"
  using assms
proof (induction calls arbitrary: p i)
  case (Cons c later)
  obtain now n where c: "c = (now, n)" by (cases c)
  let ?p = "charge fused now n p"
  note fit = Cons.prems(1) Cons.prems(2) [unfolded c]
  note tok = charge_tokens(4) [OF fit, of fused]
  show ?case
  proof (cases i)
    case 0
    let ?w = "seconds (release fused huge now n p - now) * r"
    have "0 < r" using fit(1) by (simp only: paced_def)
    then have "0 \<le> ?w" using release_bounds(1) [OF fit, of fused huge] by (simp add: seconds_def)
    then have "?w \<le> stretch * ?w" using mult_right_mono [OF stretch_pos(2)] by simp
    then have "?w \<le> max 0 (9 * slip - owned ?p)" using release_bounds(3) [OF fit, of fused huge] by simp
    then show ?thesis using tok by (simp add: 0 c released_Cons max_def split: if_splits)
  next
    case (Suc j)
    show ?thesis
      using Cons.IH [OF charge_tokens(1) [OF fit, of fused] fits_later(1) [OF fit, of fused], of j] Cons.prems(3) tok
      by (simp add: Suc c released_Cons distrib_left max_def split: if_splits)
  qed
qed simp

lemma released_after:
  assumes "paced r p" "fits r p calls" "i < length calls"
  shows "fst (calls ! i) \<le> released fused huge p calls ! i"
  using assms
proof (induction calls arbitrary: p i)
  case (Cons c later)
  obtain now n where c: "c = (now, n)" by (cases c)
  note fit = Cons.prems(1) Cons.prems(2) [unfolded c]
  show ?case
    using release_bounds(1) [OF fit, of fused huge] Cons.IH [OF charge_tokens(1) [OF fit, of fused] fits_later(1) [OF fit, of fused], of "i - 1"] Cons.prems(3)
    by (cases i) (simp_all add: c released_Cons)
qed simp

text \<open>
  C38. The pace is kept, in the floating point of the code. An endpoint is asked at a positive rate by whoever asks, each request for at most forty
  calls, no more than sixteen million calls in all and at a rate at which these are owed for less than some twenty-nine years. Over any stretch of
  time, from the moment one request is let through to the moment another is, the calls let through, those of both included, are at most the
  forty of the bucket and what the rate gives for that time, to two nanoseconds and the roundings: one part in \<open>2\<^sup>2\<^sup>6\<close> of the
  calls, one in \<open>2\<^sup>5\<^sup>0\<close> of the time and \<open>1 / 2\<^sup>2\<^sup>3\<close> of a call. And nobody is held longer than the calls charged so
  far, beyond the forty, take at that rate. Both hold whether or not the compiler fuses the refill, and no pause falls outside a duration.
\<close>

theorem pacer_keeps_rate:
  assumes "0 < rate" "rate \<le> 2 ^ 900" "sorted (start # map fst calls)" "\<forall>n \<in> snd ` set calls. 0 < n \<and> n \<le> 2 * HeaderBatch"
    and "sum_list (map snd calls) \<le> 2 ^ 24" "of_nat (sum_list (map snd calls)) * 10 ^ 10 \<le> 2 ^ 63 * rate"
    and "k \<le> i" "i < length calls"
  shows "(let times = released fused huge (endpoint_pacer (Finite rate) start) calls
    in (1 - 1 / 2 ^ 26) * of_nat (sum_list (map snd (drop k (take (Suc i) calls)))) \<le>
         40 + 1 / 2 ^ 23 + (1 + 1 / 2 ^ 50) * (seconds (times ! i + 2 - times ! k) * rate) \<and>
       fst (calls ! i) \<le> times ! i \<and>
       seconds (times ! i - fst (calls ! i)) * rate \<le>
         max 0 ((1 + 1 / 2 ^ 26) * of_nat (sum_list (map snd (take (Suc i) calls))) - 40 + 1 / 2 ^ 23))"
proof -
  let ?p = "endpoint_pacer (Finite rate) start" and ?N = "of_nat (sum_list (map snd calls)) :: rat"
  have p: "paced rate ?p" "owned ?p = 40" using assms(1,2) by (simp_all add: endpoint_pacer_def newPacer_def paced_def HeaderBatch_def)
  have N: "?N \<le> 2 ^ 24" using assms(5) of_nat_le_iff [of _ "2 ^ 24", where 'a = rat] by simp
  have fits: "fits rate ?p calls"
    using assms(3,4,6) N by (simp add: fits_def demand_def p(2) HeaderBatch_def) (simp add: endpoint_pacer_def newPacer_def)
  have slack: "whole = 1 - 1 / 2 ^ 26" "1 + 2 * slip = 1 + 1 / 2 ^ 26" "9 * slip \<le> 1 / 2 ^ 23" by (simp_all add: whole_def slip_def)
  show ?thesis
    using window [OF p(1) fits assms(7,8), of fused huge] waits [OF p(1) fits assms(8), of fused huge]
      released_after [OF p(1) fits assms(8), of fused huge] slack(3)
    unfolding Let_def slack(1) [symmetric] slack(2) [symmetric] p(2) stretch_def [symmetric] by (simp add: max_def split: if_splits)
qed

text \<open>Sixty calls at once at fifteen a second: the last twenty are owed, and four thirds of a second are not a floating-point number.\<close>

lemma round64_thirds: "round64 (4 / 3) = 6004799503160661 / 2 ^ 52"
  by (subst round64_at [of 0]) (simp_all add: power_int_minus_divide round_half_even_nearest [of _ 6004799503160661])

lemma round64_pause: "round64 (6004799503160661 / 2 ^ 52 * 10 ^ 9) = 5592405333333333 / 2 ^ 22"
  by (subst round64_at [of 30]) (simp_all add: power_int_minus_divide round_half_even_nearest [of _ 5592405333333333])

lemma released_example: "released fused (\<lambda>x. 0) (endpoint_pacer (Finite 15) 0) [(0, 20), (0, 20), (0, 20)] = [0, 0, 1333333333]"
proof -
  have zero: "Seconds (Sub 0 0) = Finite 0" by (simp add: Seconds_def Sub_def of_int64_exact fl_def round64_def)
  have add: "muladd fused (Finite k) (Finite 0) (Finite 15) = fl k" for k by (cases fused) (simp_all add: fl_def round64_def)
  have int: "fl (numeral k) = Finite (numeral k)" if "numeral k < (2 ^ 53 :: int)" for k
    using of_int64_exact [of "numeral k"] that by (simp add: of_int64_def)
  have small: "fl 0 = Finite 0" "fl (- 20) = Finite (- 20)" "of_int64 20 = Finite 20"
    using of_int64_exact [of "- 20"] of_int64_exact [of 20] by (simp_all add: of_int64_def fl_def round64_def)
  have third: "fl (4 / 3) = Finite (6004799503160661 / 2 ^ 52)" "fl (6004799503160661 / 2 ^ 52 * 10 ^ 9) = Finite (5592405333333333 / 2 ^ 22)"
    unfolding fl_def round64_thirds round64_pause by simp_all
  show ?thesis
    using third by (simp add: released.simps pacer_wait_def charge_def endpoint_pacer_def newPacer_def HeaderBatch_def zero add int small Let_def
        fmin_def fsub_def floor_eq_iff)
qed

theorem pacer_keeps_rate_witness:
  "released True (\<lambda>x. 0) (endpoint_pacer (Finite 15) 0) [(0, 20), (0, 20), (0, 20)] ! 2 = 1333333333 \<and>
   (1 - 1 / 2 ^ 26) * (60 :: rat) \<le> 40 + 1 / 2 ^ 23 + (1 + 1 / 2 ^ 50) * (seconds (1333333333 + 2 - 0) * 15) \<and>
   seconds (1333333333 - 0) * 15 \<le> max 0 ((1 + 1 / 2 ^ 26) * (60 :: rat) - 40 + 1 / 2 ^ 23)"
  using pacer_keeps_rate [of 15 0 "[(0, 20), (0, 20), (0, 20)]" 0 2 True "\<lambda>x. 0"]
  by (simp add: released_example HeaderBatch_def Let_def del: max.absorb1 max.absorb2)

end
