(* ===== verification/Schedules.thy ===== *)
theory Schedules
  imports Fakenode
begin

text \<open>
  The goroutines of \<open>chain/reader.go\<close>: \<open>firstFailure\<close>, the worker pool \<open>inParallel\<close> and the fan-out \<open>eachEndpoint\<close>, as step relations in which
  any goroutine may move next. \<open>Reader\<close> reads its header batches one after the other and takes the order in which endpoints
  answer as given; here that is shown to lose nothing: every interleaving of the goroutines ends, and ends as it does
  there.

  A channel that is not buffered is a step of both its ends. A mutex makes the writes it guards one step.
\<close>

section \<open>The first failure\<close>

text \<open>
  \<open>firstFailure\<close>: the earliest error of a fan-out, whose arrival cancels the context of everything still running. The context may be
  cancelled by the caller too.
\<close>

record 'e fan_out =
  Fo_err :: "'e option"
  Fo_cancelled :: bool

definition record_failure :: "'e \<Rightarrow> ('e, 'a) fan_out_scheme \<Rightarrow> ('e, 'a) fan_out_scheme" where
  "record_failure e s = (if Fo_err s = None then s\<lparr>Fo_err := Some e, Fo_cancelled := True\<rparr> else s)"

lemma first_failure_simps [simp]:
  "Fo_cancelled (record_failure e s) \<longleftrightarrow> Fo_cancelled s \<or> Fo_err s = None"
  "Fo_err (record_failure e s) = (case Fo_err s of None \<Rightarrow> Some e | Some e' \<Rightarrow> Some e')"
  by (auto simp: record_failure_def split: option.split)

section \<open>A bounded pool\<close>

text \<open>
  \<open>inParallel\<close>. The caller's loop hands out the indices over an unbuffered channel, or passes them over once the context is done, and
  closes the channel; a worker takes an index, runs the job, and goes on, or records the failure and returns. A job that
  runs under a cancelled context may fail for that reason (\<open>stop\<close>) or end as it would have. The memory that jobs
  write under a mutex is \<open>Pl_out\<close>.
\<close>

datatype worker = Waiting | Working nat | Gone

record ('e, 'o) pool = "'e fan_out" +
  Pl_next :: nat
  Pl_closed :: bool
  Pl_workers :: "worker list"
  Pl_out :: 'o

definition pool_start :: "nat \<Rightarrow> nat \<Rightarrow> 'o \<Rightarrow> ('e, 'o) pool" where
  "pool_start n concurrency out =
     \<lparr>Fo_err = None, Fo_cancelled = False, Pl_next = 0, Pl_closed = False, Pl_workers = replicate (min n concurrency) Waiting, Pl_out = out\<rparr>"

inductive pool_step ::
  "bool \<Rightarrow> nat \<Rightarrow> (nat \<Rightarrow> 'e + 'a) \<Rightarrow> (nat \<Rightarrow> 'e) \<Rightarrow> ('a \<Rightarrow> 'o \<Rightarrow> 'o) \<Rightarrow> ('e, 'o) pool \<Rightarrow> ('e, 'o) pool \<Rightarrow> bool"
  for interrupted n job stop keep where
  hand_out: "Pl_next s < n \<Longrightarrow> w < length (Pl_workers s) \<Longrightarrow> Pl_workers s ! w = Waiting \<Longrightarrow>
     pool_step interrupted n job stop keep s (s\<lparr>Pl_next := Suc (Pl_next s), Pl_workers := (Pl_workers s)[w := Working (Pl_next s)]\<rparr>)"
| pass_over: "Pl_next s < n \<Longrightarrow> Fo_cancelled s \<Longrightarrow> pool_step interrupted n job stop keep s (s\<lparr>Pl_next := Suc (Pl_next s)\<rparr>)"
| close: "Pl_next s = n \<Longrightarrow> \<not> Pl_closed s \<Longrightarrow> pool_step interrupted n job stop keep s (s\<lparr>Pl_closed := True\<rparr>)"
| finish: "w < length (Pl_workers s) \<Longrightarrow> Pl_workers s ! w = Working i \<Longrightarrow> job i = Inr a \<Longrightarrow>
     pool_step interrupted n job stop keep s (s\<lparr>Pl_workers := (Pl_workers s)[w := Waiting], Pl_out := keep a (Pl_out s)\<rparr>)"
| fail: "w < length (Pl_workers s) \<Longrightarrow> Pl_workers s ! w = Working i \<Longrightarrow> job i = Inl e \<Longrightarrow>
     pool_step interrupted n job stop keep s (record_failure e s\<lparr>Pl_workers := (Pl_workers s)[w := Gone]\<rparr>)"
| stopped: "w < length (Pl_workers s) \<Longrightarrow> Pl_workers s ! w = Working i \<Longrightarrow> Fo_cancelled s \<Longrightarrow>
     pool_step interrupted n job stop keep s (record_failure (stop i) s\<lparr>Pl_workers := (Pl_workers s)[w := Gone]\<rparr>)"
| leave: "w < length (Pl_workers s) \<Longrightarrow> Pl_workers s ! w = Waiting \<Longrightarrow> Pl_closed s \<Longrightarrow>
     pool_step interrupted n job stop keep s (s\<lparr>Pl_workers := (Pl_workers s)[w := Gone]\<rparr>)"
| interrupt: "interrupted \<Longrightarrow> \<not> Fo_cancelled s \<Longrightarrow> pool_step interrupted n job stop keep s (s\<lparr>Fo_cancelled := True\<rparr>)"

definition pool_ended :: "('e, 'o) pool \<Rightarrow> bool" where
  "pool_ended s \<longleftrightarrow> Pl_closed s \<and> set (Pl_workers s) \<subseteq> {Gone}"

text \<open>What is returned once every worker has: the first failure, or the context's own error (\<open>over\<close>), or nothing.\<close>

definition pool_result :: "'e \<Rightarrow> ('e, 'o) pool \<Rightarrow> 'e + 'o" where
  "pool_result over s =
     (case Fo_err s of Some e \<Rightarrow> Inl e | None \<Rightarrow> if Fo_cancelled s then Inl over else Inr (Pl_out s))"

inductive inParallel ::
  "bool \<Rightarrow> nat \<Rightarrow> nat \<Rightarrow> (nat \<Rightarrow> 'e + 'a) \<Rightarrow> (nat \<Rightarrow> 'e) \<Rightarrow> 'e \<Rightarrow> ('a \<Rightarrow> 'o \<Rightarrow> 'o) \<Rightarrow> 'o \<Rightarrow> 'e + 'o \<Rightarrow> bool"
  for interrupted n concurrency job stop over keep out where
  no_jobs: "n = 0 \<Longrightarrow> inParallel interrupted n concurrency job stop over keep out (Inr out)"
| all_back: "0 < n \<Longrightarrow> (pool_step interrupted n job stop keep)\<^sup>*\<^sup>* (pool_start n concurrency out) s \<Longrightarrow> pool_ended s \<Longrightarrow>
     inParallel interrupted n concurrency job stop over keep out (pool_result over s)"

inductive_cases pool_stepE: "pool_step interrupted n job stop keep s t"
inductive_simps inParallel_iff: "inParallel interrupted n concurrency job stop over keep out res"

section \<open>Every schedule ends\<close>

fun worker_debt :: "worker \<Rightarrow> nat" where
  "worker_debt Waiting = 1"
| "worker_debt (Working i) = 2"
| "worker_debt Gone = 0"

text \<open>Steps left at most: each index is handed out or passed over, the channel closed, the context cancelled, each worker sent home.\<close>

definition pool_debt :: "nat \<Rightarrow> ('e, 'o) pool \<Rightarrow> nat" where
  "pool_debt n s =
     2 * (n - Pl_next s) + (if Pl_closed s then 0 else 1) + (if Fo_cancelled s then 0 else 1) + sum_list (map worker_debt (Pl_workers s))"

lemma worker_debt_update:
  "w < length ws \<Longrightarrow> sum_list (map worker_debt (ws[w := x])) + worker_debt (ws ! w) = sum_list (map worker_debt ws) + worker_debt x"
proof (induction ws arbitrary: w)
  case (Cons y ws)
  then show ?case by (cases w) simp_all
qed simp

lemma record_failure_simps [simp]:
  "Pl_next (record_failure e s) = Pl_next s" "Pl_closed (record_failure e s) = Pl_closed s" "Pl_workers (record_failure e s) = Pl_workers s"
  "Pl_out (record_failure e s) = Pl_out s"
  by (simp_all add: record_failure_def)

lemma pool_step_debt: "pool_step b n job stop keep s t \<Longrightarrow> pool_debt n t < pool_debt n s"
proof (induction rule: pool_step.induct)
  case (hand_out s w)
  then show ?case using worker_debt_update [of w "Pl_workers s" "Working (Pl_next s)"] by (simp add: pool_debt_def)
next
  case (finish w s i a)
  then show ?case using worker_debt_update [of w "Pl_workers s" Waiting] by (simp add: pool_debt_def)
next
  case (fail w s i e)
  then show ?case using worker_debt_update [of w "Pl_workers s" Gone] by (simp add: pool_debt_def)
next
  case (stopped w s i)
  then show ?case using worker_debt_update [of w "Pl_workers s" Gone] by (simp add: pool_debt_def)
next
  case (leave w s)
  then show ?case using worker_debt_update [of w "Pl_workers s" Gone] by (simp add: pool_debt_def)
qed (simp_all add: pool_debt_def)

section \<open>What a pool keeps\<close>

fun held_job :: "worker \<Rightarrow> nat list" where
  "held_job (Working i) = [i]"
| "held_job _ = []"

definition running :: "worker list \<Rightarrow> nat list" where
  "running ws = concat (map held_job ws)"

lemma running_update:
  "w < length ws \<Longrightarrow> mset (running (ws[w := x])) + mset (held_job (ws ! w)) = mset (running ws) + mset (held_job x)"
proof (induction ws arbitrary: w)
  case (Cons y ws)
  then show ?case by (cases w) (simp_all add: running_def ac_simps)
qed simp

lemma running_iff: "i \<in> set (running ws) \<longleftrightarrow> Working i \<in> set ws"
proof -
  have "i \<in> set (held_job w) \<longleftrightarrow> w = Working i" for w by (cases w) auto
  then show ?thesis by (auto simp: running_def)
qed

text \<open>
  While the context stands, the jobs that ended and those that run are the ones handed out, each once, and the memory is what
  those that ended wrote, in the order they did.
\<close>

definition accounts :: "(nat \<Rightarrow> 'e + 'a) \<Rightarrow> ('a \<Rightarrow> 'o \<Rightarrow> 'o) \<Rightarrow> 'o \<Rightarrow> ('e, 'o) pool \<Rightarrow> nat list \<Rightarrow> bool" where
  "accounts job keep out s past \<longleftrightarrow>
     mset past + mset (running (Pl_workers s)) = mset [0..<Pl_next s] \<and> (\<forall>i \<in> set past. \<exists>a. job i = Inr a) \<and>
     Pl_out s = fold (\<lambda>i. keep (projr (job i))) past out"

definition pool_inv ::
  "bool \<Rightarrow> nat \<Rightarrow> nat \<Rightarrow> (nat \<Rightarrow> 'e + 'a) \<Rightarrow> ('a \<Rightarrow> 'o \<Rightarrow> 'o) \<Rightarrow> 'o \<Rightarrow> ('e, 'o) pool \<Rightarrow> bool" where
  "pool_inv interrupted n m job keep out s \<longleftrightarrow>
     length (Pl_workers s) = m \<and> Pl_next s \<le> n \<and> (Pl_closed s \<longrightarrow> Pl_next s = n) \<and>
     (Gone \<in> set (Pl_workers s) \<longrightarrow> Pl_closed s \<or> Fo_cancelled s) \<and>
     (\<forall>i. Working i \<in> set (Pl_workers s) \<longrightarrow> i < n) \<and>
     (Fo_err s \<noteq> None \<longrightarrow> Fo_cancelled s) \<and>
     (Fo_cancelled s \<longrightarrow> interrupted \<or> (\<exists>i < n. \<exists>e. job i = Inl e \<and> Fo_err s = Some e)) \<and>
     (\<not> Fo_cancelled s \<longrightarrow> (\<exists>past. accounts job keep out s past))"

lemma pool_invD:
  assumes "pool_inv b n m job keep out s"
  shows "length (Pl_workers s) = m" "Pl_next s \<le> n" "Pl_closed s \<Longrightarrow> Pl_next s = n"
    "Gone \<in> set (Pl_workers s) \<Longrightarrow> \<not> Pl_closed s \<Longrightarrow> Fo_cancelled s"
    "Working i \<in> set (Pl_workers s) \<Longrightarrow> i < n" "\<not> Fo_cancelled s \<Longrightarrow> Fo_err s = None"
    "Fo_cancelled s \<Longrightarrow> b \<or> (\<exists>i < n. \<exists>e. job i = Inl e \<and> Fo_err s = Some e)" "\<not> Fo_cancelled s \<Longrightarrow> \<exists>past. accounts job keep out s past"
  using assms unfolding pool_inv_def by blast+

lemma pool_inv_start: "pool_inv b n (min n c) job keep out (pool_start n c out)"
proof -
  have "running (replicate m Waiting) = []" for m by (simp add: running_def)
  then have "accounts job keep out (pool_start n c out) []" by (simp add: accounts_def pool_start_def)
  then show ?thesis by (auto simp: pool_inv_def pool_start_def)
qed

lemma set_update_worker: "x \<in> set (ws[w := y]) \<Longrightarrow> x = y \<or> x \<in> set ws"
  using set_update_subset_insert by fastforce

lemma pool_step_inv:
  assumes "pool_step b n job stop keep s t" "pool_inv b n m job keep out s"
  shows "pool_inv b n m job keep out t"
  using assms
proof (induction rule: pool_step.induct)
  case (hand_out s w)
  have "\<exists>past. accounts job keep out (s\<lparr>Pl_next := Suc (Pl_next s), Pl_workers := (Pl_workers s)[w := Working (Pl_next s)]\<rparr>) past"
    if live: "\<not> Fo_cancelled s"
  proof -
    obtain past where d: "accounts job keep out s past" using pool_invD(8) [OF hand_out.prems live] by blast
    have "mset (running ((Pl_workers s)[w := Working (Pl_next s)])) = add_mset (Pl_next s) (mset (running (Pl_workers s)))"
      using running_update [OF hand_out(2), of "Working (Pl_next s)"] hand_out(3) by simp
    with d show ?thesis by (auto simp: accounts_def)
  qed
  with hand_out show ?case by (auto simp: pool_inv_def dest!: set_update_worker)
next
  case (finish w s i a)
  have "\<exists>past. accounts job keep out (s\<lparr>Pl_workers := (Pl_workers s)[w := Waiting], Pl_out := keep a (Pl_out s)\<rparr>) past"
    if live: "\<not> Fo_cancelled s"
  proof -
    obtain past where d: "accounts job keep out s past" using pool_invD(8) [OF finish.prems live] by blast
    have "mset (running (Pl_workers s)) = add_mset i (mset (running ((Pl_workers s)[w := Waiting])))"
      using running_update [OF finish(1), of Waiting] finish(2) by simp
    with d finish(3) have "accounts job keep out (s\<lparr>Pl_workers := (Pl_workers s)[w := Waiting], Pl_out := keep a (Pl_out s)\<rparr>) (past @ [i])"
      by (auto simp: accounts_def)
    then show ?thesis by blast
  qed
  with finish show ?case by (auto simp: pool_inv_def dest!: set_update_worker)
next
  case (fail w s i e)
  have "i < n" using pool_invD(5) [OF fail.prems, of i] nth_mem [OF fail(1)] fail(2) by simp
  with fail show ?case by (auto simp: pool_inv_def dest!: set_update_worker split: option.splits)
next
  case (stopped w s i)
  then show ?case by (auto simp: pool_inv_def dest!: set_update_worker split: option.splits)
next
  case (leave w s)
  have "mset (running ((Pl_workers s)[w := Gone])) = mset (running (Pl_workers s))"
    using running_update [OF leave(1), of Gone] leave(2) by simp
  then have "accounts job keep out (s\<lparr>Pl_workers := (Pl_workers s)[w := Gone]\<rparr>) past = accounts job keep out s past" for past
    by (simp add: accounts_def)
  with leave show ?case by (auto simp: pool_inv_def dest!: set_update_worker)
qed (auto simp: pool_inv_def accounts_def)

lemma pool_reachable_inv:
  assumes "(pool_step b n job stop keep)\<^sup>*\<^sup>* (pool_start n c out) s"
  shows "pool_inv b n (min n c) job keep out s"
  using assms by (induction rule: rtranclp_induct) (auto intro: pool_inv_start pool_step_inv)

section \<open>Progress\<close>

text \<open>A pool with a worker is never stuck before it has ended: no schedule deadlocks.\<close>

lemma pool_progress:
  assumes "pool_inv b n m job keep out s" "0 < m" "\<not> pool_ended s"
  shows "\<exists>t. pool_step b n job stop keep s t"
proof -
  have busy: "\<exists>t. pool_step b n job stop keep s t" if "Working i \<in> set (Pl_workers s)" for i
  proof -
    obtain w where w: "w < length (Pl_workers s)" "Pl_workers s ! w = Working i" using \<open>Working i \<in> _\<close> by (auto simp: in_set_conv_nth)
    then show ?thesis by (cases "job i") (blast intro: pool_step.fail pool_step.finish)+
  qed
  consider (some) i where "Working i \<in> set (Pl_workers s)"
    | (free) w where "w < length (Pl_workers s)" "Pl_workers s ! w = Waiting"
    | (none) "set (Pl_workers s) \<subseteq> {Gone}"
    by (metis in_set_conv_nth insertI1 subsetI worker.exhaust)
  then show ?thesis
  proof cases
    case (free w)
    show ?thesis
    proof (cases "Pl_next s < n")
      case True
      then show ?thesis using pool_step.hand_out free by blast
    next
      case False
      then have "Pl_next s = n" using pool_invD(2) [OF assms(1)] by simp
      then show ?thesis using pool_step.close pool_step.leave free by blast
    qed
  next
    case none
    then have "Gone \<in> set (Pl_workers s)" using pool_invD(1) [OF assms(1)] assms(2) by (cases "Pl_workers s") auto
    moreover have open_pool: "\<not> Pl_closed s" using none assms(3) by (simp add: pool_ended_def)
    ultimately have "Fo_cancelled s" using pool_invD(4) [OF assms(1)] by blast
    then show ?thesis
      using pool_step.pass_over [of s n] pool_step.close [of s n, OF _ open_pool] pool_invD(2) [OF assms(1)] by (cases "Pl_next s = n") (blast, force)
  qed (rule busy)
qed

lemma pool_ends:
  assumes "pool_inv b n m job keep out s" "0 < m"
  shows "\<exists>t. (pool_step b n job stop keep)\<^sup>*\<^sup>* s t \<and> pool_ended t"
  using assms(1)
proof (induction "pool_debt n s" arbitrary: s rule: less_induct)
  case less
  show ?case
  proof (cases "pool_ended s")
    case False
    then obtain t where t: "pool_step b n job stop keep s t" using pool_progress [OF less.prems assms(2)] by blast
    from less.hyps [OF pool_step_debt [OF t] pool_step_inv [OF t less.prems]] t show ?thesis by (meson converse_rtranclp_into_rtranclp)
  qed blast
qed

text \<open>What a pool returns, whatever the schedule.\<close>

lemma inParallel_result:
  assumes "inParallel b n c job stop over keep out res"
  shows "case res of
      Inl e \<Rightarrow> b \<or> (\<exists>i < n. job i = Inl e)
    | Inr o' \<Rightarrow> (\<forall>i < n. \<exists>a. job i = Inr a) \<and> (\<exists>past. mset past = mset [0..<n] \<and> o' = fold (\<lambda>i. keep (projr (job i))) past out)"
  using assms
proof (cases rule: inParallel.cases)
  case (all_back s)
  note inv = pool_reachable_inv [OF all_back(3)]
  show ?thesis
  proof (cases "Fo_cancelled s")
    case True
    then show ?thesis using pool_invD(7) [OF inv True] all_back(1) by (auto simp: pool_result_def split: option.splits)
  next
    case False
    then obtain past where d: "accounts job keep out s past" using pool_invD(8) [OF inv] by blast
    have "Fo_err s = None" "Pl_next s = n" using False pool_invD(3,6) [OF inv] all_back(4) by (simp_all add: pool_ended_def)
    moreover have "running (Pl_workers s) = []" using all_back(4) by (auto simp: pool_ended_def running_def)
    ultimately show ?thesis
      using d False all_back(1) mset_eq_setD [of "past" "[0..<n]"] by (auto simp: accounts_def pool_result_def)
  qed
qed auto

lemma inParallel_returns:
  assumes "0 < c"
  shows "\<exists>res. inParallel b n c job stop over keep out res"
proof (cases "n = 0")
  case True
  from inParallel.no_jobs [OF this] show ?thesis by (rule exI)
next
  case False
  then have "0 < min n c" using assms by simp
  from pool_ends [OF pool_inv_start this, where b = b and job = job and keep = keep and out = out and stop = stop]
  obtain s where "(pool_step b n job stop keep)\<^sup>*\<^sup>* (pool_start n c out) s" "pool_ended s" by blast
  with False have "inParallel b n c job stop over keep out (pool_result over s)" by (intro inParallel.all_back) simp_all
  then show ?thesis by blast
qed

section \<open>Jobs that commute\<close>

text \<open>Jobs whose writes do not depend on their order: what a pool leaves is then what the jobs leave one after the other.\<close>

locale commuting_jobs =
  fixes n :: nat and job :: "nat \<Rightarrow> 'e + 'a" and keep :: "'a \<Rightarrow> 'o \<Rightarrow> 'o"
  assumes commute: "i < n \<Longrightarrow> j < n \<Longrightarrow> i \<noteq> j \<Longrightarrow> job i = Inr a \<Longrightarrow> job j = Inr b \<Longrightarrow> keep a (keep b x) = keep b (keep a x)"
begin

lemma any_order:
  assumes "\<forall>i < n. \<exists>a. job i = Inr a" "mset past = mset [0..<n]"
  shows "fold (\<lambda>i. keep (projr (job i))) past out = fold (\<lambda>i. keep (projr (job i))) [0..<n] out"
proof -
  have past: "set past = {0..<n}" using mset_eq_setD [OF assms(2)] by simp
  have "keep (projr (job i)) \<circ> keep (projr (job j)) = keep (projr (job j)) \<circ> keep (projr (job i))" if ij: "i \<in> set past" "j \<in> set past" for i j
  proof (cases "i = j")
    case False
    obtain a b where "job i = Inr a" "job j = Inr b" using assms(1) ij past by fastforce
    then show ?thesis using commute [OF _ _ False, of a b] ij past by (simp add: fun_eq_iff)
  qed simp
  from fold_multiset_equiv [OF this assms(2)] show ?thesis by simp
qed

lemma any_schedule:
  assumes "inParallel b n c job stop over keep out res"
  shows "case res of Inl e \<Rightarrow> b \<or> (\<exists>i < n. job i = Inl e) | Inr o' \<Rightarrow> (\<forall>i < n. \<exists>a. job i = Inr a) \<and> o' = fold (\<lambda>i. keep (projr (job i))) [0..<n] out"
proof (cases res)
  case (Inl e)
  then show ?thesis using inParallel_result [OF assms] by simp
next
  case (Inr o')
  then obtain past where p: "\<forall>i < n. \<exists>a. job i = Inr a" "mset past = mset [0..<n]" "o' = fold (\<lambda>i. keep (projr (job i))) past out"
    using inParallel_result [OF assms] by auto
  from any_order [OF p(1,2)] p(1,3) Inr show ?thesis by simp
qed

end

section \<open>The header batches\<close>

definition header_job :: "reader \<Rightarrow> uint64 list list \<Rightarrow> nat \<Rightarrow> chain_error + block list" where
  "header_job r batches i =
     crossCheck r (AskBlocks (hd (batches ! i)) (last (batches ! i))) (\<lambda>e. blocksByNumber e (batches ! i)) canonicalBlocks"

definition wanted_batches :: "uint64 list \<Rightarrow> uint64 list list" where
  "wanted_batches blocks = batches_of (remdups_adj (sort blocks))"

lemma blocksByNumber_asked: "blocksByNumber e ns = Inr bs \<Longrightarrow> B_Number ` set bs \<subseteq> set ns"
proof -
  assume "blocksByNumber e ns = Inr bs"
  from blocksByNumber_Inr [OF this] show ?thesis
  proof
    assume "batchBlocks e ns = Inr bs"
    then obtain raws where r: "list_all2 (\<lambda>(n, raw) b. read_block raw = Inr b \<and> B_Number b = n) (zip ns raws) bs"
      using batchBlocks_numbers by blast
    show ?thesis
    proof
      fix n
      assume "n \<in> B_Number ` set bs"
      then obtain b where "b \<in> set bs" "n = B_Number b" by blast
      with list_all2_in_right [OF r] obtain q where "q \<in> set (zip ns raws)" "fst q = n" by force
      then show "n \<in> set ns" by (metis prod.collapse set_zip_leftD)
    qed
  next
    assume "singleBlocks e ns = Inr bs"
    then have r: "list_all2 (\<lambda>n b. blockByTag e (quantity n) = Inr b \<and> B_Number b = n) ns bs" by (simp only: singleBlocks_Inr)
    show ?thesis
    proof
      fix n
      assume "n \<in> B_Number ` set bs"
      then obtain b where "b \<in> set bs" "n = B_Number b" by blast
      with list_all2_in_right [OF r] show "n \<in> set ns" by blast
    qed
  qed
qed

lemma header_job_asked: "header_job r batches i = Inr bs \<Longrightarrow> B_Number ` set bs \<subseteq> set (batches ! i)"
proof -
  assume "header_job r batches i = Inr bs"
  from crossCheck_first [OF this [unfolded header_job_def]] obtain e where "blocksByNumber e (batches ! i) = Inr bs" by blast
  then show ?thesis by (rule blocksByNumber_asked)
qed

lemma stamps_of_upd: "stamps_of bs out n = (if n \<in> B_Number ` set bs then stamps_of bs Map.empty n else out n)"
proof -
  have "stamps_of bs out n = stamps_of bs out' n" if "n \<in> B_Number ` set bs" for out out'
    using that unfolding stamps_of_def by (induction bs rule: rev_induct) auto
  then show ?thesis using stamps_of_other by metis
qed

lemma stamps_of_commute:
  assumes "B_Number ` set as \<inter> B_Number ` set bs = {}"
  shows "stamps_of as (stamps_of bs out) = stamps_of bs (stamps_of as out)"
proof
  fix n
  show "stamps_of as (stamps_of bs out) n = stamps_of bs (stamps_of as out) n"
    using assms stamps_of_upd [of as _ n] stamps_of_upd [of bs _ n] by (metis (no_types, lifting) IntI empty_iff)
qed

lemma distinct_concat_nth: "distinct (concat xss) \<Longrightarrow> i < length xss \<Longrightarrow> j < length xss \<Longrightarrow> i \<noteq> j \<Longrightarrow> set (xss ! i) \<inter> set (xss ! j) = {}"
proof (induction xss arbitrary: i j)
  case (Cons xs xss)
  have "set (xss ! m) \<subseteq> set (concat xss)" if "m < length xss" for m using nth_mem [OF that] by auto
  with Cons show ?case by (cases i; cases j) (auto, blast+)
qed simp

lemma distinct_remdups_adj_sorted: "sorted xs \<Longrightarrow> distinct (remdups_adj xs)"
  by (induction xs rule: remdups_adj.induct) auto

lemma wanted_disjoint:
  assumes "i < length (wanted_batches blocks)" "j < length (wanted_batches blocks)" "i \<noteq> j"
  shows "set (wanted_batches blocks ! i) \<inter> set (wanted_batches blocks ! j) = {}"
  by (rule distinct_concat_nth [OF _ assms]) (simp add: wanted_batches_def concat_batches_of distinct_remdups_adj_sorted)

interpretation headers: commuting_jobs "length (wanted_batches blocks)" "header_job r (wanted_batches blocks)" stamps_of for r blocks
proof
  fix i j a b x
  assume ij: "i < length (wanted_batches blocks)" "j < length (wanted_batches blocks)" "i \<noteq> j"
    and "header_job r (wanted_batches blocks) i = Inr a" "header_job r (wanted_batches blocks) j = Inr b"
  then have "B_Number ` set a \<inter> B_Number ` set b = {}" using header_job_asked wanted_disjoint [OF ij] by blast
  then show "stamps_of a (stamps_of b x) = stamps_of b (stamps_of a x)" by (rule stamps_of_commute)
qed

text \<open>One batch after the other, as \<open>Reader\<close> has them.\<close>

lemma header_batches_jobs:
  "header_batches r bs out = and_then (traverse (header_job r bs) [0..<length bs]) (\<lambda>hs. Inr (fold stamps_of hs out))"
proof -
  have "header_batches r bs out = and_then (traverse (header_job r (front @ bs)) (map (\<lambda>i. length front + i) [0..<length bs])) (\<lambda>hs. Inr (fold stamps_of hs out))" for front
  proof (induction bs arbitrary: out front)
    case (Cons b bs)
    have job: "header_job r (front @ b # bs) (length front) = crossCheck r (AskBlocks (hd b) (last b)) (\<lambda>e. blocksByNumber e b) canonicalBlocks"
      by (simp add: header_job_def)
    define js where "js = map (\<lambda>i. length (front @ [b]) + i) [0..<length bs]"
    have idx: "map (\<lambda>i. length front + i) [0..<length (b # bs)] = length front # js"
      unfolding js_def by (simp add: upt_conv_Cons map_Suc_upt [symmetric] comp_def del: upt_Suc map_Suc_upt)
    have IH: "header_batches r bs o' = and_then (traverse (header_job r (front @ b # bs)) js) (\<lambda>hs. Inr (fold stamps_of hs o'))" for o'
      using Cons.IH [of o' "front @ [b]"] unfolding js_def append_assoc append.simps .
    show ?case
      unfolding idx by (cases "header_job r (front @ b # bs) (length front)"; cases "traverse (header_job r (front @ b # bs)) js") (simp_all add: job IH)
  qed simp
  from this [of "[]"] show ?thesis by simp
qed

lemma Timestamps_jobs:
  "Timestamps r blocks = (let bs = wanted_batches blocks in
     and_then (traverse (header_job r bs) [0..<length bs]) (\<lambda>hs. Inr (fold stamps_of hs Map.empty)))"
  unfolding Timestamps_def wanted_batches_def Let_def by (rule header_batches_jobs)

text \<open>The reads of the headers over the pool of a Reader, as \<open>Timestamps\<close> makes them.\<close>

definition header_schedule :: "bool \<Rightarrow> nat \<Rightarrow> reader \<Rightarrow> (nat \<Rightarrow> chain_error) \<Rightarrow> chain_error \<Rightarrow> uint64 list \<Rightarrow> chain_error + (uint64 \<rightharpoonup> int64) \<Rightarrow> bool" where
  "header_schedule interrupted concurrency r stop over blocks res \<longleftrightarrow>
     inParallel interrupted (length (wanted_batches blocks)) concurrency (header_job r (wanted_batches blocks)) stop over stamps_of Map.empty res"

lemma header_schedule_sequential:
  assumes "header_schedule b c r stop over blocks res"
  shows "case res of
      Inr stamps \<Rightarrow> Timestamps r blocks = Inr stamps
    | Inl e \<Rightarrow> b \<or> (\<exists>i < length (wanted_batches blocks). header_job r (wanted_batches blocks) i = Inl e) \<and> (\<exists>e'. Timestamps r blocks = Inl e')"
proof -
  let ?bs = "wanted_batches blocks"
  note any = headers.any_schedule [OF assms [unfolded header_schedule_def]]
  show ?thesis
  proof (cases res)
    case (Inr stamps)
    then have all: "\<forall>i < length ?bs. \<exists>a. header_job r ?bs i = Inr a"
      and s: "stamps = fold (\<lambda>i. stamps_of (projr (header_job r ?bs i))) [0..<length ?bs] Map.empty" using any by simp_all
    have "traverse (header_job r ?bs) [0..<length ?bs] = Inr (map (\<lambda>i. projr (header_job r ?bs i)) [0..<length ?bs])"
      by (rule traverse_total) (use all in force)
    then show ?thesis using Inr s by (simp add: Timestamps_jobs Let_def fold_map comp_def)
  next
    case (Inl e)
    have "\<exists>e'. Timestamps r blocks = Inl e'" if "i < length ?bs" "header_job r ?bs i = Inl e" for i
    proof (cases "traverse (header_job r ?bs) [0..<length ?bs]")
      case (Inr hs)
      then show ?thesis using traverse_nth [OF Inr, of i] that by simp
    qed (simp add: Timestamps_jobs Let_def)
    then show ?thesis using any Inl by auto
  qed
qed

section \<open>One read for each endpoint\<close>

text \<open>
  \<open>eachEndpoint\<close>: a goroutine for each endpoint, each of which writes its own slot or records its failure with its position.
\<close>

record ('e, 'a) fan = "(nat \<times> 'e) fan_out" +
  Fn_running :: "bool list"
  Fn_answers :: "'a option list"

inductive fan_step :: "bool \<Rightarrow> ('e + 'a) list \<Rightarrow> (nat \<Rightarrow> 'e) \<Rightarrow> ('e, 'a) fan \<Rightarrow> ('e, 'a) fan \<Rightarrow> bool"
  for interrupted reads_of stop where
  answer: "i < length (Fn_running s) \<Longrightarrow> Fn_running s ! i \<Longrightarrow> reads_of ! i = Inr a \<Longrightarrow>
     fan_step interrupted reads_of stop s (s\<lparr>Fn_running := (Fn_running s)[i := False], Fn_answers := (Fn_answers s)[i := Some a]\<rparr>)"
| failed: "i < length (Fn_running s) \<Longrightarrow> Fn_running s ! i \<Longrightarrow> reads_of ! i = Inl e \<Longrightarrow>
     fan_step interrupted reads_of stop s (record_failure (i, e) s\<lparr>Fn_running := (Fn_running s)[i := False]\<rparr>)"
| cut_off: "i < length (Fn_running s) \<Longrightarrow> Fn_running s ! i \<Longrightarrow> Fo_cancelled s \<Longrightarrow>
     fan_step interrupted reads_of stop s (record_failure (i, stop i) s\<lparr>Fn_running := (Fn_running s)[i := False]\<rparr>)"
| interrupt: "interrupted \<Longrightarrow> \<not> Fo_cancelled s \<Longrightarrow> fan_step interrupted reads_of stop s (s\<lparr>Fo_cancelled := True\<rparr>)"

definition fan_begin :: "nat \<Rightarrow> ('e, 'a) fan" where
  "fan_begin n = \<lparr>Fo_err = None, Fo_cancelled = False, Fn_running = replicate n True, Fn_answers = replicate n None\<rparr>"

definition fan_result :: "('e, 'a) fan \<Rightarrow> (nat \<times> 'e) + 'a option list" where
  "fan_result s = (case Fo_err s of Some f \<Rightarrow> Inl f | None \<Rightarrow> Inr (Fn_answers s))"

inductive endpoint_schedule :: "bool \<Rightarrow> ('e + 'a) list \<Rightarrow> (nat \<Rightarrow> 'e) \<Rightarrow> (nat \<times> 'e) + 'a option list \<Rightarrow> bool"
  for interrupted reads_of stop where
  all_in: "(fan_step interrupted reads_of stop)\<^sup>*\<^sup>* (fan_begin (length reads_of)) s \<Longrightarrow> True \<notin> set (Fn_running s) \<Longrightarrow>
     endpoint_schedule interrupted reads_of stop (fan_result s)"

lemma fan_record_simps [simp]:
  "Fn_running (record_failure f s) = Fn_running s" "Fn_answers (record_failure f s) = Fn_answers s"
  by (simp_all add: record_failure_def)

text \<open>A slot is written by its own read; a failure is that of a read, unless the caller interrupts; with none, no read has failed.\<close>

definition fan_inv :: "bool \<Rightarrow> ('e + 'a) list \<Rightarrow> ('e, 'a) fan \<Rightarrow> bool" where
  "fan_inv interrupted reads_of s \<longleftrightarrow>
     length (Fn_running s) = length reads_of \<and> length (Fn_answers s) = length reads_of \<and>
     (Fo_err s \<noteq> None \<longrightarrow> Fo_cancelled s) \<and>
     (Fo_cancelled s \<longrightarrow> interrupted \<or> (\<exists>i < length reads_of. \<exists>e. reads_of ! i = Inl e \<and> Fo_err s = Some (i, e))) \<and>
     (Fo_err s = None \<longrightarrow> (\<forall>i < length reads_of. \<not> Fn_running s ! i \<longrightarrow> (\<exists>a. reads_of ! i = Inr a \<and> Fn_answers s ! i = Some a)))"

lemma fan_step_inv:
  assumes "fan_step b reads_of stop s t" "fan_inv b reads_of s"
  shows "fan_inv b reads_of t"
  using assms
proof (induction rule: fan_step.induct)
  case (answer i s a)
  then show ?case by (auto simp: fan_inv_def nth_list_update)
next
  case (failed i s e)
  then show ?case by (auto simp: fan_inv_def split: option.splits)
next
  case (cut_off i s)
  then show ?case by (auto simp: fan_inv_def split: option.splits)
next
  case (interrupt s)
  then show ?case by (auto simp: fan_inv_def)
qed

lemma fan_inv_begin: "fan_inv b reads_of (fan_begin (length reads_of))"
  by (simp add: fan_inv_def fan_begin_def)

lemma fan_reachable_inv: "(fan_step b reads_of stop)\<^sup>*\<^sup>* (fan_begin (length reads_of)) s \<Longrightarrow> fan_inv b reads_of s"
  by (induction rule: rtranclp_induct) (auto intro: fan_step_inv fan_inv_begin)

lemma endpoint_schedule_result:
  assumes "endpoint_schedule b reads_of stop res"
  shows "case res of
      Inl (i, e) \<Rightarrow> b \<or> (i < length reads_of \<and> reads_of ! i = Inl e)
    | Inr answers \<Rightarrow> \<exists>as. reads_of = map Inr as \<and> answers = map Some as"
  using assms
proof (cases rule: endpoint_schedule.cases)
  case (all_in s)
  note inv = fan_reachable_inv [OF all_in(2)]
  show ?thesis
  proof (cases "Fo_err s")
    case None
    have "\<not> Fn_running s ! i" if "i < length reads_of" for i
      using all_in(3) that nth_mem [of i "Fn_running s"] inv unfolding fan_inv_def by metis
    then have each: "\<exists>a. reads_of ! i = Inr a \<and> Fn_answers s ! i = Some a" if "i < length reads_of" for i
      using inv None that by (auto simp: fan_inv_def)
    have len: "length (Fn_answers s) = length reads_of" using inv by (simp add: fan_inv_def)
    have "reads_of = map Inr (map projr reads_of)" "Fn_answers s = map Some (map projr reads_of)"
      by (rule nth_equalityI; use each len in force)+
    then have "reads_of = map Inr (map projr reads_of) \<and> Fn_answers s = map Some (map projr reads_of)" by blast
    then show ?thesis using all_in(1) None unfolding fan_result_def by (simp only: sum.case option.case) blast
  next
    case (Some f)
    then show ?thesis using inv all_in(1) by (cases f) (auto simp: fan_inv_def fan_result_def)
  qed
qed

text \<open>Uninterrupted, every outcome of the goroutines is that of \<open>eachEndpoint\<close> for some order of arrival, and each order has its schedule.\<close>

lemma schedule_has_order:
  assumes "endpoint_schedule False reads_of stop res"
  shows "\<exists>order. map_sum id (map Some) (eachEndpoint order reads_of) = res"
proof (cases res)
  case (Inl f)
  obtain i e where f: "f = (i, e)" by (cases f)
  then have "i < length reads_of" "reads_of ! i = Inl e" using endpoint_schedule_result [OF assms] Inl by simp_all
  then have "eachEndpoint [i] reads_of = Inl (i, e)" by (simp add: eachEndpoint_def)
  then show ?thesis using Inl f by (intro exI [of _ "[i]"]) simp
next
  case (Inr answers)
  then obtain as where "reads_of = map Inr as" "answers = map Some as" using endpoint_schedule_result [OF assms] by auto
  then have "eachEndpoint [] reads_of = Inr as" by (simp only: eachEndpoint_Inr)
  then show ?thesis using Inr \<open>answers = map Some as\<close> by (intro exI [of _ "[]"]) simp
qed

lemma fewer_running: "i < length xs \<Longrightarrow> xs ! i \<Longrightarrow> length (filter id (xs[i := False])) < length (filter id xs)"
proof (induction xs arbitrary: i)
  case (Cons x xs)
  then show ?case by (cases i) auto
qed simp

text \<open>Each goroutine takes one step more, so every schedule ends.\<close>

lemma fan_ends:
  "\<exists>t. (fan_step b reads_of stop)\<^sup>*\<^sup>* s t \<and> True \<notin> set (Fn_running t) \<and> (Fo_err s \<noteq> None \<longrightarrow> Fo_err t = Fo_err s)"
proof (induction "length (filter id (Fn_running s))" arbitrary: s rule: less_induct)
  case less
  show ?case
  proof (cases "True \<in> set (Fn_running s)")
    case True
    then obtain i where i: "i < length (Fn_running s)" "Fn_running s ! i" by (auto simp: in_set_conv_nth)
    obtain t where t: "fan_step b reads_of stop s t" "Fn_running t = (Fn_running s)[i := False]" "Fo_err s \<noteq> None \<longrightarrow> Fo_err t = Fo_err s"
      using fan_step.answer [OF i] fan_step.failed [OF i] by (cases "reads_of ! i") (force split: option.splits)+
    with less.hyps [of t] fewer_running [OF i] obtain u where "(fan_step b reads_of stop)\<^sup>*\<^sup>* t u" "True \<notin> set (Fn_running u)" "Fo_err t \<noteq> None \<longrightarrow> Fo_err u = Fo_err t"
      by auto
    with t show ?thesis by (intro exI [of _ u]) (auto intro: converse_rtranclp_into_rtranclp)
  qed blast
qed

lemma order_has_schedule:
  fixes reads_of :: "('e + 'a) list"
  shows "\<exists>res. endpoint_schedule False reads_of stop res \<and> map_sum id (map Some) (eachEndpoint order reads_of) = res"
proof (cases "eachEndpoint order reads_of")
  case (Inl f)
  obtain i e where f: "f = (i, e)" by (cases f)
  then have i: "i < length reads_of" "reads_of ! i = Inl e" using eachEndpoint_Inl [of order reads_of i e] Inl by simp_all
  let ?s = "fan_begin (length reads_of) :: ('e, 'a) fan"
  let ?t = "record_failure (i, e) ?s\<lparr>Fn_running := (Fn_running ?s)[i := False]\<rparr>"
  have "fan_step False reads_of stop ?s ?t" by (rule fan_step.failed) (use i in \<open>simp_all add: fan_begin_def\<close>)
  moreover have "Fo_err ?t = Some (i, e)" by (simp add: fan_begin_def)
  moreover obtain u where "(fan_step False reads_of stop)\<^sup>*\<^sup>* ?t u" "True \<notin> set (Fn_running u)" "Fo_err ?t \<noteq> None \<longrightarrow> Fo_err u = Fo_err ?t"
    using fan_ends by blast
  ultimately have "(fan_step False reads_of stop)\<^sup>*\<^sup>* ?s u" "fan_result u = Inl (i, e)" "True \<notin> set (Fn_running u)"
    by (simp_all add: fan_result_def converse_rtranclp_into_rtranclp)
  with endpoint_schedule.all_in [OF this(1,3)] show ?thesis using Inl f by simp
next
  case (Inr as)
  obtain u where "(fan_step False reads_of stop)\<^sup>*\<^sup>* (fan_begin (length reads_of)) u" "True \<notin> set (Fn_running u)" using fan_ends by blast
  then have sch: "endpoint_schedule False reads_of stop (fan_result u)" by (rule endpoint_schedule.all_in)
  obtain order' where "map_sum id (map Some) (eachEndpoint order' reads_of) = fan_result u" using schedule_has_order [OF sch] by blast
  moreover have "eachEndpoint order' reads_of = Inr as" using Inr by (simp only: eachEndpoint_Inr)
  ultimately have "fan_result u = Inr (map Some as)" by simp
  with sch show ?thesis using Inr by simp
qed

section \<open>Properties\<close>

text \<open>
  C19. No schedule of the pool gets stuck, and none runs on. Whatever has been handed out, finished, failed or interrupted so far, either
  every worker has returned and the channel is closed, or some goroutine can take a step; and a bound on the steps left falls with each.
\<close>

theorem inParallel_ends:
  assumes "0 < concurrency" "0 < n" "(pool_step interrupted n job stop keep)\<^sup>*\<^sup>* (pool_start n concurrency out) s"
  shows "(pool_ended s \<or> (\<exists>t. pool_step interrupted n job stop keep s t)) \<and>
    (\<forall>t. pool_step interrupted n job stop keep s t \<longrightarrow> pool_debt n t < pool_debt n s)"
  using pool_progress [OF pool_reachable_inv [OF assms(3)]] assms(1,2) pool_step_debt by fastforce

theorem inParallel_ends_witness:
  "\<exists>s. (pool_step False 3 (\<lambda>i. if i = 1 then Inl ''down'' else Inr i) (\<lambda>i. ''stop'') (\<lambda>i xs. i # xs))\<^sup>*\<^sup>* (pool_start 3 2 []) s \<and>
    Pl_workers s = [Working 0, Working 1] \<and> (\<exists>t. pool_step False 3 (\<lambda>i. if i = 1 then Inl ''down'' else Inr i) (\<lambda>i. ''stop'') (\<lambda>i xs. i # xs) s t)"
proof -
  let ?step = "pool_step False 3 (\<lambda>i. if i = 1 then Inl ''down'' else Inr i) (\<lambda>i. ''stop'') (\<lambda>i xs. i # xs)"
  let ?s = "pool_start 3 2 [] :: (string, nat list) pool"
  let ?s1 = "?s\<lparr>Pl_next := 1, Pl_workers := [Working 0, Waiting]\<rparr>"
  let ?s2 = "?s1\<lparr>Pl_next := 2, Pl_workers := [Working 0, Working 1]\<rparr>"
  have "?step ?s ?s1" using pool_step.hand_out [of ?s 3 0] by (simp add: pool_start_def numeral_2_eq_2)
  moreover have "?step ?s1 ?s2" using pool_step.hand_out [of ?s1 3 1] by (simp add: numeral_2_eq_2)
  ultimately have r: "?step\<^sup>*\<^sup>* ?s ?s2" by (rule converse_rtranclp_into_rtranclp [OF _ r_into_rtranclp])
  have "\<not> pool_ended ?s2" by (simp add: pool_ended_def)
  with inParallel_ends [OF _ _ r] have "\<exists>t. ?step ?s2 t" by simp
  with r show ?thesis by (intro exI [of _ ?s2]) simp
qed

text \<open>
  C10. The header batches may run in any order. Over a pool of any size, under every schedule, the times that come back are those the
  batches give one after the other; a failure is that of a batch that fails, and then one after the other they fail too; and some
  schedule ends. Only the caller's own interruption can turn an answer into a failure, never into another answer.
\<close>

theorem Timestamps_any_schedule:
  assumes "0 < concurrency"
  shows "(\<exists>res. header_schedule False concurrency r stop over blocks res) \<and>
    (\<forall>res. header_schedule interrupted concurrency r stop over blocks res \<longrightarrow>
      (case res of
         Inr stamps \<Rightarrow> Timestamps r blocks = Inr stamps
       | Inl e \<Rightarrow> interrupted \<or>
           (\<exists>i < length (wanted_batches blocks). header_job r (wanted_batches blocks) i = Inl e) \<and> (\<exists>e'. Timestamps r blocks = Inl e')))"
proof (intro conjI allI impI)
  show "\<exists>res. header_schedule False concurrency r stop over blocks res"
    unfolding header_schedule_def by (rule inParallel_returns [OF assms])
qed (rule header_schedule_sequential)

theorem Timestamps_any_schedule_witness:
  "\<exists>stamps. header_schedule False 2 (fake_reader (\<lambda>bs. 1) (replicate 25 7) [] 7 8 9) (\<lambda>i. NoEndpoint) NoEndpoint (map of_nat [0..<25]) (Inr stamps)"
proof -
  let ?r = "fake_reader (\<lambda>bs. 1) (replicate 25 7) [] 7 8 9" and ?bs = "map of_nat [0..<25] :: uint64 list"
  obtain st where st: "Timestamps ?r ?bs = Inr st"
    using fake_stamps [of "replicate 25 7" ?bs] by (fastforce simp: times_fit_def in_i64_def unat_of_nat)
  obtain res where res: "header_schedule False 2 ?r (\<lambda>i. NoEndpoint) NoEndpoint ?bs res"
    using Timestamps_any_schedule [of 2 ?r "\<lambda>i. NoEndpoint" NoEndpoint ?bs False] by auto
  with Timestamps_any_schedule [of 2 ?r "\<lambda>i. NoEndpoint" NoEndpoint ?bs False] st show ?thesis by (cases res) auto
qed

text \<open>
  C18. What the goroutines of one read return. Uninterrupted, the outcomes of reading all endpoints at once are those of \<open>eachEndpoint\<close> over the
  orders of arrival: with a failure, any of the reads that fail may be the one reported, and no read that was cut off by it;
  with none, each endpoint's answer is in its place.
\<close>

theorem eachEndpoint_schedules:
  "endpoint_schedule False reads_of stop res \<longleftrightarrow> (\<exists>order. map_sum id (map Some) (eachEndpoint order reads_of) = res)"
  using schedule_has_order order_has_schedule by metis

end
