(* ===== verification/Spec2Isabelle.thy ===== *)
theory Spec2Isabelle
  imports Alloc Judgement Pacer Schedules
begin

text \<open>
  A verification library for \<open>nutz-verify\<close>, the program that recomputes the hourly distributions of the NUTZ token and compares
  them with what was posted on chain. It answers MATCH (exit status 0), MISMATCH (1) or INDETERMINATE (2).

  \<^bold>\<open>The program.\<close> One run reads a command line (\<open>cmd/nutz-verify\<close>), builds a Reader over one or more JSON-RPC endpoints (\<open>chain\<close>), brings a file of
  transfers up to the tip (\<open>cache\<close>), replays the transfers into time-weighted balances (\<open>internal/twab\<close>), allocates each Epoch's funding over
  the Holders and hashes the Allocations into a Root (\<open>internal/alloc\<close>, \<open>merkle\<close>), derives the Carry an Epoch should have come in with
  (\<open>epoch\<close>), and states in what the posted Root agrees with the recomputed one (\<open>internal/report\<close>).

  \<^bold>\<open>Theories and sources.\<close>
  \<^item> \<open>Prelude\<close>, \<open>Strings\<close>: Go's integers, big integers, byte order, searches, digits and hexadecimal; the interfaces \<open>monotone_search\<close> (the contract of
    \<open>sort.Search\<close>, met by the Excluded Set and the held records) and \<open>codec\<close>, \<open>exact_codec\<close> (met by the decoders of \<open>Wire\<close>).
  \<^item> \<open>Results\<close>, \<open>Actions\<close>: calls that fail; operations that change a state and may fail; \<open>acts\<close>, by which an operation with memos answers as a function.
  \<^item> \<open>Twab\<close>, \<open>Ledger\<close> (\<open>internal/twab\<close>): the replay of an Epoch against a specification with no walk in it, and the incremental ledger against the replay.
  \<^item> \<open>Merkle\<close> (\<open>merkle\<close>): the tree, its proofs and its dump; \<open>pair_hash\<close> is the interface to the hash of two nodes.
  \<^item> \<open>Alloc\<close> (\<open>internal/alloc\<close>): weights, shares, totals, Carry and Root; \<open>holder_source\<close> is what it needs of a replay, met by \<open>Replay\<close> and by \<open>Advance\<close>.
  \<^item> \<open>Wire\<close> (\<open>chain/word.go\<close>, \<open>event.go\<close>, \<open>call.go\<close>, \<open>excluded.go\<close>, \<open>chain.go\<close>): hexadecimal, ABI words, events and view returns, shown exact.
  \<^item> \<open>Rpc\<close> (\<open>chain/rpc.go\<close>): requests, replies, batches, retries and their pauses, compared forms.
  \<^item> \<open>Reader\<close> (\<open>chain/reader.go\<close>): the cross-check, paged log queries, header batches, the tip and the end block; \<open>honest_endpoint\<close>, \<open>honest_reader\<close>
    and \<open>caching_reader\<close> are the interfaces to the chain.
  \<^item> \<open>Float64\<close>, \<open>Pacer\<close> (\<open>chain/rpc.go\<close>): the token bucket that paces the calls to an endpoint, over \<open>Float64\<close>, the \<open>float64\<close> of Go with its roundings.
  \<^item> \<open>Crc\<close>, \<open>Place\<close>, \<open>Cache\<close>, \<open>Sync\<close> (\<open>cache\<close>): the checksum, the directory of a history, the file of records with its repair, and its advance to the tip; \<open>stride_codec\<close> is the layout of
    records, \<open>branch_source\<close> what a Sync needs of a Source. A \<open>caching_reader\<close> is such a Source (\<open>sublocale\<close>).
  \<^item> \<open>Book\<close>, \<open>Engine\<close>, \<open>Carry\<close>, \<open>Runs\<close> (\<open>epoch\<close>): the Engine with its memos, the search for Roots, the Carry, Compute and Walk.
  \<^item> \<open>Report\<close>, \<open>Document\<close> (\<open>internal/report\<close>): Verdicts, Assertions and the lines of a report; the report as a JSON document.
  \<^item> \<open>Verifier\<close>, \<open>Panics\<close>, \<open>Judgement\<close> (\<open>cmd/nutz-verify\<close>): the command line, the run, the comparison with a published bundle; that no run panics; what
    its exit status means.
  \<^item> \<open>Fakenode\<close> (\<open>internal/fakenode\<close>): the node of the tests, on which the interfaces of the Reader are interpreted and every run of an example is made.
  \<^item> \<open>Schedules\<close> (\<open>chain/reader.go\<close>): the goroutines of the Reader as step relations, the pool of workers and the fan-out to the endpoints;
    \<open>commuting_jobs\<close> is what makes every schedule of a pool end alike, met by the header batches.

  \<^bold>\<open>State and operations.\<close> A struct is a record and keeps the names of its fields, with a prefix where two would clash (\<open>G_\<close> the Engine, \<open>R_\<close> a Reader or
  a result of the rules, \<open>E_\<close> an endpoint or a result of the Engine, \<open>F_\<close> the flags). A function or method is a definition of the same
  name, prefixed where another package has the name too (\<open>engine_Compute\<close>, \<open>chain_New\<close>, \<open>node_call\<close>). Errors are sums, nil pointers are \<open>None\<close>, a
  method that changes its receiver returns the new one also on a failure. \<open>uint64\<close> is a 64-bit word; \<open>int64\<close> is an integer whose wrap-around is written
  out where the code adds (\<open>i64\<close>); a \<open>*big.Int\<close> is an optional integer.

  \<^bold>\<open>What is shown.\<close>
  \<^item> From the chain to the status: \<open>exit_judges\<close> (an exit of 0 or 1 is the truth about the chain), resting on \<open>Reader_truthful\<close>, \<open>load_exact\<close>,
    \<open>Compute_rebuilds\<close> and \<open>Assess_verdict\<close>; \<open>exit_status\<close>, \<open>never_panics\<close> and \<open>bundle_never_judges\<close> hold whatever the endpoints say.
  \<^item> Of the rules: \<open>Replay_correct\<close>, \<open>Ledger_agrees_with_Replay\<close>, \<open>Allocate_shares\<close>, \<open>Allocate_conserves\<close>, \<open>Compute_total\<close>, \<open>Compute_root_commits\<close>,
    \<open>Proof_verifies\<close>, \<open>Verify_sound\<close>.
  \<^item> Of the Engine: that its memos never show (\<open>runs_stateless\<close>), that the Carry chain conserves the funding (\<open>Walk_conserves\<close>), that a Walk ends in
    what Compute returns, that the searches find what they look for, and when a Compute returns (\<open>Compute_returns\<close>).
  \<^item> Of the Cache: that it is the list of its records, that damage and interrupted writes are cut back to whole blocks, that a Sync is exact, and two
    cases in which it is not (\<open>half_block_never_completed\<close>, \<open>reorg_below_cache_missed\<close>).
  \<^item> Of the goroutines: that no schedule of a pool is stuck or goes on for ever (\<open>inParallel_ends\<close>), that every one of them returns what reading the
    batches in order does, or the error of one of them (\<open>Timestamps_any_schedule\<close>), and which results a fan-out can have (\<open>eachEndpoint_schedules\<close>).
  \<^item> Of the directory: that two histories never share one (\<open>Dir_exact\<close>).
  \<^item> Of the document: that it loses nothing of the report it is made of but the bytes that are not UTF-8 (\<open>WriteJSON_faithful\<close>).
  \<^item> Of the wire: decoders are exact, compared forms are injective, a log query narrows until it is answered, pauses between retries are
    bounded, and the calls let through in any stretch of time are those of the bucket and the rate, to the roundings of \<open>float64\<close>
    (\<open>pacer_keeps_rate\<close>).

  \<^bold>\<open>Parameters and hypotheses.\<close> \<open>keccak\<close> is any function of bytes; only \<open>Verify_sound\<close> asks for anything of it, that it has no collision among what the
  tree and the proof hash. Endpoints are any functions from requests to replies; \<open>honest_endpoint\<close> asks of one of them that it answers for one state of a
  chain, and nothing of the others but that a log fits in memory. \<open>earlier_cache\<close> asks of the Cache file that it holds an earlier state of the same chain, which \<open>Sync_exact\<close>
  keeps up; \<open>posted_in_order\<close> that Roots that stand were posted in the order of their Epochs, on which \<open>previousRoot\<close> relies; \<open>sound_history\<close> that no balance was negative and
  no time out of range. The network, files, clocks, float parsing and URL parsing are fields of \<open>environment\<close>. In the
  pacing, whether a product and a sum are fused and what an \<open>int64\<close> is made of a float that does not fit are parameters.

  \<^bold>\<open>Bounds and fuel.\<close> No definition has fuel: every loop of the code ends, and the termination proofs use the code's own measures (the range left to read, the
  distance to the tip, the arguments left to parse). Retries are five, as in the code; the pages of a log query halve down to one block.

  \<^bold>\<open>Not modelled.\<close> \<open>main.go\<close> (process arguments and signals), \<open>lock_unix.go\<close> and \<open>lock_other.go\<close> (one system call, its outcome a parameter), what makes text of a JSON tree (\<open>encoding/json\<close>) and the dump's JSON, HTTP itself, the texts
  of errors, progress lines, and contexts but for the pauses between retries and the goroutines of \<open>Schedules\<close>.
\<close>

section \<open>The Reader over a chain\<close>

text \<open>
  C9. What the Reader reports is what the chain has. With one honest endpoint among those configured, whatever the others
  answer, the events a read returns are exactly the chain's of that contract, topic and range, in block order,
  decoded and stamped with the times of their blocks, and a header is the chain's.
\<close>

theorem Reader_truthful:
  assumes "honest_reader e ch r"
  shows "(Transfers k r from to = Inr ts \<longrightarrow>
      ts = map (stamped (decodeTransfer k) ch) (filter (selected (R_token r) (topicTransfer k) from to) (H_logs ch))) \<and>
    (Exclusions k r from to = Inr xs \<longrightarrow>
      xs = map (stamped (decodeExcludedAppended k) ch)
        (filter (selected (R_distributor r) (topicExcludedAppended k) from to) (H_logs ch))) \<and>
    (Roots k r from to = Inr ps \<longrightarrow>
      ps = map (stamped (decodeRootPosted k) ch) (filter (selected (R_distributor r) (topicRootPosted k) from to) (H_logs ch))) \<and>
    (BlockByNumber r n = Inr b \<longrightarrow> b = H_block ch n)"
  using honest_reader.Transfers_true [OF assms] honest_reader.Exclusions_true [OF assms] honest_reader.Roots_true [OF assms]
    honest_reader.BlockByNumber_true [OF assms] by blast

definition demo_times :: "int64 list" where "demo_times = [EpochSeconds - 10, EpochSeconds - 3, EpochSeconds + 5]"

definition demo_ops :: "log_op list" where
  "demo_ops = [OpTransfer 1 7 3 4 50, OpExclusion 1 8 4, OpTransfer 0 7 0 3 90, OpTransfer 2 9 4 3 1]"

lemma demo_node:
  "times_fit demo_times" "\<And>op. op \<in> set demo_ops \<Longrightarrow> op_ok 7 op \<and> op_within demo_times op" "sorted demo_times" "length demo_times = 3"
  by (auto simp: demo_times_def demo_ops_def times_fit_def op_ok_def op_within_def in_i64_def EpochSeconds_def)

lemma demo_hash: "HashOf demo_keccak (node_New demo_times) 0 = 1" "HashOf demo_keccak (node_New demo_times) 1 = 2"
  "HashOf demo_keccak (node_New demo_times) 2 \<noteq> 0"
  by (simp_all add: HashOf_def keccak256_def demo_keccak_def big_bytes_def node_New_def Let_def i64_def digits.simps)

lemma demo_sent:
  "sent_within demo_keccak demo_times demo_ops 7 0 2 =
    [\<lparr>S_BlockNumber = 0, S_BlockHash = 1, S_LogIndex = 2, S_Timestamp = EpochSeconds - 10, CT_From = 0, CT_To = 3, CT_Value = Some 90\<rparr>,
     \<lparr>S_BlockNumber = 1, S_BlockHash = 2, S_LogIndex = 0, S_Timestamp = EpochSeconds - 3, CT_From = 3, CT_To = 4, CT_Value = Some 50\<rparr>]"
  by (simp add: sent_within_def demo_ops_def sent_of_def demo_hash site_key_def logged_by_def) (simp add: demo_times_def)

text \<open>
  C29. A round trip through the wire. The transfers appended to a node, in any order, are read back by \<open>Transfers\<close>, through requests,
  replies, hexadecimal, the cross-check, paging and header batches: every transfer of the token in
  the range, sorted by block and log index, with the hash and the time of its block, and none else.
\<close>

theorem fakenode_roundtrip:
  assumes "times_fit ts" "\<And>op. op \<in> set ops \<Longrightarrow> op_ok token op" "from \<le> to" "unat to < length ts"
  shows "Transfers k (fake_reader k ts ops token distributor factory) from to = Inr (sent_within k ts ops token from to)"
  by (rule fake_Transfers [OF assms])

theorem fakenode_roundtrip_witness:
  "Transfers demo_keccak (fake_reader demo_keccak demo_times demo_ops 7 8 0) 0 2 = Inr
    [\<lparr>S_BlockNumber = 0, S_BlockHash = 1, S_LogIndex = 2, S_Timestamp = EpochSeconds - 10, CT_From = 0, CT_To = 3, CT_Value = Some 90\<rparr>,
     \<lparr>S_BlockNumber = 1, S_BlockHash = 2, S_LogIndex = 0, S_Timestamp = EpochSeconds - 3, CT_From = 3, CT_To = 4, CT_Value = Some 50\<rparr>]"
  using fakenode_roundtrip [OF demo_node(1) demo_node(2) [THEN conjunct1], of demo_ops 0 2]
    demo_node(4) by (simp add: demo_sent)

theorem Reader_truthful_witness:
  "\<exists>ts. Transfers demo_keccak (fake_reader demo_keccak demo_times demo_ops 7 8 0) 0 2 = Inr ts \<and>
     ts = map (stamped (decodeTransfer demo_keccak) (fake_state demo_keccak demo_times demo_ops))
       (filter (selected 7 (topicTransfer demo_keccak) 0 2) (H_logs (fake_state demo_keccak demo_times demo_ops)))"
proof -
  have "Transfers demo_keccak (fake_reader demo_keccak demo_times demo_ops 7 8 0) 0 2 = Inr (sent_within demo_keccak demo_times demo_ops 7 0 2)"
    by (rule fake_Transfers) (use demo_node in auto)
  with Reader_truthful [OF fake_reader_honest [of demo_keccak demo_times demo_ops 7 8 0], THEN conjunct1]
  show ?thesis by (simp add: fake_reader_def)
qed

text \<open>
  The Cache through the Reader. A Sync whose source is a Reader with one honest endpoint leaves the Cache, when it succeeds, holding
  exactly the token's transfers on the chain from the start block to the tip, whichever branch it held
  before; it fails only when a read does.
\<close>

theorem Sync_through_Reader:
  assumes "honest_reader e ch r" "chain_ok k (R_token r) ch"
    and "holds opts c (branch_log old (unat (O_Start opts)) m)" "branch_ok old" "commits old (branch_of k (R_token r) ch)"
    and "\<forall>rc \<in> set (branch_log old (unat (O_Start opts)) m). Rec_BlockNumber rc \<le> B_Number tip" "B_Number tip \<noteq> - 1" "B_Hash tip \<noteq> 0"
  shows "\<exists>c' sy p err. Sync (Transfers k r) (BlockByNumber r) c tip opt = (c', sy, p, err) \<and>
    (err = None \<longrightarrow> holds opts c' (map (\<lambda>l. FromTransfer (stamped (decodeTransfer k) ch l))
      (filter (selected (R_token r) (topicTransfer k) (O_Start opts) (B_Number tip)) (H_logs ch)))) \<and>
    (never_fails (Transfers k r) (BlockByNumber r) (B_Number tip) \<longrightarrow> err = None)"
proof -
  have chain: "honest_endpoint e ch" using assms(1) by (simp add: honest_reader_def)
  have "branch_log (branch_of k (R_token r) ch) (unat (O_Start opts)) (Suc (unat (B_Number tip))) =
      map (\<lambda>l. FromTransfer (stamped (decodeTransfer k) ch l))
        (filter (selected (R_token r) (topicTransfer k) (O_Start opts) (B_Number tip)) (H_logs ch))"
    unfolding honest_endpoint.branch_of_log [OF chain]
    by (simp add: transfer_logs_def selected_alt word_le_nat_alt less_Suc_eq_le conj_ac)
  then show ?thesis
    using Sync_holds [OF assms(3) refl assms(4,5) honest_reader.Reader_source [OF assms(1,2)] assms(6-8), of opt] by metis
qed

theorem Sync_through_Reader_witness:
  "\<exists>c c' sy p. holds demo_options c [] \<and>
     Sync (Transfers demo_keccak (fake_reader demo_keccak demo_times demo_ops 7 8 0))
       (BlockByNumber (fake_reader demo_keccak demo_times demo_ops 7 8 0)) c (H_block (fake_state demo_keccak demo_times demo_ops) 2) 1 =
       (c', sy, p, None)"
proof -
  let ?r = "fake_reader demo_keccak demo_times demo_ops 7 8 0" and ?ch = "fake_state demo_keccak demo_times demo_ops"
  let ?br = "branch_of demo_keccak 7 ?ch"
  have tip: "B_Number (H_block ?ch 2) = 2" "B_Hash (H_block ?ch 2) \<noteq> 0"
    using demo_hash(3) by (simp_all add: state_of_def node_build_salt)
  have ok: "chain_ok demo_keccak 7 ?ch" using fake_chain_ok demo_node by blast
  have br: "branch_ok ?br" by (rule honest_endpoint.branch_of_ok [OF node_honest [OF node_build_logs] ok])
  obtain c where c: "holds demo_options c (branch_log ?br (unat (O_Start demo_options)) 0)" using demo_held [OF br, of 0] by auto
  have nf: "never_fails (Transfers demo_keccak ?r) (BlockByNumber ?r) 2"
    by (rule fake_never_fails) (use demo_node in auto)
  have same: "commits ?br ?br" by (simp add: commits_def)
  have token: "R_token ?r = 7" by (simp add: fake_reader_def)
  show ?thesis
    using Sync_through_Reader [OF fake_reader_honest [of demo_keccak demo_times demo_ops 7 8 0], of demo_keccak demo_options c ?br 0 "H_block ?ch 2" 1]
      ok c br same nf tip unfolding token by auto
qed

text \<open>
  C28. The end block of an Epoch. Over a chain whose times never run backwards, the block \<open>EndBlock\<close> returns for a tip of that chain is
  the last one before the end of the Epoch: the blocks before the boundary are exactly those up to it.
  It returns one whenever the Epoch has closed after the first block and the headers can be read.
\<close>

theorem EndBlock_is_last:
  assumes "honest_reader e ch r" "T_Block tp = H_block ch N" "B_Number (T_Block tp) = N" "times_ascend ch N"
  shows "(\<forall>b. EndBlock r epochID tp = Inr b \<longrightarrow>
      (\<exists>n < N. b = H_block ch n \<and> (\<forall>m \<le> N. B_Timestamp (H_block ch m) < End (WindowOf epochID) \<longleftrightarrow> m \<le> n))) \<and>
    (B_Timestamp (H_block ch 0) < End (WindowOf epochID) \<and> End (WindowOf epochID) \<le> B_Timestamp (H_block ch N) \<and>
       (\<forall>n \<le> N. \<exists>b. BlockByNumber r n = Inr b) \<longrightarrow> (\<exists>b. EndBlock r epochID tp = Inr b))"
  using honest_reader.EndBlock_last [OF assms(1) _ assms(2-4)] honest_reader.EndBlock_found [OF assms(1) _ _ _ assms(2,3)] assms(2)
  by simp

theorem EndBlock_is_last_witness:
  "\<exists>b. EndBlock (fake_reader demo_keccak demo_times demo_ops 7 8 0) 0
      \<lparr>T_Block = H_block (fake_state demo_keccak demo_times demo_ops) 2, T_Finality = Safe, T_Lag = 0\<rparr> = Inr b \<and>
    b = H_block (fake_state demo_keccak demo_times demo_ops) 1"
proof -
  let ?r = "fake_reader demo_keccak demo_times demo_ops 7 8 0" and ?ch = "fake_state demo_keccak demo_times demo_ops"
  let ?tp = "\<lparr>T_Block = H_block ?ch 2, T_Finality = Safe, T_Lag = 0\<rparr>"
  have end0: "End (WindowOf 0) = EpochSeconds" by (simp add: WindowOf_def Let_def i64_def EpochSeconds_def)
  have time: "B_Timestamp (H_block ?ch b) = demo_times ! unat b" if "unat b < 3" for b
    by (rule fake_block_time [OF demo_node(1)]) (use demo_node(4) that in simp)
  have ends: "B_Timestamp (H_block ?ch 0) < EpochSeconds" "EpochSeconds \<le> B_Timestamp (H_block ?ch 2)"
    using time [of 0] time [of 2] by (simp_all add: demo_times_def)
  have num: "B_Number (H_block ?ch 2) = 2" by (simp add: state_of_def)
  have "\<exists>b. BlockByNumber ?r n = Inr b" if "n \<le> 2" for n
    using fake_BlockByNumber [OF demo_node(1), of n] demo_node(4) that by (auto simp: word_le_nat_alt)
  moreover have "times_ascend ?ch 2" by (rule fake_times_ascend) (use demo_node in auto)
  ultimately have last: "\<exists>b. EndBlock ?r 0 ?tp = Inr b \<and>
      (\<exists>n < 2. b = H_block ?ch n \<and> (\<forall>m \<le> 2. B_Timestamp (H_block ?ch m) < EpochSeconds \<longleftrightarrow> m \<le> n))"
    using EndBlock_is_last [OF fake_reader_honest [of demo_keccak demo_times demo_ops 7 8 0], of ?tp 2 0] ends num
    unfolding end0 by auto
  have "n = 1" if "n < 2" "\<forall>m \<le> 2. B_Timestamp (H_block ?ch m) < EpochSeconds \<longleftrightarrow> m \<le> n" for n :: uint64
  proof -
    have "1 \<le> n" using that(2) [rule_format, of 1] time [of 1] by (simp add: demo_times_def)
    with that(1) show ?thesis by (simp add: word_le_nat_alt word_less_nat_alt word_unat_eq_iff)
  qed
  with last show ?thesis by blast
qed

end
